(* ===== verification/Prelude.thy ===== *)
theory Prelude
  imports Complex_Main "HOL-Library.Word" "HOL-Library.AList"
begin

unbundle bit_operations_syntax

text \<open>
  Vocabulary shared by every component: bytes, Python exceptions as values, the part of
  Python's \<open>struct\<close> module the sources use (big-endian unsigned and signed fields), Python's
  \<open>int()\<close> truncation, and the \<open>OrderedDict\<close> operations (insertion order, in-place update,
  \<open>move_to_end\<close>, \<open>popitem(last=False)\<close>). The two locales at the end are interfaces that several
  components implement: a byte codec with its round-trip laws, and an incremental parser whose
  result does not depend on how its input is cut into chunks.
\<close>

subsection \<open>Bytes, time and exceptions\<close>

type_synonym byte = "8 word"
type_synonym bytes = "byte list"

text \<open>Times are seconds, as \<open>time.monotonic()\<close> gives them; they are read as exact reals.\<close>

type_synonym time = real

datatype py_exc =
    ProtocolError string
  | ApplicationError string
  | StructError
  | KeyError
  | OsError
  | RuntimeExc string
  | ValueExc string
  | TypeExc string
  | ZeroDivisionError
  | IndexError
  | SystemExit string
  | QueueFull
  | OverflowExc
  | ModemError string
  | TimeoutExc

type_synonym 'a result = "py_exc + 'a"

named_theorems codec_simps
named_theorems dict_simps
named_theorems inv_intros

definition is_ok :: "'a result \<Rightarrow> bool" where
  "is_ok r = (case r of Inl _ \<Rightarrow> False | Inr _ \<Rightarrow> True)"

text \<open>A statement that may raise, and what runs after it when it did not.\<close>

definition bindR :: "'a result \<Rightarrow> ('a \<Rightarrow> 'b result) \<Rightarrow> 'b result" where
  "bindR r f = (case r of Inl e \<Rightarrow> Inl e | Inr x \<Rightarrow> f x)"

lemma bindR_simps [simp]: "bindR (Inl e) f = Inl e" "bindR (Inr x) f = f x"
  by (simp_all add: bindR_def)

lemma bindR_Inr_iff: "bindR r f = Inr y \<longleftrightarrow> (\<exists>x. r = Inr x \<and> f x = Inr y)"
  by (cases r) auto

lemma bindR_if [simp]: "bindR (if b then r else r') f = (if b then bindR r f else bindR r' f)"
  by simp

text \<open>A list built by a body that may raise: the first exception ends it.\<close>

fun mapR :: "('a \<Rightarrow> 'b result) \<Rightarrow> 'a list \<Rightarrow> 'b list result" where
  "mapR f [] = Inr []"
| "mapR f (x # xs) = bindR (f x) (\<lambda>y. bindR (mapR f xs) (\<lambda>ys. Inr (y # ys)))"

lemma mapR_Inr: "(\<And>x. x \<in> set xs \<Longrightarrow> f x = Inr (g x)) \<Longrightarrow> mapR f xs = Inr (map g xs)"
  by (induction xs) auto

lemma mapR_ok:
  assumes "\<And>x. x \<in> set xs \<Longrightarrow> \<exists>y. f x = Inr y \<and> P y"
  shows "\<exists>ys. mapR f xs = Inr ys \<and> (\<forall>y\<in>set ys. P y)"
  using assms
proof (induction xs)
  case (Cons x xs)
  obtain y where "f x = Inr y" "P y" using Cons.prems [of x] by auto
  moreover obtain ys where "mapR f xs = Inr ys" "\<forall>y\<in>set ys. P y"
    using Cons.IH Cons.prems by (meson list.set_intros(2))
  ultimately show ?case by simp
qed simp

lemma is_ok_simps [simp]: "is_ok (Inl e) = False" "is_ok (Inr x) = True"
  by (simp_all add: is_ok_def)

lemma is_ok_iff: "is_ok r \<longleftrightarrow> (\<exists>x. r = Inr x)"
  by (cases r) auto

text \<open>Python's \<open>int(x)\<close> on a float truncates towards zero.\<close>

definition py_int :: "real \<Rightarrow> int" where
  "py_int x = (if x < 0 then \<lceil>x\<rceil> else \<lfloor>x\<rfloor>)"

text \<open>Bytes given by their numbers, as in \<open>bytes((1, 2))\<close>.\<close>

definition byte_of :: "int \<Rightarrow> byte" where
  "byte_of n = word_of_int n"

subsection \<open>The struct module\<close>

text \<open>
  \<open>be n x\<close> is the \<open>n\<close>-byte big-endian form of \<open>x\<close> (two's complement for a negative \<open>x\<close>) and
  \<open>unbe\<close> reads it back as unsigned, \<open>unbe_signed\<close> as two's complement. A field of a format
  string is \<open>U n\<close> (\<open>B\<close>, \<open>H\<close>, \<open>I\<close>, \<open>Q\<close>) or \<open>S n\<close> (\<open>h\<close>, \<open>i\<close>).
\<close>

fun be :: "nat \<Rightarrow> int \<Rightarrow> bytes" where
  "be 0 x = []"
| "be (Suc n) x = be n (x div 256) @ [word_of_int x]"

definition unbe :: "bytes \<Rightarrow> int" where
  "unbe bs = foldl (\<lambda>a b. a * 256 + uint b) 0 bs"

definition unbe_signed :: "bytes \<Rightarrow> int" where
  "unbe_signed bs =
     (let u = unbe bs; m = 256 ^ length bs
      in if 2 * u < m then u else u - m)"

datatype field = U nat | S nat

fun field_size :: "field \<Rightarrow> nat" where
  "field_size (U n) = n"
| "field_size (S n) = n"

fun field_ok :: "field \<Rightarrow> int \<Rightarrow> bool" where
  "field_ok (U n) x = (0 \<le> x \<and> x < 256 ^ n)"
| "field_ok (S n) x = (- (256 ^ n) \<le> 2 * x \<and> 2 * x < 256 ^ n)"

fun field_read :: "field \<Rightarrow> bytes \<Rightarrow> int" where
  "field_read (U n) bs = unbe bs"
| "field_read (S n) bs = unbe_signed bs"

fun calcsize :: "field list \<Rightarrow> nat" where
  "calcsize [] = 0"
| "calcsize (f # fs) = field_size f + calcsize fs"

fun pack_ok :: "field list \<Rightarrow> int list \<Rightarrow> bool" where
  "pack_ok [] [] = True"
| "pack_ok (f # fs) (x # xs) = (field_ok f x \<and> pack_ok fs xs)"
| "pack_ok _ _ = False"

fun pack_fields :: "field list \<Rightarrow> int list \<Rightarrow> bytes" where
  "pack_fields (f # fs) (x # xs) = be (field_size f) x @ pack_fields fs xs"
| "pack_fields _ _ = []"

fun unpack_fields :: "field list \<Rightarrow> bytes \<Rightarrow> int list" where
  "unpack_fields [] bs = []"
| "unpack_fields (f # fs) bs =
     field_read f (take (field_size f) bs) # unpack_fields fs (drop (field_size f) bs)"

text \<open>
  \<open>struct.pack\<close> raises \<open>struct.error\<close> for a value out of range, \<open>struct.unpack\<close> for a buffer of
  another size, \<open>struct.unpack_from\<close> for a buffer that is too short.
\<close>

definition struct_pack :: "field list \<Rightarrow> int list \<Rightarrow> bytes result" where
  "struct_pack fs xs = (if pack_ok fs xs then Inr (pack_fields fs xs) else Inl StructError)"

definition struct_unpack :: "field list \<Rightarrow> bytes \<Rightarrow> int list result" where
  "struct_unpack fs bs =
     (if length bs = calcsize fs then Inr (unpack_fields fs bs) else Inl StructError)"

definition struct_unpack_from :: "field list \<Rightarrow> bytes \<Rightarrow> nat \<Rightarrow> int list result" where
  "struct_unpack_from fs bs off =
     (if off + calcsize fs \<le> length bs
      then Inr (unpack_fields fs (take (calcsize fs) (drop off bs)))
      else Inl StructError)"

text \<open>\<open>struct.unpack_from(fmt, bs, off)[0]\<close> for one unsigned field of \<open>n\<close> bytes.\<close>

definition unpack_u :: "nat \<Rightarrow> bytes \<Rightarrow> nat \<Rightarrow> int result" where
  "unpack_u n bs off =
     (if off + n \<le> length bs then Inr (unbe (take n (drop off bs))) else Inl StructError)"

lemma length_be [simp]: "length (be n x) = n"
  by (induction n arbitrary: x) auto

lemma be_numeral:
  "be (numeral k) x = be (pred_numeral k) (x div 256) @ [word_of_int x]"
  by (simp add: numeral_eq_Suc)

lemma unbe_Nil [simp]: "unbe [] = 0"
  by (simp add: unbe_def)

lemma unbe_snoc [simp]: "unbe (bs @ [b]) = unbe bs * 256 + uint b"
  by (simp add: unbe_def)

lemma uint_byte_bounds: "0 \<le> uint (b :: byte)" "uint (b :: byte) < 256"
  using uint_lt2p [of b] by auto

lemma unbe_bounds: "0 \<le> unbe bs \<and> unbe bs < 256 ^ length bs"
proof (induction bs rule: rev_induct)
  case (snoc b bs)
  then show ?case using uint_byte_bounds [of b] by auto
qed simp

lemma unbe_be: "unbe (be n x) = x mod 256 ^ n"
proof (induction n arbitrary: x)
  case (Suc n)
  have "(x div 256 mod 256 ^ n) * 256 + x mod 256 = x mod (256 * 256 ^ n)"
    by (simp add: zmod_zmult2_eq)
  then show ?case
    using Suc by (simp add: uint_word_of_int)
qed simp

lemma be_unbe: "be (length bs) (unbe bs) = bs"
proof (induction bs rule: rev_induct)
  case (snoc b bs)
  have "(unbe bs * 256 + uint b) div 256 = unbe bs"
    using uint_byte_bounds [of b] by simp
  moreover have "word_of_int (unbe bs * 256 + uint b) = b"
  proof -
    have "(256 :: byte) = 0" by simp
    then show ?thesis by (simp only: of_int_add of_int_mult of_int_numeral word_of_int_uint) simp
  qed
  ultimately show ?case using snoc by simp
qed simp

lemma unbe_signed_be:
  assumes "- (256 ^ n) \<le> 2 * x" and "2 * x < 256 ^ n"
  shows "unbe_signed (be n x) = x"
proof (cases "0 \<le> x")
  case True
  then have "x mod 256 ^ n = x" using assms by simp
  with True assms show ?thesis by (simp add: unbe_signed_def unbe_be Let_def)
next
  case False
  then have "(x + 256 ^ n) mod 256 ^ n = x + 256 ^ n"
    using assms by (intro mod_pos_pos_trivial) auto
  then have "x mod 256 ^ n = x + 256 ^ n" by simp
  with False assms show ?thesis by (simp add: unbe_signed_def unbe_be Let_def)
qed

lemma be_unbe_signed: "be (length bs) (unbe_signed bs) = bs"
proof -
  have shift: "be n (x - 256 ^ n) = be n x" for n x
  proof (induction n arbitrary: x)
    case (Suc n)
    have "(x - 256 ^ Suc n) div 256 = x div 256 - 256 ^ n" by simp
    moreover have "word_of_int (x - 256 ^ Suc n) = (word_of_int x :: byte)"
    proof -
      have "(256 :: byte) = 0" by simp
      then show ?thesis by (simp only: of_int_diff of_int_power power_Suc of_int_mult of_int_numeral) simp
    qed
    ultimately show ?case using Suc by simp
  qed simp
  show ?thesis by (simp add: unbe_signed_def Let_def be_unbe shift)
qed

lemma field_read_be: "field_ok f x \<Longrightarrow> field_read f (be (field_size f) x) = x"
  by (cases f) (auto simp: unbe_be unbe_signed_be)

lemma be_field_read: "length bs = field_size f \<Longrightarrow> be (field_size f) (field_read f bs) = bs"
  using be_unbe [of bs] be_unbe_signed [of bs] by (cases f) simp_all

lemma field_ok_read: "length bs = field_size f \<Longrightarrow> field_ok f (field_read f bs)"
proof (cases f)
  case (S n)
  assume "length bs = field_size f"
  with S show ?thesis using unbe_bounds [of bs] by (auto simp: unbe_signed_def Let_def)
qed (use unbe_bounds [of bs] in simp)

lemma length_pack_fields [simp]: "pack_ok fs xs \<Longrightarrow> length (pack_fields fs xs) = calcsize fs"
  by (induction fs xs rule: pack_ok.induct) auto

lemma unpack_pack_fields: "pack_ok fs xs \<Longrightarrow> unpack_fields fs (pack_fields fs xs @ bs) = xs"
  by (induction fs xs rule: pack_ok.induct) (auto simp: field_read_be)

lemma pack_unpack_fields:
  "length bs = calcsize fs \<Longrightarrow> pack_fields fs (unpack_fields fs bs) = bs"
  by (induction fs arbitrary: bs) (auto simp: be_field_read)

lemma pack_ok_unpack: "length bs = calcsize fs \<Longrightarrow> pack_ok fs (unpack_fields fs bs)"
  by (induction fs arbitrary: bs) (auto simp: field_ok_read)

text \<open>The two round-trip laws of the struct module, on which every codec below rests.\<close>

lemma struct_unpack_pack: "struct_pack fs xs = Inr bs \<Longrightarrow> struct_unpack fs bs = Inr xs"
proof -
  assume "struct_pack fs xs = Inr bs"
  then have ok: "pack_ok fs xs" and bs: "bs = pack_fields fs xs"
    by (auto simp: struct_pack_def split: if_splits)
  show ?thesis
    using unpack_pack_fields [OF ok, of "[]"] by (simp add: bs ok struct_unpack_def)
qed

lemma struct_pack_unpack: "struct_unpack fs bs = Inr xs \<Longrightarrow> struct_pack fs xs = Inr bs"
  using pack_unpack_fields [of bs fs] pack_ok_unpack [of bs fs]
  by (auto simp: struct_pack_def struct_unpack_def split: if_splits)

lemma struct_unpack_iff_pack: "struct_unpack fs bs = Inr xs \<longleftrightarrow> struct_pack fs xs = Inr bs"
  by (blast intro: struct_unpack_pack struct_pack_unpack)

text \<open>Packing in range always succeeds, with the fields' bytes; unpacking a full buffer too.\<close>

lemma struct_pack_Inr_iff [codec_simps]:
  "struct_pack fs xs = Inr bs \<longleftrightarrow> pack_ok fs xs \<and> bs = pack_fields fs xs"
  by (auto simp: struct_pack_def)

lemma unpack_u_Inr_iff [codec_simps]:
  "unpack_u n bs off = Inr x \<longleftrightarrow> off + n \<le> length bs \<and> x = unbe (take n (drop off bs))"
  by (auto simp: unpack_u_def)

lemma struct_unpack_Inr_iff [codec_simps]:
  "struct_unpack fs bs = Inr xs \<longleftrightarrow> length bs = calcsize fs \<and> xs = unpack_fields fs bs"
  by (auto simp: struct_unpack_def)

lemma struct_unpack_from_Inr_iff [codec_simps]:
  "struct_unpack_from fs bs off = Inr xs \<longleftrightarrow>
     off + calcsize fs \<le> length bs \<and> xs = unpack_fields fs (take (calcsize fs) (drop off bs))"
  by (auto simp: struct_unpack_from_def)

lemma be_unbe_slice: "length bs = n \<Longrightarrow> be n (unbe bs) = bs"
  using be_unbe [of bs] by simp

lemma uint_byte_of: "0 \<le> x \<Longrightarrow> x < 256 \<Longrightarrow> uint (byte_of x) = x"
  by (simp add: byte_of_def uint_word_of_int)

lemma byte_of_uint [simp]: "byte_of (uint b) = b"
  by (simp add: byte_of_def)

lemma take_6_nth: "6 \<le> length bs \<Longrightarrow> take 6 bs = [bs ! 0, bs ! 1, bs ! 2, bs ! 3, bs ! 4, bs ! 5]"
  by (auto simp: numeral_eq_Suc Suc_le_length_iff)

text \<open>An unpacked buffer is taken apart by a pattern of as many fields as its format has.\<close>

lemma list_case_2:
  "(case v of [a, b] \<Rightarrow> f a b | _ \<Rightarrow> Inl e) = Inr x \<longleftrightarrow> (\<exists>a b. v = [a, b] \<and> f a b = Inr x)"
  by (auto split: list.splits)

lemma list_case_3:
  "(case v of [a, b, c] \<Rightarrow> f a b c | _ \<Rightarrow> Inl e) = Inr x \<longleftrightarrow>
     (\<exists>a b c. v = [a, b, c] \<and> f a b c = Inr x)"
  by (auto split: list.splits)

lemma list_case_4:
  "(case v of [a, b, c, d] \<Rightarrow> f a b c d | _ \<Rightarrow> Inl e) = Inr x \<longleftrightarrow>
     (\<exists>a b c d. v = [a, b, c, d] \<and> f a b c d = Inr x)"
  by (auto split: list.splits)

lemma list_case_10:
  "(case v of [a, b, c, d, g, h, i, j, k, l] \<Rightarrow> f a b c d g h i j k l | _ \<Rightarrow> Inl e) = Inr x \<longleftrightarrow>
     (\<exists>a b c d g h i j k l. v = [a, b, c, d, g, h, i, j, k, l] \<and> f a b c d g h i j k l = Inr x)"
  by (auto split: list.splits)

text \<open>The layout all three frame formats share: six bytes, two 4-byte fields, a 2-byte field.\<close>

lemma split_header:
  "bs = take 6 bs @ take 4 (drop 6 bs) @ take 4 (drop 10 bs) @ take 2 (drop 14 bs) @ drop 16 bs"
proof -
  have "drop 6 bs = take 4 (drop 6 bs) @ drop 10 bs"
    using append_take_drop_id [of 4 "drop 6 bs"] by simp
  moreover have "drop 10 bs = take 4 (drop 10 bs) @ drop 14 bs"
    using append_take_drop_id [of 4 "drop 10 bs"] by simp
  moreover have "drop 14 bs = take 2 (drop 14 bs) @ drop 16 bs"
    using append_take_drop_id [of 2 "drop 14 bs"] by simp
  ultimately show ?thesis by (metis append_take_drop_id)
qed

subsection \<open>Ordered dictionaries\<close>

text \<open>
  A Python \<open>dict\<close> or \<open>OrderedDict\<close> is an association list in insertion order with distinct keys:
  \<open>AList.update\<close> overwrites in place or appends, \<open>AList.delete\<close> removes. \<open>move_to_end\<close> and the
  loop \<open>while len(d) > n: d.popitem(last=False)\<close> complete what the sources use.
\<close>

definition move_to_end :: "'k \<Rightarrow> ('k \<times> 'v) list \<Rightarrow> ('k \<times> 'v) list" where
  "move_to_end k d =
     (case map_of d k of None \<Rightarrow> d | Some v \<Rightarrow> AList.delete k d @ [(k, v)])"

function trim_oldest :: "nat \<Rightarrow> 'a list \<Rightarrow> 'a list" where
  "trim_oldest n d = (if length d > n then trim_oldest n (tl d) else d)"
  by pat_completeness auto
termination
  by (relation "measure (\<lambda>(n, d). length d)") auto

declare trim_oldest.simps [simp del]

definition distinct_keys :: "('k \<times> 'v) list \<Rightarrow> bool" where
  "distinct_keys d = distinct (map fst d)"

lemma trim_oldest_drop: "trim_oldest n d = drop (length d - n) d"
proof (induction n d rule: trim_oldest.induct)
  case (1 n d)
  show ?case
  proof (cases "length d > n")
    case True
    then have "trim_oldest n d = drop (length (tl d) - n) (tl d)"
      using 1 by (simp add: trim_oldest.simps [of n d])
    also have "\<dots> = drop (length d - n) d"
      using True by (cases d) (auto simp: Suc_diff_le)
    finally show ?thesis .
  qed (simp add: trim_oldest.simps [of n d])
qed

lemma length_trim_oldest [simp]: "length (trim_oldest n d) = min n (length d)"
  by (auto simp: trim_oldest_drop)

lemma set_trim_oldest: "set (trim_oldest n d) \<subseteq> set d"
  by (simp add: trim_oldest_drop set_drop_subset)

lemma distinct_keys_Nil [simp, inv_intros]: "distinct_keys []"
  by (simp add: distinct_keys_def)

lemma distinct_keys_Cons [simp]:
  "distinct_keys (x # d) \<longleftrightarrow> fst x \<notin> fst ` set d \<and> distinct_keys d"
  by (simp add: distinct_keys_def)

lemma distinct_keys_trim [inv_intros]: "distinct_keys d \<Longrightarrow> distinct_keys (trim_oldest n d)"
  by (simp add: distinct_keys_def trim_oldest_drop distinct_drop flip: drop_map)

lemma distinct_keys_update [inv_intros]: "distinct_keys d \<Longrightarrow> distinct_keys (AList.update k v d)"
  by (simp add: distinct_keys_def distinct_update)

lemma distinct_keys_delete [inv_intros]: "distinct_keys d \<Longrightarrow> distinct_keys (AList.delete k d)"
  by (simp add: distinct_keys_def distinct_delete)

lemma keys_delete [dict_simps]: "fst ` set (AList.delete k d) = fst ` set d - {k}"
  by (metis delete_keys list.set_map set_removeAll)

lemma distinct_keys_append [simp]:
  "distinct_keys (d @ e) \<longleftrightarrow> distinct_keys d \<and> distinct_keys e \<and> fst ` set d \<inter> fst ` set e = {}"
  by (simp add: distinct_keys_def)

lemma distinct_keys_move [inv_intros]: "distinct_keys d \<Longrightarrow> distinct_keys (move_to_end k d)"
  by (simp add: move_to_end_def distinct_keys_delete keys_delete split: option.splits)

lemma keys_update [dict_simps]: "fst ` set (AList.update k v d) = insert k (fst ` set d)"
  by (simp add: dom_update)

lemma keys_move [dict_simps]: "fst ` set (move_to_end k d) = fst ` set d"
  by (force simp: move_to_end_def keys_delete insert_absorb dest: map_of_SomeD split: option.splits)

lemma lookup_update [dict_simps]:
  "map_of (AList.update k v d) k' = (if k' = k then Some v else map_of d k')"
  by (simp add: update_conv)

lemma lookup_delete [dict_simps]:
  "map_of (AList.delete k d) k' = (if k' = k then None else map_of d k')"
  by (simp add: delete_conv)

lemma lookup_move [dict_simps]: "map_of (move_to_end k d) k' = map_of d k'"
  by (auto simp: move_to_end_def map_add_def lookup_delete split: option.splits)

lemma length_delete_key:
  "distinct_keys d \<Longrightarrow> k \<in> fst ` set d \<Longrightarrow> length (AList.delete k d) = length d - 1"
proof -
  assume d: "distinct_keys d" and k: "k \<in> fst ` set d"
  have "length (AList.delete k d) = length (removeAll k (map fst d))"
    by (metis delete_keys length_map)
  also have "\<dots> = length (remove1 k (map fst d))"
    using d by (simp add: distinct_keys_def distinct_remove1_removeAll)
  finally show ?thesis using k by (simp add: length_remove1)
qed

lemma length_update_key:
  "length (AList.update k v d) = (if k \<in> fst ` set d then length d else Suc (length d))"
  by (induction d) auto

lemma length_move [simp]: "distinct_keys d \<Longrightarrow> length (move_to_end k d) = length d"
proof (cases "map_of d k")
  case (Some v)
  assume d: "distinct_keys d"
  from Some have k: "k \<in> fst ` set d" by (force dest: map_of_SomeD)
  then have "length d > 0" by auto
  with Some d k show ?thesis by (simp add: move_to_end_def length_delete_key)
qed (simp add: move_to_end_def)

lemma lookup_in_keys: "map_of d k \<noteq> None \<longleftrightarrow> k \<in> fst ` set d"
  by (simp add: map_of_eq_None_iff)

lemma lookup_some_iff: "(\<exists>v. map_of d k = Some v) \<longleftrightarrow> k \<in> fst ` set d"
  using lookup_in_keys [of d k] by auto

lemma set_delete_subset: "set (AList.delete k d) \<subseteq> set d"
  by (auto simp: AList.delete_eq)

lemma set_update_subset: "set (AList.update k v d) \<subseteq> insert (k, v) (set d)"
  by (induction d) auto

lemma length_delete_le: "length (AList.delete k d) \<le> length d"
  by (simp add: AList.delete_eq)

lemma keys_trim_subset: "fst ` set (trim_oldest n d) \<subseteq> fst ` set d"
  using set_trim_oldest by (rule image_mono)


subsection \<open>Interfaces: codecs and incremental parsers\<close>

text \<open>
  A codec turns values into bytes, and both directions may raise. Its law is that what was
  encoded is decoded to the same value. A canonical codec also re-encodes whatever it accepts
  to the bytes it read: no two byte strings mean the same value.
\<close>

locale codec =
  fixes enc :: "'a \<Rightarrow> bytes result"
    and dec :: "bytes \<Rightarrow> 'a result"
  assumes dec_enc: "enc x = Inr bs \<Longrightarrow> dec bs = Inr x"
begin

lemma enc_inj: "enc x = Inr bs \<Longrightarrow> enc y = Inr bs \<Longrightarrow> x = y"
  by (auto dest!: dec_enc)

end

locale canonical_codec = codec +
  assumes enc_dec: "dec bs = Inr x \<Longrightarrow> enc x = Inr bs"
begin

lemma enc_iff_dec: "enc x = Inr bs \<longleftrightarrow> dec bs = Inr x"
  using dec_enc enc_dec by blast

lemma dec_inj: "dec bs = Inr x \<Longrightarrow> dec bs' = Inr x \<Longrightarrow> bs = bs'"
  by (auto dest!: enc_dec)

end

text \<open>
  An incremental parser keeps a state between calls and returns the items each chunk of input
  completed. Its law is that a chunk may be cut anywhere. The client feeds a list of chunks.
\<close>

fun feed_chunks :: "('s \<Rightarrow> bytes \<Rightarrow> 's \<times> 'f list) \<Rightarrow> 's \<Rightarrow> bytes list \<Rightarrow> 's \<times> 'f list" where
  "feed_chunks fd s [] = (s, [])"
| "feed_chunks fd s (c # cs) =
     (let (s', fs) = fd s c; (s'', gs) = feed_chunks fd s' cs in (s'', fs @ gs))"

locale incremental_parser =
  fixes fd :: "'s \<Rightarrow> bytes \<Rightarrow> 's \<times> 'f list"
    and inv :: "'s \<Rightarrow> bool"
  assumes fd_inv: "inv s \<Longrightarrow> inv (fst (fd s c))"
    and fd_Nil: "inv s \<Longrightarrow> fd s [] = (s, [])"
    and fd_append: "inv s \<Longrightarrow>
      fd s (c @ d) = (let (s', fs) = fd s c; (s'', gs) = fd s' d in (s'', fs @ gs))"
begin

lemma chunks_concat: "inv s \<Longrightarrow> feed_chunks fd s cs = fd s (concat cs)"
proof (induction cs arbitrary: s)
  case (Cons c cs)
  from Cons.prems have "inv (fst (fd s c))" by (rule fd_inv)
  with Cons show ?case by (simp add: fd_append Let_def case_prod_unfold)
qed (simp add: fd_Nil)

lemma chunking_irrelevant:
  "inv s \<Longrightarrow> concat cs = concat ds \<Longrightarrow> feed_chunks fd s cs = feed_chunks fd s ds"
  by (simp add: chunks_concat)

lemma chunks_inv: "inv s \<Longrightarrow> inv (fst (feed_chunks fd s cs))"
  by (simp add: chunks_concat fd_inv)

end

text \<open>
  A machine whose steps all keep an invariant: every component with a state is one. The client
  runs a list of inputs from a start state.
\<close>

fun run :: "('s \<Rightarrow> 'e \<Rightarrow> 's) \<Rightarrow> 's \<Rightarrow> 'e list \<Rightarrow> 's" where
  "run st s [] = s"
| "run st s (e # es) = run st (st s e) es"

locale machine =
  fixes st :: "'s \<Rightarrow> 'e \<Rightarrow> 's"
    and inv :: "'s \<Rightarrow> bool"
  assumes step_inv: "inv s \<Longrightarrow> inv (st s e)"
begin

lemma run_inv: "inv s \<Longrightarrow> inv (run st s es)"
  by (induction es arbitrary: s) (auto intro: step_inv)

end

text \<open>
  A machine on which a relation between an earlier and a later state holds in every step: it
  then holds over whole runs. Monotone counters and states that are never left are such.
\<close>

locale monotone_machine = machine +
  fixes rel :: "'s \<Rightarrow> 's \<Rightarrow> bool"
  assumes rel_refl: "rel s s"
    and rel_trans: "rel s t \<Longrightarrow> rel t u \<Longrightarrow> rel s u"
    and step_rel: "inv s \<Longrightarrow> rel s (st s e)"
begin

lemma run_rel: "inv s \<Longrightarrow> rel s (run st s es)"
proof (induction es arbitrary: s)
  case (Cons e es)
  then have "rel s (st s e)" and "rel (st s e) (run st (st s e) es)"
    by (auto intro: step_rel step_inv)
  then show ?case by (auto intro: rel_trans)
qed (simp add: rel_refl)

end

lemma run_append: "run st s (es @ fs) = run st (run st s es) fs"
  by (induction es arbitrary: s) auto

end
