(* ===== verification/Checksum.thy ===== *)
theory Checksum
  imports Prelude
begin

unbundle bit_operations_syntax

text \<open>
  The two CRCs of the system, written over Python's unbounded integers with the masks the code
  applies: CRC16-CCITT-FALSE (\<open>crc16\<close> of \<open>tools/lora_usb/protocol.py\<close>, repeated in
  \<open>tools/lora_usb/application.py\<close>) and CRC24Q (\<open>crc24q\<close> of \<open>application.py\<close>). The lemmas show that
  the registers stay in their width, that one shift loses no information, and so that two
  strings of one length that differ in one byte have different checksums: every corruption
  confined to a byte is detected.
\<close>

subsection \<open>The code\<close>

text \<open>One turn of the inner loop, for the literals of the two functions.\<close>

definition crc_shift :: "int \<Rightarrow> int \<Rightarrow> int \<Rightarrow> int \<Rightarrow> int" where
  "crc_shift hi poly msk crc =
     (if crc AND hi \<noteq> 0 then (push_bit 1 crc XOR poly) AND msk
      else push_bit 1 crc AND msk)"

definition crc16_byte :: "int \<Rightarrow> byte \<Rightarrow> int" where
  "crc16_byte crc byte = (crc_shift 0x8000 0x1021 0xFFFF ^^ 8) (crc XOR push_bit 8 (uint byte))"

definition crc16 :: "bytes \<Rightarrow> int" where
  "crc16 data = foldl crc16_byte 0xFFFF data"

definition app_crc16 :: "bytes \<Rightarrow> int" where
  "app_crc16 data =
     foldl (\<lambda>crc byte. (crc_shift 0x8000 0x1021 0xFFFF ^^ 8) (crc XOR push_bit 8 (uint byte)))
       0xFFFF data"

definition crc24q_byte :: "int \<Rightarrow> byte \<Rightarrow> int" where
  "crc24q_byte crc byte =
     (crc_shift 0x800000 0x1864CFB 0xFFFFFF ^^ 8) (crc XOR push_bit 16 (uint byte))"

definition crc24q :: "bytes \<Rightarrow> int" where
  "crc24q data = foldl crc24q_byte 0 data"

subsection \<open>One shift\<close>

text \<open>
  The shift for a register of \<open>n + 1\<close> bits, its top bit \<open>2 ^ n\<close>, with a polynomial whose lowest
  bit is set: the lowest bit of the result tells whether the polynomial was added, so the shift
  can be undone.
\<close>

lemma xor_right_cancel:
  fixes a b c :: int
  shows "a XOR c = b XOR c \<longleftrightarrow> a = b"
proof
  assume "a XOR c = b XOR c"
  then have "(a XOR c) XOR c = (b XOR c) XOR c" by (rule arg_cong)
  then show "a = b" by (simp only: xor.assoc xor_self_eq xor.right_neutral)
qed simp

lemma crc_shift_arith:
  assumes "0 \<le> x" and "x < 2 * 2 ^ n"
  shows "crc_shift (2 ^ n) p (2 * 2 ^ n - 1) x =
    (if 2 ^ n \<le> x then (2 * x XOR p) mod (2 * 2 ^ n) else 2 * x)"
proof -
  have mask: "y AND (2 * 2 ^ n - 1) = y mod (2 * 2 ^ n)" for y :: int
    using take_bit_eq_mask [of "Suc n" y] by (simp add: take_bit_eq_mod mask_eq_exp_minus_1)
  have hi: "x AND 2 ^ n \<noteq> 0 \<longleftrightarrow> 2 ^ n \<le> x"
  proof -
    have "bit x n \<longleftrightarrow> odd (x div 2 ^ n)" by (simp add: bit_iff_odd)
    moreover have "x div 2 ^ n = (if 2 ^ n \<le> x then 1 else 0)"
    proof (cases "2 ^ n \<le> x")
      case True
      then have "x div 2 ^ n = (x - 2 ^ n) div 2 ^ n + 1"
        by (simp add: div_pos_pos_trivial flip: div_add_self2)
      moreover have "(x - 2 ^ n) div 2 ^ n = 0" using assms True by simp
      ultimately show ?thesis using True by simp
    qed (use assms in simp)
    moreover have "x AND 2 ^ n \<noteq> 0 \<longleftrightarrow> bit x n"
      by (simp add: and_exp_eq_0_iff_not_bit)
    ultimately show ?thesis by simp
  qed
  have "2 * x mod (2 * 2 ^ n) = 2 * x" if "\<not> 2 ^ n \<le> x"
    using assms that by simp
  then show ?thesis
    using hi by (simp add: crc_shift_def mask push_bit_eq_mult mult.commute)
qed

lemma crc_shift_range:
  assumes "0 \<le> x" and "x < 2 * 2 ^ n"
  shows "0 \<le> crc_shift (2 ^ n) p (2 * 2 ^ n - 1) x \<and>
    crc_shift (2 ^ n) p (2 * 2 ^ n - 1) x < 2 * 2 ^ n"
  using assms by (simp add: crc_shift_arith)

lemma crc_shift_odd:
  assumes x: "0 \<le> x" "x < 2 * 2 ^ n" and p: "odd p"
  shows "odd (crc_shift (2 ^ n) p (2 * 2 ^ n - 1) x) \<longleftrightarrow> 2 ^ n \<le> x"
proof (cases "2 ^ n \<le> x")
  case True
  have "even (2 * 2 ^ n :: int)" by simp
  then have "odd ((2 * x XOR p) mod (2 * 2 ^ n)) \<longleftrightarrow> odd (2 * x XOR p)"
    by (metis dvd_mod_iff)
  with True x p show ?thesis by (simp add: crc_shift_arith even_xor_iff)
qed (use x in \<open>simp add: crc_shift_arith\<close>)

lemma crc_shift_inj:
  assumes x: "0 \<le> x" "x < 2 * 2 ^ n" and y: "0 \<le> y" "y < 2 * 2 ^ n" and p: "odd p"
    and eq: "crc_shift (2 ^ n) p (2 * 2 ^ n - 1) x = crc_shift (2 ^ n) p (2 * 2 ^ n - 1) y"
  shows "x = y"
proof -
  let ?m = "2 * 2 ^ n :: int"
  have both: "2 ^ n \<le> x \<longleftrightarrow> 2 ^ n \<le> y"
    using eq crc_shift_odd [OF x p] crc_shift_odd [OF y p] by simp
  show ?thesis
  proof (cases "2 ^ n \<le> x")
    case True
    then have "take_bit (Suc n) (2 * x XOR p) = take_bit (Suc n) (2 * y XOR p)"
      using eq x y both by (simp add: crc_shift_arith take_bit_eq_mod)
    then have "take_bit (Suc n) (2 * x) = take_bit (Suc n) (2 * y)"
      by (simp only: take_bit_xor xor_right_cancel)
    then have "(2 * x) mod ?m = (2 * y) mod ?m"
      by (simp add: take_bit_eq_mod)
    then have "x mod 2 ^ n = y mod 2 ^ n" by simp
    moreover have "z mod 2 ^ n = z - 2 ^ n" if "2 ^ n \<le> z" "z < ?m" for z
    proof -
      have "(z - 2 ^ n) mod 2 ^ n = z - 2 ^ n"
        using that by (intro mod_pos_pos_trivial) auto
      then show ?thesis by simp
    qed
    ultimately show ?thesis using True both x(2) y(2) by fastforce
  next
    case False
    with eq x y both show ?thesis by (simp add: crc_shift_arith)
  qed
qed

subsection \<open>A register that folds in bytes\<close>

text \<open>
  What the two CRCs share: the register stays in its range, and one step is injective in the
  register and, for a fixed register, in the byte.
\<close>

locale byte_register =
  fixes upd :: "int \<Rightarrow> byte \<Rightarrow> int"
    and bound :: int
  assumes upd_range: "0 \<le> c \<Longrightarrow> c < bound \<Longrightarrow> 0 \<le> upd c b \<and> upd c b < bound"
    and upd_inj_reg: "0 \<le> c \<Longrightarrow> c < bound \<Longrightarrow> 0 \<le> d \<Longrightarrow> d < bound \<Longrightarrow>
      upd c b = upd d b \<Longrightarrow> c = d"
    and upd_inj_byte: "0 \<le> c \<Longrightarrow> c < bound \<Longrightarrow> upd c a = upd c b \<Longrightarrow> a = b"
begin

lemma fold_range:
  "0 \<le> c \<Longrightarrow> c < bound \<Longrightarrow> 0 \<le> foldl upd c bs \<and> foldl upd c bs < bound"
proof (induction bs arbitrary: c)
  case (Cons b bs)
  then show ?case using upd_range [of c b] by simp
qed simp

lemma fold_inj:
  "0 \<le> c \<Longrightarrow> c < bound \<Longrightarrow> 0 \<le> d \<Longrightarrow> d < bound \<Longrightarrow>
   foldl upd c bs = foldl upd d bs \<Longrightarrow> c = d"
proof (induction bs arbitrary: c d)
  case (Cons b bs)
  have c: "0 \<le> upd c b" "upd c b < bound" and d: "0 \<le> upd d b" "upd d b < bound"
    using upd_range Cons.prems by simp_all
  have "foldl upd (upd c b) bs = foldl upd (upd d b) bs"
    using Cons.prems(5) by simp
  then have "upd c b = upd d b" by (rule Cons.IH [OF c d])
  then show ?case by (rule upd_inj_reg [OF Cons.prems(1-4)])
qed simp

lemma fold_byte_change:
  assumes c: "0 \<le> c" "c < bound" and ne: "a \<noteq> b"
  shows "foldl upd c (xs @ a # ys) \<noteq> foldl upd c (xs @ b # ys)"
proof
  assume "foldl upd c (xs @ a # ys) = foldl upd c (xs @ b # ys)"
  then have eq: "foldl upd (upd (foldl upd c xs) a) ys = foldl upd (upd (foldl upd c xs) b) ys"
    by simp
  have r: "0 \<le> foldl upd c xs" "foldl upd c xs < bound"
    using fold_range [OF c, of xs] by auto
  have "upd (foldl upd c xs) a = upd (foldl upd c xs) b"
    using upd_range [OF r, of a] upd_range [OF r, of b] fold_inj eq by blast
  then have "a = b" by (rule upd_inj_byte [OF r])
  with ne show False by contradiction
qed

lemma fold_update_change:
  assumes c: "0 \<le> c" "c < bound" and i: "i < length xs" and ne: "b \<noteq> xs ! i"
  shows "foldl upd c (xs[i := b]) \<noteq> foldl upd c xs"
proof -
  have "xs[i := b] = take i xs @ b # drop (Suc i) xs"
    and "xs = take i xs @ xs ! i # drop (Suc i) xs"
    by (rule upd_conv_take_nth_drop [OF i], rule id_take_nth_drop [OF i])
  then show ?thesis
    using fold_byte_change [OF c ne, of "take i xs" "drop (Suc i) xs"] by metis
qed

end


subsection \<open>The two checksums are such registers\<close>

lemma funpow_range:
  fixes f :: "int \<Rightarrow> int"
  assumes "\<And>x. 0 \<le> x \<Longrightarrow> x < m \<Longrightarrow> 0 \<le> f x \<and> f x < m" and "0 \<le> x" and "x < m"
  shows "0 \<le> (f ^^ k) x \<and> (f ^^ k) x < m"
  using assms by (induction k) auto

lemma funpow_inj_on_range:
  fixes f :: "int \<Rightarrow> int"
  assumes r: "\<And>x. 0 \<le> x \<Longrightarrow> x < m \<Longrightarrow> 0 \<le> f x \<and> f x < m"
    and inj: "\<And>x y. 0 \<le> x \<Longrightarrow> x < m \<Longrightarrow> 0 \<le> y \<Longrightarrow> y < m \<Longrightarrow> f x = f y \<Longrightarrow> x = y"
    and x: "0 \<le> x" "x < m" and y: "0 \<le> y" "y < m" and eq: "(f ^^ k) x = (f ^^ k) y"
  shows "x = y"
  using eq
proof (induction k)
  case (Suc k)
  have "0 \<le> (f ^^ k) x \<and> (f ^^ k) x < m" by (rule funpow_range [OF r x])
  moreover have "0 \<le> (f ^^ k) y \<and> (f ^^ k) y < m" by (rule funpow_range [OF r y])
  moreover have "f ((f ^^ k) x) = f ((f ^^ k) y)" using Suc.prems by simp
  ultimately have "(f ^^ k) x = (f ^^ k) y" by (blast intro: inj)
  then show ?case by (rule Suc.IH)
qed simp

lemma xor_below_exp:
  fixes c x :: int
  assumes "0 \<le> c" "c < 2 ^ n" "0 \<le> x" "x < 2 ^ n"
  shows "0 \<le> c XOR x \<and> c XOR x < 2 ^ n"
proof -
  have "take_bit n (c XOR x) = c XOR x"
    using assms by (simp add: take_bit_xor take_bit_int_eq_self)
  moreover have "0 \<le> take_bit n (c XOR x)" "take_bit n (c XOR x) < 2 ^ n"
    by (rule take_bit_nonnegative, rule take_bit_int_less_exp)
  ultimately show ?thesis by simp
qed

lemma byte_shifted_below: "0 \<le> push_bit k (uint (b :: byte)) \<and> push_bit k (uint b) < 2 ^ (k + 8)"
proof -
  have "uint b * 2 ^ k < 256 * 2 ^ k" using uint_byte_bounds [of b] by simp
  then show ?thesis using uint_byte_bounds [of b]
    by (simp add: push_bit_eq_mult power_add mult.commute)
qed

text \<open>
  A register of \<open>k + 8\<close> bits that xors the byte in at bit \<open>k\<close> and shifts
  eight times.
\<close>

lemma xor_byte_range:
  assumes "0 \<le> c" and "c < 2 * 2 ^ (k + 7)"
  shows "0 \<le> c XOR push_bit k (uint (b :: byte))" and "c XOR push_bit k (uint b) < 2 * 2 ^ (k + 7)"
proof -
  have m: "2 * 2 ^ (k + 7) = (2 ^ (k + 8) :: int)"
    by (simp add: power_add)
  show "0 \<le> c XOR push_bit k (uint b)" "c XOR push_bit k (uint b) < 2 * 2 ^ (k + 7)"
    using xor_below_exp [OF assms(1) assms(2) [unfolded m], of "push_bit k (uint b)"]
      byte_shifted_below [of k b] unfolding m by blast+
qed

lemma shifted_register:
  assumes p: "odd p"
    and upd: "\<And>c b. upd c b =
      (crc_shift (2 ^ (k + 7)) p (2 * 2 ^ (k + 7) - 1) ^^ 8) (c XOR push_bit k (uint b))"
  shows "byte_register upd (2 * 2 ^ (k + 7))"
proof
  let ?f = "crc_shift (2 ^ (k + 7)) p (2 * 2 ^ (k + 7) - 1)"
  let ?m = "2 * 2 ^ (k + 7) :: int"
  have inj8: "0 \<le> x \<Longrightarrow> x < ?m \<Longrightarrow> 0 \<le> y \<Longrightarrow> y < ?m \<Longrightarrow> (?f ^^ 8) x = (?f ^^ 8) y \<Longrightarrow> x = y" for x y
    by (rule funpow_inj_on_range [OF crc_shift_range crc_shift_inj [OF _ _ _ _ p]])
  fix c b assume c: "0 \<le> c" "c < ?m"
  show "0 \<le> upd c b \<and> upd c b < ?m"
    unfolding upd by (rule funpow_range [OF crc_shift_range xor_byte_range [OF c]])
  show "a = b" if "upd c a = upd c b" for a
  proof -
    have "c XOR push_bit k (uint a) = c XOR push_bit k (uint b)"
      using inj8 [OF xor_byte_range [OF c] xor_byte_range [OF c]] that by (simp only: upd)
    then have "push_bit k (uint a) = push_bit k (uint b)"
      by (simp only: xor.commute [of c] xor_right_cancel)
    then have "uint a = uint b" by (simp add: push_bit_eq_mult)
    then show "a = b" by (simp only: word_uint_eq_iff)
  qed
  fix d assume d: "0 \<le> d" "d < ?m" and "upd c b = upd d b"
  then have "c XOR push_bit k (uint b) = d XOR push_bit k (uint b)"
    using inj8 [OF xor_byte_range [OF c] xor_byte_range [OF d]] by (simp only: upd)
  then show "c = d" by (simp only: xor_right_cancel)
qed

interpretation crc16_register: byte_register crc16_byte "2 * 2 ^ (8 + 7)"
  by (rule shifted_register [of "0x1021"]) (simp_all add: crc16_byte_def)

interpretation crc24q_register: byte_register crc24q_byte "2 * 2 ^ (16 + 7)"
  by (rule shifted_register [of "0x1864CFB"]) (simp_all add: crc24q_byte_def)

lemma app_crc16_eq: "app_crc16 data = crc16 data"
  by (simp add: app_crc16_def crc16_def crc16_byte_def [abs_def])

lemma crc16_range: "0 \<le> crc16 data \<and> crc16 data < 65536"
  using crc16_register.fold_range [of "0xFFFF" data] by (simp add: crc16_def)

lemma crc24q_range: "0 \<le> crc24q data \<and> crc24q data < 16777216"
  using crc24q_register.fold_range [of 0 data] by (simp add: crc24q_def)

lemma crc16_update_change: "i < length xs \<Longrightarrow> b \<noteq> xs ! i \<Longrightarrow> crc16 (xs[i := b]) \<noteq> crc16 xs"
  using crc16_register.fold_update_change [of "0xFFFF" i xs b] by (simp add: crc16_def)

lemma crc24q_update_change: "i < length xs \<Longrightarrow> b \<noteq> xs ! i \<Longrightarrow> crc24q (xs[i := b]) \<noteq> crc24q xs"
  using crc24q_register.fold_update_change [of 0 i xs b] by (simp add: crc24q_def)

text \<open>A trailer with the big-endian checksum of what comes before it.\<close>

definition sealed :: "nat \<Rightarrow> (bytes \<Rightarrow> int) \<Rightarrow> bytes \<Rightarrow> bool" where
  "sealed n ck raw \<longleftrightarrow>
     n \<le> length raw \<and> ck (take (length raw - n) raw) = unbe (drop (length raw - n) raw)"

text \<open>No byte of a sealed string can be changed without breaking the seal.\<close>

lemma sealed_byte_change:
  assumes ck: "\<And>xs i b. i < length xs \<Longrightarrow> b \<noteq> xs ! i \<Longrightarrow> ck (xs[i := b]) \<noteq> ck xs"
    and s: "sealed n ck raw" and i: "i < length raw" and ne: "b \<noteq> raw ! i"
  shows "\<not> sealed n ck (raw[i := b])"
proof
  assume s': "sealed n ck (raw[i := b])"
  let ?k = "length raw - n"
  show False
  proof (cases "i < ?k")
    case True
    have "ck ((take ?k raw)[i := b]) \<noteq> ck (take ?k raw)"
      using True i ne by (intro ck) auto
    with s s' True show False by (simp add: sealed_def take_update_swap)
  next
    case False
    then have "unbe (drop ?k (raw[i := b])) = unbe (drop ?k raw)"
      using s s' by (simp add: sealed_def)
    then have "drop ?k (raw[i := b]) = drop ?k raw"
      using be_unbe [of "drop ?k (raw[i := b])"] be_unbe [of "drop ?k raw"] by simp
    then have "drop ?k (raw[i := b]) ! (i - ?k) = drop ?k raw ! (i - ?k)" by simp
    with False i ne show False by simp
  qed
qed

lemma sealed_append: "0 \<le> ck body \<Longrightarrow> ck body < 256 ^ n \<Longrightarrow> sealed n ck (body @ be n (ck body))"
  by (simp add: sealed_def unbe_be)

end
