(* ===== verification/Cobs.thy ===== *)
theory Cobs
  imports Prelude
begin

text \<open>
  Consistent overhead byte stuffing: \<open>cobs_encode\<close> and \<open>cobs_decode\<close> of
  \<open>tools/lora_usb/protocol.py\<close>. The encoder is the source's loop over a growing array with a
  back-patched code byte; it is refined by \<open>cobs_blocks\<close>, which emits block after block. From
  that follow the round trip, the absence of zero bytes and the bound on the overhead.
\<close>

subsection \<open>The code\<close>

text \<open>The state of the loop is \<open>out\<close>, \<open>code\<close> and \<open>code_pos\<close>.\<close>

fun cobs_encode_loop :: "bytes \<Rightarrow> bytes \<Rightarrow> nat \<Rightarrow> nat \<Rightarrow> bytes" where
  "cobs_encode_loop [] out code code_pos = out[code_pos := of_nat code]"
| "cobs_encode_loop (byte # data) out code code_pos =
     (if byte = 0
      then cobs_encode_loop data (out[code_pos := of_nat code] @ [0]) 1 (length out)
      else (let out = out @ [byte]; code = code + 1
            in if code = 0xFF
               then cobs_encode_loop data (out[code_pos := of_nat code] @ [0]) 1 (length out)
               else cobs_encode_loop data out code code_pos))"

definition cobs_encode :: "bytes \<Rightarrow> bytes" where
  "cobs_encode data = (if data = [] then [1] else cobs_encode_loop data [0] 1 0)"

text \<open>The decoder's loop, on \<open>rest = data[i:]\<close> in place of the index \<open>i\<close>.\<close>

function cobs_decode_loop :: "bytes \<Rightarrow> bytes \<Rightarrow> bytes result" where
  "cobs_decode_loop rest out =
     (case rest of [] \<Rightarrow> Inr out
      | c # rest \<Rightarrow>
          (let code = unat c
           in if code = 0 then Inl (ProtocolError ''zero COBS code'')
              else if code - 1 > length rest then Inl (ProtocolError ''truncated COBS frame'')
              else (let out = out @ take (code - 1) rest; rest = drop (code - 1) rest
                    in cobs_decode_loop rest
                         (if code \<noteq> 0xFF \<and> rest \<noteq> [] then out @ [0] else out))))"
  by pat_completeness auto
termination
  by (relation "measure (\<lambda>(rest, out). length rest)") auto

declare cobs_decode_loop.simps [simp del]

definition cobs_decode :: "bytes \<Rightarrow> bytes result" where
  "cobs_decode data =
     (if data = [] then Inl (ProtocolError ''empty COBS frame'') else cobs_decode_loop data [])"

subsection \<open>Block by block\<close>

text \<open>\<open>blk\<close> is the block being read: non-zero bytes, fewer than 254 of them.\<close>

fun cobs_blocks :: "bytes \<Rightarrow> bytes \<Rightarrow> bytes" where
  "cobs_blocks blk [] = of_nat (Suc (length blk)) # blk"
| "cobs_blocks blk (b # bs) =
     (if b = 0 then of_nat (Suc (length blk)) # blk @ cobs_blocks [] bs
      else if length blk = 253 then 255 # blk @ b # cobs_blocks [] bs
      else cobs_blocks (blk @ [b]) bs)"

lemma cobs_encode_loop_blocks:
  "cobs_encode_loop bs (pre @ 0 # blk) (Suc (length blk)) (length pre) = pre @ cobs_blocks blk bs"
proof (induction bs arbitrary: pre blk)
  case (Cons b bs)
  show ?case
  proof (cases "b = 0 \<or> length blk \<noteq> 253")
    case True
    then show ?thesis
      using Cons [of "pre @ of_nat (Suc (length blk)) # blk" "[]"] Cons [of pre "blk @ [b]"]
      by auto
  next
    case False
    then show ?thesis
      using Cons [of "pre @ 255 # blk @ [b]" "[]"] by (auto simp: Let_def)
  qed
qed simp

lemma cobs_encode_blocks: "cobs_encode data = cobs_blocks [] data"
  using cobs_encode_loop_blocks [of data "[]" "[]"] by (auto simp: cobs_encode_def)

lemma cobs_blocks_nonempty [simp]: "cobs_blocks blk bs \<noteq> []"
  by (induction blk bs rule: cobs_blocks.induct) auto

lemma unat_code: "n < 255 \<Longrightarrow> unat (of_nat (Suc n) :: byte) = Suc n"
  by (simp only: unat_of_nat take_bit_eq_mod) simp

lemma of_nat_code_nonzero: "n < 255 \<Longrightarrow> (of_nat (Suc n) :: byte) \<noteq> 0"
  using unat_code [of n] by (metis nat.distinct(1) unat_0)

lemma cobs_decode_block:
  assumes "length blk < 254"
  shows "cobs_decode_loop (of_nat (Suc (length blk)) # blk @ rest) out =
    cobs_decode_loop rest (if rest = [] then out @ blk else out @ blk @ [0])"
proof -
  have "unat (of_nat (Suc (length blk)) :: byte) = Suc (length blk)"
    using assms by (intro unat_code) simp
  then show ?thesis
    using assms
    by (subst cobs_decode_loop.simps) (simp add: Let_def del: of_nat_Suc)
qed

lemma cobs_decode_full_block:
  assumes "length blk = 253"
  shows "cobs_decode_loop (255 # blk @ b # rest) out = cobs_decode_loop rest (out @ blk @ [b])"
  using assms by (subst cobs_decode_loop.simps) (simp add: Let_def)

lemma cobs_decode_blocks:
  "length blk < 254 \<Longrightarrow> cobs_decode_loop (cobs_blocks blk bs) out = Inr (out @ blk @ bs)"
proof (induction blk bs arbitrary: out rule: cobs_blocks.induct)
  case (1 blk)
  then show ?case
    using cobs_decode_block [of blk "[]" out]
    by (simp add: cobs_decode_loop.simps [of "[]"])
next
  case (2 blk b bs)
  show ?case
  proof (cases "b = 0 \<or> length blk = 253")
    case True
    with 2 show ?thesis
      by (auto simp: cobs_decode_block cobs_decode_full_block simp del: of_nat_Suc)
  next
    case False
    with 2 show ?thesis by simp
  qed
qed

lemma cobs_decode_encode: "cobs_decode (cobs_encode data) = Inr data"
  by (simp add: cobs_decode_def cobs_encode_blocks cobs_decode_blocks)

lemma cobs_blocks_zero_free:
  "0 \<notin> set blk \<Longrightarrow> length blk < 254 \<Longrightarrow> 0 \<notin> set (cobs_blocks blk bs)"
  by (induction blk bs rule: cobs_blocks.induct)
    (auto simp: of_nat_code_nonzero [symmetric] simp del: of_nat_Suc)

lemma cobs_encode_zero_free: "0 \<notin> set (cobs_encode data)"
  by (simp add: cobs_encode_blocks cobs_blocks_zero_free)

lemma length_cobs_blocks:
  "length blk < 254 \<Longrightarrow>
   length (cobs_blocks blk bs) \<le>
     Suc (length blk + length bs + (length blk + length bs) div 254)"
proof (induction blk bs rule: cobs_blocks.induct)
  case (2 blk b bs)
  have mono: "length bs div 254 \<le> Suc (length blk + length bs) div 254"
    by (simp add: div_le_mono)
  have full: "(254 + length bs) div 254 = Suc (length bs div 254)"
    by simp
  show ?case
  proof (cases "b = 0 \<or> length blk = 253")
    case True
    with 2 mono full show ?thesis by (auto split: if_splits)
  next
    case False
    with 2 show ?thesis by simp
  qed
qed simp

lemma length_cobs_encode:
  "length (cobs_encode data) \<le> Suc (length data + length data div 254)"
  using length_cobs_blocks [of "[]" data] by (simp add: cobs_encode_blocks)

interpretation cobs_codec: codec "\<lambda>data. Inr (cobs_encode data)" cobs_decode
  by unfold_locales (auto simp: cobs_decode_encode)

end
