(* ===== verification/Usb_Frame.thy ===== *)
theory Usb_Frame
  imports Checksum Cobs
begin

text \<open>
  The frames of the USB link and of the radio link (\<open>tools/lora_usb/protocol.py\<close>): encoders,
  decoders and the parsers of the modem's response payloads. The lemmas give the round trips,
  the field ranges of what the decoders accept, and the detection of a corrupted byte.
\<close>

subsection \<open>Message types\<close>

abbreviation (input) USB_HELLO :: int where "USB_HELLO \<equiv> 0x01"
abbreviation (input) USB_INFO :: int where "USB_INFO \<equiv> 0x81"
abbreviation (input) RADIO_SEND :: int where "RADIO_SEND \<equiv> 0x02"
abbreviation (input) RADIO_TX_RESULT :: int where "RADIO_TX_RESULT \<equiv> 0x82"
abbreviation (input) GET_LINK_STATUS :: int where "GET_LINK_STATUS \<equiv> 0x03"
abbreviation (input) LINK_STATUS :: int where "LINK_STATUS \<equiv> 0x83"
abbreviation (input) GET_DIAGNOSTICS :: int where "GET_DIAGNOSTICS \<equiv> 0x04"
abbreviation (input) DIAGNOSTICS :: int where "DIAGNOSTICS \<equiv> 0x84"
abbreviation (input) RADIO_RX :: int where "RADIO_RX \<equiv> 0x90"
abbreviation (input) USB_ERROR :: int where "USB_ERROR \<equiv> 0xFF"
abbreviation (input) ERROR_CODE_WRONG_SESSION :: int where "ERROR_CODE_WRONG_SESSION \<equiv> 4"

abbreviation (input) MAX_AIR_PAYLOAD :: nat where "MAX_AIR_PAYLOAD \<equiv> 200"
abbreviation (input) MAX_USB_PAYLOAD :: nat where "MAX_USB_PAYLOAD \<equiv> 256"
abbreviation (input) MAX_DECODED :: nat where "MAX_DECODED \<equiv> 274"

text \<open>\<open>b"MU"\<close>, \<open>b"ML"\<close> and \<open>b"MB"\<close>.\<close>

abbreviation (input) USB_MAGIC :: bytes where "USB_MAGIC \<equiv> [77, 85]"
abbreviation (input) RADIO_MAGIC :: bytes where "RADIO_MAGIC \<equiv> [77, 76]"
abbreviation (input) MOCK_MAGIC :: bytes where "MOCK_MAGIC \<equiv> [77, 66]"

record usb_frame =
  uf_msg_type :: int
  uf_session :: int
  uf_sequence :: int
  uf_payload :: bytes

subsection \<open>USB frames\<close>

definition usb_body :: "int \<Rightarrow> int \<Rightarrow> int \<Rightarrow> bytes \<Rightarrow> bytes result" where
  "usb_body typ ses sqn pl =
     bindR (struct_pack [U 4, U 4, U 2] [ses, sqn, int (length pl)])
       (\<lambda>hd. Inr (USB_MAGIC @ [1, byte_of typ, 0, 0] @ hd @ pl))"

definition encode_frame :: "int \<Rightarrow> int \<Rightarrow> int \<Rightarrow> bytes \<Rightarrow> bytes result" where
  "encode_frame typ ses sqn pl =
     (if \<not> (0 \<le> typ \<and> typ \<le> 255) \<or> \<not> (0 < ses \<and> ses \<le> 0xFFFFFFFF) \<or>
         \<not> (0 \<le> sqn \<and> sqn \<le> 0xFFFFFFFF)
      then Inl (ProtocolError ''invalid frame identity'')
      else if length pl > MAX_USB_PAYLOAD then Inl (ProtocolError ''USB payload too large'')
      else bindR (usb_body typ ses sqn pl) (\<lambda>body.
           bindR (struct_pack [U 2] [crc16 body]) (\<lambda>crc.
           Inr (cobs_encode (body @ crc) @ [0]))))"

text \<open>The part of \<open>decode_frame\<close> after the COBS decoder.\<close>

definition decode_usb_body :: "bytes \<Rightarrow> (int \<times> int \<times> int \<times> bytes) result" where
  "decode_usb_body body =
     (if length body < 18 \<or> length body > MAX_DECODED \<or> take 2 body \<noteq> USB_MAGIC
      then Inl (ProtocolError ''bad USB frame'')
      else if body ! 2 \<noteq> 1 \<or> body ! 4 \<noteq> 0 \<or> body ! 5 \<noteq> 0
      then Inl (ProtocolError ''unsupported USB header'')
      else bindR (unpack_u 2 body 14) (\<lambda>len.
        if len > int MAX_USB_PAYLOAD \<or> int (length body) \<noteq> 18 + len
        then Inl (ProtocolError ''USB length mismatch'')
        else bindR (unpack_u 2 body (length body - 2)) (\<lambda>crc.
          if crc16 (take (length body - 2) body) \<noteq> crc
          then Inl (ProtocolError ''USB CRC mismatch'')
          else bindR (unpack_u 4 body 6) (\<lambda>ses.
               bindR (unpack_u 4 body 10) (\<lambda>sqn.
               Inr (uint (body ! 3), ses, sqn, take (length body - 18) (drop 16 body)))))))"

definition decode_frame :: "bytes \<Rightarrow> (int \<times> int \<times> int \<times> bytes) result" where
  "decode_frame encoded = bindR (cobs_decode encoded) decode_usb_body"

subsection \<open>Radio packets\<close>

definition radio_body :: "int \<Rightarrow> int \<Rightarrow> bytes \<Rightarrow> bytes result" where
  "radio_body boot_id air_sequence pl =
     bindR (struct_pack [U 4, U 4, U 2] [boot_id, air_sequence, int (length pl)])
       (\<lambda>hd. Inr (RADIO_MAGIC @ [1, 1, 0, 0] @ hd @ pl))"

definition encode_radio :: "int \<Rightarrow> int \<Rightarrow> bytes \<Rightarrow> bytes result" where
  "encode_radio boot_id air_sequence pl =
     (if \<not> (0 < boot_id \<and> boot_id \<le> 0xFFFFFFFF) \<or>
         \<not> (0 < air_sequence \<and> air_sequence \<le> 0xFFFFFFFF) \<or>
         \<not> (0 < length pl \<and> length pl \<le> MAX_AIR_PAYLOAD)
      then Inl (ProtocolError ''invalid radio packet'')
      else bindR (radio_body boot_id air_sequence pl) (\<lambda>body.
           bindR (struct_pack [U 2] [crc16 body]) (\<lambda>crc. Inr (body @ crc))))"

definition decode_radio :: "bytes \<Rightarrow> (int \<times> int \<times> bytes) result" where
  "decode_radio packet =
     (if length packet < 19 \<or> take 2 packet \<noteq> RADIO_MAGIC \<or>
         take 4 (drop 2 packet) \<noteq> [1, 1, 0, 0]
      then Inl (ProtocolError ''bad radio packet'')
      else bindR (unpack_u 2 packet 14) (\<lambda>n.
        if \<not> (0 < n \<and> n \<le> int MAX_AIR_PAYLOAD) \<or> int (length packet) \<noteq> 18 + n
        then Inl (ProtocolError ''bad radio packet'')
        else bindR (unpack_u 2 packet (length packet - 2)) (\<lambda>crc.
          if crc16 (take (length packet - 2) packet) \<noteq> crc
          then Inl (ProtocolError ''bad radio packet'')
          else bindR (unpack_u 4 packet 6) (\<lambda>boot.
               bindR (unpack_u 4 packet 10) (\<lambda>air.
               Inr (boot, air, take (length packet - 18) (drop 16 packet)))))))"

subsection \<open>The mock application packets of the bench\<close>

definition parse_mock_app :: "bytes \<Rightarrow> (int \<times> int \<times> bytes) result" where
  "parse_mock_app pl =
     (if length pl < 9 \<or> take 2 pl \<noteq> MOCK_MAGIC \<or> pl ! 2 \<noteq> 1
      then Inl (ProtocolError ''bad mock application packet'')
      else if length pl \<noteq> 9 + unat (pl ! 8)
      then Inl (ProtocolError ''mock application length mismatch'')
      else bindR (unpack_u 4 pl 4) (\<lambda>sqn. Inr (uint (pl ! 3), sqn, drop 9 pl)))"

text \<open>\<open>struct.pack\<close> raises for a sequence number out of range, which no check guards.\<close>

definition make_mock_app :: "int \<Rightarrow> int \<Rightarrow> bytes \<Rightarrow> bytes result" where
  "make_mock_app kind sqn data =
     (if \<not> (0 \<le> kind \<and> kind \<le> 255) \<or> length data > 191
      then Inl (ProtocolError ''bad mock application payload'')
      else bindR (struct_pack [U 4] [sqn])
        (\<lambda>s. Inr (MOCK_MAGIC @ [1] @ [byte_of kind] @ s @ [byte_of (int (length data))] @ data)))"

subsection \<open>Response payloads\<close>

record info =
  device_id :: bytes
  info_boot_id :: int
  capabilities :: int
  max_air_payload :: int
  info_radio_ready :: int
  profile_id :: int
  info_uptime_ms :: int

definition parse_info :: "bytes \<Rightarrow> info result" where
  "parse_info p =
     (if length p \<noteq> 22 then Inl (ProtocolError ''bad INFO payload'')
      else bindR (struct_unpack [U 4, U 4, U 2, U 1, U 1, U 4] (drop 6 p)) (\<lambda>v.
        case v of
          [boot, caps, mx, rdy, prof, up] \<Rightarrow>
            Inr \<lparr>device_id = take 6 p, info_boot_id = boot, capabilities = caps,
                 max_air_payload = mx, info_radio_ready = rdy, profile_id = prof,
                 info_uptime_ms = up\<rparr>
        | _ \<Rightarrow> Inl StructError))"

definition parse_tx_result :: "bytes \<Rightarrow> int list result" where
  "parse_tx_result p =
     (if length p \<noteq> 12 then Inl (ProtocolError ''bad TX_RESULT payload'')
      else struct_unpack [U 4, U 4, U 4] p)"

record radio_rx =
  rx_sender :: int
  rx_air :: int
  rx_rssi :: real
  rx_snr :: real
  rx_uptime :: int
  rx_payload :: bytes

definition parse_radio_rx :: "bytes \<Rightarrow> radio_rx result" where
  "parse_radio_rx p =
     (if length p < 16 then Inl (ProtocolError ''bad RADIO_RX payload'')
      else bindR (struct_unpack_from [U 4, U 4, S 2, S 2, U 4] p 0) (\<lambda>v.
        case v of
          [sender, air, rssi, snr, up] \<Rightarrow>
            Inr \<lparr>rx_sender = sender, rx_air = air, rx_rssi = real_of_int rssi / 100,
                 rx_snr = real_of_int snr / 100, rx_uptime = up, rx_payload = drop 16 p\<rparr>
        | _ \<Rightarrow> Inl StructError))"

definition parse_link_status :: "bytes \<Rightarrow> int list result" where
  "parse_link_status p =
     (if length p \<noteq> 36 then Inl (ProtocolError ''bad LINK_STATUS payload'')
      else bindR (struct_unpack_from [U 4, U 4, U 1] p 0) (\<lambda>v.
           bindR (struct_unpack_from [U 4, U 4, U 4, U 4, U 4, U 4] p 12) (\<lambda>w. Inr (v @ w))))"

definition parse_diagnostics :: "bytes \<Rightarrow> int list result" where
  "parse_diagnostics p =
     (if length p \<noteq> 40 then Inl (ProtocolError ''bad DIAGNOSTICS payload'')
      else struct_unpack (replicate 10 (U 4)) p)"

definition parse_error :: "bytes \<Rightarrow> (int \<times> int \<times> int) result" where
  "parse_error p =
     (if length p \<noteq> 5 then Inl (ProtocolError ''bad ERROR payload'')
      else bindR (struct_unpack [U 2, S 2, U 1] p) (\<lambda>v.
        case v of [code, detail, failed] \<Rightarrow> Inr (code, detail, failed) | _ \<Rightarrow> Inl StructError))"


subsection \<open>What the encoders produce\<close>

lemma usb_body_Inr_iff:
  "usb_body typ ses sqn pl = Inr body \<longleftrightarrow>
     0 \<le> ses \<and> ses < 2 ^ 32 \<and> 0 \<le> sqn \<and> sqn < 2 ^ 32 \<and> length pl < 2 ^ 16 \<and>
     body = USB_MAGIC @ [1, byte_of typ, 0, 0] @ be 4 ses @ be 4 sqn @ be 2 (int (length pl)) @ pl"
  by (auto simp: usb_body_def bindR_Inr_iff codec_simps)

lemma radio_body_Inr_iff:
  "radio_body boot air pl = Inr body \<longleftrightarrow>
     0 \<le> boot \<and> boot < 2 ^ 32 \<and> 0 \<le> air \<and> air < 2 ^ 32 \<and> length pl < 2 ^ 16 \<and>
     body = RADIO_MAGIC @ [1, 1, 0, 0] @ be 4 boot @ be 4 air @ be 2 (int (length pl)) @ pl"
  by (auto simp: radio_body_def bindR_Inr_iff codec_simps)

text \<open>The checksum always fits its two bytes.\<close>

lemma pack_crc16: "struct_pack [U 2] [crc16 body] = Inr (be 2 (crc16 body))"
  using crc16_range [of body] by (simp add: struct_pack_def)

lemma encode_frame_Inr_iff:
  "encode_frame typ ses sqn pl = Inr raw \<longleftrightarrow>
     0 \<le> typ \<and> typ \<le> 255 \<and> 0 < ses \<and> ses \<le> 0xFFFFFFFF \<and> 0 \<le> sqn \<and> sqn \<le> 0xFFFFFFFF \<and>
     length pl \<le> 256 \<and>
     (\<exists>body. usb_body typ ses sqn pl = Inr body \<and> raw = cobs_encode (body @ be 2 (crc16 body)) @ [0])"
  by (auto simp: encode_frame_def bindR_Inr_iff pack_crc16)

lemma encode_radio_Inr_iff:
  "encode_radio boot air pl = Inr raw \<longleftrightarrow>
     0 < boot \<and> boot \<le> 0xFFFFFFFF \<and> 0 < air \<and> air \<le> 0xFFFFFFFF \<and>
     0 < length pl \<and> length pl \<le> 200 \<and>
     (\<exists>body. radio_body boot air pl = Inr body \<and> raw = body @ be 2 (crc16 body))"
  by (auto simp: encode_radio_def bindR_Inr_iff pack_crc16)

lemma unbe_2: "0 \<le> x \<Longrightarrow> x < 65536 \<Longrightarrow> unbe (be 2 x) = x"
  by (simp add: unbe_be)

lemma unbe_4: "0 \<le> x \<Longrightarrow> x < 4294967296 \<Longrightarrow> unbe (be 4 x) = x"
  by (simp add: unbe_be)

subsection \<open>What the decoders accept\<close>

lemma decode_usb_body_Inr_iff:
  "decode_usb_body body = Inr (typ, ses, sqn, pl) \<longleftrightarrow>
     18 \<le> length body \<and> length body \<le> 274 \<and> take 2 body = USB_MAGIC \<and>
     body ! 2 = 1 \<and> body ! 4 = 0 \<and> body ! 5 = 0 \<and>
     unbe (take 2 (drop 14 body)) \<le> 256 \<and>
     int (length body) = 18 + unbe (take 2 (drop 14 body)) \<and> sealed 2 crc16 body \<and>
     typ = uint (body ! 3) \<and> ses = unbe (take 4 (drop 6 body)) \<and>
     sqn = unbe (take 4 (drop 10 body)) \<and> pl = take (length body - 18) (drop 16 body)"
  by (auto simp: decode_usb_body_def bindR_Inr_iff codec_simps sealed_def split: if_splits)

lemma decode_radio_Inr_iff:
  "decode_radio packet = Inr (boot, air, pl) \<longleftrightarrow>
     19 \<le> length packet \<and> take 2 packet = RADIO_MAGIC \<and> take 4 (drop 2 packet) = [1, 1, 0, 0] \<and>
     0 < unbe (take 2 (drop 14 packet)) \<and> unbe (take 2 (drop 14 packet)) \<le> 200 \<and>
     int (length packet) = 18 + unbe (take 2 (drop 14 packet)) \<and> sealed 2 crc16 packet \<and>
     boot = unbe (take 4 (drop 6 packet)) \<and> air = unbe (take 4 (drop 10 packet)) \<and>
     pl = take (length packet - 18) (drop 16 packet)"
  by (auto simp: decode_radio_def bindR_Inr_iff codec_simps sealed_def split: if_splits)

lemma decode_usb_body_encode:
  assumes "usb_body typ ses sqn pl = Inr body" and "0 \<le> typ" "typ \<le> 255" "length pl \<le> 256"
  shows "decode_usb_body (body @ be 2 (crc16 body)) = Inr (typ, ses, sqn, pl)"
proof -
  have "sealed 2 crc16 (body @ be 2 (crc16 body))"
    using crc16_range by (intro sealed_append) auto
  then show ?thesis
    using assms
    by (simp add: decode_usb_body_Inr_iff usb_body_Inr_iff unbe_2 unbe_4 uint_byte_of)
qed

lemma decode_radio_encode:
  assumes "encode_radio boot air pl = Inr raw"
  shows "decode_radio raw = Inr (boot, air, pl)"
proof -
  obtain body where body: "radio_body boot air pl = Inr body"
    and raw: "raw = body @ be 2 (crc16 body)"
    using assms by (auto simp: encode_radio_Inr_iff)
  have "sealed 2 crc16 raw"
    using crc16_range unfolding raw by (intro sealed_append) auto
  then show ?thesis
    using assms body
    by (simp add: decode_radio_Inr_iff radio_body_Inr_iff encode_radio_Inr_iff raw unbe_2 unbe_4
        Suc_le_eq)
qed

interpretation radio_codec: codec "\<lambda>(b, a, p). encode_radio b a p" decode_radio
  by unfold_locales (auto simp: decode_radio_encode)

text \<open>A packet the radio decoder accepts is the encoding of what it reads, zero identities apart.\<close>

lemma sealed_split:
  assumes "sealed 2 crc16 raw"
  shows "raw = take (length raw - 2) raw @ be 2 (crc16 (take (length raw - 2) raw))"
proof -
  have "be 2 (crc16 (take (length raw - 2) raw)) = drop (length raw - 2) raw"
    using assms by (simp add: sealed_def be_unbe_slice)
  then show ?thesis by simp
qed

lemma payload_split:
  assumes "18 \<le> length raw"
  shows "take (length raw - 2) raw = take 16 raw @ take (length raw - 18) (drop 16 raw)"
  using assms take_add [of 16 "length raw - 18" raw] by simp

lemma header_fields:
  assumes "16 \<le> length raw"
  shows "take 16 raw = [raw ! 0, raw ! 1, raw ! 2, raw ! 3, raw ! 4, raw ! 5] @
    be 4 (unbe (take 4 (drop 6 raw))) @ be 4 (unbe (take 4 (drop 10 raw))) @
    be 2 (unbe (take 2 (drop 14 raw)))"
proof -
  have "take 16 raw = take 6 raw @ take 4 (drop 6 raw) @ take 4 (drop 10 raw) @ take 2 (drop 14 raw)"
    using take_add [of 6 10 raw] take_add [of 4 6 "drop 6 raw"] take_add [of 4 2 "drop 10 raw"]
    by simp
  then show ?thesis using assms by (simp add: be_unbe_slice take_6_nth)
qed

lemma encode_radio_decode:
  assumes dec: "decode_radio raw = Inr (boot, air, pl)" and nz: "boot \<noteq> 0" "air \<noteq> 0"
  shows "encode_radio boot air pl = Inr raw"
proof -
  from dec have *: "19 \<le> length raw" "take 2 raw = RADIO_MAGIC" "take 4 (drop 2 raw) = [1, 1, 0, 0]"
    "int (length raw) = 18 + unbe (take 2 (drop 14 raw))" "length raw \<le> 218" "sealed 2 crc16 raw"
    and v: "boot = unbe (take 4 (drop 6 raw))" "air = unbe (take 4 (drop 10 raw))"
      "pl = take (length raw - 18) (drop 16 raw)"
    by (auto simp: decode_radio_Inr_iff)
  have "take 6 raw = RADIO_MAGIC @ [1, 1, 0, 0]"
    using take_add [of 2 4 raw] * by simp
  then have hdr: "[raw ! 0, raw ! 1, raw ! 2, raw ! 3, raw ! 4, raw ! 5] = RADIO_MAGIC @ [1, 1, 0, 0]"
    using * by (simp add: take_6_nth)
  have len: "int (length pl) = unbe (take 2 (drop 14 raw))"
    using * v by simp
  have bounds: "0 \<le> boot" "boot < 2 ^ 32" "0 \<le> air" "air < 2 ^ 32"
    using unbe_bounds [of "take 4 (drop 6 raw)"] unbe_bounds [of "take 4 (drop 10 raw)"] * v by auto
  have "radio_body boot air pl = Inr (take (length raw - 2) raw)"
    using * bounds len v hdr
    by (simp add: radio_body_Inr_iff payload_split header_fields del: append_take_drop_id)
  moreover have "0 < length pl" "length pl \<le> 200" using * v by auto
  ultimately show ?thesis
    using nz bounds sealed_split [OF *(6)] by (auto simp: encode_radio_Inr_iff)
qed


subsection \<open>Errors\<close>

lemma sealed_crc16_change:
  "sealed 2 crc16 raw \<Longrightarrow> i < length raw \<Longrightarrow> b \<noteq> raw ! i \<Longrightarrow> \<not> sealed 2 crc16 (raw[i := b])"
  by (rule sealed_byte_change) (rule crc16_update_change)

lemma decode_radio_cases:
  "(\<exists>v. decode_radio raw = Inr v) \<or> decode_radio raw = Inl (ProtocolError ''bad radio packet'')"
  by (auto simp: decode_radio_def unpack_u_def)

lemma decode_usb_body_cases:
  "(\<exists>v. decode_usb_body raw = Inr v) \<or> (\<exists>e. decode_usb_body raw = Inl (ProtocolError e))"
  by (auto simp: decode_usb_body_def unpack_u_def)

lemma cobs_decode_loop_cases:
  "(\<exists>v. cobs_decode_loop rest out = Inr v) \<or> (\<exists>e. cobs_decode_loop rest out = Inl (ProtocolError e))"
proof (induction rest out rule: cobs_decode_loop.induct)
  case (1 rest out)
  then show ?case
    by (subst (1 2) cobs_decode_loop.simps) (fastforce split: list.split simp: Let_def)
qed

lemma decode_frame_cases:
  "(\<exists>v. decode_frame raw = Inr v) \<or> (\<exists>e. decode_frame raw = Inl (ProtocolError e))"
proof (cases "cobs_decode raw")
  case (Inl e)
  then show ?thesis
    using cobs_decode_loop_cases [of raw "[]"]
    by (auto simp: decode_frame_def cobs_decode_def split: if_splits)
next
  case (Inr body)
  then show ?thesis
    using decode_usb_body_cases [of body] by (simp add: decode_frame_def)
qed

text \<open>
  Property C16. A frame that \<open>encode_frame\<close> produced is zero-free up to its delimiter,
  no longer than 276 bytes, and decodes to the type, session, sequence and payload it was made from.
\<close>

theorem usb_frame_roundtrip:
  assumes "encode_frame typ ses sqn pl = Inr raw"
  shows "\<exists>enc. raw = enc @ [0] \<and> 0 \<notin> set enc \<and> length enc \<le> 276 \<and>
    decode_frame enc = Inr (typ, ses, sqn, pl)"
proof -
  obtain body where body: "usb_body typ ses sqn pl = Inr body" and len: "length pl \<le> 256"
    and raw: "raw = cobs_encode (body @ be 2 (crc16 body)) @ [0]"
    and range: "0 \<le> typ" "typ \<le> 255"
    using assms by (auto simp: encode_frame_Inr_iff)
  let ?b = "body @ be 2 (crc16 body)"
  have "length ?b \<le> 274" using body len by (auto simp: usb_body_Inr_iff)
  then have "length (cobs_encode ?b) \<le> 276"
    using length_cobs_encode [of ?b] by linarith
  moreover have "decode_frame (cobs_encode ?b) = Inr (typ, ses, sqn, pl)"
    using decode_usb_body_encode [OF body range len] by (simp add: decode_frame_def cobs_decode_encode)
  ultimately show ?thesis using raw cobs_encode_zero_free by blast
qed

lemma usb_frame_vector:
  "encode_frame 3 1 2 [] =
     Inr [5, 77, 85, 1, 3, 1, 1, 1, 1, 2, 1, 1, 1, 2, 2, 1, 3, 236, 89, 0]"
  by code_simp

theorem usb_frame_roundtrip_witness:
  "\<exists>enc. [5, 77, 85, 1, 3, 1, 1, 1, 1, 2, 1, 1, 1, 2, 2, 1, 3, 236, 89, 0] = enc @ [0] \<and>
     0 \<notin> set enc \<and> length enc \<le> 276 \<and> decode_frame enc = Inr (3, 1, 2, [])"
  by (rule usb_frame_roundtrip [OF usb_frame_vector])

text \<open>
  The radio codec is canonical: a packet decodes to a nonzero boot id, a nonzero air
  sequence and a payload exactly when it is the encoding of the three.
\<close>

theorem radio_packet_canonical:
  "encode_radio boot air pl = Inr raw \<longleftrightarrow>
     decode_radio raw = Inr (boot, air, pl) \<and> boot \<noteq> 0 \<and> air \<noteq> 0"
proof
  assume enc: "encode_radio boot air pl = Inr raw"
  then have "0 < boot" "0 < air" unfolding encode_radio_Inr_iff by blast+
  with decode_radio_encode [OF enc]
  show "decode_radio raw = Inr (boot, air, pl) \<and> boot \<noteq> 0 \<and> air \<noteq> 0" by simp
qed (blast intro: encode_radio_decode)

text \<open>Any change of one byte of an accepted radio packet makes the decoder reject it.\<close>

theorem radio_corruption_detected:
  assumes "decode_radio raw = Inr v" and "i < length raw" and "b \<noteq> raw ! i"
  shows "decode_radio (raw[i := b]) = Inl (ProtocolError ''bad radio packet'')"
proof -
  have "sealed 2 crc16 raw"
    using assms(1) by (cases v) (auto simp: decode_radio_Inr_iff)
  then have "\<not> sealed 2 crc16 (raw[i := b])"
    using assms(2,3) by (rule sealed_crc16_change)
  then have "decode_radio (raw[i := b]) \<noteq> Inr w" for w
    by (cases w) (auto simp: decode_radio_Inr_iff)
  then show ?thesis using decode_radio_cases by blast
qed

theorem radio_corruption_detected_witness:
  "decode_radio ([77, 76, 1, 1, 0, 0, 0, 0, 0, 1, 0, 0, 0, 1, 0, 1, 65, 249, 195][16 := 66]) =
     Inl (ProtocolError ''bad radio packet'')"
proof (rule radio_corruption_detected)
  show "decode_radio [77, 76, 1, 1, 0, 0, 0, 0, 0, 1, 0, 0, 0, 1, 0, 1, 65, 249, 195] =
    Inr (1, 1, [65])"
    by code_simp
qed simp_all

text \<open>Any change of one byte of an accepted USB frame body makes the decoder raise a protocol error.\<close>

theorem usb_corruption_detected:
  assumes "decode_usb_body raw = Inr v" and "i < length raw" and "b \<noteq> raw ! i"
  shows "\<exists>e. decode_usb_body (raw[i := b]) = Inl (ProtocolError e)"
proof -
  have "sealed 2 crc16 raw"
    using assms(1) by (cases v) (auto simp: decode_usb_body_Inr_iff)
  then have "\<not> sealed 2 crc16 (raw[i := b])"
    using assms(2,3) by (rule sealed_crc16_change)
  then have "decode_usb_body (raw[i := b]) \<noteq> Inr w" for w
    by (cases w) (auto simp: decode_usb_body_Inr_iff)
  then show ?thesis using decode_usb_body_cases by blast
qed

theorem usb_corruption_detected_witness:
  "\<exists>e. decode_usb_body ([77, 85, 1, 3, 0, 0, 0, 0, 0, 1, 0, 0, 0, 2, 0, 0, 236, 89][3 := 2]) =
     Inl (ProtocolError e)"
proof (rule usb_corruption_detected)
  show "decode_usb_body [77, 85, 1, 3, 0, 0, 0, 0, 0, 1, 0, 0, 0, 2, 0, 0, 236, 89] =
    Inr (3, 1, 2, [])"
    by code_simp
qed simp_all

text \<open>
  The parsers of the modem's responses never let a \<open>struct.error\<close> escape:
  each returns a value on every payload of its length and raises a protocol error on every other.
\<close>

theorem response_parsers_total:
  "is_ok (parse_info p) = (length p = 22) \<and> is_ok (parse_tx_result p) = (length p = 12) \<and>
   is_ok (parse_radio_rx p) = (16 \<le> length p) \<and> is_ok (parse_link_status p) = (length p = 36) \<and>
   is_ok (parse_diagnostics p) = (length p = 40) \<and> is_ok (parse_error p) = (length p = 5) \<and>
   parse_info p \<noteq> Inl StructError \<and> parse_tx_result p \<noteq> Inl StructError \<and>
   parse_radio_rx p \<noteq> Inl StructError \<and> parse_link_status p \<noteq> Inl StructError \<and>
   parse_diagnostics p \<noteq> Inl StructError \<and> parse_error p \<noteq> Inl StructError"
  by (auto simp: parse_info_def parse_tx_result_def parse_radio_rx_def parse_link_status_def
      parse_diagnostics_def parse_error_def struct_unpack_def struct_unpack_from_def
      numeral_eq_Suc)

end
