(* ===== verification/Stream_Decoder.thy ===== *)
theory Stream_Decoder
  imports Usb_Frame
begin

text \<open>
  The incremental delimiter decoder of the USB byte stream, class \<open>StreamDecoder\<close> and function
  \<open>split_stream\<close> of \<open>tools/lora_usb/protocol.py\<close>. The lemmas show that, however
  the stream is cut, it decodes each segment between delimiters by itself, that its buffer is bounded,
  and that after any delimiter, whatever noise came before, the frames that follow are all delivered
  in order.
\<close>

record stream_decoder =
  buffer :: bytes
  discarding :: bool
  max_encoded :: nat

definition new_stream_decoder :: stream_decoder where
  "new_stream_decoder = \<lparr>buffer = [], discarding = False, max_encoded = 380\<rparr>"

text \<open>\<open>frames.append(Frame(*decode_frame(...)))\<close>, with \<open>ProtocolError\<close> swallowed.\<close>

definition frame_of :: "bytes \<Rightarrow> usb_frame list" where
  "frame_of encoded =
     (case decode_frame encoded of
        Inr (typ, ses, sqn, pl) \<Rightarrow>
          [\<lparr>uf_msg_type = typ, uf_session = ses, uf_sequence = sqn, uf_payload = pl\<rparr>]
      | Inl _ \<Rightarrow> [])"

definition feed_byte :: "stream_decoder \<Rightarrow> byte \<Rightarrow> stream_decoder \<times> usb_frame list" where
  "feed_byte d byte =
     (if byte = 0
      then (d\<lparr>buffer := [], discarding := False\<rparr>,
            if \<not> discarding d \<and> buffer d \<noteq> [] then frame_of (buffer d) else [])
      else if \<not> discarding d
      then (let d' = d\<lparr>buffer := buffer d @ [byte]\<rparr>
            in if length (buffer d') > max_encoded d'
               then (d'\<lparr>buffer := [], discarding := True\<rparr>, [])
               else (d', []))
      else (d, []))"

fun feed :: "stream_decoder \<Rightarrow> bytes \<Rightarrow> stream_decoder \<times> usb_frame list" where
  "feed d [] = (d, [])"
| "feed d (byte # data) =
     (let (d', fs) = feed_byte d byte; (d'', gs) = feed d' data in (d'', fs @ gs))"

text \<open>\<open>split_stream\<close> works on a caller's buffer, which it replaces by the undecoded rest.\<close>

definition split_stream :: "bytes \<Rightarrow> nat \<Rightarrow> bytes \<times> usb_frame list" where
  "split_stream stream mx =
     (let (d, frames) = feed \<lparr>buffer = [], discarding = False, max_encoded = mx\<rparr> stream
      in (buffer d, frames))"

subsection \<open>An incremental parser with a bounded buffer\<close>

definition decoder_inv :: "stream_decoder \<Rightarrow> bool" where
  "decoder_inv d \<longleftrightarrow>
     length (buffer d) \<le> max_encoded d \<and> 0 \<notin> set (buffer d) \<and> (discarding d \<longrightarrow> buffer d = [])"

lemma feed_byte_inv: "decoder_inv d \<Longrightarrow> decoder_inv (fst (feed_byte d b))"
  by (auto simp: decoder_inv_def feed_byte_def Let_def)

lemma feed_inv: "decoder_inv d \<Longrightarrow> decoder_inv (fst (feed d bs))"
  by (induction bs arbitrary: d) (auto simp: Let_def case_prod_unfold feed_byte_inv)

lemma feed_append:
  "feed d (xs @ ys) = (let (d', fs) = feed d xs; (d'', gs) = feed d' ys in (d'', fs @ gs))"
  by (induction xs arbitrary: d) (simp_all add: Let_def case_prod_unfold)

interpretation usb_stream: incremental_parser feed decoder_inv
  by unfold_locales (simp_all add: feed_inv feed_append)

lemma max_encoded_feed_byte [simp]: "max_encoded (fst (feed_byte d b)) = max_encoded d"
  by (simp add: feed_byte_def Let_def)

lemma max_encoded_feed [simp]: "max_encoded (fst (feed d bs)) = max_encoded d"
  by (induction bs arbitrary: d) (simp_all add: Let_def case_prod_unfold)

subsection \<open>Resynchronisation\<close>

text \<open>A delimiter brings every decoder back to its start state.\<close>

definition reset_decoder :: "stream_decoder \<Rightarrow> stream_decoder" where
  "reset_decoder d = d\<lparr>buffer := [], discarding := False\<rparr>"

lemma reset_decoder_simps [simp]:
  "buffer (reset_decoder d) = []" "discarding (reset_decoder d) = False"
  "max_encoded (reset_decoder d) = max_encoded d"
  "reset_decoder (reset_decoder d) = reset_decoder d"
  by (simp_all add: reset_decoder_def)

lemma reset_after_delimiter: "fst (feed d (xs @ [0])) = reset_decoder (fst (feed d xs))"
  by (simp add: feed_append Let_def case_prod_unfold feed_byte_def reset_decoder_def)

lemma reset_decoder_feed: "reset_decoder (fst (feed d xs)) = reset_decoder d"
proof -
  have "reset_decoder (fst (feed_byte d b)) = reset_decoder d" for d b
    by (simp add: feed_byte_def reset_decoder_def Let_def)
  then show ?thesis
    by (induction xs arbitrary: d) (simp_all add: Let_def case_prod_unfold)
qed

text \<open>Zero-free bytes that fit are only collected; the delimiter then decodes them.\<close>

lemma feed_collect:
  "0 \<notin> set xs \<Longrightarrow> \<not> discarding d \<Longrightarrow> length (buffer d) + length xs \<le> max_encoded d \<Longrightarrow>
   feed d xs = (d\<lparr>buffer := buffer d @ xs\<rparr>, [])"
  by (induction xs arbitrary: d) (auto simp: feed_byte_def Let_def)

lemma feed_one_frame:
  assumes "\<not> discarding d" and "buffer d = []" and "max_encoded d \<ge> 276"
    and enc: "encode_frame (uf_msg_type f) (uf_session f) (uf_sequence f) (uf_payload f) = Inr raw"
  shows "feed d raw = (d, [f])"
proof -
  obtain body where body: "usb_body (uf_msg_type f) (uf_session f) (uf_sequence f) (uf_payload f) = Inr body"
    and len: "length (uf_payload f) \<le> 256"
    and raw: "raw = cobs_encode (body @ be 2 (crc16 body)) @ [0]"
    and range: "0 \<le> uf_msg_type f" "uf_msg_type f \<le> 255"
    using enc by (auto simp: encode_frame_Inr_iff)
  let ?e = "cobs_encode (body @ be 2 (crc16 body))"
  have "length (body @ be 2 (crc16 body)) \<le> 274"
    using body len by (auto simp: usb_body_Inr_iff)
  then have "length ?e \<le> 276"
    using length_cobs_encode [of "body @ be 2 (crc16 body)"] by linarith
  then have "feed d ?e = (d\<lparr>buffer := ?e\<rparr>, [])"
    using feed_collect [of ?e d] assms cobs_encode_zero_free by simp
  moreover have "frame_of ?e = [f]"
    using decode_usb_body_encode [OF body range len]
    by (simp add: frame_of_def decode_frame_def cobs_decode_encode)
  moreover have "?e \<noteq> []" by (simp add: cobs_encode_blocks)
  ultimately show ?thesis
    using assms(1,2) by (simp add: raw feed_append feed_byte_def)
qed

text \<open>The bytes that a host writes for a list of frames.\<close>

fun encode_frames :: "usb_frame list \<Rightarrow> bytes result" where
  "encode_frames [] = Inr []"
| "encode_frames (f # fs) =
     bindR (encode_frame (uf_msg_type f) (uf_session f) (uf_sequence f) (uf_payload f)) (\<lambda>raw.
     bindR (encode_frames fs) (\<lambda>rest. Inr (raw @ rest)))"

lemma feed_frames:
  "\<not> discarding d \<Longrightarrow> buffer d = [] \<Longrightarrow> max_encoded d \<ge> 276 \<Longrightarrow> encode_frames fs = Inr raw \<Longrightarrow>
   feed d raw = (d, fs)"
proof (induction fs arbitrary: raw)
  case (Cons f fs)
  then obtain raw' rest
    where "encode_frame (uf_msg_type f) (uf_session f) (uf_sequence f) (uf_payload f) = Inr raw'"
      and "encode_frames fs = Inr rest" and "raw = raw' @ rest"
    by (auto simp: bindR_Inr_iff)
  with Cons feed_one_frame show ?case by (simp add: feed_append)
qed simp

text \<open>
  One segment of zero-free bytes from the start state, of any length, and a whole list of them, each
  ended by a delimiter.
\<close>

lemma feed_discarding: "0 \<notin> set xs \<Longrightarrow> discarding d \<Longrightarrow> feed d xs = (d, [])"
  by (induction xs) (auto simp: feed_byte_def)

lemma feed_segment:
  assumes "0 \<notin> set xs" and "\<not> discarding d" and "buffer d = []"
  shows "feed d xs =
    (d\<lparr>buffer := (if length xs \<le> max_encoded d then xs else []), discarding := max_encoded d < length xs\<rparr>, [])"
proof (cases "length xs \<le> max_encoded d")
  case True
  then show ?thesis using feed_collect [of xs d] assms by simp
next
  case False
  let ?n = "max_encoded d"
  have xs: "xs = take ?n xs @ xs ! ?n # drop (Suc ?n) xs" using False by (intro id_take_nth_drop) simp
  then have z: "0 \<notin> set (take ?n xs)" "xs ! ?n \<noteq> 0" "0 \<notin> set (drop (Suc ?n) xs)"
    using assms(1) by (metis Un_iff list.set_intros(1) list.set_intros(2) set_append)+
  have "feed d (take ?n xs) = (d\<lparr>buffer := take ?n xs\<rparr>, [])"
    using feed_collect [OF z(1), of d] assms False by simp
  moreover have "feed (d\<lparr>buffer := take ?n xs\<rparr>) (xs ! ?n # drop (Suc ?n) xs) =
      (d\<lparr>buffer := [], discarding := True\<rparr>, [])"
    using z False assms(2) feed_discarding [OF z(3), of "d\<lparr>buffer := [], discarding := True\<rparr>"]
    by (simp add: feed_byte_def)
  ultimately have "feed d (take ?n xs @ xs ! ?n # drop (Suc ?n) xs) = (d\<lparr>buffer := [], discarding := True\<rparr>, [])"
    by (simp only: feed_append) simp
  with False show ?thesis by (simp flip: xs)
qed

lemma feed_segments:
  assumes "\<forall>s\<in>set segments. 0 \<notin> set s" and "\<not> discarding d" and "buffer d = []"
  shows "feed d (concat (map (\<lambda>s. s @ [0]) segments)) =
    (d, concat (map (\<lambda>s. if length s \<le> max_encoded d \<and> s \<noteq> [] then frame_of s else []) segments))"
  using assms(1)
proof (induction segments)
  case (Cons s segments)
  let ?f = "if length s \<le> max_encoded d \<and> s \<noteq> [] then frame_of s else []"
  have d: "d\<lparr>buffer := [], discarding := False\<rparr> = d" using assms(2,3) by (cases d) simp
  have "feed d (s @ [0]) = (d, ?f)"
    using feed_segment [of s d] Cons.prems assms(2,3) d
    by (simp add: feed_append feed_byte_def)
  with Cons have "feed d ((s @ [0]) @ concat (map (\<lambda>s. s @ [0]) segments)) =
      (d, ?f @ concat (map (\<lambda>s. if length s \<le> max_encoded d \<and> s \<noteq> [] then frame_of s else []) segments))"
    by (simp only: feed_append [of d "s @ [0]"]) simp
  then show ?case by simp
qed simp

subsection \<open>Properties\<close>

text \<open>
  Property C29. The decoder is equivalent to cutting the whole stream at its zero bytes: take any
  stream, that is zero-free segments each ended by a zero byte, and a zero-free rest, and give it to
  a new decoder in any chunks. The frames that the calls of \<open>feed\<close> return together are, in order,
  what \<open>decode_frame\<close> makes of the segments of 1 to 380 bytes, one frame for each that it accepts and
  nothing for any other segment; the decoder then holds the rest, or discards when the rest is
  longer than 380 bytes.
\<close>

theorem stream_decodes_segments:
  assumes "\<forall>s\<in>set segments. 0 \<notin> set s" and "0 \<notin> set rest"
    and "concat chunks = concat (map (\<lambda>s. s @ [0]) segments) @ rest"
  shows "feed_chunks feed new_stream_decoder chunks =
    (\<lparr>buffer = (if length rest \<le> 380 then rest else []), discarding = (380 < length rest), max_encoded = 380\<rparr>,
     concat (map (\<lambda>s. case decode_frame s of
         Inr (typ, ses, sqn, pl) \<Rightarrow>
           [\<lparr>uf_msg_type = typ, uf_session = ses, uf_sequence = sqn, uf_payload = pl\<rparr>]
       | Inl _ \<Rightarrow> []) (filter (\<lambda>s. 1 \<le> length s \<and> length s \<le> 380) segments)))"
proof -
  have "decoder_inv new_stream_decoder" by (simp add: decoder_inv_def new_stream_decoder_def)
  then have "feed_chunks feed new_stream_decoder chunks =
      feed new_stream_decoder (concat (map (\<lambda>s. s @ [0]) segments) @ rest)"
    by (simp add: usb_stream.chunks_concat assms(3))
  also have "\<dots> = (let (d, fs) = feed new_stream_decoder rest
      in (d, concat (map (\<lambda>s. if length s \<le> 380 \<and> s \<noteq> [] then frame_of s else []) segments) @ fs))"
    using feed_segments [of segments new_stream_decoder] assms(1)
    by (simp add: feed_append new_stream_decoder_def)
  also have "feed new_stream_decoder rest =
      (\<lparr>buffer = (if length rest \<le> 380 then rest else []), discarding = (380 < length rest), max_encoded = 380\<rparr>, [])"
    using feed_segment [OF assms(2), of new_stream_decoder] by (simp add: new_stream_decoder_def)
  also have "concat (map (\<lambda>s. if length s \<le> 380 \<and> s \<noteq> [] then frame_of s else []) segments) =
      concat (map frame_of (filter (\<lambda>s. 1 \<le> length s \<and> length s \<le> 380) segments))"
    by (induction segments) (auto simp: Suc_le_eq)
  finally show ?thesis by (simp add: frame_of_def [abs_def])
qed

theorem stream_decodes_segments_witness:
  "feed_chunks feed new_stream_decoder [[1, 2, 0, 5, 77], [85, 1, 3, 1, 1, 1, 1, 2, 1, 1, 1, 2, 2, 1, 3], [236, 89, 0, 7]] =
    (\<lparr>buffer = [7], discarding = False, max_encoded = 380\<rparr>,
     [\<lparr>uf_msg_type = 3, uf_session = 1, uf_sequence = 2, uf_payload = []\<rparr>])"
proof -
  have "\<not> is_ok (decode_frame [1, 2])" by code_simp
  moreover have "decode_frame [5, 77, 85, 1, 3, 1, 1, 1, 1, 2, 1, 1, 1, 2, 2, 1, 3, 236, 89] = Inr (3, 1, 2, [])"
    by code_simp
  ultimately show ?thesis
    using stream_decodes_segments [of "[[1, 2], [5, 77, 85, 1, 3, 1, 1, 1, 1, 2, 1, 1, 1, 2, 2, 1, 3, 236, 89]]" "[7]"
      "[[1, 2, 0, 5, 77], [85, 1, 3, 1, 1, 1, 1, 2, 1, 1, 1, 2, 2, 1, 3], [236, 89, 0, 7]]"]
    by (auto split: sum.splits simp: is_ok_iff)
qed

text \<open>
  Property C17. The decoder recovers at the next delimiter: after arbitrary noise and one zero byte,
  the frames a host then encodes are all delivered, in order and unchanged, whatever state the
  decoder was in.
\<close>

theorem stream_resynchronises:
  assumes "max_encoded d \<ge> 276" and "encode_frames fs = Inr raw"
  shows "feed d (noise @ [0] @ raw) = (reset_decoder d, snd (feed d (noise @ [0])) @ fs)"
proof -
  have "feed (reset_decoder d) raw = (reset_decoder d, fs)"
    using assms by (intro feed_frames) auto
  moreover have "fst (feed d (noise @ [0])) = reset_decoder d"
    by (simp add: reset_after_delimiter reset_decoder_feed)
  ultimately show ?thesis
    using feed_append [of d "noise @ [0]" raw] by (simp add: case_prod_unfold)
qed

theorem stream_resynchronises_witness:
  "feed new_stream_decoder ([9, 9, 9] @ [0] @
      [5, 77, 85, 1, 3, 1, 1, 1, 1, 2, 1, 1, 1, 2, 2, 1, 3, 236, 89, 0]) =
    (reset_decoder new_stream_decoder, snd (feed new_stream_decoder ([9, 9, 9] @ [0])) @
      [\<lparr>uf_msg_type = 3, uf_session = 1, uf_sequence = 2, uf_payload = []\<rparr>])"
proof (rule stream_resynchronises)
  show "276 \<le> max_encoded new_stream_decoder" by (simp add: new_stream_decoder_def)
  show "encode_frames [\<lparr>uf_msg_type = 3, uf_session = 1, uf_sequence = 2, uf_payload = []\<rparr>] =
    Inr [5, 77, 85, 1, 3, 1, 1, 1, 1, 2, 1, 1, 1, 2, 2, 1, 3, 236, 89, 0]"
    by (simp add: usb_frame_vector)
qed

text \<open>A fresh decoder never buffers more than 380 bytes, whatever it is fed.\<close>

theorem stream_buffer_bounded: "length (buffer (fst (feed new_stream_decoder data))) \<le> 380"
proof -
  have "decoder_inv (fst (feed new_stream_decoder data))"
    by (rule feed_inv) (simp add: decoder_inv_def new_stream_decoder_def)
  then show ?thesis by (simp add: decoder_inv_def new_stream_decoder_def)
qed

end
