(* ===== verification/App_Frame.thy ===== *)
theory App_Frame
  imports Usb_Frame
begin

text \<open>
  The application protocol's frames and bodies (\<open>tools/lora_usb/application.py\<close>): \<open>encode\<close> and
  \<open>decode\<close>, and the bodies of HELLO, TELEMETRY, STOP_REQUEST and COMMAND_ACK. Each pair is a
  codec; all but STOP_REQUEST are canonical (STOP_REQUEST decodes a zero target session that
  its encoder refuses).
\<close>

subsection \<open>Constants and data\<close>

abbreviation (input) APP_MAGIC :: bytes where "APP_MAGIC \<equiv> [77, 65]"
abbreviation (input) MAX_BODY_SIZE :: nat where "MAX_BODY_SIZE \<equiv> 180"
abbreviation (input) MAX_FRAME_SIZE :: nat where "MAX_FRAME_SIZE \<equiv> 200"

abbreviation (input) APP_HELLO :: int where "APP_HELLO \<equiv> 0x01"
abbreviation (input) STOP_REQUEST :: int where "STOP_REQUEST \<equiv> 0x10"
abbreviation (input) COMMAND_ACK :: int where "COMMAND_ACK \<equiv> 0x11"
abbreviation (input) TELEMETRY :: int where "TELEMETRY \<equiv> 0x20"
abbreviation (input) RTCM_FRAGMENT :: int where "RTCM_FRAGMENT \<equiv> 0x30"

abbreviation (input) ROLE_BASE :: int where "ROLE_BASE \<equiv> 1"
abbreviation (input) ROLE_ROBOT :: int where "ROLE_ROBOT \<equiv> 2"
abbreviation (input) STOP_COMMAND :: int where "STOP_COMMAND \<equiv> 1"

abbreviation (input) ACK_APPLIED :: int where "ACK_APPLIED \<equiv> 0"
abbreviation (input) ACK_ALREADY_STOPPED :: int where "ACK_ALREADY_STOPPED \<equiv> 1"
abbreviation (input) ACK_EXPIRED :: int where "ACK_EXPIRED \<equiv> 2"
abbreviation (input) ACK_WRONG_TARGET_SESSION :: int where "ACK_WRONG_TARGET_SESSION \<equiv> 3"
abbreviation (input) ACK_UNSUPPORTED_COMMAND :: int where "ACK_UNSUPPORTED_COMMAND \<equiv> 4"
abbreviation (input) ACK_ID_CONFLICT :: int where "ACK_ID_CONFLICT \<equiv> 5"
abbreviation (input) ACK_STALE_ID :: int where "ACK_STALE_ID \<equiv> 6"

abbreviation (input) STATE_UNKNOWN :: int where "STATE_UNKNOWN \<equiv> 0"
abbreviation (input) STATE_RUNNING :: int where "STATE_RUNNING \<equiv> 1"
abbreviation (input) STATE_STOPPED :: int where "STATE_STOPPED \<equiv> 2"

record app_frame =
  af_typ :: int
  af_sender_session :: int
  af_message_id :: int
  af_source_age_ms :: int
  af_body :: bytes

record telemetry_sample =
  uptime_ms :: int
  latitude_e7 :: int
  longitude_e7 :: int
  speed_mm_s :: int
  battery_mv :: int
  last_rtcm_transport_age_ms :: int
  status_flags :: int
  fix_type :: int
  satellites :: int

record stop_request_body =
  target_session :: int
  command :: int
  reason :: int

record command_ack_body =
  request_session :: int
  request_id :: int
  ack_result :: int
  ack_state :: int

subsection \<open>Frames\<close>

definition app_header_and_body :: "app_frame \<Rightarrow> bytes result" where
  "app_header_and_body f =
     bindR (struct_pack [U 4, U 4, U 2, U 2]
              [af_sender_session f, af_message_id f, af_source_age_ms f, int (length (af_body f))])
       (\<lambda>hd. Inr (APP_MAGIC @ [1, byte_of (af_typ f), 0, 0] @ hd @ af_body f))"

definition app_encode :: "app_frame \<Rightarrow> bytes result" where
  "app_encode f =
     (if \<not> (0 \<le> af_typ f \<and> af_typ f \<le> 0xFF)
      then Inl (ApplicationError ''message type out of range'')
      else if \<not> (0 < af_sender_session f \<and> af_sender_session f \<le> 0xFFFFFFFF)
      then Inl (ApplicationError ''sender session out of range'')
      else if \<not> (0 < af_message_id f \<and> af_message_id f \<le> 0xFFFFFFFF)
      then Inl (ApplicationError ''message id out of range'')
      else if \<not> (0 \<le> af_source_age_ms f \<and> af_source_age_ms f \<le> 0xFFFF)
      then Inl (ApplicationError ''source age out of range'')
      else if length (af_body f) > MAX_BODY_SIZE
      then Inl (ApplicationError ''body too large'')
      else bindR (app_header_and_body f) (\<lambda>hb.
           bindR (struct_pack [U 2] [app_crc16 hb]) (\<lambda>crc. Inr (hb @ crc))))"

definition app_decode :: "bytes \<Rightarrow> app_frame result" where
  "app_decode raw =
     (if \<not> (20 \<le> length raw \<and> length raw \<le> MAX_FRAME_SIZE)
      then Inl (ApplicationError ''application frame size'')
      else if take 2 raw \<noteq> APP_MAGIC \<or> raw ! 2 \<noteq> 1 \<or> take 2 (drop 4 raw) \<noteq> [0, 0]
      then Inl (ApplicationError ''application frame header'')
      else bindR (struct_unpack_from [U 4, U 4, U 2, U 2] raw 6) (\<lambda>v.
        case v of
          [ses, mid, age, len] \<Rightarrow>
            (if ses = 0 \<or> mid = 0
             then Inl (ApplicationError ''zero application identity'')
             else if len > int MAX_BODY_SIZE \<or> int (length raw) \<noteq> 18 + len + 2
             then Inl (ApplicationError ''application frame length'')
             else if app_crc16 (take (length raw - 2) raw) \<noteq> unbe (drop (length raw - 2) raw)
             then Inl (ApplicationError ''application frame CRC'')
             else Inr \<lparr>af_typ = uint (raw ! 3), af_sender_session = ses, af_message_id = mid,
                       af_source_age_ms = age, af_body = take (length raw - 20) (drop 18 raw)\<rparr>)
        | _ \<Rightarrow> Inl StructError))"

subsection \<open>Bodies\<close>

definition encode_hello :: "int \<Rightarrow> int \<Rightarrow> bytes result" where
  "encode_hello role caps =
     (if role \<notin> {ROLE_BASE, ROLE_ROBOT} \<or> \<not> (0 \<le> caps \<and> caps \<le> 0xFFFF)
      then Inl (ApplicationError ''HELLO fields'')
      else struct_pack [U 1, U 2] [role, caps])"

definition decode_hello :: "bytes \<Rightarrow> (int \<times> int) result" where
  "decode_hello body =
     (if length body \<noteq> 3 then Inl (ApplicationError ''HELLO body'')
      else bindR (struct_unpack [U 1, U 2] body) (\<lambda>v.
        case v of
          [role, caps] \<Rightarrow>
            (if role \<notin> {ROLE_BASE, ROLE_ROBOT} then Inl (ApplicationError ''HELLO role'')
             else Inr (role, caps))
        | _ \<Rightarrow> Inl StructError))"

abbreviation (input) telemetry_fmt :: "field list" where
  "telemetry_fmt \<equiv> [U 4, S 4, S 4, U 2, U 2, U 2, U 2, U 1, U 1, U 2]"

definition encode_telemetry :: "telemetry_sample \<Rightarrow> bytes result" where
  "encode_telemetry sample =
     (case struct_pack telemetry_fmt
        [uptime_ms sample, latitude_e7 sample, longitude_e7 sample, speed_mm_s sample,
         battery_mv sample, last_rtcm_transport_age_ms sample, status_flags sample,
         fix_type sample, satellites sample, 0] of
        Inl _ \<Rightarrow> Inl (ApplicationError ''telemetry field range'')
      | Inr bs \<Rightarrow> Inr bs)"

definition decode_telemetry :: "bytes \<Rightarrow> telemetry_sample result" where
  "decode_telemetry body =
     (if length body \<noteq> 24 then Inl (ApplicationError ''telemetry body'')
      else bindR (struct_unpack telemetry_fmt body) (\<lambda>v.
        case v of
          [up, lat, lon, spd, bat, age, flags, fixt, sats, res] \<Rightarrow>
            (if res \<noteq> 0 then Inl (ApplicationError ''telemetry reserved field'')
             else Inr \<lparr>uptime_ms = up, latitude_e7 = lat, longitude_e7 = lon, speed_mm_s = spd,
                       battery_mv = bat, last_rtcm_transport_age_ms = age, status_flags = flags,
                       fix_type = fixt, satellites = sats\<rparr>)
        | _ \<Rightarrow> Inl StructError))"

definition encode_stop :: "stop_request_body \<Rightarrow> bytes result" where
  "encode_stop r =
     (if \<not> (0 < target_session r \<and> target_session r \<le> 0xFFFFFFFF)
      then Inl (ApplicationError ''STOP target session'')
      else if \<not> (0 \<le> command r \<and> command r \<le> 0xFF) \<or> \<not> (0 \<le> reason r \<and> reason r \<le> 0xFF)
      then Inl (ApplicationError ''STOP fields'')
      else struct_pack [U 4, U 1, U 1] [target_session r, command r, reason r])"

definition decode_stop :: "bytes \<Rightarrow> stop_request_body result" where
  "decode_stop body =
     (if length body \<noteq> 6 then Inl (ApplicationError ''STOP body'')
      else bindR (struct_unpack [U 4, U 1, U 1] body) (\<lambda>v.
        case v of
          [t, c, r] \<Rightarrow> Inr \<lparr>target_session = t, command = c, reason = r\<rparr>
        | _ \<Rightarrow> Inl StructError))"

definition encode_ack :: "command_ack_body \<Rightarrow> bytes result" where
  "encode_ack ack =
     (if \<not> (0 < request_session ack \<and> request_session ack \<le> 0xFFFFFFFF) \<or>
         \<not> (0 < request_id ack \<and> request_id ack \<le> 0xFFFFFFFF)
      then Inl (ApplicationError ''ACK identity'')
      else if \<not> (ACK_APPLIED \<le> ack_result ack \<and> ack_result ack < ACK_STALE_ID + 1)
      then Inl (ApplicationError ''ACK result'')
      else if ack_state ack \<notin> {STATE_UNKNOWN, STATE_RUNNING, STATE_STOPPED}
      then Inl (ApplicationError ''ACK state'')
      else struct_pack [U 4, U 4, U 1, U 1]
             [request_session ack, request_id ack, ack_result ack, ack_state ack])"

definition decode_ack :: "bytes \<Rightarrow> command_ack_body result" where
  "decode_ack body =
     (if length body \<noteq> 10 then Inl (ApplicationError ''ACK body'')
      else bindR (struct_unpack [U 4, U 4, U 1, U 1] body) (\<lambda>v.
        case v of
          [s, i, r, st] \<Rightarrow>
            (let ack = \<lparr>request_session = s, request_id = i, ack_result = r, ack_state = st\<rparr>
             in bindR (encode_ack ack) (\<lambda>_. Inr ack))
        | _ \<Rightarrow> Inl StructError))"


subsection \<open>Encoding and decoding a frame are one relation\<close>

lemma app_header_and_body_Inr_iff:
  "app_header_and_body f = Inr hb \<longleftrightarrow>
     0 \<le> af_sender_session f \<and> af_sender_session f < 2 ^ 32 \<and>
     0 \<le> af_message_id f \<and> af_message_id f < 2 ^ 32 \<and>
     0 \<le> af_source_age_ms f \<and> af_source_age_ms f < 2 ^ 16 \<and> length (af_body f) < 2 ^ 16 \<and>
     hb = APP_MAGIC @ [1, byte_of (af_typ f), 0, 0] @ be 4 (af_sender_session f) @
       be 4 (af_message_id f) @ be 2 (af_source_age_ms f) @ be 2 (int (length (af_body f))) @
       af_body f"
  by (auto simp: app_header_and_body_def bindR_Inr_iff codec_simps)

lemma app_encode_Inr_iff:
  "app_encode f = Inr raw \<longleftrightarrow>
     0 \<le> af_typ f \<and> af_typ f \<le> 0xFF \<and> 0 < af_sender_session f \<and> 0 < af_message_id f \<and>
     length (af_body f) \<le> 180 \<and>
     (\<exists>hb. app_header_and_body f = Inr hb \<and> raw = hb @ be 2 (crc16 hb))"
proof -
  have "struct_pack [U 2] [app_crc16 hb] = Inr (be 2 (crc16 hb))" for hb
    using crc16_range [of hb] by (simp add: struct_pack_def app_crc16_eq)
  then show ?thesis
    by (auto simp: app_encode_def bindR_Inr_iff app_header_and_body_Inr_iff)
qed

lemma app_decode_encode:
  assumes "app_encode f = Inr raw"
  shows "app_decode raw = Inr f"
proof -
  obtain hb where hb: "app_header_and_body f = Inr hb" and raw: "raw = hb @ be 2 (crc16 hb)"
    and r: "0 \<le> af_typ f" "af_typ f \<le> 255" "0 < af_sender_session f" "0 < af_message_id f"
      "length (af_body f) \<le> 180"
    using assms by (auto simp: app_encode_Inr_iff)
  have crc: "unbe (be 2 (crc16 hb)) = crc16 hb"
    using crc16_range [of hb] by (simp add: unbe_2)
  have eq: "hb = APP_MAGIC @ [1, byte_of (af_typ f), 0, 0] @ be 4 (af_sender_session f) @
       be 4 (af_message_id f) @ be 2 (af_source_age_ms f) @ be 2 (int (length (af_body f))) @
       af_body f"
    using hb by (simp add: app_header_and_body_Inr_iff)
  have len: "length raw = 20 + length (af_body f)" by (simp add: raw eq)
  have trailer: "take (length raw - 2) raw = hb" "drop (length raw - 2) raw = be 2 (crc16 hb)"
    by (simp_all add: raw)
  have parts: "take 2 raw = APP_MAGIC" "raw ! 2 = 1" "take 2 (drop 4 raw) = [0, 0]"
      "raw ! 3 = byte_of (af_typ f)" "take (length raw - 20) (drop 18 raw) = af_body f"
    by (simp_all add: raw eq)
  have "struct_unpack_from [U 4, U 4, U 2, U 2] raw 6 =
      Inr [af_sender_session f, af_message_id f, af_source_age_ms f, int (length (af_body f))]"
    using hb r
    by (simp add: struct_unpack_from_def raw eq app_header_and_body_Inr_iff unbe_2 unbe_4)
  moreover have "take (18 + length (af_body f)) raw = hb"
      "drop (18 + length (af_body f)) raw = be 2 (crc16 hb)"
      "take (length (af_body f)) (drop 18 raw) = af_body f"
    using trailer parts len by simp_all
  ultimately show ?thesis
    using r len by (simp add: app_decode_def parts(1-4) crc app_crc16_eq uint_byte_of)
qed

lemma app_encode_ok:
  assumes "0 \<le> af_typ f" "af_typ f \<le> 0xFF" "0 < af_sender_session f" "af_sender_session f < 2 ^ 32"
    and "0 < af_message_id f" "af_message_id f < 2 ^ 32" "0 \<le> af_source_age_ms f"
    and "af_source_age_ms f < 2 ^ 16" "length (af_body f) \<le> 180"
  shows "\<exists>bs. app_encode f = Inr bs \<and> length bs = 20 + length (af_body f) \<and> app_decode bs = Inr f"
proof -
  have hb: "app_header_and_body f = Inr (APP_MAGIC @ [1, byte_of (af_typ f), 0, 0] @
      be 4 (af_sender_session f) @ be 4 (af_message_id f) @ be 2 (af_source_age_ms f) @
      be 2 (int (length (af_body f))) @ af_body f)"
    using assms by (simp add: app_header_and_body_Inr_iff)
  let ?hb = "projr (app_header_and_body f)"
  have enc: "app_encode f = Inr (?hb @ be 2 (crc16 ?hb))"
    using assms by (simp add: app_encode_Inr_iff hb)
  then have "app_decode (?hb @ be 2 (crc16 ?hb)) = Inr f" by (rule app_decode_encode)
  with enc show ?thesis by (simp add: hb)
qed

lemma app_decode_Inr_imp:
  assumes "app_decode raw = Inr f"
  shows "20 \<le> length raw" "length raw \<le> 200" "take 2 raw = APP_MAGIC" "raw ! 2 = 1"
    "take 2 (drop 4 raw) = [0, 0]" "af_typ f = uint (raw ! 3)"
    "struct_unpack_from [U 4, U 4, U 2, U 2] raw 6 =
      Inr [af_sender_session f, af_message_id f, af_source_age_ms f, int (length (af_body f))]"
    "af_sender_session f \<noteq> 0" "af_message_id f \<noteq> 0" "length (af_body f) \<le> 180"
    "af_body f = take (length raw - 20) (drop 18 raw)" "sealed 2 crc16 raw"
  using assms
  by (auto simp: app_decode_def bindR_Inr_iff list_case_4 sealed_def app_crc16_eq split: if_splits)

lemma app_encode_decode:
  assumes dec: "app_decode raw = Inr f"
  shows "app_encode f = Inr raw"
proof -
  note d = app_decode_Inr_imp [OF dec]
  let ?vs = "[af_sender_session f, af_message_id f, af_source_age_ms f, int (length (af_body f))]"
  let ?n = "length raw"
  have hd: "struct_pack [U 4, U 4, U 2, U 2] ?vs = Inr (take 12 (drop 6 raw))"
    using d(1,7)
    by (intro struct_pack_unpack) (simp add: struct_unpack_def struct_unpack_from_def)
  have "raw ! 4 = 0" "raw ! 5 = 0" "raw ! 0 = 77" "raw ! 1 = 65"
    using d(1,3,5) by (auto simp: numeral_eq_Suc Suc_le_length_iff)
  then have six: "take 6 raw = APP_MAGIC @ [1, byte_of (af_typ f), 0, 0]"
    using d(1,4,6) by (simp add: take_6_nth)
  have "take (?n - 2) raw = take 6 raw @ take 12 (drop 6 raw) @ take (?n - 20) (drop 18 raw)"
    using take_add [of 6 "?n - 8" raw] take_add [of 12 "?n - 20" "drop 6 raw"] d(1) by simp
  then have "app_header_and_body f = Inr (take (?n - 2) raw)"
    using hd d(11) six by (simp add: app_header_and_body_def)
  moreover have "0 \<le> af_typ f" "af_typ f \<le> 255"
    using d(6) uint_byte_bounds [of "raw ! 3"] by auto
  ultimately show ?thesis
    using d(8-10) sealed_split [OF d(12)]
    by (auto simp: app_encode_Inr_iff app_header_and_body_Inr_iff)
qed

interpretation app_codec: canonical_codec app_encode app_decode
  by unfold_locales (rule app_decode_encode, assumption, rule app_encode_decode, assumption)

subsection \<open>The bodies\<close>

lemma struct_pack_length: "struct_pack fs xs = Inr bs \<Longrightarrow> length bs = calcsize fs"
  by (auto simp: codec_simps)

lemma decode_hello_Inr_iff:
  "decode_hello body = Inr (role, caps) \<longleftrightarrow> encode_hello role caps = Inr body"
proof -
  have "decode_hello body = Inr (role, caps) \<longleftrightarrow>
      length body = 3 \<and> role \<in> {1, 2} \<and> struct_pack [U 1, U 2] [role, caps] = Inr body"
    by (auto simp: decode_hello_def bindR_Inr_iff list_case_2 struct_unpack_iff_pack)
  also have "\<dots> \<longleftrightarrow> encode_hello role caps = Inr body"
    by (auto simp: encode_hello_def dest: struct_pack_length) (auto simp: codec_simps)
  finally show ?thesis .
qed

interpretation hello_codec: canonical_codec "\<lambda>(role, caps). encode_hello role caps" decode_hello
  by unfold_locales (auto simp: decode_hello_Inr_iff)

lemma decode_stop_Inr_iff:
  "decode_stop body = Inr r \<longleftrightarrow>
     struct_pack [U 4, U 1, U 1] [target_session r, command r, reason r] = Inr body"
  by (cases r) (auto simp: decode_stop_def bindR_Inr_iff list_case_3 struct_unpack_iff_pack
      dest: struct_pack_length)

lemma encode_stop_Inr_iff:
  "encode_stop r = Inr body \<longleftrightarrow> decode_stop body = Inr r \<and> target_session r \<noteq> 0"
  by (auto simp: decode_stop_Inr_iff encode_stop_def codec_simps)

interpretation stop_codec: codec encode_stop decode_stop
  by unfold_locales (simp add: encode_stop_Inr_iff)

lemma decode_ack_Inr_iff: "decode_ack body = Inr ack \<longleftrightarrow> encode_ack ack = Inr body"
proof -
  have "decode_ack body = Inr ack \<longleftrightarrow> length body = 10 \<and> is_ok (encode_ack ack) \<and>
      struct_pack [U 4, U 4, U 1, U 1]
        [request_session ack, request_id ack, ack_result ack, ack_state ack] = Inr body"
    by (cases ack) (auto simp: decode_ack_def bindR_Inr_iff list_case_4 struct_unpack_iff_pack
        Let_def is_ok_iff)
  also have "\<dots> \<longleftrightarrow> encode_ack ack = Inr body"
    by (auto simp: encode_ack_def is_ok_iff dest: struct_pack_length)
  finally show ?thesis .
qed

interpretation ack_codec: canonical_codec encode_ack decode_ack
  by unfold_locales (simp_all add: decode_ack_Inr_iff)

lemma decode_telemetry_Inr_iff: "decode_telemetry body = Inr t \<longleftrightarrow> encode_telemetry t = Inr body"
proof -
  have "decode_telemetry body = Inr t \<longleftrightarrow> length body = 24 \<and> encode_telemetry t = Inr body"
    by (cases t) (auto simp: decode_telemetry_def encode_telemetry_def bindR_Inr_iff list_case_10
        struct_unpack_iff_pack split: sum.splits)
  then show ?thesis
    by (auto simp: encode_telemetry_def dest: struct_pack_length split: sum.splits)
qed

interpretation telemetry_codec: canonical_codec encode_telemetry decode_telemetry
  by unfold_locales (simp_all add: decode_telemetry_Inr_iff)


subsection \<open>Properties\<close>

lemma app_decode_cases:
  "(\<exists>f. app_decode raw = Inr f) \<or> (\<exists>e. app_decode raw = Inl (ApplicationError e))"
  by (simp add: app_decode_def struct_unpack_from_def)

lemma app_frame_vector:
  "app_decode [77, 65, 1, 32, 0, 0, 0, 0, 0, 1, 0, 0, 0, 9, 0, 0, 0, 0, 81, 68] =
     Inr \<lparr>af_typ = TELEMETRY, af_sender_session = 1, af_message_id = 9, af_source_age_ms = 0,
          af_body = []\<rparr>"
  by code_simp

text \<open>
  Property C30. The application frame codec is canonical: a frame encodes to some bytes exactly when
  those bytes decode to the frame.
\<close>

theorem app_frame_canonical: "app_encode f = Inr raw \<longleftrightarrow> app_decode raw = Inr f"
  by (rule app_codec.enc_iff_dec)

text \<open>
  Any change of one byte of an accepted application frame makes \<open>decode\<close> raise an
  application error.
\<close>

theorem app_corruption_detected:
  assumes "app_decode raw = Inr f" and "i < length raw" and "b \<noteq> raw ! i"
  shows "\<exists>e. app_decode (raw[i := b]) = Inl (ApplicationError e)"
proof -
  have "\<not> sealed 2 crc16 (raw[i := b])"
    using app_decode_Inr_imp(12) [OF assms(1)] assms(2,3) by (rule sealed_crc16_change)
  then have "app_decode (raw[i := b]) \<noteq> Inr g" for g
    using app_decode_Inr_imp(12) by blast
  then show ?thesis using app_decode_cases by blast
qed

theorem app_corruption_detected_witness:
  "\<exists>e. app_decode ([77, 65, 1, 32, 0, 0, 0, 0, 0, 1, 0, 0, 0, 9, 0, 0, 0, 0, 81, 68][13 := 8]) =
     Inl (ApplicationError e)"
  by (rule app_corruption_detected [OF app_frame_vector]) simp_all

text \<open>
  The bodies' codecs agree with their wire formats: HELLO, TELEMETRY and COMMAND_ACK
  are canonical, and STOP_REQUEST is but for the zero target session, which only the decoder
  accepts.
\<close>

theorem body_codecs_canonical:
  "(encode_hello role caps = Inr body \<longleftrightarrow> decode_hello body = Inr (role, caps)) \<and>
   (encode_telemetry t = Inr body \<longleftrightarrow> decode_telemetry body = Inr t) \<and>
   (encode_ack ack = Inr body \<longleftrightarrow> decode_ack body = Inr ack) \<and>
   (encode_stop r = Inr body \<longleftrightarrow> decode_stop body = Inr r \<and> target_session r \<noteq> 0)"
  by (simp add: decode_hello_Inr_iff decode_telemetry_Inr_iff decode_ack_Inr_iff
      encode_stop_Inr_iff)

end
