(* ===== verification/Rtcm_Frame.thy ===== *)
theory Rtcm_Frame
  imports App_Frame
begin

unbundle bit_operations_syntax

text \<open>
  RTCM3 frames as the transport sees them (\<open>valid_rtcm3\<close>, \<open>rtcm_type\<close>), their fragmentation into
  application frames (\<open>fragment\<close>) and the synthetic frames of the benches (\<open>synthetic_rtcm\<close>,
  \<open>synthetic_epoch\<close>), all of \<open>tools/lora_usb/application.py\<close>. The lemmas show what a valid frame
  is, that fragments are few, small and complete, and that synthetic frames are valid.
\<close>

abbreviation (input) RTCM_FRAGMENT_DATA_SIZE :: nat where "RTCM_FRAGMENT_DATA_SIZE \<equiv> 174"
abbreviation (input) MAX_RTCM_FRAME_SIZE :: nat where "MAX_RTCM_FRAME_SIZE \<equiv> 1029"
abbreviation (input) MAX_RTCM_FRAGMENTS :: nat where "MAX_RTCM_FRAGMENTS \<equiv> 6"
abbreviation (input) RTCM_TRANSPORT_TTL_MS :: int where "RTCM_TRANSPORT_TTL_MS \<equiv> 1000"

subsection \<open>The code\<close>

definition rtcm_payload_length :: "bytes \<Rightarrow> int" where
  "rtcm_payload_length raw = (push_bit 8 (uint (raw ! 1) AND 0x03)) OR uint (raw ! 2)"

definition valid_rtcm3 :: "bytes \<Rightarrow> bool" where
  "valid_rtcm3 raw =
     (if length raw < 6 \<or> raw ! 0 \<noteq> 0xD3 \<or> raw ! 1 AND 0xFC \<noteq> 0 then False
      else int (length raw) = rtcm_payload_length raw + 6 \<and>
           crc24q (take (length raw - 3) raw) = unbe (drop (length raw - 3) raw))"

definition rtcm_type :: "bytes \<Rightarrow> int result" where
  "rtcm_type raw =
     (if \<not> valid_rtcm3 raw then Inl (ApplicationError ''invalid RTCM3 frame'')
      else Inr (drop_bit 4 (unbe (take 2 (drop 3 raw)))))"

definition fragment_data :: "bytes \<Rightarrow> nat \<Rightarrow> bytes" where
  "fragment_data raw i = take RTCM_FRAGMENT_DATA_SIZE (drop (i * RTCM_FRAGMENT_DATA_SIZE) raw)"

definition fragment_count :: "nat \<Rightarrow> nat" where
  "fragment_count n = (n + RTCM_FRAGMENT_DATA_SIZE - 1) div RTCM_FRAGMENT_DATA_SIZE"

definition fragment_at :: "bytes \<Rightarrow> int \<Rightarrow> int \<Rightarrow> int \<Rightarrow> nat \<Rightarrow> app_frame result" where
  "fragment_at raw ses mid age i =
     bindR (rtcm_type raw) (\<lambda>typ.
     bindR (struct_pack [U 2, U 2, U 1, U 1]
              [typ, int (length raw), int i, int (fragment_count (length raw))]) (\<lambda>hd.
     Inr \<lparr>af_typ = RTCM_FRAGMENT, af_sender_session = ses, af_message_id = mid,
          af_source_age_ms = age, af_body = hd @ fragment_data raw i\<rparr>))"

definition fragment :: "bytes \<Rightarrow> int \<Rightarrow> int \<Rightarrow> int \<Rightarrow> app_frame list result" where
  "fragment raw ses mid age =
     (if \<not> valid_rtcm3 raw \<or> length raw > MAX_RTCM_FRAME_SIZE
      then Inl (ApplicationError ''RTCM frame'')
      else if fragment_count (length raw) > MAX_RTCM_FRAGMENTS
      then Inl (ApplicationError ''too many RTCM fragments'')
      else mapR (fragment_at raw ses mid age) [0..<fragment_count (length raw)])"

subsection \<open>Synthetic frames\<close>

text \<open>\<open>payload[:2] = ...\<close> inserts the two bytes where the payload is shorter than two.\<close>

definition synthetic_payload :: "int \<Rightarrow> nat \<Rightarrow> int \<Rightarrow> bytes" where
  "synthetic_payload typ n seed =
     (let payload = be 2 (push_bit 4 typ AND 0xFFFF) @ replicate (n - 2) 0
      in map (\<lambda>i. if i < 2 then payload ! i
                  else byte_of ((seed * 31 + int i * 17) AND 0xFF)) [0..<length payload])"

definition synthetic_rtcm :: "int \<Rightarrow> nat \<Rightarrow> int \<Rightarrow> bytes result" where
  "synthetic_rtcm typ n seed =
     (if \<not> (6 \<le> n \<and> n \<le> MAX_RTCM_FRAME_SIZE)
      then Inl (ApplicationError ''synthetic RTCM length'')
      else (let payload = synthetic_payload typ (n - 6) seed;
                len = int (length payload);
                hp = [0xD3] @ [byte_of (drop_bit 8 len AND 0x03), byte_of (len AND 0xFF)] @ payload
            in bindR (struct_pack [U 3] [crc24q hp]) (\<lambda>crc. Inr (hp @ crc))))"

definition RTCM_OBSERVATION_SIZES :: "(int \<times> nat) list" where
  "RTCM_OBSERVATION_SIZES = [(1077, 446), (1087, 226), (1097, 446), (1127, 586)]"

definition RTCM_STATIC_SIZES :: "(int \<times> nat) list" where
  "RTCM_STATIC_SIZES = [(1005, 25), (1230, 18)]"

definition synthetic_epoch :: "int \<Rightarrow> bytes list result" where
  "synthetic_epoch epoch =
     bindR (mapR (\<lambda>(typ, n). synthetic_rtcm typ n epoch) RTCM_OBSERVATION_SIZES) (\<lambda>obs.
     if epoch mod 10 = 0
     then bindR (mapR (\<lambda>(typ, n). synthetic_rtcm typ n epoch) RTCM_STATIC_SIZES)
            (\<lambda>stat. Inr (obs @ stat))
     else Inr obs)"


subsection \<open>What a valid frame is\<close>

lemma rtcm_payload_length_eq:
  "rtcm_payload_length raw = (uint (raw ! 1) AND 3) * 256 + uint (raw ! 2)"
proof -
  have "concat_bit 8 (uint (raw ! 2)) (uint (raw ! 1) AND 3) = uint (raw ! 2) + push_bit 8 (uint (raw ! 1) AND 3)"
    using uint_byte_bounds [of "raw ! 2"] by (simp add: concat_bit_eq take_bit_eq_mod)
  moreover have "concat_bit 8 (uint (raw ! 2)) (uint (raw ! 1) AND 3) = rtcm_payload_length raw"
    using uint_byte_bounds [of "raw ! 2"]
    by (simp add: concat_bit_def rtcm_payload_length_def take_bit_eq_mod or.commute)
  ultimately show ?thesis by (simp add: push_bit_eq_mult)
qed

lemma rtcm_payload_length_bounds: "0 \<le> rtcm_payload_length raw \<and> rtcm_payload_length raw \<le> 1023"
proof -
  have "uint (raw ! 1) AND 3 = uint (raw ! 1) mod 4"
    using take_bit_eq_mask [of 2 "uint (raw ! 1)"] by (simp add: take_bit_eq_mod mask_eq_exp_minus_1)
  then have "0 \<le> uint (raw ! 1) AND 3" and "uint (raw ! 1) AND 3 \<le> 3"
    using pos_mod_bound [of 4 "uint (raw ! 1)"] by simp_all
  then show ?thesis
    using uint_byte_bounds [of "raw ! 2"] unfolding rtcm_payload_length_eq by linarith
qed

lemma valid_rtcm3_iff:
  "valid_rtcm3 raw \<longleftrightarrow> 6 \<le> length raw \<and> raw ! 0 = 0xD3 \<and> raw ! 1 AND 0xFC = 0 \<and>
     int (length raw) = rtcm_payload_length raw + 6 \<and> sealed 3 crc24q raw"
  by (auto simp: valid_rtcm3_def sealed_def)

lemma valid_rtcm3_length: "valid_rtcm3 raw \<Longrightarrow> 6 \<le> length raw \<and> length raw \<le> MAX_RTCM_FRAME_SIZE"
  using rtcm_payload_length_bounds [of raw] by (auto simp: valid_rtcm3_iff)

lemma rtcm_type_valid:
  assumes "valid_rtcm3 raw"
  obtains t where "rtcm_type raw = Inr t" and "0 \<le> t" and "t < 4096"
proof -
  let ?t = "drop_bit 4 (unbe (take 2 (drop 3 raw)))"
  have len: "length (take 2 (drop 3 raw)) = 2" using valid_rtcm3_length [OF assms] by auto
  have "unbe (take 2 (drop 3 raw)) < 65536" and "0 \<le> unbe (take 2 (drop 3 raw))"
    using unbe_bounds [of "take 2 (drop 3 raw)"] unfolding len by simp_all
  then have "0 \<le> ?t" and "?t < 4096"
    by (simp_all add: drop_bit_eq_div div_less_iff_less_mult)
  with assms show ?thesis by (intro that [of ?t]) (simp_all add: rtcm_type_def)
qed

text \<open>
  Any change of a single byte of a valid RTCM frame is noticed: the changed frame
  is not valid, so it is neither parsed, nor fragmented, nor returned by the reassembler.
\<close>

theorem rtcm_corruption_detected:
  assumes "valid_rtcm3 raw" and "i < length raw" and "b \<noteq> raw ! i"
  shows "\<not> valid_rtcm3 (raw[i := b]) \<and>
    rtcm_type (raw[i := b]) = Inl (ApplicationError ''invalid RTCM3 frame'') \<and>
    fragment (raw[i := b]) ses mid age = Inl (ApplicationError ''RTCM frame'')"
proof -
  have "\<not> valid_rtcm3 (raw[i := b])"
    using sealed_byte_change [of crc24q 3 raw i b] crc24q_update_change assms
    by (auto simp: valid_rtcm3_iff)
  then show ?thesis by (simp add: rtcm_type_def fragment_def)
qed

lemma rtcm_vector: "valid_rtcm3 [211, 0, 2, 62, 208, 164, 224, 0]"
  by code_simp

lemma rtcm_corruption_detected_witness:
  "\<not> valid_rtcm3 [211, 0, 2, 62, 209, 164, 224, 0]"
  using rtcm_corruption_detected [OF rtcm_vector, of 4 209] by simp


subsection \<open>What fragments are\<close>

lemma fragment_count_bounds:
  "6 \<le> n \<Longrightarrow> n \<le> MAX_RTCM_FRAME_SIZE \<Longrightarrow>
     1 \<le> fragment_count n \<and> fragment_count n \<le> MAX_RTCM_FRAGMENTS \<and>
     174 * (fragment_count n - 1) < n \<and> n \<le> 174 * fragment_count n"
proof -
  assume n: "6 \<le> n" "n \<le> MAX_RTCM_FRAME_SIZE"
  define k where "k = fragment_count n"
  define r where "r = (n + 173) mod 174"
  have "k = (n + 173) div 174" by (simp add: k_def fragment_count_def)
  then have "n + 173 = 174 * k + r"
    using mult_div_mod_eq [of 174 "n + 173"] unfolding r_def by (simp only:)
  moreover have "r < 174" by (simp add: r_def)
  ultimately show ?thesis unfolding k_def [symmetric] using n by linarith
qed

lemma full_fragment:
  assumes "6 \<le> n" and "n \<le> MAX_RTCM_FRAME_SIZE" and "Suc i < fragment_count n"
  shows "174 + 174 * i \<le> n"
proof -
  obtain k where k: "fragment_count n = Suc k" using assms(3) by (cases "fragment_count n") auto
  with assms have "174 + 174 * i \<le> 174 * k" by simp
  moreover from fragment_count_bounds [OF assms(1,2)] k have "174 * k < n" by simp
  ultimately show ?thesis by linarith
qed

lemma length_fragment_data:
  "length (fragment_data raw i) = min 174 (length raw - 174 * i)"
  by (simp add: fragment_data_def mult.commute)

lemma concat_fragment_data: "concat (map (fragment_data raw) [0..<n]) = take (174 * n) raw"
proof (induction n)
  case (Suc n)
  have "take (174 * n + 174) raw = take (174 * n) raw @ take 174 (drop (174 * n) raw)"
    by (rule take_add)
  with Suc show ?case by (simp add: fragment_data_def mult.commute add.commute)
qed simp

lemma concat_all_fragment_data:
  "6 \<le> length raw \<Longrightarrow> length raw \<le> MAX_RTCM_FRAME_SIZE \<Longrightarrow>
     concat (map (fragment_data raw) [0..<fragment_count (length raw)]) = raw"
  using fragment_count_bounds [of "length raw"] by (simp add: concat_fragment_data)

text \<open>The application frame of fragment \<open>i\<close> of a frame of message type \<open>t\<close>.\<close>

definition fragment_frame :: "int \<Rightarrow> bytes \<Rightarrow> int \<Rightarrow> int \<Rightarrow> int \<Rightarrow> nat \<Rightarrow> app_frame" where
  "fragment_frame t raw ses mid age i =
     \<lparr>af_typ = RTCM_FRAGMENT, af_sender_session = ses, af_message_id = mid, af_source_age_ms = age,
      af_body = pack_fields [U 2, U 2, U 1, U 1]
        [t, int (length raw), int i, int (fragment_count (length raw))] @ fragment_data raw i\<rparr>"

lemma fragment_pack_ok:
  "0 \<le> t \<Longrightarrow> t < 65536 \<Longrightarrow> 6 \<le> n \<Longrightarrow> n \<le> MAX_RTCM_FRAME_SIZE \<Longrightarrow> i < fragment_count n \<Longrightarrow>
     pack_ok [U 2, U 2, U 1, U 1] [t, int n, int i, int (fragment_count n)]"
  using fragment_count_bounds [of n] by simp

lemma fragment_at_eq:
  assumes "valid_rtcm3 raw" and "rtcm_type raw = Inr t" and "i < fragment_count (length raw)"
  shows "fragment_at raw ses mid age i = Inr (fragment_frame t raw ses mid age i)"
proof -
  obtain t' where "rtcm_type raw = Inr t'" "0 \<le> t'" "t' < 4096"
    using rtcm_type_valid [OF assms(1)] .
  with assms fragment_pack_ok [of t "length raw" i] valid_rtcm3_length [OF assms(1)]
  show ?thesis
    by (simp add: fragment_at_def fragment_frame_def struct_pack_def del: pack_fields.simps)
qed

lemma fragment_eq:
  assumes "valid_rtcm3 raw" and "rtcm_type raw = Inr t"
  shows "fragment raw ses mid age =
           Inr (map (fragment_frame t raw ses mid age) [0..<fragment_count (length raw)])"
  using assms valid_rtcm3_length [OF assms(1)] fragment_count_bounds [of "length raw"]
  by (simp add: fragment_def) (auto intro!: mapR_Inr fragment_at_eq)

lemma fragment_frame_simps [simp]:
  "af_typ (fragment_frame t raw ses mid age i) = RTCM_FRAGMENT"
  "af_sender_session (fragment_frame t raw ses mid age i) = ses"
  "af_message_id (fragment_frame t raw ses mid age i) = mid"
  "af_source_age_ms (fragment_frame t raw ses mid age i) = age"
  "drop 6 (af_body (fragment_frame t raw ses mid age i)) = fragment_data raw i"
  "length (af_body (fragment_frame t raw ses mid age i)) = 6 + length (fragment_data raw i)"
  by (simp_all add: fragment_frame_def)

lemma fragment_frame_header:
  "af_body (fragment_frame t raw ses mid age i) ! 4 = byte_of (int i)"
  "af_body (fragment_frame t raw ses mid age i) ! 5 = byte_of (int (fragment_count (length raw)))"
  by (simp_all add: fragment_frame_def nth_append be_numeral byte_of_def)

text \<open>
  Every valid RTCM frame can be fragmented: one to six fragments, all under the
  given identity and age, numbered by the index in their header, every one but the last with
  exactly 174 bytes of data, and their data put together is the frame again.
\<close>

theorem fragments_complete:
  assumes "valid_rtcm3 raw"
  shows "\<exists>fs. fragment raw ses mid age = Inr fs \<and> 1 \<le> length fs \<and> length fs \<le> MAX_RTCM_FRAGMENTS \<and>
     concat (map (\<lambda>f. drop 6 (af_body f)) fs) = raw \<and>
     (\<forall>i<length fs. af_typ (fs ! i) = RTCM_FRAGMENT \<and> af_sender_session (fs ! i) = ses \<and>
        af_message_id (fs ! i) = mid \<and> af_source_age_ms (fs ! i) = age \<and>
        af_body (fs ! i) ! 4 = byte_of (int i) \<and> af_body (fs ! i) ! 5 = byte_of (int (length fs)) \<and>
        (Suc i < length fs \<longrightarrow> length (af_body (fs ! i)) = 6 + RTCM_FRAGMENT_DATA_SIZE))"
proof -
  obtain t where t: "rtcm_type raw = Inr t" using rtcm_type_valid [OF assms] .
  define n where "n = fragment_count (length raw)"
  have b: "6 \<le> length raw" "length raw \<le> 1029" using valid_rtcm3_length [OF assms] by auto
  note n = fragment_count_bounds [OF b, folded n_def]
  have nth: "map (fragment_frame t raw ses mid age) [0..<n] ! i = fragment_frame t raw ses mid age i"
    if "i < n" for i using that by simp
  have full: "length (fragment_data raw i) = 174" if "Suc i < n" for i
    using full_fragment [OF b, of i] that by (simp add: length_fragment_data n_def)
  have all: "concat (map (fragment_data raw) [0..<n]) = raw"
    using concat_all_fragment_data [OF b] by (simp add: n_def)
  show ?thesis
    unfolding fragment_eq [OF assms t] n_def [symmetric]
    by (rule exI [of _ "map (fragment_frame t raw ses mid age) [0..<n]"])
      (use n all in \<open>simp add: nth comp_def full fragment_frame_header n_def [symmetric]\<close>)
qed

lemma fragment_frame_encodes:
  assumes "0 < ses" "ses < 2 ^ 32" and "0 < mid" "mid < 2 ^ 32" and "0 \<le> age" "age < 2 ^ 16"
  obtains bs where "app_encode (fragment_frame t raw ses mid age i) = Inr bs" and "length bs \<le> 200"
    and "app_decode bs = Inr (fragment_frame t raw ses mid age i)"
proof -
  have "length (af_body (fragment_frame t raw ses mid age i)) \<le> 180" by (simp add: length_fragment_data)
  then show ?thesis using assms app_encode_ok [of "fragment_frame t raw ses mid age i"] that by auto
qed

text \<open>
  The fragments of a valid RTCM frame fit the radio: with an identity and an age
  in range, each of them encodes, to at most 200 bytes.
\<close>

theorem fragments_encodable:
  assumes "valid_rtcm3 raw" and "0 < ses" "ses < 2 ^ 32" and "0 < mid" "mid < 2 ^ 32"
    and "0 \<le> age" "age < 2 ^ 16"
  shows "\<exists>fs. fragment raw ses mid age = Inr fs \<and>
     (\<forall>f\<in>set fs. \<exists>bs. app_encode f = Inr bs \<and> length bs \<le> 200 \<and> app_decode bs = Inr f)"
proof -
  obtain t where t: "rtcm_type raw = Inr t" using rtcm_type_valid [OF assms(1)] .
  have "\<exists>bs. app_encode (fragment_frame t raw ses mid age i) = Inr bs \<and> length bs \<le> 200 \<and>
          app_decode bs = Inr (fragment_frame t raw ses mid age i)" for i
    using fragment_frame_encodes [OF assms(2-7)] by blast
  then show ?thesis using fragment_eq [OF assms(1) t] by auto
qed


lemma rtcm_vector_length: "length [211, 0, 2, 62, 208, 164, 224, 0 :: byte] = 8"
  by simp

lemma fragments_complete_witness:
  "\<exists>fs. fragment [211, 0, 2, 62, 208, 164, 224, 0] 1 2 3 = Inr fs \<and> 1 \<le> length fs \<and>
     concat (map (\<lambda>f. drop 6 (af_body f)) fs) = [211, 0, 2, 62, 208, 164, 224, 0]"
  using fragments_complete [OF rtcm_vector, of 1 2 3] by blast

lemma fragments_encodable_witness:
  "\<exists>fs. fragment [211, 0, 2, 62, 208, 164, 224, 0] 1 2 3 = Inr fs \<and>
     (\<forall>f\<in>set fs. \<exists>bs. app_encode f = Inr bs \<and> length bs \<le> 200 \<and> app_decode bs = Inr f)"
  by (rule fragments_encodable [OF rtcm_vector]) simp_all

subsection \<open>Synthetic frames are valid\<close>

lemma length_synthetic_payload [simp]: "length (synthetic_payload typ n seed) = max 2 n"
  by (simp add: synthetic_payload_def Let_def del: upt_Suc)

lemma synthetic_payload_type:
  "take 2 (synthetic_payload typ n seed) = be 2 (push_bit 4 typ AND 0xFFFF)"
proof (rule nth_equalityI)
  fix i
  assume "i < length (take 2 (synthetic_payload typ n seed))"
  then have "i < 2" by simp
  then show "take 2 (synthetic_payload typ n seed) ! i = be 2 (push_bit 4 typ AND 0xFFFF) ! i"
    by (simp add: synthetic_payload_def Let_def nth_append del: upt_Suc)
qed simp

lemma shifted_type: "drop_bit 4 ((push_bit 4 typ AND 0xFFFF) mod 65536) = (typ :: int) mod 4096"
proof -
  have "push_bit 4 typ AND 0xFFFF = push_bit 4 typ mod 65536"
    using take_bit_eq_mask [of 16 "push_bit 4 typ"] by (simp add: take_bit_eq_mod mask_eq_exp_minus_1)
  moreover have "typ * 16 mod 65536 = typ mod 4096 * 16"
    using mult_mod_left [of "typ" 4096 16] by simp
  ultimately show ?thesis by (simp add: push_bit_eq_mult drop_bit_eq_div)
qed

lemma header_length_bytes:
  assumes "0 \<le> (p :: int)" and "p \<le> 1023"
  shows "byte_of (drop_bit 8 p AND 3) AND 0xFC = 0"
    and "(uint (byte_of (drop_bit 8 p AND 3)) AND 3) * 256 + uint (byte_of (p AND 0xFF)) = p"
proof -
  have r: "drop_bit 8 p AND 3 = p div 256 mod 4" for p :: int
    using take_bit_eq_mask [of 2 "drop_bit 8 p"]
    by (simp add: take_bit_eq_mod mask_eq_exp_minus_1 drop_bit_eq_div)
  have l: "p AND 0xFF = p mod 256"
    using take_bit_eq_mask [of 8 p] by (simp add: take_bit_eq_mod mask_eq_exp_minus_1)
  define q m where "q = p div 256" and "m = p mod 256"
  then have p: "p = q * 256 + m" and m: "0 \<le> m" "m < 256" by simp_all
  with assms have "q = 0 \<or> q = 1 \<or> q = 2 \<or> q = 3" by auto
  then show "byte_of (drop_bit 8 p AND 3) AND 0xFC = 0"
    and "(uint (byte_of (drop_bit 8 p AND 3)) AND 3) * 256 + uint (byte_of (p AND 0xFF)) = p"
    unfolding r l q_def [symmetric] m_def [symmetric]
    by (auto simp: p m byte_of_def uint_word_of_int)
qed

lemma synthetic_valid:
  assumes n: "6 \<le> n" "n \<le> MAX_RTCM_FRAME_SIZE"
  obtains raw where "synthetic_rtcm typ n seed = Inr raw" and "valid_rtcm3 raw"
    and "length raw = max 8 n" and "rtcm_type raw = Inr (typ mod 4096)"
proof -
  define p where "p = synthetic_payload typ (n - 6) seed"
  define hp where "hp = [0xD3, byte_of (drop_bit 8 (int (length p)) AND 0x03),
      byte_of (int (length p) AND 0xFF)] @ p"
  let ?raw = "hp @ be 3 (crc24q hp)"
  have lp: "length p = max 2 (n - 6)" by (simp add: p_def)
  have syn: "synthetic_rtcm typ n seed = Inr ?raw"
    using n crc24q_range [of hp]
    by (simp add: synthetic_rtcm_def struct_pack_def p_def [symmetric] hp_def Let_def)
  have pl: "0 \<le> int (length p)" "int (length p) \<le> 1023" using n lp by auto
  have "rtcm_payload_length ?raw = int (length p)"
    using header_length_bytes(2) [OF pl] by (simp add: rtcm_payload_length_eq hp_def)
  then have v: "valid_rtcm3 ?raw"
    using header_length_bytes(1) [OF pl] sealed_append [of crc24q hp 3] crc24q_range [of hp]
    by (simp add: valid_rtcm3_iff) (simp add: hp_def)
  have "take 2 (drop 3 ?raw) = take 2 p" using lp by (simp add: hp_def)
  then have "rtcm_type ?raw = Inr (typ mod 4096)"
    using v shifted_type [of "typ"]
    by (simp add: rtcm_type_def p_def synthetic_payload_type unbe_be)
  moreover have "length ?raw = max 8 n" using n lp by (simp add: hp_def)
  ultimately show ?thesis using syn v that by blast
qed

text \<open>
  The synthetic frames of the benches are frames the transport accepts: for every
  length from 6 to 1029 the result is a valid RTCM3 frame with the message type asked for
  (modulo 4096), of the length asked for when that is at least 8 and of 8 bytes otherwise; an
  epoch has 4 of them, 1704 bytes in all, and every tenth one 2 more with 43 bytes.
\<close>

theorem synthetic_frames_valid:
  "(\<forall>n\<in>{6..MAX_RTCM_FRAME_SIZE}. \<exists>raw. synthetic_rtcm mtype n seed = Inr raw \<and> valid_rtcm3 raw \<and>
      length raw = max 8 n \<and> rtcm_type raw = Inr (mtype mod 4096)) \<and>
   (\<exists>fs. synthetic_epoch e = Inr fs \<and> list_all valid_rtcm3 fs \<and>
      length fs = (if e mod 10 = 0 then 6 else 4) \<and>
      sum_list (map length fs) = (if e mod 10 = 0 then 1747 else 1704))"
proof (rule conjI)
  show "\<forall>n\<in>{6..MAX_RTCM_FRAME_SIZE}. \<exists>raw. synthetic_rtcm mtype n seed = Inr raw \<and> valid_rtcm3 raw \<and>
      length raw = max 8 n \<and> rtcm_type raw = Inr (mtype mod 4096)"
    using synthetic_valid by (metis atLeastAtMost_iff)
  have syn: "\<exists>raw. synthetic_rtcm ty n e = Inr raw \<and> valid_rtcm3 raw \<and> length raw = n"
    if "8 \<le> n" "n \<le> 1029" for ty n
    using synthetic_valid [of n ty e] that by (auto simp: max_absorb2)
  obtain a where a: "synthetic_rtcm 1077 446 e = Inr a" "valid_rtcm3 a" "length a = 446" using syn [of 446] by auto
  obtain b where b: "synthetic_rtcm 1087 226 e = Inr b" "valid_rtcm3 b" "length b = 226" using syn [of 226] by auto
  obtain c where c: "synthetic_rtcm 1097 446 e = Inr c" "valid_rtcm3 c" "length c = 446" using syn [of 446] by auto
  obtain d where d: "synthetic_rtcm 1127 586 e = Inr d" "valid_rtcm3 d" "length d = 586" using syn [of 586] by auto
  obtain f where f: "synthetic_rtcm 1005 25 e = Inr f" "valid_rtcm3 f" "length f = 25" using syn [of 25] by auto
  obtain g where g: "synthetic_rtcm 1230 18 e = Inr g" "valid_rtcm3 g" "length g = 18" using syn [of 18] by auto
  show "\<exists>fs. synthetic_epoch e = Inr fs \<and> list_all valid_rtcm3 fs \<and>
      length fs = (if e mod 10 = 0 then 6 else 4) \<and>
      sum_list (map length fs) = (if e mod 10 = 0 then 1747 else 1704)"
    by (simp add: synthetic_epoch_def RTCM_OBSERVATION_SIZES_def RTCM_STATIC_SIZES_def a b c d f g)
qed

lemma synthetic_frames_valid_witness:
  "\<exists>raw. synthetic_rtcm 1077 446 3 = Inr raw \<and> valid_rtcm3 raw \<and> length raw = 446 \<and>
     rtcm_type raw = Inr 1077"
proof -
  have "446 \<in> {6..1029 :: nat}" by simp
  with synthetic_frames_valid [where mtype = 1077 and seed = 3 and e = 0] show ?thesis by fastforce
qed

end
