(* ===== verification/Reassembler.thy ===== *)
theory Reassembler
  imports Rtcm_Frame
begin

text \<open>
  The bounded reassembly of RTCM fragments on the robot: \<open>Reassembler\<close> of
  \<open>tools/lora_usb/application.py\<close>. Incomplete messages (\<open>items\<close>, at most 8) are kept by sender
  session and message id; a message that was completed, expired, evicted or contradicted is
  refused for one second from its first fragment (\<open>blocked_until\<close>, at most 64). The lemmas show the
  invariant, that what is returned is a valid frame of the announced type, that deadlines are never
  extended, and that interleaved, repeated and reordered fragments of several frames give each
  frame back exactly once.
\<close>

abbreviation (input) MAX_REASSEMBLIES :: nat where "MAX_REASSEMBLIES \<equiv> 8"
abbreviation (input) MAX_BLOCKED :: nat where "MAX_BLOCKED \<equiv> 64"
abbreviation (input) REASSEMBLY_TIMEOUT_S :: time where "REASSEMBLY_TIMEOUT_S \<equiv> 6 / 10"
abbreviation (input) RTCM_TRANSPORT_TTL_S :: time where "RTCM_TRANSPORT_TTL_S \<equiv> 1"

type_synonym msg_key = "int \<times> int"

record assembly =
  as_started_at :: time
  as_rtcm_type :: int
  as_total_length :: int
  as_fragment_count :: int
  as_parts :: "(int \<times> bytes) list"

record reassembler =
  ra_items :: "(msg_key \<times> assembly) list"
  ra_blocked_until :: "(msg_key \<times> time) list"
  ra_timeout_count :: nat
  ra_conflict_count :: nat
  ra_eviction_count :: nat
  ra_duplicate_count :: nat

subsection \<open>The code\<close>

definition new_reassembler :: reassembler where
  "new_reassembler = \<lparr>ra_items = [], ra_blocked_until = [], ra_timeout_count = 0,
     ra_conflict_count = 0, ra_eviction_count = 0, ra_duplicate_count = 0\<rparr>"

definition ra_block :: "msg_key \<Rightarrow> time \<Rightarrow> reassembler \<Rightarrow> reassembler" where
  "ra_block key until r = r\<lparr>ra_blocked_until :=
     trim_oldest MAX_BLOCKED (move_to_end key (AList.update key until (ra_blocked_until r)))\<rparr>"

text \<open>
  \<open>del self.items[key]\<close> followed by \<open>self._block(key, assembly.started_at +
  1.0)\<close>.
\<close>

definition ra_close :: "msg_key \<Rightarrow> assembly \<Rightarrow> reassembler \<Rightarrow> reassembler" where
  "ra_close key item r =
     ra_block key (as_started_at item + RTCM_TRANSPORT_TTL_S)
       (r\<lparr>ra_items := AList.delete key (ra_items r)\<rparr>)"

definition expired_keys :: "time \<Rightarrow> (msg_key \<times> assembly) list \<Rightarrow> msg_key list" where
  "expired_keys now items =
     map fst (filter (\<lambda>(key, item). now - as_started_at item \<ge> REASSEMBLY_TIMEOUT_S) items)"

text \<open>
  The loop body of \<open>expire\<close>; its keys are keys of the dictionary, so \<open>pop\<close>
  finds them.
\<close>

definition expire_key :: "msg_key \<Rightarrow> reassembler \<Rightarrow> reassembler" where
  "expire_key key r =
     (case map_of (ra_items r) key of
        None \<Rightarrow> r
      | Some item \<Rightarrow> (ra_close key item r)\<lparr>ra_timeout_count := Suc (ra_timeout_count r)\<rparr>)"

definition ra_expire :: "time \<Rightarrow> reassembler \<Rightarrow> reassembler \<times> nat" where
  "ra_expire now r =
     (let expired = expired_keys now (ra_items r);
          r' = fold expire_key expired r
      in (r'\<lparr>ra_blocked_until := filter (\<lambda>(key, until). \<not> now \<ge> until) (ra_blocked_until r')\<rparr>,
          length expired))"

definition fragment_length :: "int \<Rightarrow> int \<Rightarrow> int \<Rightarrow> int" where
  "fragment_length len index count =
     (if index < count - 1 then 174 else len - 174 * (count - 1))"

definition bad_shape :: "int \<Rightarrow> int \<Rightarrow> int \<Rightarrow> bytes \<Rightarrow> bool" where
  "bad_shape len index count data \<longleftrightarrow>
     len = 0 \<or> len > int MAX_RTCM_FRAME_SIZE \<or> count \<noteq> (len + 174 - 1) div 174 \<or>
     \<not> (1 \<le> count \<and> count \<le> int MAX_RTCM_FRAGMENTS) \<or> index \<ge> count \<or>
     int (length data) \<noteq> fragment_length len index count"

text \<open>The eviction of the oldest message when there is no room, and the new entry.\<close>

definition evict_oldest :: "reassembler \<Rightarrow> reassembler" where
  "evict_oldest r =
     (case ra_items r of
        [] \<Rightarrow> r
      | (key, item) # rest \<Rightarrow>
          (ra_block key (as_started_at item + RTCM_TRANSPORT_TTL_S) (r\<lparr>ra_items := rest\<rparr>))
            \<lparr>ra_eviction_count := Suc (ra_eviction_count r)\<rparr>)"

definition open_assembly :: "msg_key \<Rightarrow> time \<Rightarrow> int \<Rightarrow> int \<Rightarrow> int \<Rightarrow> reassembler \<Rightarrow> reassembler" where
  "open_assembly key now mtype len count r =
     (if key \<in> fst ` set (ra_items r) then r
      else (let r' = (if length (ra_items r) = MAX_REASSEMBLIES then evict_oldest r else r)
            in r'\<lparr>ra_items := AList.update key
                   \<lparr>as_started_at = now, as_rtcm_type = mtype, as_total_length = len,
                    as_fragment_count = count, as_parts = []\<rparr> (ra_items r')\<rparr>))"

definition join_parts :: "assembly \<Rightarrow> bytes result" where
  "join_parts a =
     bindR (mapR (\<lambda>i. case map_of (as_parts a) i of None \<Rightarrow> Inl KeyError | Some d \<Rightarrow> Inr d)
              [0..as_fragment_count a - 1]) (\<lambda>ds. Inr (concat ds))"

definition conflict :: "msg_key \<Rightarrow> assembly \<Rightarrow> reassembler \<Rightarrow> reassembler" where
  "conflict key a r = (ra_close key a r)\<lparr>ra_conflict_count := Suc (ra_conflict_count r)\<rparr>"

definition add_part :: "msg_key \<Rightarrow> int \<Rightarrow> int \<Rightarrow> int \<Rightarrow> int \<Rightarrow> bytes \<Rightarrow> reassembler \<Rightarrow>
    reassembler \<times> bytes option result" where
  "add_part key mtype len index count data r =
     (case map_of (ra_items r) key of
        None \<Rightarrow> (r, Inl KeyError)
      | Some a \<Rightarrow>
          (if (as_rtcm_type a, as_total_length a, as_fragment_count a) \<noteq> (mtype, len, count)
           then (conflict key a r, Inl (ApplicationError ''RTCM fragment metadata conflict''))
           else case map_of (as_parts a) index of
             Some d \<Rightarrow>
               (if d \<noteq> data
                then (conflict key a r, Inl (ApplicationError ''RTCM fragment data conflict''))
                else (r\<lparr>ra_duplicate_count := Suc (ra_duplicate_count r)\<rparr>, Inr None))
           | None \<Rightarrow>
               (let a' = a\<lparr>as_parts := AList.update index data (as_parts a)\<rparr>;
                    r' = r\<lparr>ra_items := AList.update key a' (ra_items r)\<rparr>
                in if int (length (as_parts a')) < count then (r', Inr None)
                   else case join_parts a' of
                     Inl e \<Rightarrow> (r', Inl e)
                   | Inr raw \<Rightarrow>
                       (ra_close key a' r',
                        if int (length raw) \<noteq> len \<or> \<not> valid_rtcm3 raw \<or> rtcm_type raw \<noteq> Inr mtype
                        then Inl (ApplicationError ''assembled RTCM frame'')
                        else Inr (Some raw)))))"

definition ra_add :: "time \<Rightarrow> app_frame \<Rightarrow> reassembler \<Rightarrow> reassembler \<times> bytes option result" where
  "ra_add now f r0 =
     (let r = fst (ra_expire now r0)
      in if af_typ f \<noteq> RTCM_FRAGMENT \<or> length (af_body f) < 6
         then (r, Inl (ApplicationError ''RTCM fragment body''))
         else if af_source_age_ms f \<ge> RTCM_TRANSPORT_TTL_MS
         then (r, Inl (ApplicationError ''stale RTCM fragment''))
         else case struct_unpack [U 2, U 2, U 1, U 1] (take 6 (af_body f)) of
           Inr [mtype, len, index, count] \<Rightarrow>
             (let data = drop 6 (af_body f);
                  key = (af_sender_session f, af_message_id f)
              in if bad_shape len index count data
                 then (r, Inl (ApplicationError ''RTCM fragment shape''))
                 else if key \<in> fst ` set (ra_blocked_until r)
                 then (r, Inl (ApplicationError ''expired or completed RTCM message''))
                 else add_part key mtype len index count data
                        (open_assembly key now mtype len count r))
         | Inr _ \<Rightarrow> (r, Inl StructError)
         | Inl e \<Rightarrow> (r, Inl e))"


subsection \<open>The invariant\<close>

definition assembly_ok :: "assembly \<Rightarrow> bool" where
  "assembly_ok a \<longleftrightarrow>
     0 < as_total_length a \<and> as_total_length a \<le> int MAX_RTCM_FRAME_SIZE \<and>
     as_fragment_count a = (as_total_length a + 174 - 1) div 174 \<and>
     as_fragment_count a \<le> int MAX_RTCM_FRAGMENTS \<and>
     distinct_keys (as_parts a) \<and> fst ` set (as_parts a) \<subseteq> {0..<as_fragment_count a} \<and>
     int (length (as_parts a)) < as_fragment_count a \<and>
     (\<forall>(i, d)\<in>set (as_parts a). int (length d) = fragment_length (as_total_length a) i (as_fragment_count a))"

definition ra_inv :: "reassembler \<Rightarrow> bool" where
  "ra_inv r \<longleftrightarrow>
     distinct_keys (ra_items r) \<and> length (ra_items r) \<le> MAX_REASSEMBLIES \<and>
     distinct_keys (ra_blocked_until r) \<and> length (ra_blocked_until r) \<le> MAX_BLOCKED \<and>
     fst ` set (ra_items r) \<inter> fst ` set (ra_blocked_until r) = {} \<and>
     (\<forall>item\<in>snd ` set (ra_items r). assembly_ok item)"

lemma new_reassembler_inv [inv_intros]: "ra_inv new_reassembler"
  by (simp add: ra_inv_def new_reassembler_def)

lemma ra_inv_counts [simp]:
  "ra_inv (r\<lparr>ra_timeout_count := n\<rparr>) = ra_inv r"
  "ra_inv (r\<lparr>ra_conflict_count := n\<rparr>) = ra_inv r"
  "ra_inv (r\<lparr>ra_eviction_count := n\<rparr>) = ra_inv r"
  "ra_inv (r\<lparr>ra_duplicate_count := n\<rparr>) = ra_inv r"
  by (simp_all add: ra_inv_def)

lemma ra_block_simps [simp]:
  "ra_items (ra_block key until r) = ra_items r"
  "ra_timeout_count (ra_block key until r) = ra_timeout_count r"
  "ra_conflict_count (ra_block key until r) = ra_conflict_count r"
  "ra_eviction_count (ra_block key until r) = ra_eviction_count r"
  "ra_duplicate_count (ra_block key until r) = ra_duplicate_count r"
  by (simp_all add: ra_block_def)

lemma keys_ra_block:
  "fst ` set (ra_blocked_until (ra_block key until r)) \<subseteq> insert key (fst ` set (ra_blocked_until r))"
  using keys_trim_subset [of 64 "move_to_end key (AList.update key until (ra_blocked_until r))"]
  by (simp add: ra_block_def keys_move keys_update)

lemma ra_block_inv [inv_intros]:
  assumes "ra_inv r" and "key \<notin> fst ` set (ra_items r)"
  shows "ra_inv (ra_block key until r)"
proof -
  have "distinct_keys (ra_blocked_until (ra_block key until r))"
    using assms by (auto simp: ra_inv_def ra_block_def intro!: inv_intros)
  moreover have "length (ra_blocked_until (ra_block key until r)) \<le> 64"
    by (simp add: ra_block_def)
  moreover have "fst ` set (ra_items r) \<inter> fst ` set (ra_blocked_until (ra_block key until r)) = {}"
    using assms keys_ra_block [of key until r] by (auto simp: ra_inv_def)
  ultimately show ?thesis using assms by (simp add: ra_inv_def)
qed

lemma ra_invD:
  assumes "ra_inv r"
  shows "distinct_keys (ra_items r)" "length (ra_items r) \<le> 8" "distinct_keys (ra_blocked_until r)"
    "length (ra_blocked_until r) \<le> 64"
    "fst ` set (ra_items r) \<inter> fst ` set (ra_blocked_until r) = {}"
    "map_of (ra_items r) key = Some a \<Longrightarrow> assembly_ok a"
proof -
  show "assembly_ok a" if "map_of (ra_items r) key = Some a"
    using map_of_SomeD [OF that] assms unfolding ra_inv_def by (metis imageI snd_conv)
qed (use assms in \<open>simp_all add: ra_inv_def\<close>)

lemma ra_invI:
  "distinct_keys (ra_items r) \<Longrightarrow> length (ra_items r) \<le> MAX_REASSEMBLIES \<Longrightarrow>
   distinct_keys (ra_blocked_until r) \<Longrightarrow> length (ra_blocked_until r) \<le> MAX_BLOCKED \<Longrightarrow>
   fst ` set (ra_items r) \<inter> fst ` set (ra_blocked_until r) = {} \<Longrightarrow>
   snd ` set (ra_items r) \<subseteq> Collect assembly_ok \<Longrightarrow> ra_inv r"
  by (auto simp: ra_inv_def)

lemma ra_inv_assemblies: "ra_inv r \<Longrightarrow> snd ` set (ra_items r) \<subseteq> Collect assembly_ok"
  by (auto simp: ra_inv_def)

lemma ra_items_subset_inv:
  assumes r: "ra_inv r" and d: "set d \<subseteq> set (ra_items r)" "distinct_keys d"
    and l: "length d \<le> length (ra_items r)"
  shows "ra_inv (r\<lparr>ra_items := d\<rparr>)"
proof -
  have "fst ` set d \<inter> fst ` set (ra_blocked_until r) = {}"
    using ra_invD(5) [OF r] image_mono [OF d(1), of fst] by blast
  moreover have "snd ` set d \<subseteq> Collect assembly_ok"
    using ra_inv_assemblies [OF r] image_mono [OF d(1), of snd] by blast
  ultimately show ?thesis
    using ra_invD(2-4) [OF r] d(2) l by (intro ra_invI) simp_all
qed

lemma ra_items_delete_inv: "ra_inv r \<Longrightarrow> ra_inv (r\<lparr>ra_items := AList.delete key (ra_items r)\<rparr>)"
  by (rule ra_items_subset_inv [OF _ set_delete_subset _ length_delete_le])
    (simp_all add: ra_inv_def distinct_keys_delete)

lemma ra_close_inv [inv_intros]: "ra_inv r \<Longrightarrow> ra_inv (ra_close key item r)"
  unfolding ra_close_def by (rule ra_block_inv [OF ra_items_delete_inv]) (simp_all add: keys_delete)

lemma expire_key_inv [inv_intros]: "ra_inv r \<Longrightarrow> ra_inv (expire_key key r)"
  by (auto simp: expire_key_def intro: inv_intros split: option.splits)

lemma fold_expire_inv: "ra_inv r \<Longrightarrow> ra_inv (fold expire_key keys r)"
  by (induction keys arbitrary: r) (auto intro: inv_intros)

lemma ra_blocked_filter_inv:
  assumes "ra_inv r"
  shows "ra_inv (r\<lparr>ra_blocked_until := filter P (ra_blocked_until r)\<rparr>)"
proof -
  have "distinct_keys (filter P (ra_blocked_until r))"
    using assms by (auto simp: ra_inv_def distinct_keys_def distinct_map_filter)
  moreover have "length (filter P (ra_blocked_until r)) \<le> 64"
    using assms by (auto simp: ra_inv_def intro: le_trans [OF length_filter_le])
  ultimately show ?thesis using assms by (auto simp: ra_inv_def)
qed

lemma ra_expire_inv [inv_intros]: "ra_inv r \<Longrightarrow> ra_inv (fst (ra_expire now r))"
  by (simp add: ra_expire_def Let_def fold_expire_inv ra_blocked_filter_inv)

lemma evict_oldest_inv [inv_intros]: "ra_inv r \<Longrightarrow> ra_inv (evict_oldest r)"
proof (cases "ra_items r")
  case (Cons x rest)
  assume r: "ra_inv r"
  obtain key item where x: "x = (key, item)" by (rule prod.exhaust)
  have "ra_inv (r\<lparr>ra_items := rest\<rparr>)"
    using r Cons by (intro ra_items_subset_inv) (auto simp: ra_inv_def)
  moreover have "key \<notin> fst ` set rest" using r Cons x by (auto simp: ra_inv_def)
  ultimately show ?thesis using Cons x by (simp add: evict_oldest_def ra_block_inv)
qed (simp add: evict_oldest_def)

lemma evict_oldest_room: "ra_inv r \<Longrightarrow> length (ra_items r) = 8 \<Longrightarrow> length (ra_items (evict_oldest r)) = 7"
  by (auto simp: evict_oldest_def split: list.splits)

lemma keys_evict:
  "fst ` set (ra_items (evict_oldest r)) \<subseteq> fst ` set (ra_items r)"
  "fst ` set (ra_blocked_until (evict_oldest r)) \<subseteq>
     fst ` set (ra_items r) \<union> fst ` set (ra_blocked_until r)"
proof -
  have "fst ` set (ra_items (evict_oldest r)) \<subseteq> fst ` set (ra_items r) \<and>
     fst ` set (ra_blocked_until (evict_oldest r)) \<subseteq>
       fst ` set (ra_items r) \<union> fst ` set (ra_blocked_until r)"
  proof (cases "ra_items r")
    case (Cons x rest)
    obtain key item where x: "x = (key, item)" by (rule prod.exhaust)
    show ?thesis
      using keys_ra_block [of key "as_started_at item + 1" "r\<lparr>ra_items := rest\<rparr>"]
      by (auto simp: evict_oldest_def Cons x)
  qed (simp add: evict_oldest_def)
  then show "fst ` set (ra_items (evict_oldest r)) \<subseteq> fst ` set (ra_items r)"
    and "fst ` set (ra_blocked_until (evict_oldest r)) \<subseteq>
     fst ` set (ra_items r) \<union> fst ` set (ra_blocked_until r)" by auto
qed

lemma ra_items_update_inv:
  assumes "ra_inv r" and "assembly_ok item" and "key \<notin> fst ` set (ra_blocked_until r)"
    and "key \<in> fst ` set (ra_items r) \<or> length (ra_items r) < MAX_REASSEMBLIES"
  shows "ra_inv (r\<lparr>ra_items := AList.update key item (ra_items r)\<rparr>)"
proof -
  let ?d = "AList.update key item (ra_items r)"
  have "snd ` set ?d \<subseteq> insert item (snd ` set (ra_items r))"
    using image_mono [OF set_update_subset, of snd key item "ra_items r"] by simp
  then have "snd ` set ?d \<subseteq> Collect assembly_ok"
    using assms(2) ra_inv_assemblies [OF assms(1)] by blast
  moreover have "length ?d \<le> MAX_REASSEMBLIES"
    using assms(4) ra_invD(2) [OF assms(1)] unfolding length_update_key by (auto split: if_splits)
  moreover have "fst ` set ?d \<inter> fst ` set (ra_blocked_until r) = {}"
    using assms(3) ra_invD(5) [OF assms(1)] unfolding keys_update by blast
  ultimately show ?thesis
    using ra_invD(1,3,4) [OF assms(1)] by (intro ra_invI) (simp_all add: distinct_keys_update)
qed


lemma length_join_keys:
  assumes "distinct_keys d" and "fst ` set d \<subseteq> {0..<n}" and "\<not> int (length d) < n"
  shows "fst ` set d = {0..<n}"
proof (rule card_subset_eq)
  show "card (fst ` set d) = card {0..<n}"
  proof (rule antisym)
    show "card (fst ` set d) \<le> card {0..<n}" using assms(2) by (intro card_mono) auto
    have "card (fst ` set d) = length d"
      using assms(1) distinct_card [of "map fst d"] by (simp add: distinct_keys_def)
    then show "card {0..<n} \<le> card (fst ` set d)" using assms(3) by simp
  qed
qed (use assms(2) in simp_all)

text \<open>Once as many parts as fragments are there, joining them cannot miss one.\<close>

lemma join_parts_complete:
  assumes "fst ` set (as_parts a) = {0..<as_fragment_count a}"
  shows "join_parts a = Inr (concat (map (\<lambda>i. the (map_of (as_parts a) i)) [0..as_fragment_count a - 1]))"
proof -
  have "mapR (\<lambda>i. case map_of (as_parts a) i of None \<Rightarrow> Inl KeyError | Some d \<Rightarrow> Inr d)
          [0..as_fragment_count a - 1] =
        Inr (map (\<lambda>i. the (map_of (as_parts a) i)) [0..as_fragment_count a - 1])"
  proof (rule mapR_Inr)
    fix i
    assume "i \<in> set [0..as_fragment_count a - 1]"
    then have "map_of (as_parts a) i \<noteq> None" unfolding lookup_in_keys assms by simp
    then show "(case map_of (as_parts a) i of None \<Rightarrow> Inl KeyError | Some d \<Rightarrow> Inr d) =
        Inr (the (map_of (as_parts a) i))" by auto
  qed
  then show ?thesis by (simp add: join_parts_def)
qed

text \<open>What \<open>add\<close> reads from the body: values of the fields' widths, and an index below the count.\<close>

lemma fragment_header_values:
  assumes "struct_unpack [U 2, U 2, U 1, U 1] (take 6 body) = Inr [mtype, len, index, count]"
  shows "0 \<le> mtype" "0 \<le> len" "0 \<le> index" "0 \<le> count"
  using struct_pack_unpack [OF assms] by (auto simp: struct_pack_Inr_iff)

lemma open_assembly_inv:
  assumes r: "ra_inv r" and s: "\<not> bad_shape len index count data"
    and h: "0 \<le> len" and b: "key \<notin> fst ` set (ra_blocked_until r)"
  shows "ra_inv (open_assembly key now mtype len count r)" (is "ra_inv ?r")
    and "key \<notin> fst ` set (ra_blocked_until (open_assembly key now mtype len count r))"
    and "map_of (ra_items (open_assembly key now mtype len count r)) key \<noteq> None"
proof -
  let ?new = "\<lparr>as_started_at = now, as_rtcm_type = mtype, as_total_length = len,
                as_fragment_count = count, as_parts = []\<rparr>"
  have ok: "assembly_ok ?new" using s h by (auto simp: bad_shape_def assembly_ok_def)
  have "ra_inv ?r \<and> key \<notin> fst ` set (ra_blocked_until ?r) \<and> map_of (ra_items ?r) key \<noteq> None"
  proof (cases "key \<in> fst ` set (ra_items r)")
    case True
    then show ?thesis using r b by (simp add: open_assembly_def lookup_some_iff)
  next
    case False
    define e where "e = (if length (ra_items r) = MAX_REASSEMBLIES then evict_oldest r else r)"
    have "ra_inv e" using r by (simp add: e_def evict_oldest_inv)
    moreover have kb: "key \<notin> fst ` set (ra_blocked_until e)"
      using False b keys_evict(2) [of r] unfolding e_def by (simp split: if_splits) blast
    moreover have "length (ra_items e) < MAX_REASSEMBLIES"
      using ra_invD(2) [OF r] evict_oldest_room [OF r] by (simp add: e_def)
    ultimately have "ra_inv (e\<lparr>ra_items := AList.update key ?new (ra_items e)\<rparr>)"
      using ok by (intro ra_items_update_inv) simp_all
    with False kb show ?thesis
      by (simp add: open_assembly_def e_def [symmetric] Let_def lookup_update)
  qed
  then show "ra_inv ?r" "key \<notin> fst ` set (ra_blocked_until ?r)" "map_of (ra_items ?r) key \<noteq> None"
    by auto
qed


text \<open>
  Recording a part: the invariant is kept, a returned frame is a valid one of the announced type and
  length, its key is refused from then on, and no \<open>KeyError\<close> or \<open>struct.error\<close> can be raised.
\<close>

definition ra_errors :: "py_exc set" where
  "ra_errors = ApplicationError ` {''RTCM fragment body'', ''stale RTCM fragment'',
     ''RTCM fragment shape'', ''expired or completed RTCM message'',
     ''RTCM fragment metadata conflict'', ''RTCM fragment data conflict'', ''assembled RTCM frame''}"

definition ra_result_ok :: "msg_key \<Rightarrow> reassembler \<Rightarrow> bytes option result \<Rightarrow> bool" where
  "ra_result_ok key r res \<longleftrightarrow>
     (case res of
        Inl e \<Rightarrow> e \<in> ra_errors
      | Inr None \<Rightarrow> True
      | Inr (Some raw) \<Rightarrow> valid_rtcm3 raw \<and> key \<notin> fst ` set (ra_items r) \<and>
          key \<in> fst ` set (ra_blocked_until r))"

lemma block_key_mem: "key \<in> fst ` set (ra_blocked_until (ra_block key until r))"
proof -
  let ?d = "AList.update key until (ra_blocked_until r)"
  have "map_of ?d key = Some until" by (simp add: lookup_update)
  then have "move_to_end key ?d = AList.delete key ?d @ [(key, until)]" by (simp add: move_to_end_def)
  then show ?thesis by (auto simp: ra_block_def trim_oldest_drop)
qed

lemma add_part_inv:
  assumes r: "ra_inv r" and s: "\<not> bad_shape len index count data" and i: "0 \<le> index"
    and b: "key \<notin> fst ` set (ra_blocked_until r)" and k: "map_of (ra_items r) key \<noteq> None"
  shows "ra_inv (fst (add_part key mtype len index count data r)) \<and>
         ra_result_ok key (fst (add_part key mtype len index count data r))
           (snd (add_part key mtype len index count data r))"
proof -
  obtain a where a: "map_of (ra_items r) key = Some a" using k by auto
  have ok: "assembly_ok a" using ra_invD(6) [OF r a] .
  have ks: "key \<in> fst ` set (ra_items r)" using k by (simp add: lookup_some_iff)
  show ?thesis
  proof (cases "as_rtcm_type a = mtype \<and> as_total_length a = len \<and> as_fragment_count a = count")
    case False
    then have "add_part key mtype len index count data r =
        (conflict key a r, Inl (ApplicationError ''RTCM fragment metadata conflict''))"
      by (auto simp: add_part_def a)
    then show ?thesis using r by (simp add: ra_result_ok_def ra_errors_def conflict_def ra_close_inv)
  next
    case meta: True
    show ?thesis
    proof (cases "map_of (as_parts a) index")
      case (Some d)
      then show ?thesis
        using r meta by (simp add: add_part_def a ra_result_ok_def ra_errors_def conflict_def ra_close_inv)
    next
      case None
      let ?parts = "AList.update index data (as_parts a)"
      let ?a = "a\<lparr>as_parts := ?parts\<rparr>"
      let ?r = "r\<lparr>ra_items := AList.update key ?a (ra_items r)\<rparr>"
      have dk: "distinct_keys ?parts" and sub: "fst ` set ?parts \<subseteq> {0..<count}"
        using ok meta i s by (auto simp: assembly_ok_def keys_update bad_shape_def intro: distinct_keys_update)
      have lens: "\<forall>(i, d)\<in>set ?parts. int (length d) = fragment_length len i count"
        using ok meta s set_update_subset [of index data "as_parts a"]
        by (auto simp: assembly_ok_def bad_shape_def)
      show ?thesis
      proof (cases "int (length ?parts) < count")
        case True
        then have "assembly_ok ?a" using ok meta dk sub lens by (simp add: assembly_ok_def)
        then have "ra_inv ?r" using r b ks by (intro ra_items_update_inv) simp_all
        with True meta None show ?thesis by (simp add: add_part_def a ra_result_ok_def)
      next
        case False
        have "fst ` set (as_parts ?a) = {0..<as_fragment_count ?a}"
          using length_join_keys [OF dk sub False] meta by simp
        from join_parts_complete [OF this] obtain raw where raw: "join_parts ?a = Inr raw" by blast
        have "ra_inv (ra_close key ?a r)" using r by (rule ra_close_inv)
        moreover have "ra_close key ?a ?r = ra_close key ?a r"
          by (simp add: ra_close_def ra_block_def delete_update_same)
        ultimately show ?thesis
          using False meta None raw block_key_mem
          by (simp add: add_part_def a ra_result_ok_def ra_errors_def ra_close_def keys_delete)
      qed
    qed
  qed
qed


text \<open>\<open>struct.unpack\<close> of the six header bytes always yields four values.\<close>

lemma fragment_header_cases:
  assumes "6 \<le> length body"
  obtains mtype len index count where
    "struct_unpack [U 2, U 2, U 1, U 1] (take 6 body) = Inr [mtype, len, index, count]"
    and "0 \<le> mtype" "0 \<le> len" "0 \<le> index" "0 \<le> count"
proof -
  obtain a b c d where u: "struct_unpack [U 2, U 2, U 1, U 1] (take 6 body) = Inr [a, b, c, d]"
    using assms by (simp add: struct_unpack_def)
  then show ?thesis using fragment_header_values [OF u] that [OF u] by simp
qed

lemma ra_add_ok:
  assumes r: "ra_inv r"
  shows "ra_inv (fst (ra_add now f r)) \<and>
     ra_result_ok (af_sender_session f, af_message_id f) (fst (ra_add now f r)) (snd (ra_add now f r))"
proof -
  define e where "e = fst (ra_expire now r)"
  have e: "ra_inv e" unfolding e_def using r by (rule ra_expire_inv)
  let ?key = "(af_sender_session f, af_message_id f)"
  show ?thesis
  proof (cases "af_typ f \<noteq> RTCM_FRAGMENT \<or> length (af_body f) < 6 \<or> af_source_age_ms f \<ge> 1000")
    case True
    then show ?thesis using e by (auto simp: ra_add_def e_def [symmetric] ra_result_ok_def ra_errors_def)
  next
    case False
    then have "6 \<le> length (af_body f)" by simp
    then obtain mtype len index count where
      u: "struct_unpack [U 2, U 2, U 1, U 1] (take 6 (af_body f)) = Inr [mtype, len, index, count]"
      and n: "0 \<le> mtype" "0 \<le> len" "0 \<le> index" "0 \<le> count" by (rule fragment_header_cases)
    let ?data = "drop 6 (af_body f)"
    show ?thesis
    proof (cases "bad_shape len index count ?data \<or> ?key \<in> fst ` set (ra_blocked_until e)")
      case True
      with False u e show ?thesis
        by (auto simp: ra_add_def e_def [symmetric] ra_result_ok_def ra_errors_def Let_def)
    next
      case ok: False
      let ?o = "open_assembly ?key now mtype len count e"
      have "ra_add now f r = add_part ?key mtype len index count ?data ?o"
        using False ok u by (simp add: ra_add_def e_def [symmetric] Let_def)
      then show ?thesis
        using add_part_inv open_assembly_inv [OF e] ok n by auto
    qed
  qed
qed

text \<open>The operations as the inputs of a machine, and the results of the \<open>add\<close> calls of a run.\<close>

datatype ra_event = ExpireAt time | AddAt time app_frame

fun ra_step :: "reassembler \<Rightarrow> ra_event \<Rightarrow> reassembler" where
  "ra_step r (ExpireAt now) = fst (ra_expire now r)"
| "ra_step r (AddAt now f) = fst (ra_add now f r)"

fun ra_outputs :: "reassembler \<Rightarrow> ra_event list \<Rightarrow> bytes option result list" where
  "ra_outputs r [] = []"
| "ra_outputs r (ExpireAt now # es) = ra_outputs (fst (ra_expire now r)) es"
| "ra_outputs r (AddAt now f # es) = snd (ra_add now f r) # ra_outputs (fst (ra_add now f r)) es"

lemma ra_step_inv: "ra_inv r \<Longrightarrow> ra_inv (ra_step r e)"
  by (cases e) (simp_all add: ra_expire_inv ra_add_ok)

interpretation ra: machine ra_step ra_inv
  by unfold_locales (rule ra_step_inv)

lemma ra_outputs_ok:
  "ra_inv r \<Longrightarrow> res \<in> set (ra_outputs r es) \<Longrightarrow>
     (case res of Inl e \<Rightarrow> e \<in> ra_errors | Inr None \<Rightarrow> True | Inr (Some raw) \<Rightarrow> valid_rtcm3 raw)"
proof (induction r es rule: ra_outputs.induct)
  case (2 r now es)
  then show ?case using ra_expire_inv by simp
next
  case (3 r now f es)
  then show ?case
    using ra_add_ok [of r now f]
    by (auto simp: ra_result_ok_def split: sum.splits option.splits)
qed simp


subsection \<open>Deadlines\<close>

lemma expire_key_items: "ra_items (expire_key key r) = AList.delete key (ra_items r)"
  by (auto simp: expire_key_def ra_close_def map_of_eq_None_iff delete_id split: option.splits)

lemma fold_expire_items:
  "ra_items (fold expire_key keys r) = filter (\<lambda>(k, a). k \<notin> set keys) (ra_items r)"
  by (induction keys arbitrary: r) (auto simp: expire_key_items AList.delete_eq intro: filter_cong)

lemma ra_expire_items:
  assumes "ra_inv r"
  shows "ra_items (fst (ra_expire now r)) =
     filter (\<lambda>(k, a). now - as_started_at a < REASSEMBLY_TIMEOUT_S) (ra_items r)"
proof -
  have "k \<notin> set (expired_keys now (ra_items r)) \<longleftrightarrow> now - as_started_at a < REASSEMBLY_TIMEOUT_S"
    if "(k, a) \<in> set (ra_items r)" for k a
  proof -
    have "b = a" if "(k, b) \<in> set (ra_items r)" for b
      using that \<open>(k, a) \<in> set (ra_items r)\<close> ra_invD(1) [OF assms]
      by (metis distinct_keys_def eq_key_imp_eq_value)
    moreover have "k \<in> set (expired_keys now (ra_items r)) \<longleftrightarrow>
        (\<exists>b. (k, b) \<in> set (ra_items r) \<and> now - as_started_at b \<ge> REASSEMBLY_TIMEOUT_S)"
      unfolding expired_keys_def by force
    ultimately show ?thesis using that by (metis not_le)
  qed
  then show ?thesis
    by (auto simp: ra_expire_def Let_def fold_expire_items intro!: filter_cong)
qed

lemma ra_expire_blocked:
  "(k, u) \<in> set (ra_blocked_until (fst (ra_expire now r))) \<Longrightarrow> now < u"
  by (auto simp: ra_expire_def Let_def)

text \<open>Every incomplete message is young, and every refusal still has time to run.\<close>

definition ra_timely :: "time \<Rightarrow> reassembler \<Rightarrow> bool" where
  "ra_timely now r \<longleftrightarrow>
     (\<forall>(k, a)\<in>set (ra_items r). now - as_started_at a < REASSEMBLY_TIMEOUT_S) \<and>
     (\<forall>(k, u)\<in>set (ra_blocked_until r). now < u)"

lemma ra_timelyD:
  "ra_timely now r \<Longrightarrow> (k, a) \<in> set (ra_items r) \<Longrightarrow> now - as_started_at a < 6 / 10"
  "ra_timely now r \<Longrightarrow> (k, u) \<in> set (ra_blocked_until r) \<Longrightarrow> now < u"
  by (auto simp: ra_timely_def)

lemma ra_expire_timely: "ra_inv r \<Longrightarrow> ra_timely now (fst (ra_expire now r))"
  by (auto simp: ra_timely_def ra_expire_items dest: ra_expire_blocked)

lemma ra_timely_counts [simp]:
  "ra_timely now (r\<lparr>ra_conflict_count := n\<rparr>) = ra_timely now r"
  "ra_timely now (r\<lparr>ra_eviction_count := n\<rparr>) = ra_timely now r"
  "ra_timely now (r\<lparr>ra_duplicate_count := n\<rparr>) = ra_timely now r"
  by (simp_all add: ra_timely_def)

lemma set_move_to_end: "set (move_to_end k d) \<subseteq> set d"
  using set_delete_subset [of k d] by (auto simp: move_to_end_def dest: map_of_SomeD split: option.splits)

lemma ra_block_timely:
  assumes "ra_timely now r" and "now < until"
  shows "ra_timely now (ra_block key until r)"
proof -
  have "set (ra_blocked_until (ra_block key until r)) \<subseteq> insert (key, until) (set (ra_blocked_until r))"
    using set_trim_oldest [of 64 "move_to_end key (AList.update key until (ra_blocked_until r))"]
      set_move_to_end [of key "AList.update key until (ra_blocked_until r)"]
      set_update_subset [of key until "ra_blocked_until r"]
    by (simp add: ra_block_def)
  with assms show ?thesis unfolding ra_timely_def ra_block_simps by blast
qed

lemma ra_items_timely:
  "ra_timely now r \<Longrightarrow> \<forall>(k, a)\<in>set d. now - as_started_at a < REASSEMBLY_TIMEOUT_S \<Longrightarrow>
     ra_timely now (r\<lparr>ra_items := d\<rparr>)"
  by (simp add: ra_timely_def)

lemma ra_close_timely:
  assumes "ra_timely now r" and "now - as_started_at a < REASSEMBLY_TIMEOUT_S"
  shows "ra_timely now (ra_close key a r)"
  unfolding ra_close_def
proof (rule ra_block_timely)
  show "ra_timely now (r\<lparr>ra_items := AList.delete key (ra_items r)\<rparr>)"
    using assms(1) set_delete_subset [of key "ra_items r"] by (fastforce simp: ra_timely_def)
qed (use assms(2) in simp)

lemma evict_oldest_timely:
  assumes "ra_timely now r"
  shows "ra_timely now (evict_oldest r)"
proof (cases "ra_items r")
  case (Cons x rest)
  obtain key item where x: "x = (key, item)" by (rule prod.exhaust)
  have "ra_timely now (ra_block key (as_started_at item + 1) (r\<lparr>ra_items := rest\<rparr>))"
  proof (rule ra_block_timely)
    show "ra_timely now (r\<lparr>ra_items := rest\<rparr>)" using assms Cons by (auto simp: ra_timely_def)
    show "now < as_started_at item + 1"
      using ra_timelyD(1) [OF assms, of key item] Cons x by simp
  qed
  then show ?thesis by (simp add: evict_oldest_def Cons x)
qed (use assms in \<open>simp add: evict_oldest_def\<close>)

lemma open_assembly_timely:
  assumes "ra_timely now r"
  shows "ra_timely now (open_assembly key now mtype len count r)"
proof -
  let ?new = "\<lparr>as_started_at = now, as_rtcm_type = mtype, as_total_length = len,
                as_fragment_count = count, as_parts = []\<rparr>"
  define e where "e = (if length (ra_items r) = MAX_REASSEMBLIES then evict_oldest r else r)"
  have "ra_timely now e" using assms by (simp add: e_def evict_oldest_timely)
  then have "ra_timely now (e\<lparr>ra_items := AList.update key ?new (ra_items e)\<rparr>)"
    using set_update_subset [of key ?new "ra_items e"] by (fastforce simp: ra_timely_def)
  with assms show ?thesis by (simp add: open_assembly_def e_def [symmetric] Let_def)
qed

lemma add_part_timely:
  assumes t: "ra_timely now r"
  shows "ra_timely now (fst (add_part key mtype len index count data r))"
proof (cases "map_of (ra_items r) key")
  case (Some a)
  then have a: "now - as_started_at a < 6 / 10" using ra_timelyD(1) [OF t] map_of_SomeD by metis
  let ?a = "a\<lparr>as_parts := AList.update index data (as_parts a)\<rparr>"
  let ?r = "r\<lparr>ra_items := AList.update key ?a (ra_items r)\<rparr>"
  have r: "ra_timely now ?r"
    using t a set_update_subset [of key ?a "ra_items r"] by (fastforce simp: ra_timely_def)
  have "ra_timely now (conflict key a r)" "ra_timely now (ra_close key ?a ?r)"
    using ra_close_timely [OF t a] ra_close_timely [OF r, of ?a] a by (simp_all add: conflict_def)
  with Some r t show ?thesis
    by (auto simp: add_part_def Let_def split: option.split sum.split)
qed (use t in \<open>simp add: add_part_def\<close>)

lemma ra_add_timely:
  assumes "ra_inv r"
  shows "ra_timely now (fst (ra_add now f r))"
proof -
  have e: "ra_timely now (fst (ra_expire now r))" using assms by (rule ra_expire_timely)
  note add_part_timely [OF open_assembly_timely [OF e]]
  with e show ?thesis
    by (auto simp: ra_add_def Let_def split: sum.split list.split)
qed

text \<open>A message that is still incomplete keeps the start time and the shape it began with.\<close>

definition same_message :: "assembly \<Rightarrow> assembly \<Rightarrow> bool" where
  "same_message a a' \<longleftrightarrow> as_started_at a' = as_started_at a \<and> as_rtcm_type a' = as_rtcm_type a \<and>
     as_total_length a' = as_total_length a \<and> as_fragment_count a' = as_fragment_count a"

lemma same_message_refl [simp]: "same_message a a"
  by (simp add: same_message_def)

lemma add_part_same:
  "map_of (ra_items (fst (add_part key mtype len index count data r))) k = Some a' \<Longrightarrow>
     \<exists>a. map_of (ra_items r) k = Some a \<and> same_message a a'"
  by (auto simp: add_part_def Let_def conflict_def ra_close_def lookup_delete lookup_update same_message_def
      split: option.splits if_splits sum.splits)

lemma evict_oldest_lookup:
  assumes "ra_inv r" and "map_of (ra_items (evict_oldest r)) k = Some a"
  shows "map_of (ra_items r) k = Some a"
proof (cases "ra_items r")
  case (Cons x rest)
  obtain key item where x: "x = (key, item)" by (rule prod.exhaust)
  have "key \<notin> fst ` set rest" using ra_invD(1) [OF assms(1)] Cons x by simp
  moreover have "map_of rest k = Some a" using assms(2) by (simp add: evict_oldest_def Cons x)
  moreover from this have "k \<in> fst ` set rest" by (auto simp flip: lookup_some_iff)
  ultimately show ?thesis using Cons x by auto
qed (use assms in \<open>simp add: evict_oldest_def\<close>)

lemma open_assembly_same:
  assumes "ra_inv r" and "map_of (ra_items (open_assembly key now mtype len count r)) k = Some a'"
  shows "map_of (ra_items r) k = Some a' \<or>
    map_of (ra_items r) k = None \<and> k = key \<and> as_started_at a' = now"
proof (cases "key \<in> fst ` set (ra_items r)")
  case False
  then have "map_of (ra_items r) key = None" by (simp add: map_of_eq_None_iff)
  with assms False evict_oldest_lookup [OF assms(1), of k a'] show ?thesis
    by (auto simp: open_assembly_def Let_def lookup_update split: if_splits)
qed (use assms in \<open>simp add: open_assembly_def\<close>)

lemma ra_expire_lookup:
  assumes "ra_inv r"
  shows "map_of (ra_items (fst (ra_expire now r))) k =
    (case map_of (ra_items r) k of
       None \<Rightarrow> None | Some a \<Rightarrow> if now - as_started_at a < REASSEMBLY_TIMEOUT_S then Some a else None)"
proof -
  have "distinct (map fst xs) \<Longrightarrow> map_of (filter (\<lambda>(k, a). P a) xs) k =
      (case map_of xs k of None \<Rightarrow> None | Some a \<Rightarrow> if P a then Some a else None)" for P and xs :: "(msg_key \<times> assembly) list"
    by (induction xs) (auto simp: map_of_eq_None_iff rev_image_eqI split: option.splits)
  from this [of "ra_items r" "\<lambda>a. now - as_started_at a < REASSEMBLY_TIMEOUT_S"] show ?thesis
    unfolding ra_expire_items [OF assms] using ra_invD(1) [OF assms] by (simp add: distinct_keys_def)
qed

lemma ra_add_same:
  assumes r: "ra_inv r" and k: "map_of (ra_items (fst (ra_add now f r))) k = Some a'"
  shows "case map_of (ra_items (fst (ra_expire now r))) k of
     None \<Rightarrow> k = (af_sender_session f, af_message_id f) \<and> as_started_at a' = now
   | Some a \<Rightarrow> same_message a a'"
proof -
  let ?e = "fst (ra_expire now r)"
  have e: "ra_inv ?e" using r by (rule ra_expire_inv)
  have part: "case map_of (ra_items ?e) k of None \<Rightarrow> k = key \<and> as_started_at a' = now
       | Some a \<Rightarrow> same_message a a'"
    if h: "map_of (ra_items (fst (add_part key mtype len index count data
          (open_assembly key now mtype len count ?e)))) k = Some a'" for key mtype len index count data
  proof -
    obtain b where b: "map_of (ra_items (open_assembly key now mtype len count ?e)) k = Some b"
      and s: "same_message b a'" using add_part_same [OF h] by blast
    from open_assembly_same [OF e b] s show ?thesis by (auto simp: same_message_def)
  qed
  from k show ?thesis
    by (auto simp: ra_add_def Let_def split: if_splits sum.splits list.splits dest: part)
qed


subsection \<open>The specification\<close>

text \<open>
  What a client expects of reassembly: a set of fragments seen so far, and a frame exactly when
  its last missing fragment arrives. \<open>Frag t key i age\<close> is fragment \<open>i\<close> of the frame \<open>raws key\<close>.
\<close>

datatype frag_in = Tick time | Frag time msg_key nat int

fun frag_time :: "frag_in \<Rightarrow> time" where
  "frag_time (Tick t) = t"
| "frag_time (Frag t k i age) = t"

definition fragments_of :: "(msg_key \<Rightarrow> bytes) \<Rightarrow> msg_key \<Rightarrow> nat" where
  "fragments_of raws key = fragment_count (length (raws key))"

definition complete :: "(msg_key \<Rightarrow> bytes) \<Rightarrow> (msg_key \<times> nat) list \<Rightarrow> msg_key \<Rightarrow> bool" where
  "complete raws seen key = list_all (\<lambda>i. (key, i) \<in> set seen) [0..<fragments_of raws key]"

fun frag_spec :: "(msg_key \<Rightarrow> bytes) \<Rightarrow> (msg_key \<times> nat) list \<Rightarrow> frag_in list \<Rightarrow>
    bytes option result list" where
  "frag_spec raws seen [] = []"
| "frag_spec raws seen (Tick t # es) = frag_spec raws seen es"
| "frag_spec raws seen (Frag t key i age # es) =
     (if complete raws seen key
      then Inl (ApplicationError ''expired or completed RTCM message'') # frag_spec raws seen es
      else (let seen' = (key, i) # seen
            in Inr (if complete raws seen' key then Some (raws key) else None) #
               frag_spec raws seen' es))"

text \<open>The same inputs as calls of the reassembler.\<close>

definition frag_event :: "(msg_key \<Rightarrow> bytes) \<Rightarrow> frag_in \<Rightarrow> ra_event" where
  "frag_event raws e =
     (case e of
        Tick t \<Rightarrow> ExpireAt t
      | Frag t key i age \<Rightarrow>
          AddAt t (fragment_frame (projr (rtcm_type (raws key))) (raws key) (fst key) (snd key) age i))"

fun frag_ok :: "(msg_key \<Rightarrow> bytes) \<Rightarrow> msg_key set \<Rightarrow> frag_in \<Rightarrow> bool" where
  "frag_ok raws ks (Tick t) = True"
| "frag_ok raws ks (Frag t key i age) = (key \<in> ks \<and> i < fragments_of raws key \<and> age < 1000)"

text \<open>
  The simulation: what the reassembler holds when \<open>seen\<close> has been seen since time
  \<open>s\<close>.
\<close>

definition assembly_sim :: "(msg_key \<Rightarrow> bytes) \<Rightarrow> time \<Rightarrow> (msg_key \<times> nat) list \<Rightarrow> msg_key \<Rightarrow> assembly \<Rightarrow> bool" where
  "assembly_sim raws s seen key a \<longleftrightarrow>
     s \<le> as_started_at a \<and> rtcm_type (raws key) = Inr (as_rtcm_type a) \<and>
     as_total_length a = int (length (raws key)) \<and>
     as_fragment_count a = int (fragments_of raws key) \<and>
     (\<forall>i. map_of (as_parts a) (int i) =
        (if (key, i) \<in> set seen \<and> i < fragments_of raws key then Some (fragment_data (raws key) i) else None))"

definition key_sim :: "(msg_key \<Rightarrow> bytes) \<Rightarrow> time \<Rightarrow> (msg_key \<times> nat) list \<Rightarrow> reassembler \<Rightarrow> msg_key \<Rightarrow> bool" where
  "key_sim raws s seen r key \<longleftrightarrow>
     (if complete raws seen key then \<exists>u. map_of (ra_blocked_until r) key = Some u \<and> s + 1 \<le> u
      else key \<notin> fst ` set (ra_blocked_until r) \<and>
        (case map_of (ra_items r) key of
           None \<Rightarrow> \<forall>i. (key, i) \<notin> set seen
         | Some a \<Rightarrow> assembly_sim raws s seen key a))"

definition ra_sim :: "(msg_key \<Rightarrow> bytes) \<Rightarrow> msg_key set \<Rightarrow> msg_key set \<Rightarrow> time \<Rightarrow> (msg_key \<times> nat) list \<Rightarrow>
    reassembler \<Rightarrow> bool" where
  "ra_sim raws ks old s seen r \<longleftrightarrow>
     ra_inv r \<and> fst ` set (ra_items r) \<subseteq> ks \<and> fst ` set (ra_blocked_until r) \<subseteq> old \<union> ks \<and>
     (\<forall>key\<in>ks. key_sim raws s seen r key)"

lemma distinct_keys_card: "distinct_keys d \<Longrightarrow> card (fst ` set d) = length d"
  using distinct_card [of "map fst d"] by (simp add: distinct_keys_def)

text \<open>Nothing of the window expires in it.\<close>

lemma sim_items_young:
  assumes sim: "ra_sim raws ks old s seen r" and kn: "(key, a) \<in> set (ra_items r)"
  shows "s \<le> as_started_at a"
proof -
  have inv: "ra_inv r" and k: "key \<in> ks"
    using sim kn by (force simp: ra_sim_def)+
  have m: "map_of (ra_items r) key = Some a"
    using kn ra_invD(1) [OF inv] by (simp add: distinct_keys_def)
  have nb: "key \<notin> fst ` set (ra_blocked_until r)"
    using ra_invD(5) [OF inv] kn by force
  then have "map_of (ra_blocked_until r) key = None" by (simp add: map_of_eq_None_iff)
  with sim k m have "assembly_sim raws s seen key a"
    by (force simp: ra_sim_def key_sim_def split: if_splits)
  then show ?thesis by (simp add: assembly_sim_def)
qed

lemma map_of_filter_keep:
  "map_of d k = Some v \<Longrightarrow> P (k, v) \<Longrightarrow> map_of (filter P d) k = Some v"
  by (induction d) (auto split: if_splits)

lemma expire_sim:
  assumes sim: "ra_sim raws ks old s seen r" and t: "s \<le> t" "t < s + 6 / 10"
  shows "ra_sim raws ks old s seen (fst (ra_expire t r))"
proof -
  have inv: "ra_inv r" using sim by (simp add: ra_sim_def)
  have "expired_keys t (ra_items r) = []"
    using sim_items_young [OF sim] t by (fastforce simp: expired_keys_def filter_empty_conv)
  then have e: "fst (ra_expire t r) =
      r\<lparr>ra_blocked_until := filter (\<lambda>(key, until). \<not> t \<ge> until) (ra_blocked_until r)\<rparr>"
    by (simp add: ra_expire_def)
  have keep: "map_of (filter (\<lambda>(key, until). \<not> t \<ge> until) (ra_blocked_until r)) k = Some u"
    if "map_of (ra_blocked_until r) k = Some u" "s + 1 \<le> u" for k u
    using that t by (intro map_of_filter_keep) auto
  have sub: "fst ` set (filter P (ra_blocked_until r)) \<subseteq> fst ` set (ra_blocked_until r)" for P
    by auto
  have "key_sim raws s seen (fst (ra_expire t r)) k" if "key_sim raws s seen r k" for k
  proof (cases "complete raws seen k")
    case True
    with that obtain u where "map_of (ra_blocked_until r) k = Some u" and "s + 1 \<le> u"
      by (auto simp: key_sim_def)
    with True keep [of k u] show ?thesis by (simp add: key_sim_def e)
  next
    case False
    with that show ?thesis by (auto simp: key_sim_def e)
  qed
  moreover have "ra_inv (fst (ra_expire t r))" using inv by (rule ra_expire_inv)
  ultimately show ?thesis using sim sub unfolding ra_sim_def by (auto simp: e)
qed


lemma trim_short: "length d \<le> n \<Longrightarrow> trim_oldest n d = d"
  by (simp add: trim_oldest_drop)

text \<open>With few enough keys around, a refused key is not forgotten.\<close>

lemma block_lookup:
  assumes d: "distinct_keys (ra_blocked_until r)" and c: "finite B" "card B \<le> MAX_BLOCKED"
    and sub: "insert key (fst ` set (ra_blocked_until r)) \<subseteq> B"
  shows "map_of (ra_blocked_until (ra_block key until r)) k =
      (if k = key then Some until else map_of (ra_blocked_until r) k)"
proof -
  let ?d = "move_to_end key (AList.update key until (ra_blocked_until r))"
  have dd: "distinct_keys ?d" using d by (intro distinct_keys_move distinct_keys_update)
  have "length ?d = card (insert key (fst ` set (ra_blocked_until r)))"
    using distinct_keys_card [OF dd] by (simp add: keys_move keys_update)
  also have "\<dots> \<le> card B" using c(1) sub by (rule card_mono)
  finally have "trim_oldest MAX_BLOCKED ?d = ?d" using c(2) by (intro trim_short) simp
  then show ?thesis by (simp add: ra_block_def lookup_move lookup_update)
qed

lemma completeD: "complete raws seen key \<Longrightarrow> i < fragments_of raws key \<Longrightarrow> (key, i) \<in> set seen"
  by (auto simp: complete_def list_all_iff)

lemma completeI: "(\<And>i. i < fragments_of raws key \<Longrightarrow> (key, i) \<in> set seen) \<Longrightarrow> complete raws seen key"
  by (auto simp: complete_def list_all_iff)

lemma complete_other: "k \<noteq> key \<Longrightarrow> complete raws ((key, i) # seen) k = complete raws seen k"
  by (auto simp: complete_def list_all_iff)

lemma key_sim_other:
  assumes "k \<noteq> key" and "key_sim raws s seen r k"
    and "map_of (ra_items r') k = map_of (ra_items r) k"
    and "map_of (ra_blocked_until r') k = map_of (ra_blocked_until r) k"
  shows "key_sim raws s ((key, i) # seen) r' k"
proof -
  have "k \<in> fst ` set (ra_blocked_until r') \<longleftrightarrow> k \<in> fst ` set (ra_blocked_until r)"
    using assms(4) by (simp flip: lookup_some_iff)
  with assms show ?thesis
    by (auto simp: key_sim_def complete_other assembly_sim_def split: option.splits)
qed

text \<open>What the reassembler reads from a fragment, and that it finds nothing wrong with it.\<close>

lemma fragment_frame_unpack:
  assumes "valid_rtcm3 raw" and "rtcm_type raw = Inr t" and "i < fragment_count (length raw)"
  shows "struct_unpack [U 2, U 2, U 1, U 1] (take 6 (af_body (fragment_frame t raw ses mid age i))) =
           Inr [t, int (length raw), int i, int (fragment_count (length raw))]"
proof -
  let ?v = "[t, int (length raw), int i, int (fragment_count (length raw))]"
  obtain t' where "rtcm_type raw = Inr t'" "0 \<le> t'" "t' < 4096" using rtcm_type_valid [OF assms(1)] .
  with assms have ok: "pack_ok [U 2, U 2, U 1, U 1] ?v"
    using valid_rtcm3_length [OF assms(1)] by (intro fragment_pack_ok) auto
  then have l: "length (pack_fields [U 2, U 2, U 1, U 1] ?v) = 6"
    by (simp add: length_pack_fields del: pack_fields.simps pack_ok.simps)
  have "struct_pack [U 2, U 2, U 1, U 1] ?v = Inr (pack_fields [U 2, U 2, U 1, U 1] ?v)"
    using ok by (simp only: struct_pack_def if_True)
  from struct_unpack_pack [OF this] show ?thesis
    using l by (simp add: fragment_frame_def del: pack_fields.simps)
qed

lemma fragment_shape_ok:
  assumes "valid_rtcm3 raw" and "i < fragment_count (length raw)"
  shows "\<not> bad_shape (int (length raw)) (int i) (int (fragment_count (length raw))) (fragment_data raw i)"
proof -
  have b: "6 \<le> length raw" "length raw \<le> 1029" using valid_rtcm3_length [OF assms(1)] by auto
  define n where "n = fragment_count (length raw)"
  note n = fragment_count_bounds [OF b, folded n_def]
  have "int n = (int (length raw) + 174 - 1) div 174"
    using b by (simp add: n_def fragment_count_def zdiv_int of_nat_diff)
  moreover have "int (length (fragment_data raw i)) = fragment_length (int (length raw)) (int i) (int n)"
  proof (cases "Suc i < n")
    case True
    then have "174 + 174 * i \<le> length raw" using full_fragment [OF b, of i] by (simp add: n_def)
    with True show ?thesis by (simp add: fragment_length_def length_fragment_data)
  next
    case False
    with assms(2) have i: "n = Suc i" by (simp add: n_def)
    with n have "length raw - 174 * i \<le> 174" "174 * i \<le> length raw" by auto
    with i show ?thesis by (simp add: fragment_length_def length_fragment_data of_nat_diff)
  qed
  ultimately show ?thesis using b n assms(2) by (auto simp: bad_shape_def n_def [symmetric])
qed


lemma open_sim:
  assumes sim: "ra_sim raws ks old s seen r" and key: "key \<in> ks" and nc: "\<not> complete raws seen key"
    and v: "valid_rtcm3 (raws key)" "rtcm_type (raws key) = Inr mtype"
    and ks: "finite ks" "card ks \<le> MAX_REASSEMBLIES" and t: "s \<le> t" and i: "i < fragments_of raws key"
  defines "r' \<equiv> open_assembly key t mtype (int (length (raws key))) (int (fragments_of raws key)) r"
  shows "ra_inv r'" and "\<exists>a. map_of (ra_items r') key = Some a \<and> assembly_sim raws s seen key a"
    and "ra_blocked_until r' = ra_blocked_until r"
    and "\<And>k. k \<noteq> key \<Longrightarrow> map_of (ra_items r') k = map_of (ra_items r) k"
    and "fst ` set (ra_items r') \<subseteq> ks"
proof -
  have inv: "ra_inv r" and sub: "fst ` set (ra_items r) \<subseteq> ks" and kk: "key_sim raws s seen r key"
    using sim key by (auto simp: ra_sim_def)
  have nb: "key \<notin> fst ` set (ra_blocked_until r)" using kk nc by (simp add: key_sim_def)
  show "ra_inv r'"
    unfolding r'_def
    using open_assembly_inv(1) [OF inv fragment_shape_ok [OF v(1)] _ nb] i by (simp add: fragments_of_def)
  have "(\<exists>a. map_of (ra_items r') key = Some a \<and> assembly_sim raws s seen key a) \<and>
      ra_blocked_until r' = ra_blocked_until r \<and>
      (\<forall>k. k \<noteq> key \<longrightarrow> map_of (ra_items r') k = map_of (ra_items r) k) \<and> fst ` set (ra_items r') \<subseteq> ks"
  proof (cases "map_of (ra_items r) key")
    case (Some a)
    then have m: "key \<in> fst ` set (ra_items r)" by (auto simp flip: lookup_some_iff)
    have "assembly_sim raws s seen key a" using kk nc Some by (simp add: key_sim_def)
    with Some m sub show ?thesis by (simp add: r'_def open_assembly_def)
  next
    case None
    then have m: "key \<notin> fst ` set (ra_items r)" by (simp add: map_of_eq_None_iff)
    have "fst ` set (ra_items r) \<subseteq> ks - {key}" using sub m by blast
    from card_mono [OF _ this] have "length (ra_items r) \<le> card (ks - {key})"
      using ks distinct_keys_card [OF ra_invD(1) [OF inv]] by simp
    moreover have "card (ks - {key}) < card ks" using ks key by (intro card_Diff1_less)
    ultimately have "length (ra_items r) \<noteq> MAX_REASSEMBLIES" using ks(2) by linarith
    moreover have "assembly_sim raws s seen key \<lparr>as_started_at = t, as_rtcm_type = mtype,
        as_total_length = int (length (raws key)), as_fragment_count = int (fragments_of raws key),
        as_parts = []\<rparr>"
      using kk nc None t v by (auto simp: key_sim_def assembly_sim_def)
    ultimately show ?thesis
      using m sub key by (auto simp: r'_def open_assembly_def lookup_update keys_update)
  qed
  then show "\<exists>a. map_of (ra_items r') key = Some a \<and> assembly_sim raws s seen key a"
    "ra_blocked_until r' = ra_blocked_until r"
    "\<And>k. k \<noteq> key \<Longrightarrow> map_of (ra_items r') k = map_of (ra_items r) k"
    "fst ` set (ra_items r') \<subseteq> ks" by blast+
qed

lemma sim_all_parts:
  assumes sim: "assembly_sim raws s seen key a" and c: "complete raws seen key"
    and v: "6 \<le> length (raws key)" "length (raws key) \<le> MAX_RTCM_FRAME_SIZE"
    and all: "fst ` set (as_parts a) = {0..<as_fragment_count a}"
  shows "join_parts a = Inr (raws key)"
proof -
  let ?n = "fragments_of raws key"
  have n: "as_fragment_count a = int ?n" using sim by (simp add: assembly_sim_def)
  have "[0..int ?n - 1] = map int [0..<?n]"
    by (rule nth_equalityI) auto
  then have "map (\<lambda>i. the (map_of (as_parts a) i)) [0..int ?n - 1] = map (fragment_data (raws key)) [0..<?n]"
    using sim completeD [OF c] by (simp add: assembly_sim_def)
  with join_parts_complete [OF all] show ?thesis
    using concat_all_fragment_data [OF v] by (simp add: n fragments_of_def)
qed


lemma sim_full:
  assumes sim: "assembly_sim raws s seen key a" and dk: "distinct_keys (as_parts a)"
    and sub: "fst ` set (as_parts a) \<subseteq> {0..<int (fragments_of raws key)}"
  shows "int (length (as_parts a)) < int (fragments_of raws key) \<longleftrightarrow> \<not> complete raws seen key"
proof -
  let ?n = "fragments_of raws key"
  have part: "int j \<in> fst ` set (as_parts a) \<longleftrightarrow> (key, j) \<in> set seen" if "j < ?n" for j
    using sim that unfolding assembly_sim_def by (simp flip: lookup_in_keys)
  have "{0..<int ?n} \<subseteq> fst ` set (as_parts a) \<longleftrightarrow> complete raws seen key"
  proof
    assume all: "{0..<int ?n} \<subseteq> fst ` set (as_parts a)"
    have "int j \<in> fst ` set (as_parts a)" if "j < ?n" for j
      using subsetD [OF all, of "int j"] that by simp
    then show "complete raws seen key" using part by (blast intro: completeI)
  next
    assume c: "complete raws seen key"
    show "{0..<int ?n} \<subseteq> fst ` set (as_parts a)"
    proof
      fix j
      assume "j \<in> {0..<int ?n}"
      then have "j = int (nat j)" and "nat j < ?n" by auto
      then show "j \<in> fst ` set (as_parts a)" using part completeD [OF c] by metis
    qed
  qed
  moreover have "int (length (as_parts a)) < int ?n \<longleftrightarrow> \<not> {0..<int ?n} \<subseteq> fst ` set (as_parts a)"
  proof
    assume "int (length (as_parts a)) < int ?n"
    then have "card (fst ` set (as_parts a)) \<noteq> card {0..<int ?n}"
      by (simp add: distinct_keys_card [OF dk])
    with sub show "\<not> {0..<int ?n} \<subseteq> fst ` set (as_parts a)" by (metis subset_antisym)
  next
    assume "\<not> {0..<int ?n} \<subseteq> fst ` set (as_parts a)"
    with length_join_keys [OF dk sub] show "int (length (as_parts a)) < int ?n" by blast
  qed
  ultimately show ?thesis by blast
qed

lemma part_sim:
  assumes inv: "ra_inv r" and sub: "fst ` set (ra_items r) \<subseteq> ks" "fst ` set (ra_blocked_until r) \<subseteq> old \<union> ks"
    and ks: "finite (old \<union> ks)" "card (old \<union> ks) \<le> MAX_BLOCKED" and key: "key \<in> ks"
    and nb: "key \<notin> fst ` set (ra_blocked_until r)" and nc: "\<not> complete raws seen key"
    and a: "map_of (ra_items r) key = Some a" "assembly_sim raws s seen key a"
    and v: "valid_rtcm3 (raws key)" "rtcm_type (raws key) = Inr mtype" and i: "i < fragments_of raws key"
  defines "res \<equiv> add_part key mtype (int (length (raws key))) (int i) (int (fragments_of raws key))
      (fragment_data (raws key) i) r"
  shows "snd res = Inr (if complete raws ((key, i) # seen) key then Some (raws key) else None)"
    and "key_sim raws s ((key, i) # seen) (fst res) key"
    and "\<And>k. k \<noteq> key \<Longrightarrow> map_of (ra_items (fst res)) k = map_of (ra_items r) k \<and>
           map_of (ra_blocked_until (fst res)) k = map_of (ra_blocked_until r) k"
    and "fst ` set (ra_items (fst res)) \<subseteq> ks"
    and "fst ` set (ra_blocked_until (fst res)) \<subseteq> old \<union> ks"
proof -
  let ?n = "fragments_of raws key" and ?seen = "(key, i) # seen" and ?d = "fragment_data (raws key) i"
  have b: "6 \<le> length (raws key)" "length (raws key) \<le> 1029" using valid_rtcm3_length [OF v(1)] by auto
  have ok: "assembly_ok a" using ra_invD(6) [OF inv a(1)] .
  have meta: "as_rtcm_type a = mtype" "as_total_length a = int (length (raws key))"
      "as_fragment_count a = int ?n" using a(2) v(2) by (simp_all add: assembly_sim_def)
  have part: "map_of (as_parts a) (int i) = (if (key, i) \<in> set seen then Some ?d else None)"
    using a(2) i by (simp add: assembly_sim_def)
  have "snd res = Inr (if complete raws ?seen key then Some (raws key) else None) \<and>
      key_sim raws s ?seen (fst res) key \<and>
      (\<forall>k. k \<noteq> key \<longrightarrow> map_of (ra_items (fst res)) k = map_of (ra_items r) k \<and>
           map_of (ra_blocked_until (fst res)) k = map_of (ra_blocked_until r) k) \<and>
      fst ` set (ra_items (fst res)) \<subseteq> ks \<and> fst ` set (ra_blocked_until (fst res)) \<subseteq> old \<union> ks"
  proof (cases "(key, i) \<in> set seen")
    case True
    then have res: "res = (r\<lparr>ra_duplicate_count := Suc (ra_duplicate_count r)\<rparr>, Inr None)"
      by (simp add: res_def add_part_def a(1) meta part)
    have same: "set ?seen = set seen" using True by auto
    then have "\<not> complete raws ?seen key" using nc by (simp add: complete_def)
    moreover have "assembly_sim raws s ?seen key a" using a(2) same by (simp add: assembly_sim_def)
    ultimately show ?thesis using sub nb a(1) by (simp add: res key_sim_def)
  next
    case False
    define a' where "a' = a\<lparr>as_parts := AList.update (int i) ?d (as_parts a)\<rparr>"
    define r' where "r' = r\<lparr>ra_items := AList.update key a' (ra_items r)\<rparr>"
    have sim': "assembly_sim raws s ?seen key a'"
      using a(2) i by (auto simp: assembly_sim_def a'_def lookup_update)
    have started: "s \<le> as_started_at a'" using sim' by (simp add: assembly_sim_def)
    have dk: "distinct_keys (as_parts a')" and ksub: "fst ` set (as_parts a') \<subseteq> {0..<int ?n}"
      using ok meta i by (auto simp: assembly_ok_def a'_def keys_update intro: distinct_keys_update)
    have full: "int (length (as_parts a')) < int ?n \<longleftrightarrow> \<not> complete raws ?seen key"
      using sim_full [OF sim' dk ksub] .
    show ?thesis
    proof (cases "complete raws ?seen key")
      case nc': False
      then have "res = (r', Inr None)"
        using full False by (simp add: res_def add_part_def a(1) meta part r'_def a'_def Let_def)
      moreover have "key_sim raws s ?seen r' key"
        using nc' nb sim' by (simp add: key_sim_def r'_def lookup_update)
      ultimately show ?thesis using nc' sub key by (simp add: r'_def lookup_update keys_update)
    next
      case True
      have all: "fst ` set (as_parts a') = {0..<as_fragment_count a'}"
        using length_join_keys [OF dk ksub] full True meta by (simp add: a'_def)
      have "join_parts a' = Inr (raws key)" using sim_all_parts [OF sim' True b all] .
      then have res: "res = (ra_close key a' r', Inr (Some (raws key)))"
        using True full False v
        by (simp add: res_def add_part_def a(1) meta part r'_def a'_def Let_def)
      let ?u = "as_started_at a' + 1"
      have lk: "map_of (ra_blocked_until (ra_close key a' r')) k =
          (if k = key then Some ?u else map_of (ra_blocked_until r) k)" for k
        using block_lookup [of "r'\<lparr>ra_items := AList.delete key (ra_items r')\<rparr>" "old \<union> ks" key ?u k]
          ra_invD(3) [OF inv] ks sub key
        by (simp add: ra_close_def r'_def)
      have "fst ` set (ra_blocked_until (ra_close key a' r')) \<subseteq> old \<union> ks"
        using keys_ra_block [of key ?u "r'\<lparr>ra_items := AList.delete key (ra_items r')\<rparr>"] sub(2) key
        by (auto simp: ra_close_def r'_def)
      then show ?thesis
        using True lk started sub(1) key
        by (auto simp: res key_sim_def ra_close_def r'_def lookup_delete lookup_update keys_delete keys_update)
    qed
  qed
  then show "snd res = Inr (if complete raws ?seen key then Some (raws key) else None)"
    "key_sim raws s ?seen (fst res) key"
    "\<And>k. k \<noteq> key \<Longrightarrow> map_of (ra_items (fst res)) k = map_of (ra_items r) k \<and>
           map_of (ra_blocked_until (fst res)) k = map_of (ra_blocked_until r) k"
    "fst ` set (ra_items (fst res)) \<subseteq> ks" "fst ` set (ra_blocked_until (fst res)) \<subseteq> old \<union> ks"
    by blast+
qed


lemma frag_step_sim:
  assumes sim: "ra_sim raws ks old s seen r" and t: "s \<le> t" "t < s + 6 / 10"
    and ks: "finite ks" "card ks \<le> MAX_REASSEMBLIES" "finite old" "card (old \<union> ks) \<le> MAX_BLOCKED"
    and v: "valid_rtcm3 (raws key)" and key: "key \<in> ks" and i: "i < fragments_of raws key"
    and age: "age < 1000"
  defines "res \<equiv> ra_add t (fragment_frame (projr (rtcm_type (raws key))) (raws key) (fst key) (snd key) age i) r"
  shows "snd res = (if complete raws seen key
           then Inl (ApplicationError ''expired or completed RTCM message'')
           else Inr (if complete raws ((key, i) # seen) key then Some (raws key) else None)) \<and>
         ra_sim raws ks old s (if complete raws seen key then seen else (key, i) # seen) (fst res)"
proof -
  define e where "e = fst (ra_expire t r)"
  have e: "ra_sim raws ks old s seen e" unfolding e_def using sim t by (rule expire_sim)
  then have inv: "ra_inv e" and sub: "fst ` set (ra_items e) \<subseteq> ks" "fst ` set (ra_blocked_until e) \<subseteq> old \<union> ks"
    and kk: "key_sim raws s seen e k" if "k \<in> ks" for k using that key by (auto simp: ra_sim_def)
  obtain mtype where mt: "rtcm_type (raws key) = Inr mtype" using rtcm_type_valid [OF v] .
  have i': "i < fragment_count (length (raws key))" using i by (simp add: fragments_of_def)
  let ?f = "fragment_frame mtype (raws key) (fst key) (snd key) age i"
  have res: "res = ra_add t ?f r" by (simp add: res_def mt)
  show ?thesis
  proof (cases "complete raws seen key")
    case True
    then have "key \<in> fst ` set (ra_blocked_until e)"
      using kk [OF key] by (auto simp: key_sim_def simp flip: lookup_some_iff)
    then have "res = (e, Inl (ApplicationError ''expired or completed RTCM message''))"
      using fragment_frame_unpack [OF v mt i', of "fst key" "snd key" age] fragment_shape_ok [OF v i'] age
      by (simp add: res ra_add_def e_def [symmetric] Let_def)
    with True e show ?thesis by simp
  next
    case nc: False
    then have nb: "key \<notin> fst ` set (ra_blocked_until e)" using kk [OF key] by (simp add: key_sim_def)
    let ?o = "open_assembly key t mtype (int (length (raws key))) (int (fragments_of raws key)) e"
    note o = open_sim [OF e key nc v mt ks(1,2) t(1) i]
    obtain a where a: "map_of (ra_items ?o) key = Some a" "assembly_sim raws s seen key a" using o(2) by blast
    have eq: "res = add_part key mtype (int (length (raws key))) (int i) (int (fragments_of raws key))
        (fragment_data (raws key) i) ?o"
      using fragment_frame_unpack [OF v mt i', of "fst key" "snd key" age] fragment_shape_ok [OF v i'] age nb
      by (simp add: res ra_add_def e_def [symmetric] Let_def fragments_of_def)
    have fin: "finite (old \<union> ks)" using ks by simp
    note part = part_sim [OF o(1,5) _ fin ks(4) key _ nc a v mt i, unfolded o(3), OF sub(2) [OF key] nb, folded eq]
    have "ra_inv (fst res)" unfolding res using ra_add_ok sim by (auto simp: ra_sim_def)
    moreover have "key_sim raws s ((key, i) # seen) (fst res) k" if "k \<in> ks" for k
    proof (cases "k = key")
      case False
      with key_sim_other [OF False kk [OF that], of "fst res" i] part(3) [OF False] o(3,4) show ?thesis
        by simp
    qed (use part(2) in simp)
    ultimately show ?thesis using nc part(1,4,5) by (simp add: ra_sim_def)
  qed
qed

lemma frag_run_sim:
  assumes "finite ks" "card ks \<le> MAX_REASSEMBLIES" "finite old" "card (old \<union> ks) \<le> MAX_BLOCKED"
    and "\<And>key. key \<in> ks \<Longrightarrow> valid_rtcm3 (raws key)"
  shows "ra_sim raws ks old s seen r \<Longrightarrow>
     \<forall>e\<in>set es. frag_ok raws ks e \<and> s \<le> frag_time e \<and> frag_time e < s + 6 / 10 \<Longrightarrow>
     ra_outputs r (map (frag_event raws) es) = frag_spec raws seen es"
proof (induction es arbitrary: r seen)
  case (Cons e es)
  show ?case
  proof (cases e)
    case (Tick t)
    then show ?thesis using Cons expire_sim [OF Cons.prems(1)] by (simp add: frag_event_def)
  next
    case (Frag t key i age)
    with Cons.prems(2) have t: "s \<le> t" "t < s + 6 / 10" and key: "key \<in> ks"
      and i: "i < fragments_of raws key" and age: "age < 1000" by auto
    note step = frag_step_sim [OF Cons.prems(1) t assms(1-4) assms(5) [OF key] key i age]
    show ?thesis
      using step Cons.IH Cons.prems(2) by (auto simp: Frag frag_event_def Let_def)
  qed
qed simp


subsection \<open>Properties\<close>

lemma incomplete_Nil:
  assumes "valid_rtcm3 (raws key)"
  shows "\<not> complete raws [] key"
proof -
  have "6 \<le> length (raws key)" "length (raws key) \<le> 1029" using valid_rtcm3_length [OF assms] by auto
  from fragment_count_bounds [OF this] have "0 \<in> set [0..<fragments_of raws key]"
    by (simp add: fragments_of_def)
  then show ?thesis unfolding complete_def list_all_iff by auto
qed

lemma new_sim:
  assumes "ra_inv r" and "ra_items r = []" and "fst ` set (ra_blocked_until r) \<inter> ks = {}"
    and "\<And>key. key \<in> ks \<Longrightarrow> valid_rtcm3 (raws key)"
  shows "ra_sim raws ks (fst ` set (ra_blocked_until r)) s [] r"
  using assms incomplete_Nil by (auto simp: ra_sim_def key_sim_def)

text \<open>
  Property C2. Reassembly does what its abstract specification says. Take up to eight messages
  (sender session and message id) with valid frames, and a reassembler that holds no incomplete
  message, that does not refuse any of these messages at the start (no key of theirs is in
  \<open>blocked_until\<close>), and whose list of refusals has room for them (the refusals it has and the
  messages are at most 64 together). Feed it their fragments, each with a source age below 1000 ms,
  in any order, interleaved, repeated, and with \<open>expire\<close> calls in between, all within 0.6 seconds:
  every \<open>add\<close> answers exactly as the specification, that is nothing while fragments are missing, the
  frame itself when its last missing fragment arrives, and a refusal for whatever comes after that.
\<close>

theorem reassembly_refines_spec:
  assumes "ra_inv r" and "ra_items r = []"
    and "finite ks" and "card ks \<le> MAX_REASSEMBLIES"
    and "fst ` set (ra_blocked_until r) \<inter> ks = {}" and "length (ra_blocked_until r) + card ks \<le> MAX_BLOCKED"
    and "\<And>key. key \<in> ks \<Longrightarrow> valid_rtcm3 (raws key)"
    and "\<forall>e\<in>set es. frag_ok raws ks e \<and> s \<le> frag_time e \<and> frag_time e < s + REASSEMBLY_TIMEOUT_S"
  shows "ra_outputs r (map (frag_event raws) es) = frag_spec raws [] es"
proof (rule frag_run_sim)
  show "ra_sim raws ks (fst ` set (ra_blocked_until r)) s [] r" using assms by (intro new_sim) auto
  have "card (fst ` set (ra_blocked_until r) \<union> ks) = length (ra_blocked_until r) + card ks"
    using assms ra_invD(3) [OF assms(1)] by (subst card_Un_disjoint) (auto simp: distinct_keys_card)
  with assms(6) show "card (fst ` set (ra_blocked_until r) \<union> ks) \<le> 64" by simp
qed (use assms in simp_all)

lemma reassembly_refines_spec_witness:
  "ra_outputs new_reassembler
     (map (frag_event (\<lambda>_. [211, 0, 2, 62, 208, 164, 224, 0]))
       [Frag 5 (7, 1) 0 3, Tick (51 / 10), Frag (52 / 10) (7, 1) 0 900]) =
   [Inr (Some [211, 0, 2, 62, 208, 164, 224, 0]),
    Inl (ApplicationError ''expired or completed RTCM message'')]"
  by (subst reassembly_refines_spec [of _ "{(7, 1)}" _ _ 5])
    (simp_all add: new_reassembler_inv rtcm_vector complete_def fragments_of_def fragment_count_def,
     simp_all add: new_reassembler_def)

lemma frag_spec_delivers:
  assumes "\<And>i. i < fragments_of raws key \<Longrightarrow> (key, i) \<in> set seen \<or> (\<exists>t age. Frag t key i age \<in> set es)"
    and "\<not> complete raws seen key"
  shows "Inr (Some (raws key)) \<in> set (frag_spec raws seen es)"
  using assms
proof (induction raws seen es rule: frag_spec.induct)
  case (1 raws seen)
  then show ?case using completeI [of raws key seen] by auto
next
  case (2 raws seen t es)
  then show ?case by auto
next
  case (3 raws seen t k i age es)
  show ?case
  proof (cases "complete raws seen k")
    case True
    with 3 have "k \<noteq> key" by auto
    with 3 True show ?thesis by auto
  next
    case False
    show ?thesis
    proof (cases "complete raws ((k, i) # seen) key")
      case True
      then have "k = key" using 3(4) complete_other [of key k raws i seen] by auto
      with False True show ?thesis by (simp add: Let_def)
    next
      case nc: False
      have "Inr (Some (raws key)) \<in> set (frag_spec raws ((k, i) # seen) es)"
        using 3(2) [OF False refl _ nc] 3(3) by fastforce
      with False show ?thesis by (simp add: Let_def)
    qed
  qed
qed

text \<open>
  Nothing is lost: under the same conditions, a message all of whose fragments are
  among the inputs is handed out.
\<close>

theorem reassembly_delivers:
  assumes "ra_inv r" and "ra_items r = []"
    and "finite ks" and "card ks \<le> MAX_REASSEMBLIES"
    and "fst ` set (ra_blocked_until r) \<inter> ks = {}" and "length (ra_blocked_until r) + card ks \<le> MAX_BLOCKED"
    and "\<And>key. key \<in> ks \<Longrightarrow> valid_rtcm3 (raws key)"
    and "\<forall>e\<in>set es. frag_ok raws ks e \<and> s \<le> frag_time e \<and> frag_time e < s + REASSEMBLY_TIMEOUT_S"
    and "key \<in> ks" and "\<And>i. i < fragments_of raws key \<Longrightarrow> \<exists>t age. Frag t key i age \<in> set es"
  shows "Inr (Some (raws key)) \<in> set (ra_outputs r (map (frag_event raws) es))"
proof -
  have sim: "ra_sim raws ks (fst ` set (ra_blocked_until r)) s [] r" using assms by (intro new_sim) auto
  have "card (fst ` set (ra_blocked_until r) \<union> ks) = length (ra_blocked_until r) + card ks"
    using assms ra_invD(3) [OF assms(1)] by (subst card_Un_disjoint) (auto simp: distinct_keys_card)
  with assms have "ra_outputs r (map (frag_event raws) es) = frag_spec raws [] es"
    by (intro frag_run_sim [OF _ _ _ _ _ sim]) auto
  moreover have "\<not> complete raws [] key" using assms(7) [OF assms(9)] by (rule incomplete_Nil)
  ultimately show ?thesis using frag_spec_delivers [of raws key "[]" es] assms(10) by simp
qed

lemma reassembly_delivers_witness:
  "Inr (Some [211, 0, 2, 62, 208, 164, 224, 0]) \<in>
     set (ra_outputs new_reassembler
       (map (frag_event (\<lambda>_. [211, 0, 2, 62, 208, 164, 224, 0])) [Tick 4, Frag 4 (7, 1) 0 3]))"
  by (rule reassembly_delivers [of new_reassembler "{(7, 1)}" "\<lambda>_. [211, 0, 2, 62, 208, 164, 224, 0]" _ 4 "(7, 1)",
        simplified])
    (simp_all add: new_reassembler_inv rtcm_vector fragments_of_def fragment_count_def,
     simp_all add: new_reassembler_def)

text \<open>
  Property C31. In every run from the empty reassembler, at most 8 incomplete messages and 64
  refusals are kept, under distinct keys, no key is in both, every assembly is well formed, and an
  \<open>add\<close> returns nothing, a valid RTCM3 frame, or one of its seven application errors: it never
  raises \<open>KeyError\<close> or \<open>struct.error\<close>.
\<close>

theorem reassembler_safe:
  "ra_inv (run ra_step new_reassembler es) \<and>
   list_all (\<lambda>res. case res of Inl e \<Rightarrow> e \<in> ra_errors | Inr None \<Rightarrow> True | Inr (Some raw) \<Rightarrow> valid_rtcm3 raw)
     (ra_outputs new_reassembler es)"
  using ra.run_inv [OF new_reassembler_inv] ra_outputs_ok [OF new_reassembler_inv]
  unfolding list_all_iff by blast

text \<open>
  Property C32. Deadlines are not extended. After an \<open>add\<close> at time \<open>now\<close> every incomplete message
  is younger than 0.6 s; one that was there before and had not expired at \<open>now\<close> still has the start
  time, type, length and count it had, whatever fragments came for it; the only one with another
  start time is the message of the fragment just added, when nothing live was held for it, and it
  starts at \<open>now\<close>. Every refusal still kept ends later than \<open>now\<close>.
\<close>

theorem reassembly_deadlines:
  assumes "ra_inv r"
  shows "(\<forall>k a. map_of (ra_items (fst (ra_add now f r))) k = Some a \<longrightarrow>
      now - as_started_at a < REASSEMBLY_TIMEOUT_S \<and>
      (case map_of (ra_items r) k of
         None \<Rightarrow> k = (af_sender_session f, af_message_id f) \<and> as_started_at a = now
       | Some b \<Rightarrow> if now - as_started_at b < REASSEMBLY_TIMEOUT_S then same_message b a
                   else k = (af_sender_session f, af_message_id f) \<and> as_started_at a = now)) \<and>
    (\<forall>(k, u)\<in>set (ra_blocked_until (fst (ra_add now f r))). now < u)"
proof (intro conjI allI impI)
  fix k a
  assume a: "map_of (ra_items (fst (ra_add now f r))) k = Some a"
  show "now - as_started_at a < REASSEMBLY_TIMEOUT_S"
    using ra_timelyD(1) [OF ra_add_timely [OF assms] map_of_SomeD [OF a]] .
  show "case map_of (ra_items r) k of
         None \<Rightarrow> k = (af_sender_session f, af_message_id f) \<and> as_started_at a = now
       | Some b \<Rightarrow> if now - as_started_at b < REASSEMBLY_TIMEOUT_S then same_message b a
                   else k = (af_sender_session f, af_message_id f) \<and> as_started_at a = now"
    using ra_add_same [OF assms a]
    by (auto simp: ra_expire_lookup [OF assms] split: option.splits if_splits)
qed (use ra_add_timely [OF assms] in \<open>simp add: ra_timely_def\<close>)

lemma reassembly_deadlines_witness:
  "map_of (ra_items (fst (ra_add 5 \<lparr>af_typ = 0x30, af_sender_session = 7, af_message_id = 1,
      af_source_age_ms = 0, af_body = [0, 1, 0, 175, 1, 2, 9]\<rparr> new_reassembler))) (7, 1) =
     Some \<lparr>as_started_at = 5, as_rtcm_type = 1, as_total_length = 175, as_fragment_count = 2,
       as_parts = [(1, [9])]\<rparr> \<and> (5 :: real) - 5 < 6 / 10"
proof -
  have "map_of (ra_items (fst (ra_add 5 \<lparr>af_typ = 0x30, af_sender_session = 7, af_message_id = 1,
      af_source_age_ms = 0, af_body = [0, 1, 0, 175, 1, 2, 9]\<rparr> new_reassembler))) (7, 1) =
     Some \<lparr>as_started_at = 5, as_rtcm_type = 1, as_total_length = 175, as_fragment_count = 2,
       as_parts = [(1, [9])]\<rparr>"
    by (simp add: ra_add_def ra_expire_def expired_keys_def new_reassembler_def Let_def struct_unpack_def
        unbe_def bad_shape_def fragment_length_def open_assembly_def add_part_def)
  with reassembly_deadlines [OF new_reassembler_inv, of 5 "\<lparr>af_typ = 0x30, af_sender_session = 7,
      af_message_id = 1, af_source_age_ms = 0, af_body = [0, 1, 0, 175, 1, 2, 9]\<rparr>"]
  show ?thesis by auto
qed

end
