(* ===== verification/Stop_Cache.thy ===== *)
theory Stop_Cache
  imports App_Frame
begin

text \<open>
  The robot's handling of STOP requests: \<open>StopCache\<close> of \<open>tools/lora_usb/application.py\<close>. A request
  is answered from the cache when its sender session and message id are known, refused when it is
  malformed, meant for another session, too old or not newer than the sender's last one, and
  otherwise stops the mock state. The lemmas show when a request is applied, that a repeated
  request is answered as before and applied at most once, and that no request leaves the stopped
  state.
\<close>

abbreviation (input) STOP_CACHE_SIZE :: nat where "STOP_CACHE_SIZE \<equiv> 64"

record stop_decision =
  sd_result :: int
  sd_state :: int
  sd_applied_now :: bool

record stop_cache =
  sc_local_session :: int
  sc_ttl_ms :: int
  sc_state :: int
  sc_high_water :: "(int \<times> int) list"
  sc_cache :: "((int \<times> int) \<times> (bytes \<times> int \<times> int)) list"
  sc_apply_count :: nat

subsection \<open>The code\<close>

definition new_stop_cache :: "int \<Rightarrow> int \<Rightarrow> stop_cache result" where
  "new_stop_cache ses ttl =
     (if \<not> (0 < ses \<and> ses \<le> 0xFFFFFFFF) then Inl (ApplicationError ''local session'')
      else Inr \<lparr>sc_local_session = ses, sc_ttl_ms = ttl, sc_state = STATE_RUNNING, sc_high_water = [],
                sc_cache = [], sc_apply_count = 0\<rparr>)"

definition frame_key :: "app_frame \<Rightarrow> int \<times> int" where
  "frame_key f = (af_sender_session f, af_message_id f)"

definition stop_remember :: "app_frame \<Rightarrow> int \<Rightarrow> stop_cache \<Rightarrow> stop_cache \<times> stop_decision" where
  "stop_remember f res c =
     (c\<lparr>sc_cache := trim_oldest STOP_CACHE_SIZE (move_to_end (frame_key f)
          (AList.update (frame_key f) (af_body f, res, sc_state c) (sc_cache c)))\<rparr>,
      \<lparr>sd_result = res, sd_state = sc_state c, sd_applied_now = False\<rparr>)"

definition high_water_of :: "stop_cache \<Rightarrow> int \<Rightarrow> int" where
  "high_water_of c ses = (case map_of (sc_high_water c) ses of None \<Rightarrow> 0 | Some n \<Rightarrow> n)"

definition stop_fresh :: "app_frame \<Rightarrow> stop_cache \<Rightarrow> stop_cache \<times> stop_decision" where
  "stop_fresh f c0 =
     (let c = c0\<lparr>sc_high_water :=
                AList.update (af_sender_session f) (af_message_id f) (sc_high_water c0)\<rparr>
      in if sc_state c = STATE_STOPPED then stop_remember f ACK_ALREADY_STOPPED c
         else (let c' = c\<lparr>sc_state := STATE_STOPPED, sc_apply_count := Suc (sc_apply_count c)\<rparr>;
                   (c'', d) = stop_remember f ACK_APPLIED c'
               in (c'', \<lparr>sd_result = sd_result d, sd_state = sd_state d, sd_applied_now = True\<rparr>)))"

definition stop_apply :: "app_frame \<Rightarrow> stop_cache \<Rightarrow> stop_cache \<times> stop_decision result" where
  "stop_apply f c =
     (let answer = (\<lambda>res. \<lparr>sd_result = res, sd_state = sc_state c, sd_applied_now = False\<rparr>);
          ok = (\<lambda>(c', d). (c', Inr d))
      in if af_typ f \<noteq> STOP_REQUEST then (c, Inl (ApplicationError ''not a STOP request''))
         else case map_of (sc_cache c) (frame_key f) of
           Some (body, res, state) \<Rightarrow>
             (if body \<noteq> af_body f then (c, Inr (answer ACK_ID_CONFLICT))
              else (c, Inr \<lparr>sd_result = res, sd_state = state, sd_applied_now = False\<rparr>))
         | None \<Rightarrow>
             (case decode_stop (af_body f) of
                Inl (ApplicationError e) \<Rightarrow> ok (stop_remember f ACK_UNSUPPORTED_COMMAND c)
              | Inl e \<Rightarrow> (c, Inl e)
              | Inr request \<Rightarrow>
                  (if target_session request \<noteq> sc_local_session c
                   then ok (stop_remember f ACK_WRONG_TARGET_SESSION c)
                   else if command request \<noteq> STOP_COMMAND
                   then ok (stop_remember f ACK_UNSUPPORTED_COMMAND c)
                   else if af_source_age_ms f > sc_ttl_ms c
                   then ok (stop_remember f ACK_EXPIRED c)
                   else if af_message_id f \<le> high_water_of c (af_sender_session f)
                   then (c, Inr (answer ACK_STALE_ID))
                   else ok (stop_fresh f c))))"

definition reset_mock_state :: "stop_cache \<Rightarrow> stop_cache" where
  "reset_mock_state c = c\<lparr>sc_state := STATE_RUNNING\<rparr>"

subsection \<open>What a request does\<close>

text \<open>
  \<open>decode_stop\<close> raises nothing but application errors, so \<open>apply\<close> raises
  only for another type.
\<close>

lemma decode_stop_cases:
  obtains e where "decode_stop b = Inl (ApplicationError e)" | r where "decode_stop b = Inr r"
proof (cases "length b = 6")
  case True
  then have "struct_unpack [U 4, U 1, U 1] b =
      Inr [unbe (take 4 b), unbe (take 1 (drop 4 b)), unbe (take 1 (drop 1 (drop 4 b)))]"
    by (simp add: struct_unpack_def)
  with True that(2) show ?thesis by (simp add: decode_stop_def)
qed (use that(1) in \<open>simp add: decode_stop_def\<close>)

text \<open>The conditions under which a request gets past every refusal.\<close>

definition stop_accepted :: "app_frame \<Rightarrow> stop_cache \<Rightarrow> bool" where
  "stop_accepted f c \<longleftrightarrow>
     af_typ f = STOP_REQUEST \<and> map_of (sc_cache c) (frame_key f) = None \<and>
     (\<exists>r. decode_stop (af_body f) = Inr r \<and> target_session r = sc_local_session c \<and>
          command r = STOP_COMMAND) \<and>
     af_source_age_ms f \<le> sc_ttl_ms c \<and> high_water_of c (af_sender_session f) < af_message_id f"

lemma stop_apply_accepted:
  "stop_accepted f c \<Longrightarrow> stop_apply f c = (fst (stop_fresh f c), Inr (snd (stop_fresh f c)))"
  by (auto simp: stop_accepted_def stop_apply_def case_prod_unfold)

text \<open>A request that is not accepted changes at most the cache, and its answer says so.\<close>

lemma stop_apply_refused:
  assumes "\<not> stop_accepted f c"
  shows "(\<exists>res\<in>{ACK_EXPIRED, ACK_WRONG_TARGET_SESSION, ACK_UNSUPPORTED_COMMAND}.
            map_of (sc_cache c) (frame_key f) = None \<and>
            stop_apply f c = (fst (stop_remember f res c), Inr (snd (stop_remember f res c)))) \<or>
         fst (stop_apply f c) = c \<and>
         (case snd (stop_apply f c) of
            Inl e \<Rightarrow> e = ApplicationError ''not a STOP request'' \<and> af_typ f \<noteq> STOP_REQUEST
          | Inr d \<Rightarrow> \<not> sd_applied_now d \<and>
              ((sd_result d = ACK_STALE_ID \<or>
                 sd_result d = ACK_ID_CONFLICT \<and> map_of (sc_cache c) (frame_key f) \<noteq> None) \<and>
                sd_state d = sc_state c \<or>
               map_of (sc_cache c) (frame_key f) = Some (af_body f, sd_result d, sd_state d)))"
proof (rule decode_stop_cases [of "af_body f"])
  fix e
  assume "decode_stop (af_body f) = Inl (ApplicationError e)"
  then show ?thesis
    by (auto simp: stop_apply_def case_prod_unfold split: option.splits prod.splits)
next
  fix r
  assume "decode_stop (af_body f) = Inr r"
  with assms show ?thesis
    by (auto simp: stop_apply_def stop_accepted_def case_prod_unfold split: option.splits prod.splits)
qed

lemma stop_remember_simps [simp]:
  "sc_local_session (fst (stop_remember f res c)) = sc_local_session c"
  "sc_ttl_ms (fst (stop_remember f res c)) = sc_ttl_ms c"
  "sc_state (fst (stop_remember f res c)) = sc_state c"
  "sc_high_water (fst (stop_remember f res c)) = sc_high_water c"
  "sc_apply_count (fst (stop_remember f res c)) = sc_apply_count c"
  "snd (stop_remember f res c) = \<lparr>sd_result = res, sd_state = sc_state c, sd_applied_now = False\<rparr>"
  by (simp_all add: stop_remember_def)

lemma stop_fresh_simps [simp]:
  "sc_local_session (fst (stop_fresh f c)) = sc_local_session c"
  "sc_ttl_ms (fst (stop_fresh f c)) = sc_ttl_ms c"
  "sc_state (fst (stop_fresh f c)) = STATE_STOPPED"
  "sc_high_water (fst (stop_fresh f c)) =
     AList.update (af_sender_session f) (af_message_id f) (sc_high_water c)"
  "sc_apply_count (fst (stop_fresh f c)) =
     (if sc_state c = STATE_STOPPED then sc_apply_count c else Suc (sc_apply_count c))"
  "snd (stop_fresh f c) =
     (if sc_state c = STATE_STOPPED
      then \<lparr>sd_result = ACK_ALREADY_STOPPED, sd_state = STATE_STOPPED, sd_applied_now = False\<rparr>
      else \<lparr>sd_result = ACK_APPLIED, sd_state = STATE_STOPPED, sd_applied_now = True\<rparr>)"
  by (simp_all add: stop_fresh_def Let_def case_prod_unfold)


lemma stop_applied_iff:
  "(\<exists>d. snd (stop_apply f c) = Inr d \<and> sd_applied_now d) \<longleftrightarrow> stop_accepted f c \<and> sc_state c \<noteq> STATE_STOPPED"
proof (cases "stop_accepted f c")
  case True
  then show ?thesis by (simp add: stop_apply_accepted)
next
  case False
  from stop_apply_refused [OF False] False show ?thesis by (auto split: sum.splits)
qed

subsection \<open>The cache as a machine\<close>

datatype stop_event = ApplyStop app_frame | ResetMock

fun stop_step :: "stop_cache \<Rightarrow> stop_event \<Rightarrow> stop_cache" where
  "stop_step c (ApplyStop f) = fst (stop_apply f c)"
| "stop_step c ResetMock = reset_mock_state c"

definition stop_results :: "int set" where
  "stop_results = {ACK_APPLIED, ACK_ALREADY_STOPPED, ACK_EXPIRED, ACK_WRONG_TARGET_SESSION,
     ACK_UNSUPPORTED_COMMAND}"

definition stop_inv :: "stop_cache \<Rightarrow> bool" where
  "stop_inv c \<longleftrightarrow>
     distinct_keys (sc_cache c) \<and> length (sc_cache c) \<le> STOP_CACHE_SIZE \<and>
     sc_state c \<in> {STATE_RUNNING, STATE_STOPPED} \<and>
     (\<forall>(key, body, res, state)\<in>set (sc_cache c).
        res \<in> stop_results \<and> state \<in> {STATE_RUNNING, STATE_STOPPED})"

text \<open>A request that is answered from nowhere is stored at the end of the cache.\<close>

lemma new_key_at_end:
  "distinct_keys d \<Longrightarrow> map_of d k = None \<Longrightarrow> move_to_end k (AList.update k v d) = d @ [(k, v)]"
proof -
  assume "distinct_keys d" and n: "map_of d k = None"
  then have "k \<notin> fst ` set d" by (simp add: map_of_eq_None_iff)
  then have "AList.delete k (AList.update k v d) = d"
    by (simp add: delete_update_same delete_id)
  then show ?thesis by (simp add: move_to_end_def lookup_update)
qed

lemma stop_remember_cache:
  "stop_inv c \<Longrightarrow> map_of (sc_cache c) (frame_key f) = None \<Longrightarrow>
     sc_cache (fst (stop_remember f res c)) =
       trim_oldest STOP_CACHE_SIZE (sc_cache c @ [(frame_key f, af_body f, res, sc_state c)])"
  by (simp add: stop_remember_def new_key_at_end stop_inv_def)

lemma stop_fresh_cache:
  assumes "stop_inv c" and "map_of (sc_cache c) (frame_key f) = None"
  shows "sc_cache (fst (stop_fresh f c)) =
     trim_oldest STOP_CACHE_SIZE (sc_cache c @
       [(frame_key f, af_body f, sd_result (snd (stop_fresh f c)), STATE_STOPPED)])"
  using assms
  by (simp add: stop_fresh_def Let_def case_prod_unfold) (simp add: stop_remember_def new_key_at_end stop_inv_def)

lemma stop_cache_extend:
  assumes "stop_inv c" and "map_of (sc_cache c) key = None" and "res \<in> stop_results"
    and "state \<in> {STATE_RUNNING, STATE_STOPPED}"
    and "sc_cache c' = trim_oldest STOP_CACHE_SIZE (sc_cache c @ [(key, body, res, state)])"
    and "sc_state c' \<in> {STATE_RUNNING, STATE_STOPPED}"
  shows "stop_inv c'"
proof -
  have "distinct_keys (sc_cache c @ [(key, body, res, state)])"
    using assms(1,2) by (simp add: stop_inv_def map_of_eq_None_iff)
  then have "distinct_keys (sc_cache c')" unfolding assms(5) by (rule distinct_keys_trim)
  moreover have "set (sc_cache c') \<subseteq> set (sc_cache c @ [(key, body, res, state)])"
    unfolding assms(5) by (rule set_trim_oldest)
  ultimately show ?thesis using assms by (auto simp: stop_inv_def)
qed

lemma stop_apply_inv: "stop_inv c \<Longrightarrow> stop_inv (fst (stop_apply f c))"
proof (cases "stop_accepted f c")
  case True
  assume c: "stop_inv c"
  from True have "map_of (sc_cache c) (frame_key f) = None" by (simp add: stop_accepted_def)
  with c True show ?thesis
    by (auto simp: stop_apply_accepted stop_results_def
        intro!: stop_cache_extend [OF c _ _ _ stop_fresh_cache [OF c]])
next
  case False
  assume c: "stop_inv c"
  then have "sc_state c \<in> {STATE_RUNNING, STATE_STOPPED}" by (simp add: stop_inv_def)
  with stop_apply_refused [OF False] c show ?thesis
    by (auto simp: stop_results_def intro!: stop_cache_extend [OF c _ _ _ stop_remember_cache [OF c]])
qed

lemma stop_step_inv: "stop_inv c \<Longrightarrow> stop_inv (stop_step c e)"
proof (cases e)
  case (ApplyStop f)
  assume "stop_inv c"
  with ApplyStop show ?thesis by (simp add: stop_apply_inv)
qed (auto simp: reset_mock_state_def stop_inv_def)

lemma new_stop_cache_inv: "new_stop_cache ses ttl = Inr c \<Longrightarrow> stop_inv c"
  by (auto simp: new_stop_cache_def stop_inv_def split: if_splits)

text \<open>The newest id seen from each sender never goes back, whatever happens.\<close>

definition high_water_le :: "stop_cache \<Rightarrow> stop_cache \<Rightarrow> bool" where
  "high_water_le c c' \<longleftrightarrow> (\<forall>ses. high_water_of c ses \<le> high_water_of c' ses)"

lemma high_water_fresh:
  "high_water_of (fst (stop_fresh f c)) ses =
     (if ses = af_sender_session f then af_message_id f else high_water_of c ses)"
  by (simp add: high_water_of_def lookup_update)

lemma stop_apply_high_water: "high_water_le c (fst (stop_apply f c))"
proof (cases "stop_accepted f c")
  case True
  then show ?thesis
    by (auto simp: stop_apply_accepted high_water_le_def high_water_fresh stop_accepted_def)
next
  case False
  from stop_apply_refused [OF False] show ?thesis by (auto simp: high_water_le_def high_water_of_def)
qed

interpretation stop: monotone_machine stop_step stop_inv high_water_le
proof
  fix c e
  assume "stop_inv c"
  then show "stop_inv (stop_step c e)" by (rule stop_step_inv)
  show "high_water_le c (stop_step c e)"
  proof (cases e)
    case (ApplyStop f)
    then show ?thesis by (simp add: stop_apply_high_water)
  qed (auto simp: reset_mock_state_def high_water_le_def high_water_of_def)
qed (auto simp: high_water_le_def intro: order_trans)

text \<open>Without the test fixture, the stopped state is never left and is entered at most once.\<close>

definition stop_message_step :: "stop_cache \<Rightarrow> app_frame \<Rightarrow> stop_cache" where
  "stop_message_step c f = fst (stop_apply f c)"

definition armed_le :: "stop_cache \<Rightarrow> stop_cache \<Rightarrow> bool" where
  "armed_le c c' \<longleftrightarrow>
     (sc_state c' = sc_state c \<and> sc_apply_count c' = sc_apply_count c \<or>
      sc_state c \<noteq> STATE_STOPPED \<and> sc_state c' = STATE_STOPPED \<and>
      sc_apply_count c' = Suc (sc_apply_count c))"

interpretation stop_messages: monotone_machine stop_message_step stop_inv armed_le
proof
  fix c f
  assume "stop_inv c"
  then show "stop_inv (stop_message_step c f)" unfolding stop_message_step_def by (rule stop_apply_inv)
  show "armed_le c (stop_message_step c f)"
  proof (cases "stop_accepted f c")
    case True
    then show ?thesis by (auto simp: stop_message_step_def stop_apply_accepted armed_le_def)
  next
    case False
    from stop_apply_refused [OF False] show ?thesis by (auto simp: stop_message_step_def armed_le_def)
  qed
qed (auto simp: armed_le_def)


text \<open>An entry survives as long as fewer than 64 later ones were stored behind it.\<close>

definition stored_within :: "nat \<Rightarrow> (int \<times> int) \<times> (bytes \<times> int \<times> int) \<Rightarrow> stop_cache \<Rightarrow> bool" where
  "stored_within n x c \<longleftrightarrow> (\<exists>xs ys. sc_cache c = xs @ x # ys \<and> length ys \<le> n)"

lemma stored_within_trim:
  assumes "stored_within n x c" and "n < 63"
    and "sc_cache c' = trim_oldest STOP_CACHE_SIZE (sc_cache c @ [y])"
  shows "stored_within (Suc n) x c'"
proof -
  obtain xs ys where d: "sc_cache c = xs @ x # ys" and l: "length ys \<le> n"
    using assms(1) by (auto simp: stored_within_def)
  have "sc_cache c' = drop (length xs + length ys + 2 - 64) xs @ x # (ys @ [y])"
    using l assms(2) by (simp add: assms(3) d trim_oldest_drop)
  with l show ?thesis unfolding stored_within_def by fastforce
qed

lemma stored_within_mono: "stored_within n x c \<Longrightarrow> sc_cache c' = sc_cache c \<Longrightarrow> stored_within (Suc n) x c'"
  by (fastforce simp: stored_within_def)

lemma stored_within_step:
  assumes c: "stop_inv c" and s: "stored_within n x c" "n < 63"
  shows "stored_within (Suc n) x (stop_step c e)"
proof (cases e)
  case ResetMock
  with stored_within_mono [OF s(1)] show ?thesis by (simp add: reset_mock_state_def)
next
  case (ApplyStop f)
  show ?thesis
  proof (cases "stop_accepted f c")
    case True
    then show ?thesis
      using stored_within_trim [OF s stop_fresh_cache [OF c]]
      by (auto simp: ApplyStop stop_apply_accepted stop_accepted_def)
  next
    case False
    from stop_apply_refused [OF False] show ?thesis
      using stored_within_trim [OF s stop_remember_cache [OF c]] stored_within_mono [OF s(1)]
      by (auto simp: ApplyStop)
  qed
qed

lemma stored_within_run:
  "stop_inv c \<Longrightarrow> stored_within n x c \<Longrightarrow> n + length es \<le> 63 \<Longrightarrow>
     stored_within (n + length es) x (run stop_step c es)"
proof (induction es arbitrary: c n)
  case (Cons e es)
  then have "stored_within (Suc n) x (stop_step c e)" by (intro stored_within_step) auto
  with Cons stop_step_inv have "stored_within (Suc n + length es) x (run stop_step (stop_step c e) es)"
    by (intro Cons.IH) auto
  then show ?case by simp
qed simp

lemma stored_lookup: "stop_inv c \<Longrightarrow> stored_within n (k, v) c \<Longrightarrow> map_of (sc_cache c) k = Some v"
  by (auto simp: stored_within_def stop_inv_def distinct_keys_def map_add_def map_of_eq_None_iff split: option.splits)

lemma trim_end: "trim_oldest STOP_CACHE_SIZE (d @ [x]) = drop (length d + 1 - 64) d @ [x]"
  by (simp add: trim_oldest_drop)

lemma stop_apply_type: "snd (stop_apply f c) = Inr d \<Longrightarrow> af_typ f = STOP_REQUEST"
  by (cases "af_typ f = STOP_REQUEST") (simp_all add: stop_apply_def)

lemma stop_first_answer:
  assumes c: "stop_inv c" and n: "map_of (sc_cache c) (frame_key f) = None"
    and d: "stop_apply f c = (c', Inr d)" and r: "sd_result d \<noteq> ACK_STALE_ID"
  shows "stored_within 0 (frame_key f, af_body f, sd_result d, sd_state d) c'"
proof (cases "stop_accepted f c")
  case True
  with stop_fresh_cache [OF c n] d show ?thesis
    by (auto simp: stop_apply_accepted stored_within_def trim_end)
next
  case False
  from stop_apply_refused [OF False] d r n stop_remember_cache [OF c n] show ?thesis
    by (auto simp: stored_within_def trim_end)
qed

text \<open>The answers to an accepted request and to one that is not.\<close>

lemma stop_fresh_answer:
  "snd (stop_fresh f c) =
     \<lparr>sd_result = (if sc_state c = STATE_STOPPED then ACK_ALREADY_STOPPED else ACK_APPLIED),
      sd_state = STATE_STOPPED, sd_applied_now = (sc_state c \<noteq> STATE_STOPPED)\<rparr>"
  by (simp add: stop_fresh_def stop_remember_def Let_def)

lemma stop_refused_answer:
  assumes "\<not> stop_accepted f c"
  shows "case snd (stop_apply f c) of
           Inl e \<Rightarrow> e = ApplicationError ''not a STOP request'' \<and> af_typ f \<noteq> STOP_REQUEST
         | Inr d \<Rightarrow> af_typ f = STOP_REQUEST \<and> \<not> sd_applied_now d \<and>
             (case map_of (sc_cache c) (frame_key f) of
                None \<Rightarrow> sd_result d \<in> {ACK_EXPIRED, ACK_STALE_ID, ACK_WRONG_TARGET_SESSION,
                                        ACK_UNSUPPORTED_COMMAND} \<and> sd_state d = sc_state c
              | Some (body, res, state) \<Rightarrow>
                  if body = af_body f then sd_result d = res \<and> sd_state d = state
                  else sd_result d = ACK_ID_CONFLICT \<and> sd_state d = sc_state c)"
proof (cases "af_typ f = STOP_REQUEST \<and> map_of (sc_cache c) (frame_key f) = None")
  case True
  show ?thesis
  proof (rule decode_stop_cases [of "af_body f"])
    fix e
    assume "decode_stop (af_body f) = Inl (ApplicationError e)"
    with True show ?thesis by (simp add: stop_apply_def stop_remember_def)
  next
    fix r
    assume "decode_stop (af_body f) = Inr r"
    with True assms show ?thesis
      by (auto simp: stop_apply_def stop_remember_def stop_accepted_def Let_def)
  qed
next
  case other: False
  show ?thesis
  proof (cases "af_typ f = STOP_REQUEST")
    case False
    then show ?thesis by (simp add: stop_apply_def)
  next
    case True
    with other obtain v where "map_of (sc_cache c) (frame_key f) = Some v" by auto
    with True show ?thesis by (cases v) (simp add: stop_apply_def)
  qed
qed

subsection \<open>Properties\<close>

text \<open>
  Property C11. A STOP request is applied exactly when it is of the STOP type, its key is not in the
  cache, its body decodes to this robot's session and the STOP command, it is no older than the
  time to live, its id is above the sender's high-water mark, and the state is not stopped yet; the
  state is then stopped, the count one higher, and the answer is APPLIED, STOPPED, applied now. The
  same request at a robot that is stopped already is answered \<open>ALREADY_STOPPED\<close>. Any other request
  leaves state and count alone and is never reported as applied now: one that is not of the STOP
  type raises the application error, one whose key is cached is answered \<open>ID_CONFLICT\<close> or with the
  cached answer to the same body, and one whose key is not cached is answered EXPIRED, \<open>STALE_ID\<close>,
  \<open>WRONG_TARGET_SESSION\<close> or \<open>UNSUPPORTED_COMMAND\<close>, never APPLIED or \<open>ALREADY_STOPPED\<close>.
\<close>

theorem stop_applied_exactly:
  "(\<exists>d. snd (stop_apply f c) = Inr d \<and> sd_applied_now d) =
     (stop_accepted f c \<and> sc_state c \<noteq> STATE_STOPPED) \<and>
   sc_apply_count (fst (stop_apply f c)) =
     (if stop_accepted f c \<and> sc_state c \<noteq> STATE_STOPPED then Suc (sc_apply_count c) else sc_apply_count c) \<and>
   sc_state (fst (stop_apply f c)) = (if stop_accepted f c then STATE_STOPPED else sc_state c) \<and>
   (if stop_accepted f c
    then snd (stop_apply f c) =
           Inr \<lparr>sd_result = (if sc_state c = STATE_STOPPED then ACK_ALREADY_STOPPED else ACK_APPLIED),
                sd_state = STATE_STOPPED, sd_applied_now = (sc_state c \<noteq> STATE_STOPPED)\<rparr>
    else case snd (stop_apply f c) of
           Inl e \<Rightarrow> e = ApplicationError ''not a STOP request'' \<and> af_typ f \<noteq> STOP_REQUEST
         | Inr d \<Rightarrow> af_typ f = STOP_REQUEST \<and> \<not> sd_applied_now d \<and>
             (case map_of (sc_cache c) (frame_key f) of
                None \<Rightarrow> sd_result d \<in> {ACK_EXPIRED, ACK_STALE_ID, ACK_WRONG_TARGET_SESSION,
                                        ACK_UNSUPPORTED_COMMAND} \<and> sd_state d = sc_state c
              | Some (body, res, state) \<Rightarrow>
                  if body = af_body f then sd_result d = res \<and> sd_state d = state
                  else sd_result d = ACK_ID_CONFLICT \<and> sd_state d = sc_state c))"
proof (cases "stop_accepted f c")
  case True
  then show ?thesis by (simp add: stop_apply_accepted stop_fresh_answer)
next
  case False
  with stop_refused_answer [OF False] stop_apply_refused [OF False] stop_applied_iff [of f c]
  show ?thesis by auto
qed

text \<open>
  Retries are answered the same way: when a request that was not in the cache was
  answered with anything but a stale id, then after up to 63 further requests and resets the same
  request is answered with the same result and state, without being applied and without any
  change.
\<close>

theorem stop_retry_idempotent:
  assumes "stop_inv c" and "map_of (sc_cache c) (frame_key f) = None"
    and "stop_apply f c = (c', Inr d)" and "sd_result d \<noteq> ACK_STALE_ID" and "length es \<le> 63"
  shows "stop_apply f (run stop_step c' es) =
     (run stop_step c' es,
      Inr \<lparr>sd_result = sd_result d, sd_state = sd_state d, sd_applied_now = False\<rparr>)"
proof -
  let ?c = "run stop_step c' es"
  have c': "stop_inv c'" using stop_apply_inv [OF assms(1), of f] assms(3) by simp
  have "stored_within (0 + length es) (frame_key f, af_body f, sd_result d, sd_state d) ?c"
    using c' stop_first_answer [OF assms(1-4)] assms(5) by (intro stored_within_run) auto
  then have "map_of (sc_cache ?c) (frame_key f) = Some (af_body f, sd_result d, sd_state d)"
    using stop.run_inv [OF c'] by (intro stored_lookup)
  moreover have "af_typ f = STOP_REQUEST" using assms(3) stop_apply_type [of f c d] by simp
  ultimately show ?thesis by (simp add: stop_apply_def)
qed

text \<open>The keys of the requests a run applies, in order.\<close>

fun stop_applies :: "stop_cache \<Rightarrow> stop_event list \<Rightarrow> (int \<times> int) list" where
  "stop_applies c [] = []"
| "stop_applies c (ResetMock # es) = stop_applies (reset_mock_state c) es"
| "stop_applies c (ApplyStop f # es) =
     (case snd (stop_apply f c) of Inl _ \<Rightarrow> [] | Inr d \<Rightarrow> if sd_applied_now d then [frame_key f] else []) @
     stop_applies (fst (stop_apply f c)) es"

lemma stop_applies_above:
  "distinct (stop_applies c es) \<and> (\<forall>k\<in>set (stop_applies c es). high_water_of c (fst k) < snd k)"
proof (induction c es rule: stop_applies.induct)
  case (2 c es)
  then show ?case by (simp add: reset_mock_state_def high_water_of_def)
next
  case (3 c f es)
  let ?c = "fst (stop_apply f c)"
  have le: "high_water_of c s \<le> high_water_of ?c s" for s
    using stop_apply_high_water [of c f] by (simp add: high_water_le_def)
  show ?case
  proof (cases "\<exists>d. snd (stop_apply f c) = Inr d \<and> sd_applied_now d")
    case True
    then obtain d where d: "snd (stop_apply f c) = Inr d" "sd_applied_now d" by blast
    from True have acc: "stop_accepted f c" by (simp add: stop_applied_iff)
    then have hw: "high_water_of ?c (af_sender_session f) = af_message_id f"
        "high_water_of c (af_sender_session f) < af_message_id f"
      by (simp_all add: stop_apply_accepted high_water_fresh stop_accepted_def)
    then have "frame_key f \<notin> set (stop_applies ?c es)" using 3 by (auto simp: frame_key_def)
    with 3 d hw le show ?thesis by (auto simp: frame_key_def intro: order.strict_trans1)
  next
    case False
    then have "stop_applies c (ApplyStop f # es) = stop_applies ?c es" by (auto split: sum.split)
    with 3 le show ?thesis by (auto intro: order.strict_trans1)
  qed
qed simp

text \<open>
  Property C3. However requests and resets of the test fixture are interleaved, no request is
  applied twice: the keys (sender session and message id) of the applied requests are distinct.
\<close>

theorem stop_applied_once: "distinct (stop_applies c es)"
  using stop_applies_above by blast

text \<open>
  No radio message re-arms the robot: once stopped it stays so whatever messages
  follow, and a new cache that was only sent messages has applied one request when it is stopped
  and none otherwise.
\<close>

theorem stop_never_rearmed:
  assumes "stop_inv c" and "new_stop_cache ses ttl = Inr c0"
  shows "(sc_state c = STATE_STOPPED \<longrightarrow>
            sc_state (run stop_message_step c fs) = STATE_STOPPED \<and>
            sc_apply_count (run stop_message_step c fs) = sc_apply_count c) \<and>
         sc_apply_count (run stop_message_step c0 fs) =
            (if sc_state (run stop_message_step c0 fs) = STATE_STOPPED then 1 else 0)"
proof
  show "sc_state c = STATE_STOPPED \<longrightarrow>
      sc_state (run stop_message_step c fs) = STATE_STOPPED \<and>
      sc_apply_count (run stop_message_step c fs) = sc_apply_count c"
    using stop_messages.run_rel [OF assms(1), of fs] by (auto simp: armed_le_def)
  have "armed_le c0 (run stop_message_step c0 fs)"
    using stop_messages.run_rel new_stop_cache_inv [OF assms(2)] by blast
  moreover have "sc_state c0 = STATE_RUNNING" "sc_apply_count c0 = 0"
    using assms(2) by (auto simp: new_stop_cache_def split: if_splits)
  ultimately show "sc_apply_count (run stop_message_step c0 fs) =
      (if sc_state (run stop_message_step c0 fs) = STATE_STOPPED then 1 else 0)"
    by (auto simp: armed_le_def)
qed


text \<open>A request of session 9 for robot 5 (body: target 5, STOP, reason 1), and a fresh cache.\<close>

definition sample_stop :: "app_frame" where
  "sample_stop = \<lparr>af_typ = 0x10, af_sender_session = 9, af_message_id = 1, af_source_age_ms = 0,
     af_body = [0, 0, 0, 5, 1, 1]\<rparr>"

definition sample_cache :: stop_cache where
  "sample_cache = \<lparr>sc_local_session = 5, sc_ttl_ms = 2000, sc_state = 1, sc_high_water = [],
     sc_cache = [], sc_apply_count = 0\<rparr>"

lemma sample_cache_new: "new_stop_cache 5 2000 = Inr sample_cache"
  by (simp add: new_stop_cache_def sample_cache_def)

lemma sample_stop_apply: "snd (stop_apply sample_stop sample_cache) =
    Inr \<lparr>sd_result = 0, sd_state = 2, sd_applied_now = True\<rparr>"
  by code_simp

lemma stop_retry_idempotent_witness:
  "let c' = fst (stop_apply sample_stop sample_cache)
   in stop_apply sample_stop (run stop_step c' [ResetMock]) =
      (run stop_step c' [ResetMock], Inr \<lparr>sd_result = 0, sd_state = 2, sd_applied_now = False\<rparr>)"
proof -
  have "stop_apply sample_stop sample_cache =
      (fst (stop_apply sample_stop sample_cache), Inr \<lparr>sd_result = 0, sd_state = 2, sd_applied_now = True\<rparr>)"
    using sample_stop_apply by (metis prod.collapse)
  from stop_retry_idempotent [OF new_stop_cache_inv [OF sample_cache_new] _ this, of "[ResetMock]"]
  show ?thesis by (simp add: sample_cache_def Let_def)
qed

lemma stop_never_rearmed_witness:
  "sc_apply_count (run stop_message_step sample_cache [sample_stop, sample_stop]) = 1"
proof -
  have "sc_state (run stop_message_step sample_cache [sample_stop, sample_stop]) = 2" by code_simp
  with stop_never_rearmed [OF new_stop_cache_inv [OF sample_cache_new] sample_cache_new,
      of "[sample_stop, sample_stop]"]
  show ?thesis by simp
qed

end
