(* ===== verification/Rtcm_Parser.thy ===== *)
theory Rtcm_Parser
  imports Rtcm_Frame
begin

unbundle bit_operations_syntax

text \<open>
  The incremental RTCM3 stream parser, \<open>RtcmStreamParser\<close> of \<open>host/mowgli_lora/rtcm.py\<close>: its buffer,
  its counters, and the loop that skips garbage, rejects candidates byte by byte and takes valid
  frames. A byte-wise scanner that emits one event per decision is the reference: the lemmas show
  that the parser computes exactly its events, and derive from it that chunks may be cut anywhere,
  that every byte is accounted for, that clean streams are parsed completely and that a frame
  behind noise is found.
\<close>

abbreviation (input) MAX_RTCM3_PAYLOAD :: int where "MAX_RTCM3_PAYLOAD \<equiv> 1023"

record rtcm_frame =
  rf_raw :: bytes
  rf_message_type :: int
  rf_received_at :: time

text \<open>The entries of \<open>stats\<close>; a counter that was never touched counts 0.\<close>

record rtcm_parser =
  rp_buffer :: bytes
  rp_stream_resets :: nat
  rp_input_bytes :: nat
  rp_garbage_bytes :: nat
  rp_header_failures :: nat
  rp_length_failures :: nat
  rp_crc_failures :: nat
  rp_frames :: nat
  rp_frame_bytes :: nat
  rp_message_types :: "(int \<times> nat) list"

subsection \<open>The code\<close>

definition new_rtcm_parser :: rtcm_parser where
  "new_rtcm_parser = \<lparr>rp_buffer = [], rp_stream_resets = 0, rp_input_bytes = 0, rp_garbage_bytes = 0,
     rp_header_failures = 0, rp_length_failures = 0, rp_crc_failures = 0, rp_frames = 0,
     rp_frame_bytes = 0, rp_message_types = []\<rparr>"

definition rtcm_reset :: "rtcm_parser \<Rightarrow> rtcm_parser" where
  "rtcm_reset p = p\<lparr>rp_buffer := [], rp_stream_resets := Suc (rp_stream_resets p)\<rparr>"

definition count_type :: "int \<Rightarrow> (int \<times> nat) list \<Rightarrow> (int \<times> nat) list" where
  "count_type t d = AList.update t (Suc (case map_of d t of None \<Rightarrow> 0 | Some n \<Rightarrow> n)) d"

text \<open>\<open>buffer.find(0xD3)\<close>: the length of the part before the first such byte, if there is one.\<close>

definition find_preamble :: "bytes \<Rightarrow> nat option" where
  "find_preamble b =
     (if 0xD3 \<in> set b then Some (length (takeWhile (\<lambda>x. x \<noteq> 0xD3) b)) else None)"

definition drop_first :: "rtcm_parser \<Rightarrow> rtcm_parser" where
  "drop_first p = p\<lparr>rp_buffer := drop 1 (rp_buffer p)\<rparr>"

lemma candidate_size: "6 \<le> nat (rtcm_payload_length b + 6)"
  using rtcm_payload_length_bounds [of b] by linarith

lemma candidate_shrinks:
  assumes "\<not> n - k < nat (rtcm_payload_length b + 6)"
  shows "nat (rtcm_payload_length b + 6) - Suc 0 + n - (nat (rtcm_payload_length b + 6) + k) < n"
    and "n - (nat (rtcm_payload_length b + 6) + k) < n"
  using assms candidate_size [of b] by linarith+

text \<open>\<open>rtcm_type\<close> raises only on an invalid frame, so its exception cannot occur here.\<close>

function parse_loop :: "time \<Rightarrow> rtcm_parser \<Rightarrow> rtcm_parser \<times> rtcm_frame list" where
  "parse_loop now p =
     (if rp_buffer p = [] then (p, [])
      else case find_preamble (rp_buffer p) of
        None \<Rightarrow>
          (p\<lparr>rp_garbage_bytes := rp_garbage_bytes p + length (rp_buffer p), rp_buffer := []\<rparr>, [])
      | Some start \<Rightarrow>
          (let p = p\<lparr>rp_garbage_bytes := rp_garbage_bytes p + start,
                     rp_buffer := drop start (rp_buffer p)\<rparr>;
               buffer = rp_buffer p;
               len = rtcm_payload_length buffer;
               size = nat (len + 6);
               raw = take size buffer
           in if length buffer < 3 then (p, [])
              else if buffer ! 1 AND 0xFC \<noteq> 0
              then parse_loop now (drop_first (p\<lparr>rp_header_failures := Suc (rp_header_failures p)\<rparr>))
              else if len > MAX_RTCM3_PAYLOAD
              then parse_loop now (drop_first (p\<lparr>rp_length_failures := Suc (rp_length_failures p)\<rparr>))
              else if length buffer < size then (p, [])
              else if \<not> valid_rtcm3 raw
              then parse_loop now (p\<lparr>rp_crc_failures := Suc (rp_crc_failures p),
                                     rp_buffer := drop 1 raw @ drop size buffer\<rparr>)
              else case rtcm_type raw of
                Inl e \<Rightarrow> (p, [])
              | Inr t \<Rightarrow>
                  (let (p', fs) = parse_loop now
                         (p\<lparr>rp_frames := Suc (rp_frames p), rp_frame_bytes := rp_frame_bytes p + length raw,
                            rp_message_types := count_type t (rp_message_types p),
                            rp_buffer := drop size buffer\<rparr>)
                   in (p', \<lparr>rf_raw = raw, rf_message_type = t, rf_received_at = now\<rparr> # fs))))"
  by pat_completeness auto

termination
  by (relation "measure (\<lambda>(now, p). length (rp_buffer p))")
    (auto simp: drop_first_def Let_def intro: candidate_shrinks)

declare parse_loop.simps [simp del]

definition rtcm_feed :: "time \<Rightarrow> rtcm_parser \<Rightarrow> bytes \<Rightarrow> rtcm_parser \<times> rtcm_frame list" where
  "rtcm_feed now p chunk =
     parse_loop now (p\<lparr>rp_input_bytes := rp_input_bytes p + length chunk,
                       rp_buffer := rp_buffer p @ chunk\<rparr>)"


subsection \<open>The scanner\<close>

text \<open>What the parser decides about the first byte, or about a whole frame, in turn.\<close>

datatype scan_event = Garbage | BadHeader | BadCrc | Good bytes

definition prepend :: "scan_event \<Rightarrow> scan_event list \<times> bytes \<Rightarrow> scan_event list \<times> bytes" where
  "prepend e r = (e # fst r, snd r)"

function scan :: "bytes \<Rightarrow> scan_event list \<times> bytes" where
  "scan [] = ([], [])"
| "scan (x # b) =
     (let size = nat (rtcm_payload_length (x # b) + 6)
      in if x \<noteq> 0xD3 then prepend Garbage (scan b)
         else if length (x # b) < 3 then ([], x # b)
         else if b ! 0 AND 0xFC \<noteq> 0 then prepend BadHeader (scan b)
         else if length (x # b) < size then ([], x # b)
         else if valid_rtcm3 (take size (x # b))
         then prepend (Good (take size (x # b))) (scan (drop size (x # b)))
         else prepend BadCrc (scan b))"
  by pat_completeness auto

termination
proof (relation "measure length", goal_cases)
  case (4 x b size)
  then show ?case using candidate_size [of "x # b"] by auto
qed auto

declare scan.simps(2) [simp del]

fun apply_event :: "scan_event \<Rightarrow> rtcm_parser \<Rightarrow> rtcm_parser" where
  "apply_event Garbage p = p\<lparr>rp_garbage_bytes := Suc (rp_garbage_bytes p)\<rparr>"
| "apply_event BadHeader p = p\<lparr>rp_header_failures := Suc (rp_header_failures p)\<rparr>"
| "apply_event BadCrc p = p\<lparr>rp_crc_failures := Suc (rp_crc_failures p)\<rparr>"
| "apply_event (Good raw) p =
     p\<lparr>rp_frames := Suc (rp_frames p), rp_frame_bytes := rp_frame_bytes p + length raw,
       rp_message_types := count_type (projr (rtcm_type raw)) (rp_message_types p)\<rparr>"

fun good_frames :: "scan_event list \<Rightarrow> bytes list" where
  "good_frames [] = []"
| "good_frames (Good raw # es) = raw # good_frames es"
| "good_frames (_ # es) = good_frames es"

definition as_frame :: "time \<Rightarrow> bytes \<Rightarrow> rtcm_frame" where
  "as_frame now raw = \<lparr>rf_raw = raw, rf_message_type = projr (rtcm_type raw), rf_received_at = now\<rparr>"

lemma good_frames_append [simp]: "good_frames (es @ fs) = good_frames es @ good_frames fs"
  by (induction es rule: good_frames.induct) auto

lemma good_frames_garbage [simp]: "good_frames (replicate n Garbage) = []"
  by (induction n) auto

lemma apply_event_buffer [simp]:
  "apply_event e (p\<lparr>rp_buffer := b\<rparr>) = (apply_event e p)\<lparr>rp_buffer := b\<rparr>"
  "rp_buffer (apply_event e p) = rp_buffer p"
  by (cases e; simp)+

lemma fold_event_buffer [simp]:
  "fold apply_event es (p\<lparr>rp_buffer := b\<rparr>) = (fold apply_event es p)\<lparr>rp_buffer := b\<rparr>"
  by (induction es arbitrary: p) auto

lemma fold_garbage:
  "(apply_event Garbage ^^ n) p = p\<lparr>rp_garbage_bytes := rp_garbage_bytes p + n\<rparr>"
  by (induction n arbitrary: p) auto

lemma scan_garbage:
  "0xD3 \<notin> set g \<Longrightarrow> scan (g @ b) = (replicate (length g) Garbage @ fst (scan b), snd (scan b))"
  by (induction g) (auto simp: scan.simps prepend_def)

lemma scan_drop_garbage:
  assumes "find_preamble b = Some n"
  shows "scan b = (replicate n Garbage @ fst (scan (drop n b)), snd (scan (drop n b)))"
    and "drop n b \<noteq> []" and "drop n b ! 0 = 0xD3"
proof -
  let ?P = "\<lambda>x :: byte. x \<noteq> 0xD3"
  have n: "n = length (takeWhile ?P b)" and i: "0xD3 \<in> set b"
    using assms by (auto simp: find_preamble_def split: if_splits)
  have d: "drop n b = dropWhile ?P b" by (simp add: n dropWhile_eq_drop)
  have "0xD3 \<notin> set (takeWhile ?P b)" by (auto dest: set_takeWhileD)
  from scan_garbage [OF this, of "dropWhile ?P b"] d
  show "scan b = (replicate n Garbage @ fst (scan (drop n b)), snd (scan (drop n b)))"
    by (simp add: n)
  show ne: "drop n b \<noteq> []" unfolding d using i by (simp add: dropWhile_eq_Nil_conv)
  then show "drop n b ! 0 = 0xD3"
    using hd_dropWhile [of ?P b] i unfolding d by (auto simp: hd_conv_nth dropWhile_eq_Nil_conv)
qed

lemma scan_no_preamble: "find_preamble b = None \<Longrightarrow> scan b = (replicate (length b) Garbage, [])"
  using scan_garbage [of b "[]"] by (auto simp: find_preamble_def split: if_splits)

lemma scan_at_preamble:
  assumes "b \<noteq> []" and "b ! 0 = 0xD3"
  shows "scan b =
     (let size = nat (rtcm_payload_length b + 6)
      in if length b < 3 then ([], b)
         else if b ! 1 AND 0xFC \<noteq> 0 then prepend BadHeader (scan (drop 1 b))
         else if length b < size then ([], b)
         else if valid_rtcm3 (take size b) then prepend (Good (take size b)) (scan (drop size b))
         else prepend BadCrc (scan (drop 1 b)))"
proof -
  obtain x c where b: "b = x # c" using assms(1) by (cases b) auto
  with assms(2) have x: "x = 0xD3" by simp
  show ?thesis unfolding b by (subst scan.simps(2)) (simp add: x Let_def)
qed

lemma put_back: "1 \<le> n \<Longrightarrow> drop 1 (take n b) @ drop n b = drop 1 b"
  by (cases b; cases n) auto

text \<open>The parser carries out the decisions of the scanner.\<close>

lemma parse_loop_scan:
  "parse_loop now p =
     ((fold apply_event (fst (scan (rp_buffer p))) p)\<lparr>rp_buffer := snd (scan (rp_buffer p))\<rparr>,
      map (as_frame now) (good_frames (fst (scan (rp_buffer p)))))"
proof (induction now p rule: parse_loop.induct)
  case (1 now p)
  show ?case
  proof (cases "rp_buffer p = []")
    case True
    then show ?thesis by (simp add: parse_loop.simps)
  next
    case ne: False
    show ?thesis
    proof (cases "find_preamble (rp_buffer p)")
      case None
      with ne show ?thesis by (simp add: parse_loop.simps scan_no_preamble fold_garbage)
    next
      case (Some n)
      let ?b = "drop n (rp_buffer p)"
      let ?p = "p\<lparr>rp_garbage_bytes := rp_garbage_bytes p + n, rp_buffer := ?b\<rparr>"
      let ?size = "nat (rtcm_payload_length ?b + 6)"
      note g = scan_drop_garbage [OF Some]
      note at = scan_at_preamble [OF g(2,3)]
      note IH = 1 [OF ne Some refl refl refl refl refl, simplified]
      have len: "rtcm_payload_length ?b \<le> 1023" using rtcm_payload_length_bounds [of ?b] by simp
      consider "length ?b < 3" | "3 \<le> length ?b" "?b ! 1 AND 0xFC \<noteq> 0"
        | "3 \<le> length ?b" "?b ! 1 AND 0xFC = 0" "length ?b < ?size"
        | "3 \<le> length ?b" "?b ! 1 AND 0xFC = 0" "?size \<le> length ?b" "\<not> valid_rtcm3 (take ?size ?b)"
        | "3 \<le> length ?b" "?b ! 1 AND 0xFC = 0" "?size \<le> length ?b" "valid_rtcm3 (take ?size ?b)"
        by linarith
      then show ?thesis
      proof cases
        case 1
        then show ?thesis
          by (simp add: parse_loop.simps [of now p] ne Some Let_def g(1) at fold_garbage)
      next
        case 2
        then show ?thesis
          using IH(1) by (simp add: parse_loop.simps [of now p] ne Some Let_def g(1) at fold_garbage prepend_def drop_first_def)
      next
        case 3
        then show ?thesis
          using len by (simp add: parse_loop.simps [of now p] ne Some Let_def g(1) at fold_garbage)
      next
        case 4
        have rejoin: "drop (Suc 0) (take ?size ?b) @ drop (?size + n) (rp_buffer p) =
            drop (Suc n) (rp_buffer p)"
          using put_back [of ?size ?b] candidate_size [of ?b] by simp
        from 4 show ?thesis
          using IH(3) len by (simp add: rejoin) (simp add: rejoin parse_loop.simps [of now p] ne Some Let_def g(1) at fold_garbage prepend_def)
      next
        case 5
        obtain t where t: "rtcm_type (take ?size ?b) = Inr t" using rtcm_type_valid [OF 5(4)] .
        from 5 show ?thesis
          using IH(4) len t by (simp add: as_frame_def parse_loop.simps [of now p] ne Some Let_def g(1) at fold_garbage prepend_def)
      qed
    qed
  qed
qed


lemma rtcm_feed_scan:
  "rtcm_feed now p chunk =
     ((fold apply_event (fst (scan (rp_buffer p @ chunk)))
         (p\<lparr>rp_input_bytes := rp_input_bytes p + length chunk\<rparr>))
        \<lparr>rp_buffer := snd (scan (rp_buffer p @ chunk))\<rparr>,
      map (as_frame now) (good_frames (fst (scan (rp_buffer p @ chunk)))))"
  by (simp add: rtcm_feed_def parse_loop_scan)

text \<open>Scanning a longer input continues where scanning its beginning stopped.\<close>

lemma payload_length_append:
  "3 \<le> length b \<Longrightarrow> rtcm_payload_length (b @ d) = rtcm_payload_length b"
  by (simp add: rtcm_payload_length_def nth_append)

lemma scan_append:
  "scan (b @ d) = (fst (scan b) @ fst (scan (snd (scan b) @ d)), snd (scan (snd (scan b) @ d)))"
proof (induction b rule: scan.induct)
  case (2 x b)
  let ?size = "nat (rtcm_payload_length (x # b) + 6)"
  note IH = 2 [OF refl]
  consider "x \<noteq> 0xD3" | "x = 0xD3" "length (x # b) < 3"
    | "x = 0xD3" "3 \<le> length (x # b)" "b ! 0 AND 0xFC \<noteq> 0"
    | "x = 0xD3" "3 \<le> length (x # b)" "b ! 0 AND 0xFC = 0" "length (x # b) < ?size"
    | "x = 0xD3" "3 \<le> length (x # b)" "b ! 0 AND 0xFC = 0" "?size \<le> length (x # b)"
    by linarith
  then show ?case
  proof cases
    case 1
    then show ?thesis using IH(1) by (simp add: scan.simps(2) prepend_def)
  next
    case 2
    then have "scan (x # b) = ([], x # b)" by (simp add: scan.simps(2) Let_def)
    then show ?thesis by simp
  next
    case 3
    then have "(b @ d) ! 0 = b ! 0" by (cases b) simp_all
    with 3 show ?thesis using IH(2) by (simp add: scan.simps(2) prepend_def)
  next
    case 4
    then have "scan (x # b) = ([], x # b)" by (simp add: scan.simps(2) Let_def)
    then show ?thesis by simp
  next
    case 5
    then have len: "rtcm_payload_length (x # (b @ d)) = rtcm_payload_length (x # b)"
      and hd: "(b @ d) ! 0 = b ! 0"
      using payload_length_append [of "x # b" d] by (auto simp: nth_append)
    have "take ?size ((x # b) @ d) = take ?size (x # b)" "drop ?size ((x # b) @ d) = drop ?size (x # b) @ d"
      using 5 unfolding take_append drop_append by simp_all
    then show ?thesis
      using 5 IH(3,4) len hd by (simp add: scan.simps(2) [of 211 "b @ d"] scan.simps(2) [of 211 b] Let_def prepend_def)
  qed
qed simp

lemma scan_rest: "scan (snd (scan b)) = ([], snd (scan b))"
proof -
  have "fst (scan b) @ fst (scan (snd (scan b))) = fst (scan b)"
    and "snd (scan (snd (scan b))) = snd (scan b)"
    using scan_append [of b "[]"] by (simp_all add: prod_eq_iff)
  then show ?thesis by (simp add: prod_eq_iff)
qed


subsection \<open>Invariant, chunks, counters\<close>

text \<open>Between calls the buffer holds only what a scan leaves over.\<close>

definition parser_settled :: "rtcm_parser \<Rightarrow> bool" where
  "parser_settled p \<longleftrightarrow> scan (rp_buffer p) = ([], rp_buffer p)"

lemma new_rtcm_parser_settled: "parser_settled new_rtcm_parser"
  by (simp add: parser_settled_def new_rtcm_parser_def)

lemma rtcm_reset_settled: "parser_settled (rtcm_reset p)"
  by (simp add: parser_settled_def rtcm_reset_def)

lemma rtcm_feed_settled: "parser_settled (fst (rtcm_feed now p chunk))"
  by (simp add: rtcm_feed_scan parser_settled_def scan_rest)

lemma apply_event_input [simp]:
  "apply_event e (p\<lparr>rp_input_bytes := n\<rparr>) = (apply_event e p)\<lparr>rp_input_bytes := n\<rparr>"
  "rp_input_bytes (apply_event e p) = rp_input_bytes p"
  by (cases e; simp)+

lemma fold_event_input [simp]:
  "fold apply_event es (p\<lparr>rp_input_bytes := n\<rparr>) = (fold apply_event es p)\<lparr>rp_input_bytes := n\<rparr>"
  "rp_input_bytes (fold apply_event es p) = rp_input_bytes p"
  by (induction es arbitrary: p) auto

lemma rtcm_feed_Nil: "parser_settled p \<Longrightarrow> rtcm_feed now p [] = (p, [])"
  by (simp add: rtcm_feed_scan parser_settled_def)

lemma rtcm_feed_append:
  "rtcm_feed now p (c @ d) =
     (let (p', fs) = rtcm_feed now p c; (p'', gs) = rtcm_feed now p' d in (p'', fs @ gs))"
  using scan_append [of "rp_buffer p @ c" d]
  by (simp add: rtcm_feed_scan Let_def add.assoc)

interpretation rtcm_stream: incremental_parser "rtcm_feed now" parser_settled
  by unfold_locales (simp_all add: rtcm_feed_settled rtcm_feed_Nil rtcm_feed_append)

text \<open>Every decision accounts for the bytes it consumes.\<close>

fun event_bytes :: "scan_event \<Rightarrow> nat" where
  "event_bytes (Good raw) = length raw"
| "event_bytes _ = 1"

definition accounted :: "rtcm_parser \<Rightarrow> nat" where
  "accounted p = rp_garbage_bytes p + rp_header_failures p + rp_length_failures p +
     rp_crc_failures p + rp_frame_bytes p"

lemma accounted_event: "accounted (apply_event e p) = accounted p + event_bytes e"
  by (cases e) (simp_all add: accounted_def)

lemma accounted_fold: "accounted (fold apply_event es p) = accounted p + sum_list (map event_bytes es)"
  by (induction es arbitrary: p) (simp_all add: accounted_event)

lemma scan_bytes: "sum_list (map event_bytes (fst (scan b))) + length (snd (scan b)) = length b"
proof (induction b rule: scan.induct)
  case (2 x b)
  then show ?case using candidate_size [of "x # b"] by (subst scan.simps(2)) (auto simp: Let_def prepend_def scan.simps(2))
qed simp

lemma scan_good_valid: "raw \<in> set (good_frames (fst (scan b))) \<Longrightarrow> valid_rtcm3 raw"
proof (induction b rule: scan.induct)
  case (2 x b)
  then show ?case
    by (auto simp: scan.simps(2) [of x b] Let_def prepend_def split: if_splits)
qed simp


lemma scan_valid_frame:
  assumes "valid_rtcm3 raw"
  shows "scan (raw @ b) = prepend (Good raw) (scan b)"
proof -
  have v: "6 \<le> length raw" "raw ! 0 = 0xD3" "raw ! 1 AND 0xFC = 0"
    "int (length raw) = rtcm_payload_length raw + 6"
    using assms by (simp_all add: valid_rtcm3_iff)
  have at: "(raw @ b) ! 0 = 0xD3" "(raw @ b) ! 1 = raw ! 1" using v by (auto simp: nth_append)
  have ne: "raw @ b \<noteq> []" using v(1) by auto
  have "nat (rtcm_payload_length (raw @ b) + 6) = length raw"
    using payload_length_append [of raw b] v(1,4) by simp
  then show ?thesis using scan_at_preamble [OF ne at(1)] v at assms by (simp add: Let_def)
qed

lemma scan_clean: "list_all valid_rtcm3 raws \<Longrightarrow> scan (concat raws) = (map Good raws, [])"
  by (induction raws) (simp_all add: scan_valid_frame prepend_def)

lemma good_frames_map [simp]: "good_frames (map Good raws) = raws"
  by (induction raws) auto

lemma settled_buffer: "scan b = ([], b) \<Longrightarrow> length b \<le> 1028"
proof (cases b)
  case (Cons x c)
  assume "scan b = ([], b)"
  then show ?thesis
    using rtcm_payload_length_bounds [of "x # c"]
    by (simp add: Cons scan.simps(2) Let_def prepend_def split: if_splits)
qed simp

text \<open>Noise in which no valid frame begins is passed, however it looks.\<close>

lemma scan_noise:
  assumes "\<And>i n. i < length g \<Longrightarrow> \<not> valid_rtcm3 (take n (drop i (g @ raw @ tail)))"
    and "valid_rtcm3 raw" and "1029 \<le> length tail"
  shows "good_frames (fst (scan (g @ raw @ tail))) = raw # good_frames (fst (scan tail))"
  using assms(1)
proof (induction g)
  case Nil
  then show ?case using assms by (simp add: scan_valid_frame prepend_def)
next
  case (Cons x g)
  let ?b = "g @ raw @ tail"
  have "\<not> valid_rtcm3 (take n (drop i ?b))" if "i < length g" for i n
    using Cons.prems [of "Suc i" n] that by simp
  then have IH: "good_frames (fst (scan ?b)) = raw # good_frames (fst (scan tail))"
    by (rule Cons.IH)
  have nv: "\<not> valid_rtcm3 (take n (x # ?b))" for n using Cons.prems [of 0 n] by simp
  have "nat (rtcm_payload_length (x # ?b) + 6) \<le> 1029"
    using rtcm_payload_length_bounds [of "x # ?b"] by linarith
  then have long: "3 \<le> length (x # ?b)" "nat (rtcm_payload_length (x # ?b) + 6) \<le> length (x # ?b)"
    using assms(3) by simp_all
  have "scan ((x # g) @ raw @ tail) \<in> {prepend Garbage (scan ?b), prepend BadHeader (scan ?b), prepend BadCrc (scan ?b)}"
  proof (cases "x = 211")
    case True
    show ?thesis using nv [unfolded True] long [unfolded True] by (simp add: True scan.simps(2) Let_def)
  qed (simp add: scan.simps(2))
  with IH show ?case by (auto simp: prepend_def)
qed

text \<open>
  A reading of a byte sequence, without the parser: it is cut into valid frames, which are taken, and
  single bytes at which no valid frame begins, which are skipped, up to a rest.
\<close>

fun reading_of :: "bytes \<Rightarrow> (bool \<times> bytes) list \<Rightarrow> bytes \<Rightarrow> bool" where
  "reading_of input [] rest \<longleftrightarrow> input = rest"
| "reading_of input ((taken, piece) # pieces) rest \<longleftrightarrow>
     (\<exists>later. input = piece @ later \<and> reading_of later pieces rest) \<and>
     (if taken then valid_rtcm3 piece else length piece = 1 \<and> (\<forall>n. \<not> valid_rtcm3 (take n input)))"

definition frames_read :: "(bool \<times> bytes) list \<Rightarrow> bytes list" where
  "frames_read pieces = map snd (filter fst pieces)"

definition bytes_skipped :: "(bool \<times> bytes) list \<Rightarrow> nat" where
  "bytes_skipped pieces = length (filter (\<lambda>p. \<not> fst p) pieces)"

fun skipped_events :: "scan_event list \<Rightarrow> nat" where
  "skipped_events [] = 0"
| "skipped_events (Good raw # es) = skipped_events es"
| "skipped_events (_ # es) = Suc (skipped_events es)"

definition reads :: "bytes \<Rightarrow> scan_event list \<times> bytes \<Rightarrow> bool" where
  "reads input r \<longleftrightarrow> (\<exists>pieces. reading_of input pieces (snd r) \<and>
     frames_read pieces = good_frames (fst r) \<and> bytes_skipped pieces = skipped_events (fst r))"

lemma reads_nothing: "reads b ([], b)"
  by (auto simp: reads_def frames_read_def bytes_skipped_def intro: exI [of _ "[]"])

lemma reads_good:
  assumes "reads later r" and "valid_rtcm3 raw"
  shows "reads (raw @ later) (prepend (Good raw) r)"
proof -
  obtain pieces where "reading_of later pieces (snd r)" "frames_read pieces = good_frames (fst r)"
    "bytes_skipped pieces = skipped_events (fst r)"
    using assms(1) by (auto simp: reads_def)
  then show ?thesis
    unfolding reads_def using assms(2)
    by (intro exI [of _ "(True, raw) # pieces"]) (simp add: frames_read_def bytes_skipped_def prepend_def)
qed

lemma reads_skip:
  assumes "reads later r" and "\<And>n. \<not> valid_rtcm3 (take n (x # later))" and "\<forall>raw. e \<noteq> Good raw"
  shows "reads (x # later) (prepend e r)"
proof -
  obtain pieces where "reading_of later pieces (snd r)" "frames_read pieces = good_frames (fst r)"
    "bytes_skipped pieces = skipped_events (fst r)"
    using assms(1) by (auto simp: reads_def)
  then show ?thesis
    unfolding reads_def using assms(2,3)
    by (intro exI [of _ "(False, [x]) # pieces"], cases e) (simp_all add: frames_read_def bytes_skipped_def prepend_def)
qed

text \<open>At a preamble the length in the header decides which prefix could be a frame.\<close>

lemma valid_prefix:
  assumes "valid_rtcm3 (take n b)"
  shows "b ! 0 = 0xD3" "3 \<le> length b" "b ! 1 AND 0xFC = 0" "nat (rtcm_payload_length b + 6) \<le> length b"
    "take n b = take (nat (rtcm_payload_length b + 6)) b"
proof -
  have n: "6 \<le> length (take n b)" and i: "take n b ! 0 = 0xD3" "take n b ! 1 AND 0xFC = 0"
    and l: "int (length (take n b)) = rtcm_payload_length (take n b) + 6"
    using assms unfolding valid_rtcm3_iff by blast+
  have len: "rtcm_payload_length (take n b) = rtcm_payload_length b"
    using n by (simp add: rtcm_payload_length_def)
  have "take n b ! 0 = b ! 0" "take n b ! 1 = b ! 1" by (rule nth_take, use n in simp)+
  then show "b ! 0 = 0xD3" "3 \<le> length b" "b ! 1 AND 0xFC = 0" using n i by simp_all
  have size: "length (take n b) = nat (rtcm_payload_length b + 6)" using l len by linarith
  then show "nat (rtcm_payload_length b + 6) \<le> length b" by simp
  show "take n b = take (nat (rtcm_payload_length b + 6)) b" by (metis size length_take take_all take_take min.commute nle_le min.absorb2)
qed

lemma scan_reads: "reads b (scan b)"
proof (induction b rule: scan.induct)
  case (2 x b)
  let ?size = "nat (rtcm_payload_length (x # b) + 6)"
  note IH = 2 [OF refl]
  consider "x \<noteq> 0xD3" | "x = 0xD3" "length (x # b) < 3"
    | "x = 0xD3" "3 \<le> length (x # b)" "b ! 0 AND 0xFC \<noteq> 0"
    | "x = 0xD3" "3 \<le> length (x # b)" "b ! 0 AND 0xFC = 0" "length (x # b) < ?size"
    | "x = 0xD3" "3 \<le> length (x # b)" "b ! 0 AND 0xFC = 0" "?size \<le> length (x # b)"
        "valid_rtcm3 (take ?size (x # b))"
    | "x = 0xD3" "3 \<le> length (x # b)" "b ! 0 AND 0xFC = 0" "?size \<le> length (x # b)"
        "\<not> valid_rtcm3 (take ?size (x # b))"
    by linarith
  then show ?case
  proof cases
    case 1
    then have "\<not> valid_rtcm3 (take n (x # b))" for n using valid_prefix(1) [of n "x # b"] by auto
    with 1 IH(1) show ?thesis by (simp add: scan.simps(2) reads_skip)
  next
    case 2
    then show ?thesis by (simp add: scan.simps(2) Let_def reads_nothing)
  next
    case 3
    then have "\<not> valid_rtcm3 (take n (x # b))" for n using valid_prefix(3) [of n "x # b"] by auto
    with 3 IH(2) show ?thesis by (simp add: scan.simps(2) Let_def reads_skip)
  next
    case 4
    then show ?thesis by (simp add: scan.simps(2) Let_def reads_nothing)
  next
    case 5
    with IH(3) have "reads (take ?size (x # b) @ drop ?size (x # b))
        (prepend (Good (take ?size (x # b))) (scan (drop ?size (x # b))))"
      by (intro reads_good) simp_all
    with 5 show ?thesis by (simp add: scan.simps(2) Let_def)
  next
    case 6
    then have "\<not> valid_rtcm3 (take n (x # b))" for n using valid_prefix(5) [of n "x # b"] by auto
    with 6 IH(4) show ?thesis by (simp add: scan.simps(2) Let_def reads_skip)
  qed
qed (simp add: reads_nothing)

lemma fold_event_counts:
  "rp_garbage_bytes (fold apply_event es p) + rp_header_failures (fold apply_event es p) +
     rp_crc_failures (fold apply_event es p) =
   rp_garbage_bytes p + rp_header_failures p + rp_crc_failures p + skipped_events es"
  "rp_frames (fold apply_event es p) = rp_frames p + length (good_frames es)"
  "rp_frame_bytes (fold apply_event es p) = rp_frame_bytes p + length (concat (good_frames es))"
  "rp_length_failures (fold apply_event es p) = rp_length_failures p"
proof (induction es arbitrary: p)
  case (Cons e es)
  { case 1 show ?case using Cons(1) by (cases e) simp_all }
  { case 2 show ?case using Cons(2) by (cases e) simp_all }
  { case 3 show ?case using Cons(3) by (cases e) simp_all }
  { case 4 show ?case using Cons(4) by (cases e) simp_all }
qed simp_all

text \<open>A source read chunk by chunk, each at its time, by one parser that lives on between the calls.\<close>

fun rtcm_feeds :: "rtcm_parser \<Rightarrow> (time \<times> bytes) list \<Rightarrow> rtcm_parser \<times> rtcm_frame list" where
  "rtcm_feeds p [] = (p, [])"
| "rtcm_feeds p ((now, chunk) # rest) =
     (let (p', fs) = rtcm_feed now p chunk; (p'', gs) = rtcm_feeds p' rest in (p'', fs @ gs))"

lemma feed_time:
  "fst (rtcm_feed now p chunk) = fst (rtcm_feed now' p chunk)"
  "map rf_raw (snd (rtcm_feed now p chunk)) = map rf_raw (snd (rtcm_feed now' p chunk))"
  by (simp_all add: rtcm_feed_scan as_frame_def comp_def)

lemma rtcm_feeds_whole:
  "parser_settled p \<Longrightarrow> fst (rtcm_feeds p es) = fst (rtcm_feed now p (concat (map snd es))) \<and>
     map rf_raw (snd (rtcm_feeds p es)) = map rf_raw (snd (rtcm_feed now p (concat (map snd es))))"
proof (induction p es rule: rtcm_feeds.induct)
  case (1 p)
  then show ?case by (simp add: rtcm_feed_Nil)
next
  case (2 p t chunk rest)
  have "parser_settled (fst (rtcm_feed t p chunk))" by (rule rtcm_feed_settled)
  from 2(1) [OF refl prod.collapse this] feed_time [of t p chunk now] show ?case
    by (simp add: rtcm_feed_append Let_def case_prod_unfold)
qed

subsection \<open>Properties\<close>

text \<open>
  However the RTCM byte stream is cut into chunks, feeding the chunks to a new parser
  leaves the same buffer and counters and yields the same frames as feeding all of it at once.
\<close>

theorem rtcm_chunking_irrelevant:
  "feed_chunks (rtcm_feed now) new_rtcm_parser cs = rtcm_feed now new_rtcm_parser (concat cs)"
  using rtcm_stream.chunks_concat [OF new_rtcm_parser_settled] .

text \<open>
  Property C33. The parser is sound and loses no byte, over any sequence of feeds: let a new parser
  be fed any chunks at any times, and then one more chunk at time \<open>now\<close>. All the input so far can be
  cut into the frames it has yielded, in order, single bytes it has skipped, and what is buffered, so
  that every frame is a valid RTCM3 frame and no valid frame begins at a skipped byte in the input;
  the counters count the input, the skipped bytes, the frames and their bytes. The frames of
  the last feed carry their message type and \<open>now\<close>; at most 1028 bytes are buffered, and no length
  failure is ever counted.
\<close>

theorem rtcm_parser_accounts:
  "case rtcm_feeds new_rtcm_parser es of (p, fs) \<Rightarrow> case rtcm_feed now p chunk of (p', gs) \<Rightarrow>
     (\<exists>pieces. reading_of (concat (map snd es) @ chunk) pieces (rp_buffer p') \<and>
        frames_read pieces = map rf_raw (fs @ gs) \<and>
        bytes_skipped pieces = rp_garbage_bytes p' + rp_header_failures p' + rp_crc_failures p') \<and>
     list_all (\<lambda>f. rtcm_type (rf_raw f) = Inr (rf_message_type f) \<and> rf_received_at f = now) gs \<and>
     rp_input_bytes p' = length (concat (map snd es) @ chunk) \<and> rp_frames p' = length (fs @ gs) \<and>
     rp_frame_bytes p' = length (concat (map rf_raw (fs @ gs))) \<and>
     length (rp_buffer p') \<le> 1028 \<and> rp_length_failures p' = 0"
proof -
  let ?all = "concat (map snd es) @ chunk"
  obtain p fs where f: "rtcm_feeds new_rtcm_parser es = (p, fs)" by (rule prod.exhaust)
  obtain p' gs where g: "rtcm_feed now p chunk = (p', gs)" by (rule prod.exhaust)
  have w: "p' = fst (rtcm_feed now new_rtcm_parser ?all)"
    "map rf_raw (fs @ gs) = map rf_raw (snd (rtcm_feed now new_rtcm_parser ?all))"
    using rtcm_feeds_whole [OF new_rtcm_parser_settled, of es now] f g
    by (simp_all add: rtcm_feed_append Let_def case_prod_unfold)
  let ?es = "fst (scan ?all)"
  have p': "p' = (fold apply_event ?es (new_rtcm_parser\<lparr>rp_input_bytes := length ?all\<rparr>))\<lparr>rp_buffer := snd (scan ?all)\<rparr>"
    unfolding w(1) rtcm_feed_scan by (simp add: new_rtcm_parser_def)
  have frames: "map rf_raw (fs @ gs) = good_frames ?es"
    unfolding w(2) rtcm_feed_scan by (simp add: as_frame_def comp_def new_rtcm_parser_def)
  then have "length (fs @ gs) = length (good_frames ?es)" by (metis length_map)
  moreover have "rtcm_type raw = Inr (projr (rtcm_type raw))" if "valid_rtcm3 raw" for raw
    using that by (rule rtcm_type_valid) simp
  then have "list_all (\<lambda>f. rtcm_type (rf_raw f) = Inr (rf_message_type f) \<and> rf_received_at f = now) gs"
    using scan_good_valid g by (auto simp: rtcm_feed_scan list_all_iff as_frame_def)
  moreover have "length (rp_buffer p') \<le> 1028"
    using settled_buffer [OF scan_rest [of ?all]] by (simp add: p')
  ultimately show ?thesis
    using scan_reads [of ?all] fold_event_counts [of ?es "new_rtcm_parser\<lparr>rp_input_bytes := length ?all\<rparr>"]
    by (simp add: f g frames [symmetric] reads_def p') (simp add: frames new_rtcm_parser_def)
qed

text \<open>
  A clean stream is parsed completely: a concatenation of valid frames yields exactly
  these frames, in order, with an empty buffer and no byte counted as garbage or failure.
\<close>

theorem rtcm_clean_stream:
  assumes "list_all valid_rtcm3 raws"
  shows "map rf_raw (snd (rtcm_feed now new_rtcm_parser (concat raws))) = raws \<and>
     rp_buffer (fst (rtcm_feed now new_rtcm_parser (concat raws))) = [] \<and>
     rp_frame_bytes (fst (rtcm_feed now new_rtcm_parser (concat raws))) = length (concat raws)"
proof -
  have "rp_frame_bytes (fold apply_event (map Good rs) p) = rp_frame_bytes p + length (concat rs)" for rs p
    by (induction rs arbitrary: p) simp_all
  then show ?thesis
    using scan_clean [OF assms]
    by (simp add: rtcm_feed_scan as_frame_def comp_def) (simp add: new_rtcm_parser_def)
qed

lemma rtcm_clean_stream_witness:
  "map rf_raw (snd (rtcm_feed 1 new_rtcm_parser
     [211, 0, 2, 62, 208, 164, 224, 0, 211, 0, 2, 62, 208, 164, 224, 0])) =
   [[211, 0, 2, 62, 208, 164, 224, 0], [211, 0, 2, 62, 208, 164, 224, 0]]"
  using rtcm_clean_stream [of "[[211, 0, 2, 62, 208, 164, 224, 0], [211, 0, 2, 62, 208, 164, 224, 0]]" 1]
  by (simp add: rtcm_vector)

text \<open>
  Property C18. Invalid candidates never poison later input: behind noise in which no valid frame
  begins, however long and whatever preambles and headers it seems to contain, a valid frame that
  at least 1029 more bytes follow is found first, and what follows is parsed as if alone.
\<close>

theorem rtcm_self_healing:
  assumes "\<And>i n. i < length g \<Longrightarrow> \<not> valid_rtcm3 (take n (drop i (g @ raw @ tail)))"
    and "valid_rtcm3 raw" and "1029 \<le> length tail"
  shows "snd (rtcm_feed now new_rtcm_parser (g @ raw @ tail)) =
     as_frame now raw # snd (rtcm_feed now new_rtcm_parser tail)"
  using scan_noise [OF assms] by (simp add: rtcm_feed_scan) (simp add: new_rtcm_parser_def)

lemma rtcm_self_healing_witness:
  "snd (rtcm_feed 1 new_rtcm_parser
      ([211, 0, 0, 1, 2, 3] @ [211, 0, 2, 62, 208, 164, 224, 0] @ replicate 1029 0)) =
     as_frame 1 [211, 0, 2, 62, 208, 164, 224, 0] #
       snd (rtcm_feed 1 new_rtcm_parser (replicate 1029 0))"
proof (rule rtcm_self_healing)
  fix i n :: nat
  let ?t = "[211, 0, 2, 62, 208, 164, 224, 0] @ replicate 1029 0 :: bytes"
  assume "i < length [211 :: byte, 0, 0, 1, 2, 3]"
  then have i: "i = 0 \<or> i = 1 \<or> i = 2 \<or> i = 3 \<or> i = 4 \<or> i = 5" by auto
  have "\<not> valid_rtcm3 (take n ([211, 0, 0, 1, 2, 3] @ t))" for t
  proof
    assume v: "valid_rtcm3 (take n ([211, 0, 0, 1, 2, 3] @ t))"
    then have l: "6 \<le> n" by (simp add: valid_rtcm3_iff)
    then have "rtcm_payload_length (take n ([211, 0, 0, 1, 2, 3] @ t)) = 0"
      by (simp add: rtcm_payload_length_eq)
    with v have "length (take n ([211, 0, 0, 1, 2, 3] @ t)) = 6" by (simp add: valid_rtcm3_iff)
    then have "take n ([211, 0, 0, 1, 2, 3] @ t) = take 6 (take n ([211, 0, 0, 1, 2, 3] @ t))"
      by (simp only: take_all order_refl)
    also have "\<dots> = take 6 ([211, 0, 0, 1, 2, 3] @ t)" using l by (simp only: take_take min_absorb1)
    finally have "take n ([211, 0, 0, 1, 2, 3] @ t) = [211, 0, 0, 1, 2, 3]" by simp
    with v have "valid_rtcm3 [211, 0, 0, 1, 2, 3]" by simp
    moreover have "\<not> valid_rtcm3 [211, 0, 0, 1, 2, 3]" by code_simp
    ultimately show False by simp
  qed
  moreover have "\<not> valid_rtcm3 (take n (x # xs))" if "x \<noteq> 211" for x xs
    using that by (cases n) (simp_all add: valid_rtcm3_iff)
  ultimately show "\<not> valid_rtcm3 (take n (drop i ([211, 0, 0, 1, 2, 3] @ ?t)))"
    using i by (elim disjE) simp_all
qed (simp_all add: rtcm_vector)

end
