(* ===== verification/Metrics.thy ===== *)
theory Metrics
  imports Prelude
begin

text \<open>
  The metrics registry and the health check, \<open>host/mowgli_lora/metrics.py\<close>: a counter by name in
  insertion order, where a missing name counts 0; and the answers of its HTTP handler. The server
  around the handler is not modelled; how Python prints a number is a parameter of \<open>prometheus\<close>.
\<close>

type_synonym metrics = "(string \<times> real) list"

subsection \<open>The code\<close>

definition metric_get :: "string \<Rightarrow> metrics \<Rightarrow> real" where
  "metric_get name ms = (case map_of ms name of None \<Rightarrow> 0 | Some v \<Rightarrow> v)"

definition metric_add :: "string \<Rightarrow> real \<Rightarrow> metrics \<Rightarrow> metrics" where
  "metric_add name amount ms = AList.update name (metric_get name ms + amount) ms"

definition metric_set :: "string \<Rightarrow> real \<Rightarrow> metrics \<Rightarrow> metrics" where
  "metric_set name v ms = AList.update name v ms"

definition metric_snapshot :: "metrics \<Rightarrow> metrics" where
  "metric_snapshot ms = ms"

definition prometheus :: "(real \<Rightarrow> string) \<Rightarrow> metrics \<Rightarrow> string" where
  "prometheus show_value ms =
     concat (map (\<lambda>(key, v). ''mowgli_lora_'' @ key @ '' '' @ show_value v @ [CHR 0x0A])
               (metric_snapshot ms))"

definition health_for_role :: "metrics \<Rightarrow> string \<Rightarrow> bool \<times> (string \<times> bool) list" where
  "health_for_role ms role =
     (let modem = metric_get ''modem_connected'' ms \<noteq> 0;
          handshake = metric_get ''modem_handshake_complete'' ms \<noteq> 0;
          radio_ready = metric_get ''modem_radio_ready'' ms \<noteq> 0;
          checks = [(''modem_connected'', modem), (''modem_handshake_complete'', handshake),
                    (''modem_radio_ready'', radio_ready)];
          checks = (if role = ''base''
                    then checks @ [(''rtcm_source_connected'', metric_get ''rtcm_source_connected'' ms \<noteq> 0)]
                    else checks)
      in (list_all snd checks, checks))"

text \<open>
  The answer to a GET request: the status, the content type and the body, or an error page. The body of
  a health check is the object that \<open>json.dumps\<close> writes out.
\<close>

record health =
  hl_status :: string
  hl_role :: "string option"
  hl_checks :: "(string \<times> bool) list"

datatype http_body = Plain string | Json health

datatype http_answer = Answer int string http_body | ErrorPage int

definition health_of :: "metrics \<Rightarrow> string option \<Rightarrow> bool \<times> (string \<times> bool) list" where
  "health_of ms role =
     (case role of None \<Rightarrow> (True, []) | Some role \<Rightarrow> health_for_role ms role)"

definition do_get :: "(real \<Rightarrow> string) \<Rightarrow> metrics \<Rightarrow> string option \<Rightarrow> string \<Rightarrow> http_answer" where
  "do_get show_value ms role path =
     (if path = ''/metrics'' then Answer 200 ''text/plain; version=0.0.4'' (Plain (prometheus show_value ms))
      else if path = ''/healthz''
      then (let (healthy, checks) = health_of ms role
            in Answer (if healthy then 200 else 503) ''application/json''
                 (Json \<lparr>hl_status = (if healthy then ''ok'' else ''degraded''), hl_role = role,
                        hl_checks = checks\<rparr>))
      else ErrorPage 404)"

fun status_of :: "http_answer \<Rightarrow> int" where
  "status_of (Answer code content_type body) = code"
| "status_of (ErrorPage code) = code"

subsection \<open>Counters and gauges\<close>

lemma metric_get_add [simp]:
  "metric_get n (metric_add k v ms) = (if n = k then metric_get n ms + v else metric_get n ms)"
  by (auto simp: metric_get_def metric_add_def lookup_update)

lemma metric_get_set [simp]: "metric_get n (metric_set k v ms) = (if n = k then v else metric_get n ms)"
  by (auto simp: metric_get_def metric_set_def lookup_update)

lemma metric_keys:
  "distinct_keys ms \<Longrightarrow> distinct_keys (metric_add k v ms)"
  "distinct_keys ms \<Longrightarrow> distinct_keys (metric_set k v ms)"
  by (simp_all add: metric_add_def metric_set_def distinct_keys_update)

lemma health_for_role_iff:
  "fst (health_for_role ms role) \<longleftrightarrow>
     metric_get ''modem_connected'' ms \<noteq> 0 \<and> metric_get ''modem_handshake_complete'' ms \<noteq> 0 \<and>
     metric_get ''modem_radio_ready'' ms \<noteq> 0 \<and>
     (role = ''base'' \<longrightarrow> metric_get ''rtcm_source_connected'' ms \<noteq> 0)"
  by (simp add: health_for_role_def Let_def)

lemma healthz_status:
  "status_of (do_get show_value ms (Some role) ''/healthz'') = (if fst (health_for_role ms role) then 200 else 503)"
  by (simp add: do_get_def health_of_def Let_def case_prod_unfold)

end
