(* ===== verification/Modem.thy ===== *)
theory Modem
  imports Stream_Decoder Metrics
begin

text \<open>
  The host side of the USB modem, \<open>ModemTransport\<close> of \<open>host/mowgli_lora/modem.py\<close>. The world outside
  (clock, random numbers, opening, reading and writing the serial port) is a record of functions:
  the \<open>i\<close>-th interaction of the transport with the world gets the \<open>i\<close>-th answer. Methods take the
  state and return it changed; a method that may raise returns a result besides. The logging calls
  and the closing of the port have no effect on the state and are left out. \<open>md_written\<close> is history: the
  bytes that the port has taken.
\<close>

record env =
  env_clock :: "nat \<Rightarrow> time"
  env_random :: "nat \<Rightarrow> int"
  env_open :: "nat \<Rightarrow> bool"
  env_read :: "nat \<Rightarrow> bytes option"
  env_write :: "nat \<Rightarrow> nat option"

text \<open>
  \<open>env_random i\<close> is \<open>random.randrange(1, 2**32)\<close>; \<open>env_open i\<close> says whether the port opens or
  raises \<open>OSError\<close> or \<open>RuntimeError\<close>; a read or a write that raises \<open>OSError\<close> is \<open>None\<close>. The last
  field of the state is a ghost, the bytes that the port has taken.
\<close>

record modem =
  md_serial :: bool
  md_decoder :: stream_decoder
  md_session :: int
  md_sequence :: int
  md_boot_id :: "int option"
  md_handshake_complete :: bool
  md_radio_ready :: bool
  md_pending :: "(int \<times> int \<times> time) list"
  md_received :: "bytes list"
  md_tx_outcomes :: "(int \<times> bool option) list"
  md_timed_out_radio :: "(int \<times> time) list"
  md_next_attempt :: time
  md_last_diagnostics :: time
  md_last_radio_rx :: time
  md_reconnect_seconds :: time
  md_metrics :: metrics
  md_calls :: nat
  md_written :: bytes

abbreviation (input) MAX_SEQUENCE :: int where "MAX_SEQUENCE \<equiv> 0xFFFFFFFF"
abbreviation (input) MAX_LATE_RADIO_RESULTS :: nat where "MAX_LATE_RADIO_RESULTS \<equiv> 32"
abbreviation (input) LATE_RADIO_RESULT_TTL_S :: time where "LATE_RADIO_RESULT_TTL_S \<equiv> 30"

definition count :: "string \<Rightarrow> real \<Rightarrow> modem \<Rightarrow> modem" where
  "count name n m = m\<lparr>md_metrics := metric_add name n (md_metrics m)\<rparr>"

definition gauge :: "string \<Rightarrow> real \<Rightarrow> modem \<Rightarrow> modem" where
  "gauge name v m = m\<lparr>md_metrics := metric_set name v (md_metrics m)\<rparr>"

definition called :: "modem \<Rightarrow> modem" where
  "called m = m\<lparr>md_calls := Suc (md_calls m)\<rparr>"

definition new_modem :: "env \<Rightarrow> time \<Rightarrow> modem" where
  "new_modem w reconnect_seconds =
     gauge ''modem_radio_ready'' 0 (gauge ''modem_ready_for_send'' 0
       (gauge ''modem_handshake_complete'' 0 (gauge ''modem_connected'' 0 (called
       \<lparr>md_serial = False, md_decoder = new_stream_decoder, md_session = env_random w 0,
        md_sequence = 0, md_boot_id = None, md_handshake_complete = False, md_radio_ready = False,
        md_pending = [], md_received = [], md_tx_outcomes = [], md_timed_out_radio = [],
        md_next_attempt = 0, md_last_diagnostics = 0, md_last_radio_rx = 0,
        md_reconnect_seconds = reconnect_seconds, md_metrics = [], md_calls = 0, md_written = []\<rparr>))))"

definition ready_for_send :: "modem \<Rightarrow> bool" where
  "ready_for_send m \<longleftrightarrow> md_serial m \<and> md_handshake_complete m \<and> md_radio_ready m \<and> md_pending m = []"

definition of_flag :: "bool \<Rightarrow> real" where
  "of_flag b = (if b then 1 else 0)"

subsection \<open>Connection\<close>

text \<open>The loop of \<open>_disconnect\<close> over the pending requests.\<close>

fun uncertain_sends :: "(int \<times> int \<times> time) list \<Rightarrow> modem \<Rightarrow> modem" where
  "uncertain_sends [] m = m"
| "uncertain_sends ((sqn, mtype, started) # ps) m =
     uncertain_sends ps
       (if mtype = RADIO_SEND
        then count ''radio_send_disconnect_uncertain'' 1
               (m\<lparr>md_tx_outcomes := md_tx_outcomes m @ [(sqn, None)]\<rparr>)
        else m)"

definition disconnect :: "env \<Rightarrow> modem \<Rightarrow> modem" where
  "disconnect w m0 =
     (let m = (uncertain_sends (md_pending m0) m0)
            \<lparr>md_serial := False, md_pending := [], md_received := [], md_timed_out_radio := [],
             md_handshake_complete := False, md_radio_ready := False\<rparr>;
          m = gauge ''modem_radio_ready'' 0 (gauge ''modem_ready_for_send'' 0
                (gauge ''modem_handshake_complete'' 0 (gauge ''modem_connected'' 0 m)))
      in called (m\<lparr>md_next_attempt := env_clock w (md_calls m) + md_reconnect_seconds m\<rparr>))"

text \<open>
  The loop of \<open>_write\<close>, on what is left to write; \<open>False\<close> when it raises
  \<open>OSError\<close>.
\<close>

function write_loop :: "env \<Rightarrow> bytes \<Rightarrow> modem \<Rightarrow> modem \<times> bool" where
  "write_loop w raw m =
     (if raw = [] then (m, True)
      else case env_write w (md_calls m) of
        None \<Rightarrow> (called m, False)
      | Some n \<Rightarrow>
          (if n = 0 then (called m, False)
           else write_loop w (drop n raw)
                  (count ''usb_bytes_written'' (real n) (called (m\<lparr>md_written := md_written m @ take n raw\<rparr>)))))"
  by pat_completeness auto
termination
  by (relation "measure (\<lambda>(w, raw, m). length raw)") auto

declare write_loop.simps [simp del]

definition modem_write :: "env \<Rightarrow> bytes \<Rightarrow> modem \<Rightarrow> modem \<times> unit result" where
  "modem_write w raw m =
     (if \<not> md_serial m then (m, Inl OsError)
      else case write_loop w raw m of
        (m', True) \<Rightarrow> (m', Inr ())
      | (m', False) \<Rightarrow> (disconnect w (count ''usb_write_failures'' 1 m'), Inl OsError))"

definition next_sequence :: "modem \<Rightarrow> modem" where
  "next_sequence m =
     m\<lparr>md_sequence := if md_sequence m = MAX_SEQUENCE then 1 else md_sequence m + 1\<rparr>"

definition begin_fresh_session :: "env \<Rightarrow> modem \<Rightarrow> modem" where
  "begin_fresh_session w m =
     (let previous = md_session m;
          ses = env_random w (md_calls m);
          ses = (if ses = previous then if previous = MAX_SEQUENCE then 1 else previous + 1 else ses)
      in gauge ''modem_radio_ready'' 0 (gauge ''modem_ready_for_send'' 0
           (gauge ''modem_handshake_complete'' 0 (called
             (m\<lparr>md_session := ses, md_sequence := 0, md_timed_out_radio := [],
                md_handshake_complete := False, md_radio_ready := False, md_last_radio_rx := 0\<rparr>)))))"

definition modem_request :: "env \<Rightarrow> int \<Rightarrow> bytes \<Rightarrow> modem \<Rightarrow> modem \<times> int result" where
  "modem_request w mtype payload m0 =
     (if md_sequence m0 = MAX_SEQUENCE
      then (m0, Inl (RuntimeExc ''rotate host session before issuing a request''))
      else (let m = count ''usb_send_requests'' 1 (next_sequence m0);
                sqn = md_sequence m
            in case encode_frame mtype (md_session m) sqn payload of
                 Inl e \<Rightarrow> (m, Inl e)
               | Inr raw \<Rightarrow>
                   (case modem_write w raw m of
                      (m, Inl e) \<Rightarrow> (m, Inl e)
                    | (m, Inr _) \<Rightarrow>
                        (count ''usb_send_accepted'' 1 (called
                           (m\<lparr>md_pending := AList.update sqn (mtype, env_clock w (md_calls m)) (md_pending m)\<rparr>)),
                         Inr sqn))))"

definition send_hello :: "env \<Rightarrow> modem \<Rightarrow> modem \<times> unit result" where
  "send_hello w m =
     (case modem_request w USB_HELLO [] m of (m, Inl e) \<Rightarrow> (m, Inl e) | (m, Inr _) \<Rightarrow> (m, Inr ()))"

text \<open>The loop of \<open>_restart_host_session\<close> over the pending requests.\<close>

definition failed_sends :: "(int \<times> int \<times> time) list \<Rightarrow> (int \<times> bool option) list" where
  "failed_sends ps = map (\<lambda>(sqn, mtype, started). (sqn, Some False))
     (filter (\<lambda>(sqn, mtype, started). mtype = RADIO_SEND) ps)"

definition restart_host_session :: "env \<Rightarrow> modem \<Rightarrow> modem \<times> unit result" where
  "restart_host_session w m0 =
     (let m = m0\<lparr>md_tx_outcomes := md_tx_outcomes m0 @ failed_sends (md_pending m0),
                 md_pending := [], md_received := []\<rparr>;
          m = gauge ''modem_ready_for_send'' 0 (gauge ''modem_handshake_complete'' 0
                (begin_fresh_session w m))
      in case send_hello w m of
           (m, Inl OsError) \<Rightarrow> (count ''usb_session_reset_write_failures'' 1 m, Inr ())
         | r \<Rightarrow> r)"

definition rotate_before_sequence_wrap :: "env \<Rightarrow> modem \<Rightarrow> modem \<times> bool result" where
  "rotate_before_sequence_wrap w m =
     (if md_sequence m \<noteq> MAX_SEQUENCE then (m, Inr False)
      else case restart_host_session w (count ''usb_session_rotations_sequence_wrap'' 1 m) of
        (m, Inl e) \<Rightarrow> (m, Inl e)
      | (m, Inr _) \<Rightarrow> (m, Inr True))"

text \<open>
  The \<open>except\<close> clause of \<open>_open\<close>, and \<open>_open\<close>; the clock is
  only read when not connected.
\<close>

definition open_failed :: "env \<Rightarrow> modem \<Rightarrow> modem \<times> unit result" where
  "open_failed w m = (disconnect w (count ''usb_connect_failures'' 1 m), Inr ())"

definition open_or_fail :: "env \<Rightarrow> modem \<times> unit result \<Rightarrow> modem \<times> unit result" where
  "open_or_fail w r =
     (case r of
        (m, Inl OsError) \<Rightarrow> open_failed w m
      | (m, Inl (RuntimeExc _)) \<Rightarrow> open_failed w m
      | r \<Rightarrow> r)"

definition modem_open :: "env \<Rightarrow> modem \<Rightarrow> modem \<times> unit result" where
  "modem_open w m =
     (if md_serial m then (m, Inr ())
      else if env_clock w (md_calls m) < md_next_attempt m then (called m, Inr ())
      else (let m = called m
            in if \<not> env_open w (md_calls m) then open_failed w (called m)
               else (let m = begin_fresh_session w ((called m)
                           \<lparr>md_serial := True, md_decoder := new_stream_decoder, md_pending := []\<rparr>);
                         m = gauge ''modem_handshake_complete'' 0 (gauge ''modem_connected'' 1
                               (count ''usb_reconnects'' 1 m))
                     in open_or_fail w
                          (case modem_write w [0] m of
                             (m, Inl e) \<Rightarrow> (m, Inl e)
                           | (m, Inr _) \<Rightarrow> send_hello w m))))"

definition modem_close :: "env \<Rightarrow> modem \<Rightarrow> modem" where
  "modem_close w m = gauge ''modem_connected'' 0 (disconnect w m)"

subsection \<open>Sending\<close>

definition send_air :: "env \<Rightarrow> bytes \<Rightarrow> modem \<Rightarrow> modem \<times> int option result" where
  "send_air w payload m =
     (if \<not> ready_for_send m then (count ''radio_send_disconnected'' 1 m, Inr None)
      else case rotate_before_sequence_wrap w m of
        (m, Inl e) \<Rightarrow> (m, Inl e)
      | (m, Inr True) \<Rightarrow> (count ''radio_send_session_rotated'' 1 m, Inr None)
      | (m, Inr False) \<Rightarrow>
          (case modem_request w RADIO_SEND payload
                  (count ''lora_bytes_queued'' (real (length payload))
                     (count ''application_frames_generated'' 1 m)) of
             (m, Inr sqn) \<Rightarrow> (m, Inr (Some sqn))
           | (m, Inl OsError) \<Rightarrow> (count ''radio_send_usb_write_failures'' 1 m, Inr None)
           | (m, Inl e) \<Rightarrow> (m, Inl e)))"

definition take_tx_outcomes :: "modem \<Rightarrow> modem \<times> (int \<times> bool option) list" where
  "take_tx_outcomes m = (m\<lparr>md_tx_outcomes := []\<rparr>, md_tx_outcomes m)"

subsection \<open>Receiving\<close>

text \<open>
  The payload parsers raise nothing but \<open>ProtocolError\<close>, so their \<open>except\<close> clauses catch every
  exception.
\<close>

definition handle_info :: "bytes \<Rightarrow> modem \<Rightarrow> modem \<times> bool" where
  "handle_info payload m =
     (case parse_info payload of
        Inl _ \<Rightarrow> (count ''info_decode_failures'' 1 m, False)
      | Inr i \<Rightarrow>
          (let m = (case md_boot_id m of
                      Some b \<Rightarrow> if info_boot_id i \<noteq> b then count ''modem_boot_id_changes'' 1 m else m
                    | None \<Rightarrow> m);
               m = m\<lparr>md_boot_id := Some (info_boot_id i), md_handshake_complete := True,
                     md_radio_ready := info_radio_ready i \<noteq> 0\<rparr>
           in (gauge ''modem_handshake_complete'' 1 (gauge ''modem_connected'' 1
                 (gauge ''modem_radio_ready'' (of_flag (md_radio_ready m))
                   (gauge ''modem_boot_id'' (of_int (info_boot_id i)) m))), True)))"

definition diagnostics_names :: "string list" where
  "diagnostics_names =
     [''modem_usb_frames'', ''modem_usb_accepted'', ''modem_send_accepted'', ''modem_tx_started'',
      ''modem_tx_completed'', ''modem_radio_rx_received'', ''modem_rx_event_queued'',
      ''modem_rx_event_written_usb'', ''modem_event_drops'', ''modem_event_queue_depth'']"

definition handle_diagnostics :: "bytes \<Rightarrow> modem \<Rightarrow> modem" where
  "handle_diagnostics payload m =
     (case parse_diagnostics payload of
        Inl _ \<Rightarrow> count ''diagnostics_decode_failures'' 1 m
      | Inr values \<Rightarrow> fold (\<lambda>(name, v). gauge name (of_int v)) (zip diagnostics_names values) m)"

definition handle_error :: "env \<Rightarrow> int \<Rightarrow> bytes \<Rightarrow> modem \<Rightarrow> modem \<times> unit result" where
  "handle_error w sqn payload m =
     (case map_of (md_pending m) sqn of
        None \<Rightarrow>
          (if map_of (md_timed_out_radio m) sqn \<noteq> None
           then case parse_error payload of
               Inl _ \<Rightarrow> (count ''radio_tx_late_error_decode_failures'' 1 m, Inr ())
             | Inr (_, _, failed_type) \<Rightarrow>
                 (let m = m\<lparr>md_timed_out_radio := AList.delete sqn (md_timed_out_radio m)\<rparr>
                  in (count (if failed_type = RADIO_SEND then ''radio_tx_late_errors''
                             else ''radio_tx_late_error_type_mismatch'') 1 m, Inr ()))
           else (count ''usb_unexpected_error'' 1 m, Inr ()))
      | Some (request_type, _) \<Rightarrow>
          (case parse_error payload of
             Inl _ \<Rightarrow> (count ''modem_error_decode_failures'' 1 m, Inr ())
           | Inr (code, _, failed_type) \<Rightarrow>
               (if failed_type \<noteq> request_type then (count ''modem_error_type_mismatch'' 1 m, Inr ())
                else
                  (let m = count ''modem_errors'' 1
                             (m\<lparr>md_pending := AList.delete sqn (md_pending m)\<rparr>);
                       m = (if request_type = RADIO_SEND
                            then m\<lparr>md_tx_outcomes := md_tx_outcomes m @ [(sqn, Some False)]\<rparr> else m)
                   in if request_type = USB_HELLO
                      then restart_host_session w (count ''hello_errors'' 1 m)
                      else if code = ERROR_CODE_WRONG_SESSION \<and> request_type \<in> {GET_DIAGNOSTICS, RADIO_SEND}
                      then restart_host_session w (count ''modem_wrong_session_recoveries'' 1 m)
                      else (m, Inr ())))))"

definition handle_tx_result :: "usb_frame \<Rightarrow> modem \<Rightarrow> modem" where
  "handle_tx_result f m =
     (let sqn = uf_sequence f
      in case map_of (md_pending m) sqn of
           None \<Rightarrow>
             (if map_of (md_timed_out_radio m) sqn \<noteq> None
              then count (if is_ok (parse_tx_result (uf_payload f)) then ''radio_tx_late_completed''
                          else ''radio_tx_late_result_decode_failures'') 1
                     (m\<lparr>md_timed_out_radio := AList.delete sqn (md_timed_out_radio m)\<rparr>)
              else count ''usb_unexpected_radio_tx_result'' 1 m)
         | Some (request_type, _) \<Rightarrow>
             (if request_type \<noteq> RADIO_SEND then count ''usb_unexpected_radio_tx_result'' 1 m
              else (let m = m\<lparr>md_pending := AList.delete sqn (md_pending m)\<rparr>
                    in case parse_tx_result (uf_payload f) of
                      Inl _ \<Rightarrow> count ''radio_tx_result_decode_failures'' 1
                                 (m\<lparr>md_tx_outcomes := md_tx_outcomes m @ [(sqn, Some False)]\<rparr>)
                    | Inr _ \<Rightarrow> count ''radio_tx_completed'' 1
                                 (m\<lparr>md_tx_outcomes := md_tx_outcomes m @ [(sqn, Some True)]\<rparr>))))"

definition handle_radio_rx :: "env \<Rightarrow> usb_frame \<Rightarrow> modem \<Rightarrow> modem" where
  "handle_radio_rx w f m =
     (let m = count ''radio_rx_received'' 1 m;
          m = called (m\<lparr>md_last_radio_rx := env_clock w (md_calls m)\<rparr>)
      in case parse_radio_rx (uf_payload f) of
           Inl _ \<Rightarrow> count ''radio_rx_decode_failures'' 1 m
         | Inr rx \<Rightarrow> count ''application_frames_decoded'' 1 (count ''rx_event_queued'' 1
                       (m\<lparr>md_received := md_received m @ [rx_payload rx]\<rparr>)))"

text \<open>The body of the loop of \<open>tick\<close> over the decoded frames, after its first line.\<close>

definition dispatch_frame :: "env \<Rightarrow> usb_frame \<Rightarrow> modem \<Rightarrow> modem \<times> unit result" where
  "dispatch_frame w f m =
     (let request = map_of (md_pending m) (uf_sequence f);
          popped = m\<lparr>md_pending := AList.delete (uf_sequence f) (md_pending m)\<rparr>
      in if uf_session f \<noteq> md_session m then (count ''usb_wrong_session'' 1 m, Inr ())
         else if uf_msg_type f = USB_INFO
         then (case request of
             Some (mtype, _) \<Rightarrow>
               (if mtype \<noteq> USB_HELLO then (count ''usb_unexpected_info'' 1 m, Inr ())
                else case handle_info (uf_payload f) m of
                    (m, False) \<Rightarrow> restart_host_session w (count ''hello_invalid_info'' 1 m)
                  | (m, True) \<Rightarrow>
                      (m\<lparr>md_pending := AList.delete (uf_sequence f) (md_pending m)\<rparr>, Inr ()))
           | None \<Rightarrow> (count ''usb_unexpected_info'' 1 m, Inr ()))
         else if uf_msg_type f = RADIO_TX_RESULT then (handle_tx_result f m, Inr ())
         else if uf_msg_type f = RADIO_RX then (handle_radio_rx w f m, Inr ())
         else if uf_msg_type f = DIAGNOSTICS
         then (case request of
             Some (mtype, _) \<Rightarrow>
               (if mtype \<noteq> GET_DIAGNOSTICS then (count ''usb_unexpected_diagnostics'' 1 m, Inr ())
                else (handle_diagnostics (uf_payload f) popped, Inr ()))
           | None \<Rightarrow> (count ''usb_unexpected_diagnostics'' 1 m, Inr ()))
         else if uf_msg_type f = USB_ERROR then handle_error w (uf_sequence f) (uf_payload f) m
         else (m, Inr ()))"

definition handle_frame :: "env \<Rightarrow> usb_frame \<Rightarrow> modem \<Rightarrow> modem \<times> unit result" where
  "handle_frame w f m = dispatch_frame w f (count ''host_usb_frames_received'' 1 m)"

fun handle_frames :: "env \<Rightarrow> usb_frame list \<Rightarrow> modem \<Rightarrow> modem \<times> unit result" where
  "handle_frames w [] m = (m, Inr ())"
| "handle_frames w (f # fs) m =
     (case handle_frame w f m of (m, Inl e) \<Rightarrow> (m, Inl e) | (m, Inr _) \<Rightarrow> handle_frames w fs m)"

subsection \<open>Timeouts and the tick\<close>

function evict_tombstones :: "modem \<Rightarrow> modem" where
  "evict_tombstones m =
     (if length (md_timed_out_radio m) > MAX_LATE_RADIO_RESULTS
      then evict_tombstones (count ''radio_tx_timeout_tombstones_evicted'' 1
             (m\<lparr>md_timed_out_radio := tl (md_timed_out_radio m)\<rparr>))
      else m)"
  by pat_completeness auto
termination
  by (relation "measure (\<lambda>m. length (md_timed_out_radio m))") (auto simp: count_def)

declare evict_tombstones.simps [simp del]

definition remember_timed_out_radio :: "int \<Rightarrow> time \<Rightarrow> modem \<Rightarrow> modem" where
  "remember_timed_out_radio sqn now m =
     evict_tombstones (m\<lparr>md_timed_out_radio := AList.update sqn now (md_timed_out_radio m)\<rparr>)"

function expire_timed_out_radio :: "time \<Rightarrow> modem \<Rightarrow> modem" where
  "expire_timed_out_radio now m =
     (case md_timed_out_radio m of
        [] \<Rightarrow> m
      | (sqn, started) # rest \<Rightarrow>
          (if now - started \<le> LATE_RADIO_RESULT_TTL_S then m
           else expire_timed_out_radio now (count ''radio_tx_timeout_tombstones_expired'' 1
                  (m\<lparr>md_timed_out_radio := rest\<rparr>))))"
  by pat_completeness auto
termination
  by (relation "measure (\<lambda>(now, m). length (md_timed_out_radio m))") (auto simp: count_def)

declare expire_timed_out_radio.simps [simp del]

text \<open>The loop over a copy of the pending requests; a timed-out HELLO ends it.\<close>

fun expire_pending :: "env \<Rightarrow> time \<Rightarrow> (int \<times> int \<times> time) list \<Rightarrow> modem \<Rightarrow> modem \<times> unit result" where
  "expire_pending w now [] m = (m, Inr ())"
| "expire_pending w now ((sqn, mtype, started) # ps) m =
     (if now - started > 3
      then (let m = m\<lparr>md_pending := AList.delete sqn (md_pending m)\<rparr>
            in if mtype = RADIO_SEND
               then (let m = remember_timed_out_radio sqn now m;
                         m = m\<lparr>md_tx_outcomes := md_tx_outcomes m @ [(sqn, None)]\<rparr>
                     in expire_pending w now ps
                          (count ''usb_response_timeouts'' 1 (count ''radio_send_timeouts'' 1 m)))
               else if mtype = USB_HELLO then restart_host_session w (count ''hello_timeouts'' 1 m)
               else expire_pending w now ps (count ''usb_response_timeouts'' 1 m))
      else expire_pending w now ps m)"

text \<open>The diagnostics request at the end of a tick, with the short-circuit order of its condition.\<close>

definition poll_diagnostics :: "env \<Rightarrow> bool \<Rightarrow> time \<Rightarrow> modem \<Rightarrow> modem \<times> unit result" where
  "poll_diagnostics w diagnostics_idle now m =
     (if md_handshake_complete m \<and> md_pending m = [] \<and> diagnostics_idle \<and>
         now - md_last_radio_rx m \<ge> 1 \<and> now - md_last_diagnostics m \<ge> 1
      then case rotate_before_sequence_wrap w m of
          (m, Inl e) \<Rightarrow> (m, Inl e)
        | (m, Inr True) \<Rightarrow> (m, Inr ())
        | (m, Inr False) \<Rightarrow>
            (case modem_request w GET_DIAGNOSTICS [] (m\<lparr>md_last_diagnostics := now\<rparr>) of
               (m, Inl OsError) \<Rightarrow> (m, Inr ())
             | (m, Inl e) \<Rightarrow> (m, Inl e)
             | (m, Inr _) \<Rightarrow> (m, Inr ()))
      else (m, Inr ()))"

definition tick_connected :: "env \<Rightarrow> bool \<Rightarrow> bytes \<Rightarrow> modem \<Rightarrow> modem \<times> bytes list result" where
  "tick_connected w diagnostics_idle raw m0 =
     (let m = (if raw \<noteq> [] then count ''host_usb_bytes_received'' (real (length raw)) m0 else m0);
          (d, fs) = feed (md_decoder m) raw
      in case handle_frames w fs (m\<lparr>md_decoder := d\<rparr>) of
           (m, Inl e) \<Rightarrow> (m, Inl e)
         | (m, Inr _) \<Rightarrow>
             (let now = env_clock w (md_calls m);
                  m = expire_timed_out_radio now (called m)
              in case expire_pending w now (md_pending m) m of
                   (m, Inl e) \<Rightarrow> (m, Inl e)
                 | (m, Inr _) \<Rightarrow>
                     (case poll_diagnostics w diagnostics_idle now m of
                        (m, Inl e) \<Rightarrow> (m, Inl e)
                      | (m, Inr _) \<Rightarrow>
                          (let m = gauge ''modem_ready_for_send'' (of_flag (ready_for_send m))
                                     (gauge ''modem_handshake_complete'' (of_flag (md_handshake_complete m))
                                       (gauge ''modem_connected'' (of_flag (md_serial m)) m))
                           in (m\<lparr>md_received := []\<rparr>, Inr (md_received m))))))"

definition modem_tick :: "env \<Rightarrow> bool \<Rightarrow> modem \<Rightarrow> modem \<times> bytes list result" where
  "modem_tick w diagnostics_idle m =
     (case modem_open w m of
        (m, Inl e) \<Rightarrow> (m, Inl e)
      | (m, Inr _) \<Rightarrow>
          (if \<not> md_serial m then (gauge ''modem_ready_for_send'' 0 m, Inr [])
           else case env_read w (md_calls m) of
               None \<Rightarrow> (disconnect w (count ''usb_read_failures'' 1 (called m)), Inr [])
             | Some raw \<Rightarrow> tick_connected w diagnostics_idle raw (called m)))"


subsection \<open>What the methods change\<close>

lemma count_simps [simp]:
  "md_serial (count k n m) = md_serial m" "md_decoder (count k n m) = md_decoder m"
  "md_session (count k n m) = md_session m" "md_sequence (count k n m) = md_sequence m"
  "md_boot_id (count k n m) = md_boot_id m"
  "md_handshake_complete (count k n m) = md_handshake_complete m"
  "md_radio_ready (count k n m) = md_radio_ready m" "md_pending (count k n m) = md_pending m"
  "md_received (count k n m) = md_received m" "md_tx_outcomes (count k n m) = md_tx_outcomes m"
  "md_timed_out_radio (count k n m) = md_timed_out_radio m"
  "md_last_diagnostics (count k n m) = md_last_diagnostics m"
  "md_last_radio_rx (count k n m) = md_last_radio_rx m" "md_calls (count k n m) = md_calls m"
  by (simp_all add: count_def)

lemma gauge_simps [simp]:
  "md_serial (gauge k v m) = md_serial m" "md_decoder (gauge k v m) = md_decoder m"
  "md_session (gauge k v m) = md_session m" "md_sequence (gauge k v m) = md_sequence m"
  "md_boot_id (gauge k v m) = md_boot_id m"
  "md_handshake_complete (gauge k v m) = md_handshake_complete m"
  "md_radio_ready (gauge k v m) = md_radio_ready m" "md_pending (gauge k v m) = md_pending m"
  "md_received (gauge k v m) = md_received m" "md_tx_outcomes (gauge k v m) = md_tx_outcomes m"
  "md_timed_out_radio (gauge k v m) = md_timed_out_radio m"
  "md_last_diagnostics (gauge k v m) = md_last_diagnostics m"
  "md_last_radio_rx (gauge k v m) = md_last_radio_rx m" "md_calls (gauge k v m) = md_calls m"
  by (simp_all add: gauge_def)

lemma called_simps [simp]:
  "md_serial (called m) = md_serial m" "md_decoder (called m) = md_decoder m"
  "md_session (called m) = md_session m" "md_sequence (called m) = md_sequence m"
  "md_boot_id (called m) = md_boot_id m"
  "md_handshake_complete (called m) = md_handshake_complete m"
  "md_radio_ready (called m) = md_radio_ready m" "md_pending (called m) = md_pending m"
  "md_received (called m) = md_received m" "md_tx_outcomes (called m) = md_tx_outcomes m"
  "md_timed_out_radio (called m) = md_timed_out_radio m"
  "md_last_diagnostics (called m) = md_last_diagnostics m"
  "md_last_radio_rx (called m) = md_last_radio_rx m" "md_calls (called m) = Suc (md_calls m)"
  "md_metrics (called m) = md_metrics m"
  by (simp_all add: called_def)

text \<open>The gauges behind \<open>/healthz\<close>: connected, handshake complete, radio ready.\<close>

definition gauges :: "modem \<Rightarrow> real \<times> real \<times> real" where
  "gauges m = (metric_get ''modem_connected'' (md_metrics m),
     metric_get ''modem_handshake_complete'' (md_metrics m), metric_get ''modem_radio_ready'' (md_metrics m))"

abbreviation gauge_names :: "string set" where
  "gauge_names \<equiv> {''modem_connected'', ''modem_handshake_complete'', ''modem_radio_ready''}"

lemma gauges_count [simp]: "k \<notin> gauge_names \<Longrightarrow> gauges (count k n m) = gauges m"
  by (auto simp: gauges_def count_def)

lemma gauges_other [simp]: "k \<notin> gauge_names \<Longrightarrow> gauges (gauge k v m) = gauges m"
  by (auto simp: gauges_def gauge_def)

lemma gauges_called [simp]: "gauges (called m) = gauges m"
  by (simp add: gauges_def)

lemma gauges_gauge [simp]:
  "gauges (gauge ''modem_connected'' v m) = (v, snd (gauges m))"
  "gauges (gauge ''modem_handshake_complete'' v m) = (fst (gauges m), v, snd (snd (gauges m)))"
  "gauges (gauge ''modem_radio_ready'' v m) = (fst (gauges m), fst (snd (gauges m)), v)"
  by (simp_all add: gauges_def gauge_def)

lemma gauges_update [simp]:
  "gauges (m\<lparr>md_serial := a\<rparr>) = gauges m" "gauges (m\<lparr>md_decoder := b\<rparr>) = gauges m"
  "gauges (m\<lparr>md_session := c\<rparr>) = gauges m" "gauges (m\<lparr>md_sequence := c\<rparr>) = gauges m"
  "gauges (m\<lparr>md_boot_id := d\<rparr>) = gauges m" "gauges (m\<lparr>md_handshake_complete := a\<rparr>) = gauges m"
  "gauges (m\<lparr>md_radio_ready := a\<rparr>) = gauges m" "gauges (m\<lparr>md_pending := e\<rparr>) = gauges m"
  "gauges (m\<lparr>md_received := f\<rparr>) = gauges m" "gauges (m\<lparr>md_tx_outcomes := g\<rparr>) = gauges m"
  "gauges (m\<lparr>md_timed_out_radio := h\<rparr>) = gauges m" "gauges (m\<lparr>md_next_attempt := i\<rparr>) = gauges m"
  "gauges (m\<lparr>md_written := n\<rparr>) = gauges m"
  "gauges (m\<lparr>md_last_diagnostics := i\<rparr>) = gauges m" "gauges (m\<lparr>md_last_radio_rx := i\<rparr>) = gauges m"
  by (simp_all add: gauges_def)

text \<open>\<open>alike m m'\<close>: the states differ at most in counters and the number of interactions.\<close>

definition alike :: "modem \<Rightarrow> modem \<Rightarrow> bool" where
  "alike m m' \<longleftrightarrow>
     md_serial m' = md_serial m \<and> md_decoder m' = md_decoder m \<and> md_session m' = md_session m \<and>
     md_sequence m' = md_sequence m \<and> md_boot_id m' = md_boot_id m \<and>
     md_handshake_complete m' = md_handshake_complete m \<and> md_radio_ready m' = md_radio_ready m \<and>
     md_pending m' = md_pending m \<and> md_received m' = md_received m \<and>
     md_tx_outcomes m' = md_tx_outcomes m \<and> md_timed_out_radio m' = md_timed_out_radio m \<and>
     md_last_diagnostics m' = md_last_diagnostics m \<and> md_last_radio_rx m' = md_last_radio_rx m \<and>
     gauges m' = gauges m \<and> md_calls m \<le> md_calls m'"

lemma alike_write_loop: "alike m (fst (write_loop w raw m))"
proof (induction w raw m rule: write_loop.induct)
  case (1 w raw m)
  show ?case
  proof (cases "raw = [] \<or> env_write w (md_calls m) = None \<or> env_write w (md_calls m) = Some 0")
    case True
    then show ?thesis by (auto simp: alike_def write_loop.simps [of w raw m])
  next
    case False
    then obtain n where n: "raw \<noteq> []" "env_write w (md_calls m) = Some n" "n \<noteq> 0" by auto
    from 1 [OF this] show ?thesis
      by (simp add: alike_def write_loop.simps [of w raw m] n)
  qed
qed

text \<open>A lost connection: nothing pending, nothing queued, the outcome of a pending send unknown.\<close>

definition lost_sends :: "(int \<times> int \<times> time) list \<Rightarrow> (int \<times> bool option) list" where
  "lost_sends ps = map (\<lambda>(sqn, mtype, started). (sqn, None))
     (filter (\<lambda>(sqn, mtype, started). mtype = RADIO_SEND) ps)"

lemma uncertain_sends_simps [simp]:
  "md_tx_outcomes (uncertain_sends ps m) = md_tx_outcomes m @ lost_sends ps"
  "md_session (uncertain_sends ps m) = md_session m"
  "md_sequence (uncertain_sends ps m) = md_sequence m"
  "md_boot_id (uncertain_sends ps m) = md_boot_id m"
  "md_calls (uncertain_sends ps m) = md_calls m"
  "md_last_radio_rx (uncertain_sends ps m) = md_last_radio_rx m"
  by (induction ps m rule: uncertain_sends.induct) (simp_all add: lost_sends_def)

definition dropped :: "modem \<Rightarrow> modem \<Rightarrow> bool" where
  "dropped m m' \<longleftrightarrow>
     \<not> md_serial m' \<and> md_pending m' = [] \<and> md_received m' = [] \<and> md_timed_out_radio m' = [] \<and>
     \<not> md_handshake_complete m' \<and> \<not> md_radio_ready m' \<and> gauges m' = (0, 0, 0) \<and>
     md_session m' = md_session m \<and> md_sequence m' = md_sequence m \<and>
     md_tx_outcomes m' = md_tx_outcomes m @ lost_sends (md_pending m) \<and> md_calls m \<le> md_calls m'"

lemma disconnect_dropped: "dropped m (disconnect w m)"
  by (simp add: dropped_def disconnect_def Let_def)

lemma modem_write_cases:
  assumes "md_serial m"
  obtains m' where "modem_write w raw m = (m', Inr ())" and "alike m m'"
  | m' where "modem_write w raw m = (m', Inl OsError)" and "dropped m m'"
proof -
  obtain m1 b where l: "write_loop w raw m = (m1, b)" by (rule prod.exhaust)
  then have a: "alike m m1" using alike_write_loop [of m w raw] by simp
  show ?thesis
  proof (cases b)
    case True
    with l a assms show ?thesis by (intro that(1)) (simp_all add: modem_write_def)
  next
    case False
    have "dropped m (disconnect w (count ''usb_write_failures'' 1 m1))"
      using disconnect_dropped [of "count ''usb_write_failures'' 1 m1" w] a
      by (simp add: dropped_def alike_def)
    with False l assms show ?thesis by (intro that(2)) (simp_all add: modem_write_def)
  qed
qed


lemma encode_frame_ok:
  assumes "0 \<le> mtype" "mtype \<le> 255" "0 < ses" "ses \<le> MAX_SEQUENCE" "0 \<le> sqn" "sqn \<le> MAX_SEQUENCE"
    and "length pl \<le> 256"
  shows "\<exists>raw. encode_frame mtype ses sqn pl = Inr raw"
  using assms by (auto simp: encode_frame_Inr_iff usb_body_Inr_iff)

text \<open>An issued request is the only one pending, with a start time read during the call.\<close>

definition requested :: "env \<Rightarrow> int \<Rightarrow> modem \<Rightarrow> modem \<Rightarrow> bool" where
  "requested w mtype m m' \<longleftrightarrow>
     md_serial m' \<and> md_decoder m' = md_decoder m \<and> md_session m' = md_session m \<and>
     md_sequence m' = md_sequence m + 1 \<and> md_boot_id m' = md_boot_id m \<and>
     md_handshake_complete m' = md_handshake_complete m \<and> md_radio_ready m' = md_radio_ready m \<and>
     (\<exists>i\<ge>md_calls m. md_pending m' = [(md_sequence m + 1, mtype, env_clock w i)]) \<and>
     md_received m' = md_received m \<and>
     md_tx_outcomes m' = md_tx_outcomes m \<and> md_timed_out_radio m' = md_timed_out_radio m \<and>
     gauges m' = gauges m \<and> md_calls m \<le> md_calls m'"

text \<open>As \<open>dropped\<close>, but for a state whose sequence number was already moved on.\<close>

definition dropped_next :: "modem \<Rightarrow> modem \<Rightarrow> bool" where
  "dropped_next m m' \<longleftrightarrow> dropped (m\<lparr>md_sequence := md_sequence m + 1\<rparr>) m'"

lemma modem_request_cases:
  assumes "md_serial m" and "md_pending m = []" and "0 < md_session m" "md_session m \<le> MAX_SEQUENCE"
    and "0 \<le> md_sequence m" "md_sequence m < MAX_SEQUENCE" and "0 \<le> mtype" "mtype \<le> 255" and "length pl \<le> 256"
  obtains m' where "modem_request w mtype pl m = (m', Inr (md_sequence m + 1))" and "requested w mtype m m'"
  | m' where "modem_request w mtype pl m = (m', Inl OsError)" and "dropped_next m m'"
proof -
  define m1 where "m1 = count ''usb_send_requests'' 1 (next_sequence m)"
  have m1: "md_sequence m1 = md_sequence m + 1" "md_serial m1" "md_pending m1 = []"
      "alike (m\<lparr>md_sequence := md_sequence m + 1\<rparr>) m1"
    using assms by (simp_all add: m1_def next_sequence_def alike_def)
  obtain raw where raw: "encode_frame mtype (md_session m1) (md_sequence m1) pl = Inr raw"
    using encode_frame_ok [of mtype "md_session m1" "md_sequence m1" pl] assms m1 by (auto simp: alike_def)
  have seq: "md_sequence m \<noteq> MAX_SEQUENCE" using assms by simp
  show ?thesis
  proof (cases rule: modem_write_cases [OF m1(2), of w raw])
    case (1 m')
    let ?m = "count ''usb_send_accepted'' 1 (called (m'\<lparr>md_pending :=
        AList.update (md_sequence m1) (mtype, env_clock w (md_calls m')) (md_pending m')\<rparr>))"
    have "modem_request w mtype pl m = (?m, Inr (md_sequence m + 1))"
      unfolding modem_request_def Let_def m1_def [symmetric] using seq raw 1 m1(1) by simp
    moreover have "requested w mtype m ?m"
      using 1 m1 by (auto simp: requested_def alike_def intro!: exI [of _ "md_calls m'"])
    ultimately show ?thesis by (rule that(1))
  next
    case (2 m')
    have "modem_request w mtype pl m = (m', Inl OsError)"
      unfolding modem_request_def Let_def m1_def [symmetric] using seq raw 2 by simp
    moreover have "dropped_next m m'" using 2 m1 by (simp add: dropped_next_def dropped_def alike_def)
    ultimately show ?thesis by (rule that(2))
  qed
qed

text \<open>A fresh session under way: one HELLO pending, or the connection lost.\<close>

definition greeting :: "env \<Rightarrow> modem \<Rightarrow> modem \<Rightarrow> bool" where
  "greeting w m m' \<longleftrightarrow>
     md_serial m' \<and> 0 < md_session m' \<and> md_session m' \<le> MAX_SEQUENCE \<and> md_sequence m' = 1 \<and>
     \<not> md_handshake_complete m' \<and> \<not> md_radio_ready m' \<and> gauges m' = (fst (gauges m), 0, 0) \<and>
     (\<exists>i\<ge>md_calls m. md_pending m' = [(1, USB_HELLO, env_clock w i)]) \<and>
     md_timed_out_radio m' = [] \<and> md_calls m \<le> md_calls m'"

definition offline :: "modem \<Rightarrow> modem \<Rightarrow> bool" where
  "offline m m' \<longleftrightarrow>
     \<not> md_serial m' \<and> md_pending m' = [] \<and> md_received m' = [] \<and> md_timed_out_radio m' = [] \<and>
     \<not> md_handshake_complete m' \<and> \<not> md_radio_ready m' \<and> gauges m' = (0, 0, 0) \<and>
     0 < md_session m' \<and> md_session m' \<le> MAX_SEQUENCE \<and> 0 \<le> md_sequence m' \<and>
     md_sequence m' \<le> MAX_SEQUENCE \<and> md_calls m \<le> md_calls m'"

definition env_ok :: "env \<Rightarrow> bool" where
  "env_ok w \<longleftrightarrow> (\<forall>i. 0 < env_random w i \<and> env_random w i \<le> MAX_SEQUENCE)"

lemma begin_fresh_session_simps [simp]:
  "md_serial (begin_fresh_session w m) = md_serial m" "md_pending (begin_fresh_session w m) = md_pending m"
  "md_sequence (begin_fresh_session w m) = 0" "md_timed_out_radio (begin_fresh_session w m) = []"
  "\<not> md_handshake_complete (begin_fresh_session w m)" "\<not> md_radio_ready (begin_fresh_session w m)"
  "md_received (begin_fresh_session w m) = md_received m"
  "md_tx_outcomes (begin_fresh_session w m) = md_tx_outcomes m"
  "md_calls (begin_fresh_session w m) = Suc (md_calls m)"
  "gauges (begin_fresh_session w m) = (fst (gauges m), 0, 0)"
  "md_decoder (begin_fresh_session w m) = md_decoder m"
  by (simp_all add: begin_fresh_session_def Let_def)

lemma begin_fresh_session_valid:
  assumes "env_ok w" and "0 < md_session m"
  shows "0 < md_session (begin_fresh_session w m) \<and> md_session (begin_fresh_session w m) \<le> MAX_SEQUENCE \<and>
    md_session (begin_fresh_session w m) \<noteq> md_session m"
proof -
  have "0 < env_random w (md_calls m)" "env_random w (md_calls m) \<le> MAX_SEQUENCE"
    using assms by (auto simp: env_ok_def)
  with assms show ?thesis by (auto simp: begin_fresh_session_def Let_def)
qed

lemma send_hello_cases:
  assumes "md_serial m" and "md_pending m = []" and "0 < md_session m" "md_session m \<le> MAX_SEQUENCE"
    and "md_sequence m = 0"
  obtains m' where "send_hello w m = (m', Inr ())" and "requested w USB_HELLO m m'"
  | m' where "send_hello w m = (m', Inl OsError)" and "dropped_next m m'"
proof -
  have seq: "0 \<le> md_sequence m" "md_sequence m < MAX_SEQUENCE" using assms by simp_all
  show ?thesis
    by (rule modem_request_cases [OF assms(1-4) seq, of USB_HELLO "[]" w])
      (use that in \<open>auto simp: send_hello_def\<close>)
qed

lemma restart_cases:
  assumes "env_ok w" and "md_serial m" and "0 < md_session m"
  obtains m' where "restart_host_session w m = (m', Inr ())" and "greeting w m m'" and "md_received m' = []"
      and "md_tx_outcomes m' = md_tx_outcomes m @ failed_sends (md_pending m)"
  | m' where "restart_host_session w m = (m', Inr ())" and "offline m m'"
      and "md_tx_outcomes m' = md_tx_outcomes m @ failed_sends (md_pending m)"
proof -
  define m0 where "m0 = m\<lparr>md_tx_outcomes := md_tx_outcomes m @ failed_sends (md_pending m),
      md_pending := [], md_received := []\<rparr>"
  define m1 where "m1 = gauge ''modem_ready_for_send'' 0 (gauge ''modem_handshake_complete'' 0
      (begin_fresh_session w m0))"
  have v: "0 < md_session m1" "md_session m1 \<le> MAX_SEQUENCE"
    using begin_fresh_session_valid [OF assms(1), of m0] assms(3) by (simp_all add: m1_def m0_def)
  have m1: "md_serial m1" "md_pending m1 = []" "md_sequence m1 = 0" "md_received m1 = []"
    "md_tx_outcomes m1 = md_tx_outcomes m @ failed_sends (md_pending m)"
    "md_timed_out_radio m1 = []" "\<not> md_handshake_complete m1" "\<not> md_radio_ready m1"
    "gauges m1 = (fst (gauges m), 0, 0)" "md_calls m \<le> md_calls m1"
    using assms(2) by (simp_all add: m1_def m0_def)
  have eq: "restart_host_session w m = (case send_hello w m1 of
      (m, Inl OsError) \<Rightarrow> (count ''usb_session_reset_write_failures'' 1 m, Inr ()) | r \<Rightarrow> r)"
    by (simp only: restart_host_session_def m0_def m1_def Let_def)
  show ?thesis
  proof (cases rule: send_hello_cases [OF m1(1,2) v m1(3), of w])
    case (1 m')
    have "restart_host_session w m = (m', Inr ())" by (simp add: eq 1(1))
    moreover have "greeting w m m'" using 1(2) v m1
      by (auto simp: greeting_def requested_def) (metis order_trans)
    ultimately show ?thesis using 1(2) m1 by (intro that(1) [of m']) (simp_all add: requested_def)
  next
    case (2 m')
    let ?m = "count ''usb_session_reset_write_failures'' 1 m'"
    have "restart_host_session w m = (?m, Inr ())" by (simp add: eq 2(1))
    moreover have "offline m ?m"
      using 2(2) v m1 by (auto simp: offline_def dropped_next_def dropped_def)
    moreover have "md_tx_outcomes ?m = md_tx_outcomes m @ failed_sends (md_pending m)"
      using 2(2) m1 by (simp add: dropped_next_def dropped_def lost_sends_def)
    ultimately show ?thesis by (rule that(2))
  qed
qed


subsection \<open>The invariant\<close>

text \<open>
  At most one request is pending, and it is the latest; a connection without a handshake always has
  its HELLO pending, so it cannot get stuck; tombstones are older than the pending request; without
  a connection nothing is kept; and the gauges tell the truth.
\<close>

definition modem_inv :: "modem \<Rightarrow> bool" where
  "modem_inv m \<longleftrightarrow>
     0 < md_session m \<and> md_session m \<le> MAX_SEQUENCE \<and> 0 \<le> md_sequence m \<and> md_sequence m \<le> MAX_SEQUENCE \<and>
     (\<not> md_serial m \<longrightarrow> md_pending m = [] \<and> \<not> md_handshake_complete m) \<and>
     (md_radio_ready m \<longrightarrow> md_handshake_complete m) \<and>
     (\<not> md_handshake_complete m \<longrightarrow> md_timed_out_radio m = []) \<and>
     distinct_keys (md_timed_out_radio m) \<and> length (md_timed_out_radio m) \<le> MAX_LATE_RADIO_RESULTS \<and>
     (\<forall>k\<in>fst ` set (md_timed_out_radio m). k \<le> md_sequence m) \<and>
     (md_serial m \<and> \<not> md_handshake_complete m \<longrightarrow> (\<exists>t. md_pending m = [(md_sequence m, USB_HELLO, t)])) \<and>
     (md_handshake_complete m \<longrightarrow> md_pending m = [] \<or>
        md_sequence m \<notin> fst ` set (md_timed_out_radio m) \<and>
        (\<exists>t. md_pending m = [(md_sequence m, RADIO_SEND, t)] \<or>
             md_pending m = [(md_sequence m, GET_DIAGNOSTICS, t)])) \<and>
     gauges m = (of_flag (md_serial m), of_flag (md_handshake_complete m), of_flag (md_radio_ready m))"

text \<open>The sequence numbers of the pending sends.\<close>

definition sends :: "(int \<times> int \<times> time) list \<Rightarrow> int list" where
  "sends ps = map fst (filter (\<lambda>(sqn, mtype, started). mtype = RADIO_SEND) ps)"

text \<open>Sends that have an outcome waiting or are still pending: neither lost nor doubled nor reordered.\<close>

definition balance :: "modem \<Rightarrow> int list" where
  "balance m = map fst (md_tx_outcomes m) @ sends (md_pending m)"

text \<open>A pending send is an old one, in the session in which it was made.\<close>

definition old_sends :: "modem \<Rightarrow> modem \<Rightarrow> bool" where
  "old_sends m m' \<longleftrightarrow> (\<forall>p\<in>set (md_pending m'). fst (snd p) = RADIO_SEND \<longrightarrow>
     p \<in> set (md_pending m) \<and> md_session m' = md_session m)"

definition step_ok :: "env \<Rightarrow> modem \<Rightarrow> modem \<Rightarrow> bool" where
  "step_ok w m m' \<longleftrightarrow>
     modem_inv m' \<and> balance m' = balance m \<and> md_calls m \<le> md_calls m' \<and> old_sends m m' \<and>
     (\<forall>p\<in>set (md_pending m'). p \<in> set (md_pending m) \<or> (\<exists>i\<ge>md_calls m. snd (snd p) = env_clock w i))"

lemma step_ok_refl: "modem_inv m \<Longrightarrow> step_ok w m m"
  by (simp add: step_ok_def old_sends_def)

lemma old_sends_trans: "old_sends m m' \<Longrightarrow> old_sends m' m'' \<Longrightarrow> old_sends m m''"
  unfolding old_sends_def by metis

lemma old_sends_simps [simp]:
  "md_pending m' = [] \<Longrightarrow> old_sends m m'"
  "md_pending m' = md_pending m \<Longrightarrow> md_session m' = md_session m \<Longrightarrow> old_sends m m'"
  by (simp_all add: old_sends_def)

lemma old_sends_none: "sends (md_pending m') = [] \<Longrightarrow> old_sends m m'"
  by (auto simp: old_sends_def sends_def filter_empty_conv)

lemma old_sends_changes [simp]:
  "old_sends m (count k n m') = old_sends m m'" "old_sends m (gauge k v m') = old_sends m m'"
  "old_sends m (called m') = old_sends m m'"
  "old_sends m (m'\<lparr>md_decoder := d\<rparr>) = old_sends m m'"
  "old_sends m (m'\<lparr>md_last_radio_rx := t\<rparr>) = old_sends m m'"
  "old_sends m (m'\<lparr>md_last_diagnostics := t\<rparr>) = old_sends m m'"
  "old_sends m (m'\<lparr>md_received := rs\<rparr>) = old_sends m m'"
  "old_sends (m\<lparr>md_last_diagnostics := t\<rparr>) m' = old_sends m m'"
  "old_sends (count k n m) m' = old_sends m m'" "old_sends (gauge k v m) m' = old_sends m m'"
  "old_sends (called m) m' = old_sends m m'"
  by (simp_all add: old_sends_def)

lemma step_ok_trans: "step_ok w m m' \<Longrightarrow> step_ok w m' m'' \<Longrightarrow> step_ok w m m''"
proof -
  assume a: "step_ok w m m'" and b: "step_ok w m' m''"
  have "p \<in> set (md_pending m) \<or> (\<exists>i\<ge>md_calls m. snd (snd p) = env_clock w i)"
    if p: "p \<in> set (md_pending m'')" for p
  proof (cases "p \<in> set (md_pending m')")
    case True
    with a show ?thesis by (simp add: step_ok_def)
  next
    case False
    with b p obtain i where "md_calls m' \<le> i" "snd (snd p) = env_clock w i"
      by (auto simp: step_ok_def)
    moreover have "md_calls m \<le> md_calls m'" using a by (simp add: step_ok_def)
    ultimately show ?thesis using le_trans by blast
  qed
  moreover have "old_sends m m''" using a b old_sends_trans unfolding step_ok_def by blast
  ultimately show ?thesis using a b unfolding step_ok_def by simp
qed

lemma sends_simps [simp]:
  "sends [] = []" "sends ((k, mtype, t) # ps) = (if mtype = RADIO_SEND then k # sends ps else sends ps)"
  by (simp_all add: sends_def)

lemma keys_lost_sends [simp]: "map fst (lost_sends ps) = sends ps"
  by (simp add: lost_sends_def sends_def case_prod_unfold)

lemma keys_failed_sends [simp]: "map fst (failed_sends ps) = sends ps"
  by (simp add: failed_sends_def sends_def case_prod_unfold)

lemma of_flag_simps [simp]: "of_flag True = 1" "of_flag False = 0"
  by (simp_all add: of_flag_def)

lemma offline_inv: "offline m m' \<Longrightarrow> modem_inv m'"
  by (simp add: offline_def modem_inv_def)

lemma greeting_inv: "greeting w m m' \<Longrightarrow> fst (gauges m) = 1 \<Longrightarrow> modem_inv m'"
  by (auto simp: greeting_def modem_inv_def)

lemma restart_step:
  assumes "env_ok w" and "md_serial m" and "0 < md_session m" and "fst (gauges m) = 1"
  obtains m' where "restart_host_session w m = (m', Inr ())" and "modem_inv m'"
    and "balance m' = balance m" and "md_calls m \<le> md_calls m'"
    and "\<forall>p\<in>set (md_pending m'). \<exists>i\<ge>md_calls m. snd (snd p) = env_clock w i"
    and "sends (md_pending m') = []"
proof (cases rule: restart_cases [OF assms(1-3)])
  case (1 m')
  then show ?thesis using greeting_inv [OF 1(2) assms(4)]
    by (intro that [of m']) (auto simp: greeting_def balance_def)
next
  case (2 m')
  then show ?thesis using offline_inv [OF 2(2)]
    by (intro that [of m']) (auto simp: offline_def balance_def)
qed

lemma disconnect_step: "modem_inv m \<Longrightarrow> step_ok w m (disconnect w m)"
  using disconnect_dropped [of m w]
  by (simp add: step_ok_def modem_inv_def dropped_def balance_def)

lemma modem_inv_changes [simp]:
  "k \<notin> gauge_names \<Longrightarrow> modem_inv (count k n m) = modem_inv m"
  "k \<notin> gauge_names \<Longrightarrow> modem_inv (gauge k v m) = modem_inv m"
  "modem_inv (called m) = modem_inv m"
  "modem_inv (m\<lparr>md_decoder := d\<rparr>) = modem_inv m"
  "modem_inv (m\<lparr>md_last_radio_rx := t\<rparr>) = modem_inv m"
  "modem_inv (m\<lparr>md_last_diagnostics := t\<rparr>) = modem_inv m"
  "modem_inv (m\<lparr>md_tx_outcomes := os\<rparr>) = modem_inv m"
  by (simp_all add: modem_inv_def)

lemma balance_changes [simp]:
  "balance (count k n m) = balance m" "balance (gauge k v m) = balance m" "balance (called m) = balance m"
  "balance (m\<lparr>md_decoder := d\<rparr>) = balance m" "balance (m\<lparr>md_last_radio_rx := t\<rparr>) = balance m"
  "balance (m\<lparr>md_last_diagnostics := t\<rparr>) = balance m" "balance (m\<lparr>md_received := rs\<rparr>) = balance m"
  "balance (m\<lparr>md_timed_out_radio := ts\<rparr>) = balance m"
  by (simp_all add: balance_def)

lemma step_ok_changes [simp]:
  "k \<notin> gauge_names \<Longrightarrow> step_ok w m (count k n m') = step_ok w m m'"
  "k \<notin> gauge_names \<Longrightarrow> step_ok w m (gauge k v m') = step_ok w m m'"
  "step_ok w m (m'\<lparr>md_decoder := d\<rparr>) = step_ok w m m'"
  "step_ok w m (m'\<lparr>md_last_radio_rx := t\<rparr>) = step_ok w m m'"
  "step_ok w m (m'\<lparr>md_last_diagnostics := t\<rparr>) = step_ok w m m'"
  by (simp_all add: step_ok_def)

lemma step_ok_called: "step_ok w m m' \<Longrightarrow> step_ok w m (called m')"
  by (simp add: step_ok_def)

text \<open>What the invariant says about a sequence number that has a pending request.\<close>

lemma modem_inv_pending:
  assumes "modem_inv m" and "map_of (md_pending m) sqn = Some (mtype, t)"
  shows "md_serial m" and "md_pending m = [(sqn, mtype, t)]" and "sqn = md_sequence m"
    and "mtype = USB_HELLO \<longleftrightarrow> \<not> md_handshake_complete m"
    and "mtype \<in> {USB_HELLO, RADIO_SEND, GET_DIAGNOSTICS}"
    and "sqn \<notin> fst ` set (md_timed_out_radio m)"
proof -
  have ser: "md_serial m" using assms by (auto simp: modem_inv_def)
  have "md_pending m = [(sqn, mtype, t)] \<and> sqn = md_sequence m \<and>
      (mtype = USB_HELLO \<longleftrightarrow> \<not> md_handshake_complete m) \<and>
      mtype \<in> {USB_HELLO, RADIO_SEND, GET_DIAGNOSTICS} \<and> sqn \<notin> fst ` set (md_timed_out_radio m)"
  proof (cases "md_handshake_complete m")
    case True
    then have "md_pending m = [] \<or> md_sequence m \<notin> fst ` set (md_timed_out_radio m) \<and>
        (\<exists>t. md_pending m = [(md_sequence m, RADIO_SEND, t)] \<or>
             md_pending m = [(md_sequence m, GET_DIAGNOSTICS, t)])"
      using assms(1) unfolding modem_inv_def by blast
    with assms(2) True show ?thesis by (elim disjE exE conjE) (simp_all split: if_splits)
  next
    case False
    then obtain u where "md_pending m = [(md_sequence m, USB_HELLO, u)]" "md_timed_out_radio m = []"
      using assms(1) ser unfolding modem_inv_def by blast
    with assms(2) False show ?thesis by (auto split: if_splits)
  qed
  with ser show "md_serial m" and "md_pending m = [(sqn, mtype, t)]" and "sqn = md_sequence m"
    and "mtype = USB_HELLO \<longleftrightarrow> \<not> md_handshake_complete m"
    and "mtype \<in> {USB_HELLO, RADIO_SEND, GET_DIAGNOSTICS}"
    and "sqn \<notin> fst ` set (md_timed_out_radio m)" by auto
qed


subsection \<open>Every step keeps it\<close>

lemma restart_step_ok:
  assumes "env_ok w" and "modem_inv m" and "md_serial m" and "md_serial m1" "0 < md_session m1"
    and "fst (gauges m1) = 1" and "balance m1 = balance m" and "md_calls m \<le> md_calls m1"
  shows "\<exists>m'. restart_host_session w m1 = (m', Inr ()) \<and> step_ok w m m'"
proof (rule restart_step [OF assms(1,4-6)])
  fix m'
  assume "restart_host_session w m1 = (m', Inr ())" "modem_inv m'" "balance m' = balance m1"
    "md_calls m1 \<le> md_calls m'" "\<forall>p\<in>set (md_pending m'). \<exists>i\<ge>md_calls m1. snd (snd p) = env_clock w i"
    "sends (md_pending m') = []"
  moreover from this(6) have "old_sends m m'" by (rule old_sends_none)
  ultimately show ?thesis using assms(7,8) le_trans unfolding step_ok_def by metis
qed

lemma modem_inv_serial: "modem_inv m \<Longrightarrow> md_serial m \<Longrightarrow> fst (gauges m) = 1 \<and> 0 < md_session m"
  by (simp add: modem_inv_def)

lemma handle_info_step:
  assumes w: "env_ok w" and m: "modem_inv m" and p: "map_of (md_pending m) sqn = Some (USB_HELLO, t)"
  shows "\<exists>m'. (case handle_info payload m of
      (m, False) \<Rightarrow> restart_host_session w (count ''hello_invalid_info'' 1 m)
    | (m, True) \<Rightarrow> (m\<lparr>md_pending := AList.delete sqn (md_pending m)\<rparr>, Inr ())) = (m', Inr ()) \<and>
    step_ok w m m'"
proof (cases "parse_info payload")
  case (Inl e)
  then show ?thesis
    using modem_inv_pending(1) [OF m p] modem_inv_serial [OF m]
    by (simp add: handle_info_def) (intro restart_step_ok [OF w m], simp_all)
next
  case (Inr i)
  note pend = modem_inv_pending [OF m p]
  have t: "md_timed_out_radio m = []" using pend(4) m by (simp add: modem_inv_def)
  show ?thesis
    using m pend t
    by (auto simp: handle_info_def Inr Let_def step_ok_def balance_def modem_inv_def split: option.split)
qed

lemma handle_diagnostics_fold:
  "list_all (\<lambda>(k, v). k \<notin> gauge_names) kvs \<Longrightarrow>
     step_ok w m (fold (\<lambda>(name, v). gauge name (of_int v)) kvs m') = step_ok w m m'"
proof (induction kvs arbitrary: m')
  case (Cons kv kvs)
  obtain k v where kv: "kv = (k, v)" by (rule prod.exhaust)
  with Cons.prems have "k \<notin> gauge_names" by simp
  then have "step_ok w m (gauge k (of_int v) m') = step_ok w m m'" by (rule step_ok_changes(2))
  moreover have "step_ok w m (fold (\<lambda>(name, v). gauge name (of_int v)) kvs (gauge k (of_int v) m')) =
      step_ok w m (gauge k (of_int v) m')"
    using Cons.prems by (intro Cons.IH) simp
  ultimately show ?case by (simp add: kv)
qed simp

lemma diagnostics_names_other: "list_all (\<lambda>(k, v). k \<notin> gauge_names) (zip diagnostics_names vs)"
proof -
  have "\<forall>k\<in>set diagnostics_names. k \<notin> gauge_names" by (simp add: diagnostics_names_def)
  then show ?thesis by (auto simp: list_all_iff dest: set_zip_leftD)
qed

lemma handle_diagnostics_step: "step_ok w m m' \<Longrightarrow> step_ok w m (handle_diagnostics payload m')"
proof (cases "parse_diagnostics payload")
  case (Inr vs)
  assume "step_ok w m m'"
  then show ?thesis
    unfolding handle_diagnostics_def Inr sum.case handle_diagnostics_fold [OF diagnostics_names_other] .
qed (simp add: handle_diagnostics_def)

lemma pop_request:
  assumes "modem_inv m" and "map_of (md_pending m) sqn = Some (mtype, t)" and "mtype \<noteq> USB_HELLO"
  shows "modem_inv (m\<lparr>md_pending := AList.delete sqn (md_pending m)\<rparr>)"
    and "balance (m\<lparr>md_pending := AList.delete sqn (md_pending m)\<rparr>) =
           (if mtype = RADIO_SEND then butlast (balance m) else balance m)"
  using assms(1,3) modem_inv_pending [OF assms(1,2)]
  by (simp_all add: modem_inv_def balance_def)

lemma handle_tx_result_step: "modem_inv m \<Longrightarrow> step_ok w m (handle_tx_result f m)"
proof (cases "map_of (md_pending m) (uf_sequence f)")
  case None
  assume m: "modem_inv m"
  have "modem_inv (m\<lparr>md_timed_out_radio := AList.delete (uf_sequence f) (md_timed_out_radio m)\<rparr>)"
    using m length_delete_le [of "uf_sequence f" "md_timed_out_radio m"]
    by (auto simp: modem_inv_def distinct_keys_delete keys_delete)
  with m None show ?thesis by (simp add: handle_tx_result_def Let_def step_ok_def)
next
  case (Some p)
  assume m: "modem_inv m"
  obtain mtype t where p: "p = (mtype, t)" by (rule prod.exhaust)
  note pend = modem_inv_pending [OF m Some [unfolded p]]
  show ?thesis
  proof (cases "mtype = RADIO_SEND")
    case True
    then show ?thesis
      using m pend pop_request(1) [OF m Some [unfolded p]]
      by (simp add: handle_tx_result_def Let_def Some p step_ok_def balance_def split: sum.split)
  next
    case False
    with m show ?thesis by (simp add: handle_tx_result_def Let_def Some p step_ok_refl)
  qed
qed

lemma handle_radio_rx_step: "modem_inv m \<Longrightarrow> step_ok w m (handle_radio_rx w f m)"
  by (auto simp: handle_radio_rx_def Let_def step_ok_def modem_inv_def balance_def split: sum.split)


lemma handle_error_step:
  assumes w: "env_ok w" and m: "modem_inv m"
  shows "\<exists>m'. handle_error w sqn payload m = (m', Inr ()) \<and> step_ok w m m'"
proof (cases "map_of (md_pending m) sqn")
  case None
  have "modem_inv (m\<lparr>md_timed_out_radio := AList.delete sqn (md_timed_out_radio m)\<rparr>)"
    using m length_delete_le [of sqn "md_timed_out_radio m"]
    by (auto simp: modem_inv_def distinct_keys_delete keys_delete)
  with m None show ?thesis
    by (auto simp: handle_error_def Let_def step_ok_def split: sum.split)
next
  case (Some p)
  obtain request_type t where p: "p = (request_type, t)" by (rule prod.exhaust)
  note some = Some [unfolded p]
  note pend = modem_inv_pending [OF m some]
  show ?thesis
  proof (cases "\<exists>code d. parse_error payload = Inr (code, d, request_type)")
    case False
    then show ?thesis
      using m by (cases "parse_error payload") (auto simp: handle_error_def some step_ok_refl)
  next
    case True
    then obtain code d where e: "parse_error payload = Inr (code, d, request_type)" by blast
    define m1 where "m1 = count ''modem_errors'' 1 (m\<lparr>md_pending := AList.delete sqn (md_pending m)\<rparr>)"
    define m2 where "m2 = (if request_type = RADIO_SEND
        then m1\<lparr>md_tx_outcomes := md_tx_outcomes m1 @ [(sqn, Some False)]\<rparr> else m1)"
    have m2: "md_serial m2" "0 < md_session m2" "fst (gauges m2) = 1" "balance m2 = balance m"
        "md_calls m2 = md_calls m" "md_pending m2 = []"
      using pend modem_inv_serial [OF m] by (auto simp: m2_def m1_def balance_def)
    have eq: "handle_error w sqn payload m =
      (if request_type = USB_HELLO then restart_host_session w (count ''hello_errors'' 1 m2)
       else if code = ERROR_CODE_WRONG_SESSION \<and> request_type \<in> {GET_DIAGNOSTICS, RADIO_SEND}
       then restart_host_session w (count ''modem_wrong_session_recoveries'' 1 m2)
       else (m2, Inr ()))"
      unfolding handle_error_def some e Let_def option.case sum.case prod.case m1_def m2_def by simp
    have "step_ok w m m2" if "request_type \<noteq> USB_HELLO"
      using pop_request(1) [OF m some that] m2 by (auto simp: step_ok_def m2_def m1_def)
    moreover have "\<exists>m'. restart_host_session w (count k 1 m2) = (m', Inr ()) \<and> step_ok w m m'"
      if "k \<notin> gauge_names" for k
      using m2 that by (intro restart_step_ok [OF w m pend(1)]) simp_all
    ultimately show ?thesis unfolding eq by simp
  qed
qed

lemma dispatch_frame_step:
  assumes w: "env_ok w" and m: "modem_inv m"
  shows "\<exists>m'. dispatch_frame w f m = (m', Inr ()) \<and> step_ok w m m'"
proof -
  note ok = step_ok_refl [OF m]
  consider "uf_session f \<noteq> md_session m" | "uf_session f = md_session m" "uf_msg_type f = USB_INFO"
    | "uf_session f = md_session m" "uf_msg_type f = RADIO_TX_RESULT"
    | "uf_session f = md_session m" "uf_msg_type f = RADIO_RX"
    | "uf_session f = md_session m" "uf_msg_type f = DIAGNOSTICS"
    | "uf_session f = md_session m" "uf_msg_type f = USB_ERROR"
    | "uf_session f = md_session m" "uf_msg_type f \<notin> {USB_INFO, RADIO_TX_RESULT, RADIO_RX, DIAGNOSTICS, USB_ERROR}"
    by blast
  then show ?thesis
  proof cases
    case 1
    then show ?thesis using ok by (simp add: dispatch_frame_def Let_def)
  next
    case 2
    show ?thesis
    proof (cases "\<exists>t. map_of (md_pending m) (uf_sequence f) = Some (USB_HELLO, t)")
      case True
      then obtain t where t: "map_of (md_pending m) (uf_sequence f) = Some (USB_HELLO, t)" by blast
      show ?thesis
        using handle_info_step [OF w m t, of "uf_payload f"] by (simp add: dispatch_frame_def Let_def 2 t)
    next
      case False
      then show ?thesis using ok by (auto simp: dispatch_frame_def Let_def 2 split: option.split)
    qed
  next
    case 3
    then show ?thesis using handle_tx_result_step [OF m, of w f]
      by (simp add: dispatch_frame_def Let_def)
  next
    case 4
    then show ?thesis using handle_radio_rx_step [OF m] by (simp add: dispatch_frame_def Let_def)
  next
    case 5
    show ?thesis
    proof (cases "\<exists>t. map_of (md_pending m) (uf_sequence f) = Some (GET_DIAGNOSTICS, t)")
      case True
      then obtain t where t: "map_of (md_pending m) (uf_sequence f) = Some (GET_DIAGNOSTICS, t)" by blast
      have "step_ok w m (m\<lparr>md_pending := AList.delete (uf_sequence f) (md_pending m)\<rparr>)"
        using pop_request [OF m t] modem_inv_pending [OF m t] by (simp add: step_ok_def)
      then show ?thesis
        using handle_diagnostics_step by (simp add: dispatch_frame_def Let_def 5 t)
    next
      case False
      then show ?thesis using ok by (auto simp: dispatch_frame_def Let_def 5 split: option.split)
    qed
  next
    case 6
    then show ?thesis using handle_error_step [OF w m] by (simp add: dispatch_frame_def Let_def)
  next
    case 7
    then show ?thesis using ok by (simp add: dispatch_frame_def Let_def)
  qed
qed

lemma handle_frame_step:
  assumes "env_ok w" and "modem_inv m"
  shows "\<exists>m'. handle_frame w f m = (m', Inr ()) \<and> step_ok w m m'"
proof -
  let ?m = "count ''host_usb_frames_received'' 1 m"
  have "modem_inv ?m" "step_ok w m ?m" using assms(2) by (simp_all add: step_ok_refl)
  then show ?thesis
    using dispatch_frame_step [OF assms(1), of ?m f] step_ok_trans unfolding handle_frame_def by blast
qed

lemma handle_frames_step:
  assumes "env_ok w"
  shows "modem_inv m \<Longrightarrow> \<exists>m'. handle_frames w fs m = (m', Inr ()) \<and> step_ok w m m'"
proof (induction fs arbitrary: m)
  case (Cons f fs)
  obtain m1 where m1: "handle_frame w f m = (m1, Inr ())" "step_ok w m m1"
    using handle_frame_step [OF assms Cons.prems] by blast
  then have "modem_inv m1" by (simp add: step_ok_def)
  from Cons.IH [OF this] m1 show ?case by (auto intro: step_ok_trans)
qed (simp add: step_ok_refl)


text \<open>Tombstones.\<close>

lemma evict_tombstones_eq:
  "evict_tombstones m =
     (evict_tombstones m)\<lparr>md_timed_out_radio := trim_oldest 32 (md_timed_out_radio m)\<rparr> \<and>
   md_timed_out_radio (evict_tombstones m) = trim_oldest 32 (md_timed_out_radio m) \<and>
   md_serial (evict_tombstones m) = md_serial m \<and> md_session (evict_tombstones m) = md_session m \<and>
   md_sequence (evict_tombstones m) = md_sequence m \<and>
   md_handshake_complete (evict_tombstones m) = md_handshake_complete m \<and>
   md_radio_ready (evict_tombstones m) = md_radio_ready m \<and>
   md_pending (evict_tombstones m) = md_pending m \<and>
   md_tx_outcomes (evict_tombstones m) = md_tx_outcomes m \<and>
   md_received (evict_tombstones m) = md_received m \<and>
   gauges (evict_tombstones m) = gauges m \<and> md_calls (evict_tombstones m) = md_calls m"
proof (induction m rule: evict_tombstones.induct)
  case (1 m)
  show ?case
  proof (cases "length (md_timed_out_radio m) > 32")
    case True
    from 1 [OF True] True show ?thesis
      by (simp add: evict_tombstones.simps [of m] trim_oldest.simps [of 32 "md_timed_out_radio m"])
  next
    case False
    then show ?thesis
      by (simp add: evict_tombstones.simps [of m] trim_oldest.simps [of 32 "md_timed_out_radio m"])
  qed
qed

lemma expire_timed_out_step: "modem_inv m \<Longrightarrow> step_ok w m (expire_timed_out_radio now m)"
proof (induction now m rule: expire_timed_out_radio.induct)
  case (1 now m)
  show ?case
  proof (cases "md_timed_out_radio m")
    case Nil
    with 1 show ?thesis by (simp add: expire_timed_out_radio.simps [of now m] step_ok_refl)
  next
    case (Cons x rest)
    obtain sqn started where x: "x = (sqn, started)" by (rule prod.exhaust)
    let ?m = "count ''radio_tx_timeout_tombstones_expired'' 1 (m\<lparr>md_timed_out_radio := rest\<rparr>)"
    have inv: "modem_inv ?m" and ok: "step_ok w m ?m"
      using 1(2) by (auto simp: modem_inv_def Cons x step_ok_def)
    show ?thesis
    proof (cases "now - started \<le> 30")
      case True
      with 1(2) show ?thesis by (simp add: expire_timed_out_radio.simps [of now m] Cons x step_ok_refl)
    next
      case False
      from 1(1) [OF Cons x [symmetric] False inv] False show ?thesis
        using step_ok_trans [OF ok] by (simp add: expire_timed_out_radio.simps [of now m] Cons x)
    qed
  qed
qed

lemma modem_inv_idle:
  assumes "modem_inv m" and "md_handshake_complete m"
    and "md_serial m' = md_serial m" "md_session m' = md_session m" "md_sequence m' = md_sequence m"
    and "md_handshake_complete m' = md_handshake_complete m" "md_radio_ready m' = md_radio_ready m"
    and "gauges m' = gauges m" "md_pending m' = []" "distinct_keys (md_timed_out_radio m')"
    and "length (md_timed_out_radio m') \<le> 32"
    and "\<And>k. k \<in> fst ` set (md_timed_out_radio m') \<Longrightarrow> k \<le> md_sequence m"
  shows "modem_inv m'"
  using assms unfolding modem_inv_def by simp

text \<open>The pending request, if there is one, after the timeouts at time \<open>now\<close>.\<close>

lemma expire_pending_step:
  assumes w: "env_ok w" and m: "modem_inv m" and now: "now = env_clock w c" "c \<le> md_calls m"
  shows "\<exists>m'. expire_pending w now (md_pending m) m = (m', Inr ()) \<and> step_ok w m m' \<and>
    (\<forall>p\<in>set (md_pending m'). now - snd (snd p) \<le> 3 \<or> (\<exists>i\<ge>c. snd (snd p) = env_clock w i))"
proof (cases "md_pending m")
  case Nil
  then show ?thesis using m by (simp add: step_ok_refl)
next
  case (Cons p ps)
  obtain sqn mtype t where p: "p = (sqn, mtype, t)" by (metis prod.exhaust)
  have some: "map_of (md_pending m) sqn = Some (mtype, t)" by (simp add: Cons p)
  note pend = modem_inv_pending [OF m some]
  then have ps: "ps = []" by (simp add: Cons p)
  let ?m = "m\<lparr>md_pending := AList.delete sqn (md_pending m)\<rparr>"
  have pop: "md_pending ?m = []" using pend by simp
  show ?thesis
  proof (cases "now - t > 3")
    case False
    then show ?thesis using m by (simp add: Cons p ps step_ok_refl)
  next
    case late: True
    consider "mtype = RADIO_SEND" | "mtype = USB_HELLO" | "mtype = GET_DIAGNOSTICS" using pend(5) by auto
    then show ?thesis
    proof cases
      case 1
      have hs: "md_handshake_complete m" using pend(4) 1 by simp
      define r where "r = remember_timed_out_radio sqn now ?m"
      define f where "f = count ''usb_response_timeouts'' 1 (count ''radio_send_timeouts'' 1
          (r\<lparr>md_tx_outcomes := md_tx_outcomes r @ [(sqn, None)]\<rparr>))"
      define ts where "ts = trim_oldest 32 (AList.update sqn now (md_timed_out_radio m))"
      have r: "md_timed_out_radio r = ts" "md_pending r = []" "md_serial r = md_serial m"
        "md_session r = md_session m" "md_sequence r = md_sequence m"
        "md_handshake_complete r = md_handshake_complete m" "md_radio_ready r = md_radio_ready m"
        "md_tx_outcomes r = md_tx_outcomes m" "gauges r = gauges m" "md_calls r = md_calls m"
        using evict_tombstones_eq [of "?m\<lparr>md_timed_out_radio := AList.update sqn now (md_timed_out_radio m)\<rparr>"] pop
        by (simp_all add: remember_timed_out_radio_def r_def ts_def)
      have old: "\<forall>k\<in>fst ` set (md_timed_out_radio m). k \<le> md_sequence m"
        using m unfolding modem_inv_def by blast
      have sub: "fst ` set ts \<subseteq> insert sqn (fst ` set (md_timed_out_radio m))"
        using keys_trim_subset [of 32 "AList.update sqn now (md_timed_out_radio m)"]
        unfolding ts_def keys_update .
      have keys: "k \<le> md_sequence m" if "k \<in> fst ` set ts" for k
        using subsetD [OF sub that]
      proof (rule insertE)
        assume "k = sqn"
        with pend(3) show ?thesis by simp
      next
        assume "k \<in> fst ` set (md_timed_out_radio m)"
        with old show ?thesis by (rule bspec)
      qed
      have dk: "distinct_keys ts"
        unfolding ts_def using m by (intro distinct_keys_trim distinct_keys_update) (simp add: modem_inv_def)
      have len: "length ts \<le> 32" by (simp add: ts_def)
      have f: "md_timed_out_radio f = ts" "md_pending f = []" "md_serial f = md_serial m"
        "md_session f = md_session m" "md_sequence f = md_sequence m"
        "md_handshake_complete f = md_handshake_complete m" "md_radio_ready f = md_radio_ready m"
        "md_tx_outcomes f = md_tx_outcomes m @ [(sqn, None)]" "gauges f = gauges m" "md_calls f = md_calls m"
        by (simp_all add: f_def r)
      have "modem_inv f"
        by (rule modem_inv_idle [OF m hs f(3-7,9,2)]) (use dk len keys f(1) in simp_all)
      moreover have "balance f = balance m" using 1 pend(2) f by (simp add: balance_def)
      ultimately have "step_ok w m f" using f by (simp add: step_ok_def)
      moreover have "expire_pending w now (md_pending m) m = (f, Inr ())"
        using late 1 by (simp add: Cons p ps Let_def f_def r_def)
      ultimately show ?thesis using f by simp
    next
      case 2
      have "fst (gauges (count ''hello_timeouts'' 1 ?m)) = 1" "0 < md_session (count ''hello_timeouts'' 1 ?m)"
        "md_serial (count ''hello_timeouts'' 1 ?m)"
        using modem_inv_serial [OF m pend(1)] pend(1) by simp_all
      from restart_step [OF w this(3,2,1)] obtain m' where
        m': "restart_host_session w (count ''hello_timeouts'' 1 ?m) = (m', Inr ())" "modem_inv m'"
          "balance m' = balance (count ''hello_timeouts'' 1 ?m)" "md_calls m \<le> md_calls m'"
          "\<forall>p\<in>set (md_pending m'). \<exists>i\<ge>md_calls m. snd (snd p) = env_clock w i"
          "sends (md_pending m') = []"
        by auto
      have "balance m' = balance m" using m'(3) pend(2) 2 by (simp add: balance_def)
      then have "step_ok w m m'" using m' by (auto simp: step_ok_def old_sends_none)
      moreover have "expire_pending w now (md_pending m) m = (m', Inr ())"
        using late 2 m'(1) pend(2) by (simp add: Let_def)
      moreover have "\<exists>i\<ge>c. snd (snd p) = env_clock w i" if "p \<in> set (md_pending m')" for p
        using that m'(5) now(2) le_trans by blast
      ultimately show ?thesis by blast
    next
      case 3
      let ?f = "count ''usb_response_timeouts'' 1 ?m"
      have "step_ok w m ?f" using pop_request [OF m some] 3 pop by (simp add: step_ok_def)
      moreover have "expire_pending w now (md_pending m) m = (?f, Inr ())"
        using late 3 by (simp add: Cons p ps Let_def)
      ultimately show ?thesis using pop by simp
    qed
  qed
qed


lemma modem_inv_online:
  assumes "modem_inv m" and "md_handshake_complete m"
  shows "md_serial m"
  using assms by (auto simp: modem_inv_def)

lemma request_step:
  assumes m: "modem_inv m" and ready: "md_handshake_complete m" "md_pending m = []"
    and s: "md_sequence m \<noteq> MAX_SEQUENCE" and t: "mtype \<in> {RADIO_SEND, GET_DIAGNOSTICS}" and l: "length pl \<le> 256"
  shows "(\<exists>m'. modem_request w mtype pl m = (m', Inr (md_sequence m + 1)) \<and> modem_inv m' \<and>
            balance m' = balance m @ (if mtype = RADIO_SEND then [md_sequence m + 1] else []) \<and> md_calls m \<le> md_calls m' \<and>
            (\<exists>t. md_pending m' = [(md_sequence m + 1, mtype, t)]) \<and> md_session m' = md_session m \<and>
            (\<forall>p\<in>set (md_pending m'). \<exists>i\<ge>md_calls m. snd (snd p) = env_clock w i)) \<or>
         (\<exists>m'. modem_request w mtype pl m = (m', Inl OsError) \<and> step_ok w m m')"
proof -
  have pre: "md_serial m" "0 < md_session m" "md_session m \<le> MAX_SEQUENCE" "0 \<le> md_sequence m"
    "md_sequence m < MAX_SEQUENCE" "0 \<le> mtype" "mtype \<le> 255"
    using modem_inv_online [OF m ready(1)] m s t by (auto simp: modem_inv_def)
  show ?thesis
  proof (cases rule: modem_request_cases [OF pre(1) ready(2) pre(2-7) l, of w])
    case (1 m')
    from 1(2) obtain i where i: "md_pending m' = [(md_sequence m + 1, mtype, env_clock w i)]" "md_calls m \<le> i"
      by (auto simp: requested_def)
    have old: "\<forall>k\<in>fst ` set (md_timed_out_radio m). k \<le> md_sequence m"
      using m unfolding modem_inv_def by blast
    then have "md_sequence m + 1 \<notin> fst ` set (md_timed_out_radio m)" by fastforce
    moreover have "\<forall>k\<in>fst ` set (md_timed_out_radio m). k \<le> md_sequence m + 1" using old by fastforce
    ultimately have "modem_inv m'"
      using 1(2) m ready pre i unfolding modem_inv_def requested_def by (simp, use t in auto)
    moreover have "balance m' = balance m @ (if mtype = RADIO_SEND then [md_sequence m + 1] else [])"
      using 1(2) ready(2) i by (simp add: balance_def requested_def)
    ultimately show ?thesis using 1 i by (auto simp: requested_def)
  next
    case (2 m')
    have "modem_inv m'" using 2(2) pre by (simp add: dropped_next_def dropped_def modem_inv_def)
    moreover have "balance m' = balance m"
      using 2(2) ready(2) by (simp add: dropped_next_def dropped_def balance_def)
    ultimately have "step_ok w m m'" using 2(2) by (simp add: step_ok_def dropped_next_def dropped_def)
    with 2(1) show ?thesis by blast
  qed
qed

lemma rotate_step:
  assumes w: "env_ok w" and m: "modem_inv m" and h: "md_handshake_complete m" "md_pending m = []"
  shows "\<exists>m'. rotate_before_sequence_wrap w m = (m', Inr (md_sequence m = MAX_SEQUENCE)) \<and>
    step_ok w m m' \<and> (md_sequence m \<noteq> MAX_SEQUENCE \<longrightarrow> m' = m) \<and>
    (\<forall>p\<in>set (md_pending m'). \<exists>i\<ge>md_calls m. snd (snd p) = env_clock w i)"
proof (cases "md_sequence m = MAX_SEQUENCE")
  case False
  with m h show ?thesis by (simp add: rotate_before_sequence_wrap_def step_ok_refl)
next
  case True
  let ?m = "count ''usb_session_rotations_sequence_wrap'' 1 m"
  have ser: "md_serial m" using modem_inv_online [OF m h(1)] .
  have g: "fst (gauges ?m) = 1" "0 < md_session ?m" "md_serial ?m"
    using modem_inv_serial [OF m ser] ser by simp_all
  from restart_step [OF w this(3,2,1)] obtain m' where
    m': "restart_host_session w ?m = (m', Inr ())" "modem_inv m'"
      "balance m' = balance m" "md_calls m \<le> md_calls m'"
      "\<forall>p\<in>set (md_pending m'). \<exists>i\<ge>md_calls m. snd (snd p) = env_clock w i" "sends (md_pending m') = []"
    by auto
  then have "step_ok w m m'" by (auto simp: step_ok_def old_sends_none)
  with m' True show ?thesis by (simp add: rotate_before_sequence_wrap_def)
qed

lemma poll_diagnostics_step:
  assumes w: "env_ok w" and m: "modem_inv m"
  shows "\<exists>m'. poll_diagnostics w idle now m = (m', Inr ()) \<and> step_ok w m m'"
proof (cases "md_handshake_complete m \<and> md_pending m = [] \<and> idle \<and> now - md_last_radio_rx m \<ge> 1 \<and>
    now - md_last_diagnostics m \<ge> 1")
  case True
  then have h: "md_handshake_complete m" "md_pending m = []" by auto
  obtain m1 where m1: "rotate_before_sequence_wrap w m = (m1, Inr (md_sequence m = MAX_SEQUENCE))"
      "step_ok w m m1" "md_sequence m \<noteq> MAX_SEQUENCE \<Longrightarrow> m1 = m"
    using rotate_step [OF w m h] by blast
  show ?thesis
  proof (cases "md_sequence m = MAX_SEQUENCE")
    case wrap: True
    with m1 True show ?thesis by (simp add: poll_diagnostics_def)
  next
    case False
    let ?m = "m\<lparr>md_last_diagnostics := now\<rparr>"
    have eq: "poll_diagnostics w idle now m = (case modem_request w GET_DIAGNOSTICS [] ?m of
        (m, Inl OsError) \<Rightarrow> (m, Inr ()) | (m, Inl e) \<Rightarrow> (m, Inl e) | (m, Inr _) \<Rightarrow> (m, Inr ()))"
      using m1 True False by (simp add: poll_diagnostics_def)
    have pre: "modem_inv ?m" "md_handshake_complete ?m" "md_pending ?m = []" "md_sequence ?m \<noteq> MAX_SEQUENCE"
      using m h False by simp_all
    from request_step [OF pre, of GET_DIAGNOSTICS "[]" w] h False eq show ?thesis
      by (auto simp: step_ok_def old_sends_none)
  qed
qed (use m in \<open>auto simp: poll_diagnostics_def step_ok_refl\<close>)


lemma disconnect_inv:
  "0 < md_session m \<Longrightarrow> md_session m \<le> MAX_SEQUENCE \<Longrightarrow> 0 \<le> md_sequence m \<Longrightarrow>
   md_sequence m \<le> MAX_SEQUENCE \<Longrightarrow> modem_inv (disconnect w m)"
  using disconnect_dropped [of m w] by (simp add: modem_inv_def dropped_def)

lemma open_failed_step:
  assumes "dropped_next m0 m \<or> alike m0 m \<or> dropped m0 m" and "md_pending m0 = []"
    and "0 < md_session m0" "md_session m0 \<le> MAX_SEQUENCE" "md_sequence m0 = 0"
    and "md_calls m1 \<le> md_calls m0" "md_tx_outcomes m0 = md_tx_outcomes m1" "md_pending m1 = []"
  shows "\<exists>m'. open_failed w m = (m', Inr ()) \<and> step_ok w m1 m'"
proof -
  let ?m = "count ''usb_connect_failures'' 1 m"
  have f: "md_session ?m = md_session m0" "0 \<le> md_sequence ?m" "md_sequence ?m \<le> MAX_SEQUENCE"
    "md_pending ?m = []" "md_tx_outcomes ?m = md_tx_outcomes m1" "md_calls m1 \<le> md_calls ?m"
    using assms by (auto simp: dropped_next_def dropped_def alike_def lost_sends_def)
  have "modem_inv (disconnect w ?m)" using f assms by (intro disconnect_inv) simp_all
  then show ?thesis
    using f disconnect_dropped [of ?m w] assms(8)
    by (simp add: open_failed_def step_ok_def dropped_def balance_def lost_sends_def)
qed

lemma modem_open_step:
  assumes w: "env_ok w" and m: "modem_inv m"
  shows "\<exists>m'. modem_open w m = (m', Inr ()) \<and> step_ok w m m'"
proof (cases "md_serial m \<or> env_clock w (md_calls m) < md_next_attempt m")
  case True
  then show ?thesis using m by (auto simp: modem_open_def step_ok_refl step_ok_called)
next
  case closed: False
  then have p: "md_pending m = []" using m by (auto simp: modem_inv_def)
  show ?thesis
  proof (cases "env_open w (md_calls (called m))")
    case False
    let ?m = "count ''usb_connect_failures'' 1 (called (called m))"
    have "step_ok w m ?m" using m by (simp add: step_ok_called step_ok_refl)
    moreover have "step_ok w ?m (disconnect w ?m)" using m by (intro disconnect_step) simp
    ultimately have "step_ok w m (disconnect w ?m)" by (rule step_ok_trans)
    with closed False show ?thesis by (simp add: modem_open_def open_failed_def Let_def)
  next
    case True
    define m1 where "m1 = begin_fresh_session w ((called (called m))
        \<lparr>md_serial := True, md_decoder := new_stream_decoder, md_pending := []\<rparr>)"
    define m2 where "m2 = gauge ''modem_handshake_complete'' 0 (gauge ''modem_connected'' 1
        (count ''usb_reconnects'' 1 m1))"
    have eq: "modem_open w m = open_or_fail w (case modem_write w [0] m2 of
        (m, Inl e) \<Rightarrow> (m, Inl e) | (m, Inr _) \<Rightarrow> send_hello w m)"
      using closed True by (simp add: modem_open_def m2_def m1_def Let_def)
    have v: "0 < md_session m2" "md_session m2 \<le> MAX_SEQUENCE"
      using begin_fresh_session_valid [OF w, of "(called (called m))
        \<lparr>md_serial := True, md_decoder := new_stream_decoder, md_pending := []\<rparr>"] m
      by (simp_all add: m2_def m1_def modem_inv_def)
    have f: "md_serial m2" "md_pending m2 = []" "md_sequence m2 = 0" "md_tx_outcomes m2 = md_tx_outcomes m"
      "md_calls m \<le> md_calls m2" "\<not> md_handshake_complete m2" "\<not> md_radio_ready m2"
      "md_timed_out_radio m2 = []" "gauges m2 = (1, 0, 0)"
      by (simp_all add: m2_def m1_def)
    show ?thesis
    proof (cases rule: modem_write_cases [OF f(1), of w "[0]"])
      case (2 m3)
      then show ?thesis
        using open_failed_step [of m2 m3 m w] v f p by (simp add: eq open_or_fail_def)
    next
      case (1 m3)
      then have g: "md_serial m3" "md_pending m3 = []" "0 < md_session m3" "md_session m3 \<le> MAX_SEQUENCE"
        "md_sequence m3 = 0" "md_tx_outcomes m3 = md_tx_outcomes m" "md_calls m \<le> md_calls m3"
        "\<not> md_handshake_complete m3" "\<not> md_radio_ready m3" "md_timed_out_radio m3 = []" "gauges m3 = (1, 0, 0)"
        using f v by (simp_all add: alike_def)
      show ?thesis
      proof (cases rule: send_hello_cases [OF g(1-5), of w])
        case (2 m4)
        then show ?thesis
          using open_failed_step [of m3 m4 m w] g p 1 by (simp add: eq open_or_fail_def)
      next
        case (1 m4)
        then obtain i where i: "md_pending m4 = [(1, USB_HELLO, env_clock w i)]" "md_calls m3 \<le> i"
          using g(5) by (auto simp: requested_def)
        have "modem_inv m4" using 1(2) g i by (simp add: requested_def modem_inv_def)
        moreover have "balance m4 = balance m" using 1(2) g i p by (simp add: requested_def balance_def)
        moreover have "\<exists>j\<ge>md_calls m. env_clock w i = env_clock w j" using i(2) g(7) le_trans by blast
        moreover have "md_calls m \<le> md_calls m4" using 1(2) g(7) by (simp add: requested_def)
        ultimately have "step_ok w m m4" using i by (simp add: step_ok_def old_sends_none)
        moreover have "modem_open w m = (m4, Inr ())"
          using 1(1) \<open>modem_write w [0] m2 = (m3, Inr ())\<close> by (simp add: eq open_or_fail_def)
        ultimately show ?thesis by blast
      qed
    qed
  qed
qed


lemma modem_inv_gauges:
  "modem_inv m \<Longrightarrow> modem_inv (gauge ''modem_connected'' (of_flag (md_serial m)) m)"
  "modem_inv m \<Longrightarrow> modem_inv (gauge ''modem_handshake_complete'' (of_flag (md_handshake_complete m)) m)"
  "modem_inv (m\<lparr>md_received := rs\<rparr>) = modem_inv m"
  by (simp_all add: modem_inv_def)

text \<open>No pending request was started more than three seconds before time \<open>t\<close>.\<close>

definition none_overdue :: "env \<Rightarrow> nat \<Rightarrow> modem \<Rightarrow> bool" where
  "none_overdue w c m \<longleftrightarrow>
     (\<forall>p\<in>set (md_pending m). \<exists>i\<ge>c. env_clock w i - snd (snd p) \<le> 3 \<or> snd (snd p) = env_clock w i)"

lemma tick_connected_step:
  assumes w: "env_ok w" and m: "modem_inv m"
  shows "\<exists>m' rs. tick_connected w idle raw m = (m', Inr rs) \<and> step_ok w m m' \<and> none_overdue w (md_calls m) m'"
proof -
  define m1 where "m1 = (if raw \<noteq> [] then count ''host_usb_bytes_received'' (real (length raw)) m else m)"
  obtain d fs where d: "feed (md_decoder m1) raw = (d, fs)" by (rule prod.exhaust)
  let ?m1 = "m1\<lparr>md_decoder := d\<rparr>"
  have "modem_inv ?m1" "step_ok w m ?m1" using m by (simp_all add: m1_def step_ok_refl)
  then obtain m2 where m2: "handle_frames w fs ?m1 = (m2, Inr ())" "step_ok w m m2"
    using handle_frames_step [OF w] step_ok_trans by blast
  define now where "now = env_clock w (md_calls m2)"
  define m3 where "m3 = expire_timed_out_radio now (called m2)"
  have "step_ok w m (called m2)" using m2(2) by (rule step_ok_called)
  moreover have "step_ok w (called m2) m3"
    unfolding m3_def using m2(2) by (intro expire_timed_out_step) (simp add: step_ok_def)
  ultimately have m3: "step_ok w m m3" by (rule step_ok_trans)
  have c: "md_calls m2 \<le> md_calls m3" "md_calls m \<le> md_calls m2"
    using \<open>step_ok w (called m2) m3\<close> m2(2) by (auto simp: step_ok_def)
  have inv3: "modem_inv m3" using m3 by (simp add: step_ok_def)
  obtain m4 where m4: "expire_pending w now (md_pending m3) m3 = (m4, Inr ())" "step_ok w m3 m4"
      "\<forall>p\<in>set (md_pending m4). now - snd (snd p) \<le> 3 \<or> (\<exists>i\<ge>md_calls m2. snd (snd p) = env_clock w i)"
    using expire_pending_step [OF w inv3 now_def c(1)] by blast
  have inv4: "modem_inv m4" using m4 by (simp add: step_ok_def)
  obtain m5 where m5: "poll_diagnostics w idle now m4 = (m5, Inr ())" "step_ok w m4 m5"
    using poll_diagnostics_step [OF w inv4] by blast
  let ?m6 = "gauge ''modem_ready_for_send'' (of_flag (ready_for_send m5))
      (gauge ''modem_handshake_complete'' (of_flag (md_handshake_complete m5))
        (gauge ''modem_connected'' (of_flag (md_serial m5)) m5))"
  have "modem_inv m5" using m5 by (simp add: step_ok_def)
  then have "modem_inv (?m6\<lparr>md_received := []\<rparr>)"
    using modem_inv_gauges(1) modem_inv_gauges(2) [of "gauge ''modem_connected'' (of_flag (md_serial m5)) m5"]
    by (simp add: modem_inv_gauges(3))
  moreover have m5ok: "step_ok w m m5" using m3 m4(2) m5(2) step_ok_trans by blast
  ultimately have ok: "step_ok w m (?m6\<lparr>md_received := []\<rparr>)" by (simp add: step_ok_def)
  have "none_overdue w (md_calls m) m5"
    unfolding none_overdue_def
  proof
    fix p
    assume p: "p \<in> set (md_pending m5)"
    show "\<exists>i\<ge>md_calls m. env_clock w i - snd (snd p) \<le> 3 \<or> snd (snd p) = env_clock w i"
    proof (cases "p \<in> set (md_pending m4)")
      case True
      with m4(3) c(2) show ?thesis unfolding now_def using le_trans by blast
    next
      case False
      with p m5(2) have "\<exists>i\<ge>md_calls m4. snd (snd p) = env_clock w i" by (auto simp: step_ok_def)
      moreover have "md_calls m \<le> md_calls m4" using c m4(2) by (simp add: step_ok_def)
      ultimately show ?thesis using le_trans by blast
    qed
  qed
  then have "none_overdue w (md_calls m) (?m6\<lparr>md_received := []\<rparr>)" by (simp add: none_overdue_def)
  moreover have "tick_connected w idle raw m = (?m6\<lparr>md_received := []\<rparr>, Inr (md_received ?m6))"
    unfolding tick_connected_def m1_def [symmetric] Let_def d prod.case m2(1) sum.case
      now_def [symmetric] m3_def [symmetric] m4(1) m5(1) by simp
  ultimately show ?thesis using ok by blast
qed

lemma modem_tick_step:
  assumes w: "env_ok w" and m: "modem_inv m"
  shows "\<exists>m' rs. modem_tick w idle m = (m', Inr rs) \<and> step_ok w m m' \<and> none_overdue w (md_calls m) m'"
proof -
  obtain m1 where m1: "modem_open w m = (m1, Inr ())" "step_ok w m m1"
    using modem_open_step [OF w m] by blast
  then have inv: "modem_inv m1" by (simp add: step_ok_def)
  show ?thesis
  proof (cases "md_serial m1")
    case False
    then have "md_pending m1 = []" using inv by (simp add: modem_inv_def)
    with False m1 show ?thesis by (simp add: modem_tick_def none_overdue_def)
  next
    case ser: True
    show ?thesis
    proof (cases "env_read w (md_calls m1)")
      case None
      let ?m = "count ''usb_read_failures'' 1 (called m1)"
      have "step_ok w m ?m" using m1(2) by (simp add: step_ok_called)
      moreover have "step_ok w ?m (disconnect w ?m)" using inv by (intro disconnect_step) simp
      ultimately have "step_ok w m (disconnect w ?m)" by (rule step_ok_trans)
      moreover have "md_pending (disconnect w ?m) = []"
        using disconnect_dropped [of ?m w] by (simp add: dropped_def)
      ultimately show ?thesis using m1 ser None by (simp add: modem_tick_def none_overdue_def)
    next
      case (Some raw)
      obtain m2 rs where m2: "tick_connected w idle raw (called m1) = (m2, Inr rs)"
          "step_ok w (called m1) m2" "none_overdue w (md_calls (called m1)) m2"
        using tick_connected_step [OF w, of "called m1" idle raw] inv unfolding modem_inv_changes by blast
      have "step_ok w m (called m1)" using m1(2) by (rule step_ok_called)
      then have ok: "step_ok w m m2" using m2(2) by (rule step_ok_trans)
      have "md_calls m \<le> md_calls (called m1)" using m1(2) by (simp add: step_ok_def)
      then have "none_overdue w (md_calls m) m2" using m2(3) le_trans unfolding none_overdue_def by meson
      with ok m2(1) m1 ser Some show ?thesis by (simp add: modem_tick_def)
    qed
  qed
qed

text \<open>What the port takes: a request that was accepted has gone out whole, and nothing else with it.\<close>

lemma written_simps [simp]:
  "md_written (count k x m) = md_written m" "md_written (gauge k x m) = md_written m"
  "md_written (called m) = md_written m" "md_written (next_sequence m) = md_written m"
  by (simp_all add: count_def gauge_def called_def next_sequence_def)

lemma write_loop_written:
  "snd (write_loop w raw m) \<Longrightarrow> md_written (fst (write_loop w raw m)) = md_written m @ raw"
proof (induction w raw m rule: write_loop.induct)
  case (1 w raw m)
  show ?case
  proof (cases "raw = []")
    case True
    then show ?thesis by (simp add: write_loop.simps [of w "[]" m])
  next
    case False
    with 1(2) obtain n where n: "env_write w (md_calls m) = Some n" "n \<noteq> 0"
      by (auto simp: write_loop.simps [of w raw m] split: option.splits if_splits)
    with 1 False show ?thesis by (simp add: write_loop.simps [of w raw m])
  qed
qed

lemma modem_write_written:
  "modem_write w raw m = (m', Inr u) \<Longrightarrow> md_written m' = md_written m @ raw"
  using write_loop_written [of w raw m]
  by (auto simp: modem_write_def split: if_splits prod.splits bool.splits)

lemma modem_request_written:
  assumes "modem_request w mtype payload m = (m', Inr sqn)"
  shows "\<exists>raw. encode_frame mtype (md_session m) sqn payload = Inr raw \<and> md_written m' = md_written m @ raw"
  using assms modem_write_written
  by (auto simp: modem_request_def Let_def next_sequence_def count_def called_def
      split: if_splits sum.splits prod.splits)

lemma send_air_written:
  assumes "send_air w payload m = (m', Inr (Some sqn))"
  shows "\<exists>raw. encode_frame RADIO_SEND (md_session m) sqn payload = Inr raw \<and> md_written m' = md_written m @ raw"
proof -
  have "rotate_before_sequence_wrap w m = (m, Inr False)"
    using assms
    by (auto simp: send_air_def rotate_before_sequence_wrap_def split: if_splits prod.splits sum.splits)
  then obtain m1 where "modem_request w RADIO_SEND payload
      (count ''lora_bytes_queued'' (real (length payload)) (count ''application_frames_generated'' 1 m)) = (m1, Inr sqn)"
    and "m' = m1"
    using assms by (auto simp: send_air_def split: if_splits prod.splits sum.splits py_exc.splits)
  from modem_request_written [OF this(1)] this(2) show ?thesis by (simp add: count_def)
qed

lemma send_air_step:
  assumes w: "env_ok w" and m: "modem_inv m" and l: "length payload \<le> 256"
  shows "\<exists>m' r. send_air w payload m = (m', Inr r) \<and> modem_inv m' \<and>
     balance m' = balance m @ (case r of None \<Rightarrow> [] | Some sqn \<Rightarrow> [sqn]) \<and> md_calls m \<le> md_calls m' \<and>
     (\<forall>sqn. r = Some sqn \<longrightarrow> sends (md_pending m') = [sqn] \<and> md_session m' = md_session m)"
proof (cases "ready_for_send m")
  case False
  with m show ?thesis by (simp add: send_air_def)
next
  case True
  then have h: "md_handshake_complete m" "md_pending m = []" by (auto simp: ready_for_send_def)
  obtain m1 where m1: "rotate_before_sequence_wrap w m = (m1, Inr (md_sequence m = MAX_SEQUENCE))"
      "step_ok w m m1" "md_sequence m \<noteq> MAX_SEQUENCE \<Longrightarrow> m1 = m"
    using rotate_step [OF w m h] by blast
  show ?thesis
  proof (cases "md_sequence m = MAX_SEQUENCE")
    case wrap: True
    with m1 True show ?thesis by (simp add: send_air_def step_ok_def)
  next
    case False
    let ?m = "count ''lora_bytes_queued'' (real (length payload)) (count ''application_frames_generated'' 1 m)"
    have eq: "send_air w payload m = (case modem_request w RADIO_SEND payload ?m of
        (m, Inr sqn) \<Rightarrow> (m, Inr (Some sqn))
      | (m, Inl OsError) \<Rightarrow> (count ''radio_send_usb_write_failures'' 1 m, Inr None)
      | (m, Inl e) \<Rightarrow> (m, Inl e))"
      using m1 True False by (simp add: send_air_def)
    have pre: "modem_inv ?m" "md_handshake_complete ?m" "md_pending ?m = []" "md_sequence ?m \<noteq> MAX_SEQUENCE"
      using m h False by simp_all
    have ty: "RADIO_SEND \<in> {RADIO_SEND, GET_DIAGNOSTICS}" by simp
    from request_step [OF pre ty l, of w] show ?thesis
    proof (elim disjE exE conjE)
      fix m' t assume "modem_request w RADIO_SEND payload ?m = (m', Inr (md_sequence ?m + 1))" "modem_inv m'"
        "balance m' = balance ?m @ (if RADIO_SEND = RADIO_SEND then [md_sequence ?m + 1] else [])" "md_calls ?m \<le> md_calls m'"
        "md_pending m' = [(md_sequence ?m + 1, RADIO_SEND, t)]" "md_session m' = md_session ?m"
      moreover from this(5) have "sends (md_pending m') = [md_sequence m + 1]" by simp
      ultimately show ?thesis
        by (intro exI [of _ m'] exI [of _ "Some (md_sequence m + 1)"]) (simp add: eq)
    next
      fix m' assume "modem_request w RADIO_SEND payload ?m = (m', Inl OsError)" "step_ok w ?m m'"
      then show ?thesis
        by (intro exI [of _ "count ''radio_send_usb_write_failures'' 1 m'"] exI [of _ None])
          (simp add: eq step_ok_def)
    qed
  qed
qed

text \<open>A payload no USB frame can carry raises, without harm to the state.\<close>

lemma send_air_too_long:
  assumes m: "modem_inv m" and l: "256 < length payload" and w: "env_ok w"
  shows "modem_inv (fst (send_air w payload m)) \<and> balance (fst (send_air w payload m)) = balance m \<and>
    (\<forall>sqn. snd (send_air w payload m) \<noteq> Inr (Some sqn))"
proof (cases "ready_for_send m \<and> md_sequence m \<noteq> MAX_SEQUENCE")
  case True
  then have h: "md_handshake_complete m" "md_pending m = []" by (auto simp: ready_for_send_def)
  have old: "\<forall>k\<in>fst ` set (md_timed_out_radio m). k \<le> md_sequence m"
    using m unfolding modem_inv_def by blast
  let ?m = "count ''usb_send_requests'' 1 (next_sequence (count ''lora_bytes_queued''
      (real (length payload)) (count ''application_frames_generated'' 1 m)))"
  have "\<exists>e. encode_frame RADIO_SEND (md_session m) (md_sequence m + 1) payload = Inl (ProtocolError e)"
    using l by (simp add: encode_frame_def)
  then obtain e where
    "encode_frame RADIO_SEND (md_session m) (md_sequence m + 1) payload = Inl (ProtocolError e)" by blast
  then have "send_air w payload m = (?m, Inl (ProtocolError e))"
    using True by (simp add: send_air_def rotate_before_sequence_wrap_def modem_request_def Let_def
        next_sequence_def)
  moreover have "\<forall>k\<in>fst ` set (md_timed_out_radio m). k \<le> md_sequence m + 1" using old by fastforce
  then have "modem_inv ?m"
    using m h True by (simp add: modem_inv_def next_sequence_def)
  ultimately show ?thesis by (auto simp: next_sequence_def balance_def)
next
  case False
  show ?thesis
  proof (cases "ready_for_send m")
    case True
    then have h: "md_handshake_complete m" "md_pending m = []" by (auto simp: ready_for_send_def)
    obtain m1 where "rotate_before_sequence_wrap w m = (m1, Inr (md_sequence m = MAX_SEQUENCE))"
        "step_ok w m m1" using rotate_step [OF w m h] by blast
    with True False show ?thesis by (simp add: send_air_def step_ok_def)
  qed (use m in \<open>simp add: send_air_def\<close>)
qed


subsection \<open>The transport as a machine\<close>

datatype modem_event = TickModem bool | SendAir bytes | TakeOutcomes | CloseModem

fun modem_step :: "env \<Rightarrow> modem \<Rightarrow> modem_event \<Rightarrow> modem" where
  "modem_step w m (TickModem idle) = fst (modem_tick w idle m)"
| "modem_step w m (SendAir payload) = fst (send_air w payload m)"
| "modem_step w m TakeOutcomes = fst (take_tx_outcomes m)"
| "modem_step w m CloseModem = modem_close w m"

text \<open>The sends a run accepted, and those whose outcomes it handed out, in order.\<close>

fun accepted_sends :: "env \<Rightarrow> modem \<Rightarrow> modem_event list \<Rightarrow> int list" where
  "accepted_sends w m [] = []"
| "accepted_sends w m (e # es) =
     (case e of
        SendAir payload \<Rightarrow> (case snd (send_air w payload m) of Inr (Some sqn) \<Rightarrow> [sqn] | _ \<Rightarrow> [])
      | _ \<Rightarrow> []) @ accepted_sends w (modem_step w m e) es"

fun outcomes_taken :: "env \<Rightarrow> modem \<Rightarrow> modem_event list \<Rightarrow> int list" where
  "outcomes_taken w m [] = []"
| "outcomes_taken w m (e # es) =
     (case e of TakeOutcomes \<Rightarrow> map fst (snd (take_tx_outcomes m)) | _ \<Rightarrow> []) @
     outcomes_taken w (modem_step w m e) es"

lemma modem_close_step: "modem_inv m \<Longrightarrow> modem_inv (modem_close w m) \<and> balance (modem_close w m) = balance m"
proof -
  assume m: "modem_inv m"
  have d: "step_ok w m (disconnect w m)" using m by (rule disconnect_step)
  have "\<not> md_serial (disconnect w m)" using disconnect_dropped [of m w] by (simp add: dropped_def)
  with d modem_inv_gauges(1) [of "disconnect w m"] show ?thesis by (simp add: modem_close_def step_ok_def)
qed

lemma modem_step_inv: "env_ok w \<and> modem_inv m \<Longrightarrow> modem_inv (modem_step w m e)"
proof (cases e)
  case (TickModem idle)
  assume "env_ok w \<and> modem_inv m"
  with modem_tick_step [of w m idle] TickModem show ?thesis by (auto simp: step_ok_def)
next
  case (SendAir payload)
  assume "env_ok w \<and> modem_inv m"
  with send_air_step [of w m payload] send_air_too_long [of m payload w] SendAir show ?thesis
    by (cases "length payload \<le> 256") auto
qed (auto simp: take_tx_outcomes_def modem_close_step)

interpretation modem: machine "modem_step w" "\<lambda>m. env_ok w \<and> modem_inv m"
  using modem_step_inv by unfold_locales blast

lemma new_modem_inv: "env_ok w \<Longrightarrow> modem_inv (new_modem w reconnect_seconds)"
  by (simp add: modem_inv_def new_modem_def env_ok_def gauges_def gauge_def called_def)

lemma modem_balance:
  "env_ok w \<Longrightarrow> modem_inv m \<Longrightarrow>
     balance m @ accepted_sends w m es = outcomes_taken w m es @ balance (run (modem_step w) m es)"
proof (induction es arbitrary: m)
  case (Cons e es)
  let ?m = "modem_step w m e"
  have "modem_inv ?m" using Cons.prems modem_step_inv by blast
  note IH = Cons.IH [OF Cons.prems(1) this]
  show ?case
  proof (cases e)
    case (TickModem idle)
    with modem_tick_step [OF Cons.prems, of idle] have "balance ?m = balance m" by (auto simp: step_ok_def)
    with IH TickModem show ?thesis by simp
  next
    case (SendAir payload)
    have "balance ?m = balance m @ (case snd (send_air w payload m) of Inr (Some sqn) \<Rightarrow> [sqn] | _ \<Rightarrow> [])"
      using send_air_step [OF Cons.prems, of payload] send_air_too_long [OF Cons.prems(2) _ Cons.prems(1)] SendAir
      by (cases "length payload \<le> 256") (auto split: sum.split option.split)
    with IH SendAir show ?thesis by simp
  next
    case TakeOutcomes
    then have "balance m = map fst (snd (take_tx_outcomes m)) @ balance ?m"
      by (simp add: take_tx_outcomes_def balance_def)
    with IH TakeOutcomes show ?thesis by simp
  next
    case CloseModem
    with modem_close_step [OF Cons.prems(2), of w] have "balance ?m = balance m" by simp
    with IH CloseModem show ?thesis by simp
  qed
qed simp


subsection \<open>Properties\<close>

lemma modem_run_inv: "env_ok w \<Longrightarrow> modem_inv (run (modem_step w) (new_modem w rs) es)"
  using modem.run_inv [of w "new_modem w rs" es] new_modem_inv [of w rs] by blast

text \<open>
  Property C9. Whatever the port, the clock and the firmware do, after any sequence of ticks, sends,
  collections of outcomes and closes: at most one request is pending and at most 32 tombstones are
  kept; a connection without a completed handshake has exactly its HELLO pending, so it always moves
  on; a radio that is ready was greeted; and the next tick does not raise.
\<close>

theorem modem_safe:
  assumes "env_ok w"
  shows "let m = run (modem_step w) (new_modem w rs) es
    in length (md_pending m) \<le> 1 \<and> length (md_timed_out_radio m) \<le> MAX_LATE_RADIO_RESULTS \<and>
       (md_serial m \<and> \<not> md_handshake_complete m \<longrightarrow>
          (\<exists>t. md_pending m = [(md_sequence m, USB_HELLO, t)])) \<and>
       (md_radio_ready m \<longrightarrow> md_handshake_complete m) \<and> (md_handshake_complete m \<longrightarrow> md_serial m) \<and>
       is_ok (snd (modem_tick w idle m))"
proof -
  let ?m = "run (modem_step w) (new_modem w rs) es"
  have m: "modem_inv ?m" using modem_run_inv [OF assms] .
  obtain m' fs where t: "modem_tick w idle ?m = (m', Inr fs)"
    using modem_tick_step [OF assms m, of idle] by blast
  have "length (md_pending ?m) \<le> 1"
  proof (cases "md_handshake_complete ?m")
    case True
    with m show ?thesis unfolding modem_inv_def by auto
  next
    case False
    with m show ?thesis unfolding modem_inv_def by (cases "md_serial ?m") auto
  qed
  then show ?thesis using m t unfolding modem_inv_def Let_def by auto
qed

text \<open>
  Property C4. No send is lost, reported twice or reported out of order: in every run, the sequence
  numbers of the accepted sends are those of the outcomes collected, then of the outcomes waiting,
  then of the sends still pending, across timeouts, errors, disconnects, session restarts and late
  answers.
\<close>

theorem modem_outcomes_conserved:
  assumes "env_ok w"
  shows "accepted_sends w (new_modem w rs) es =
     outcomes_taken w (new_modem w rs) es @ map fst (md_tx_outcomes (run (modem_step w) (new_modem w rs) es)) @
     sends (md_pending (run (modem_step w) (new_modem w rs) es))"
proof -
  have "balance (new_modem w rs) = []"
    by (simp add: balance_def new_modem_def)
  with modem_balance [OF assms new_modem_inv [OF assms], of rs es] show ?thesis by (simp add: balance_def)
qed

text \<open>
  Property C34. With a clock that does not go back, no request survives a tick that began more than
  three seconds after it was sent: the tick answers, drops or replaces it.
\<close>

theorem modem_requests_time_out:
  assumes "env_ok w" and "\<And>i j. i \<le> j \<Longrightarrow> env_clock w i \<le> env_clock w j" and "modem_inv m"
    and "(sqn, mtype, started) \<in> set (md_pending (fst (modem_tick w idle m)))"
  shows "env_clock w (md_calls m) - started \<le> 3"
proof -
  have "none_overdue w (md_calls m) (fst (modem_tick w idle m))"
    using modem_tick_step [OF assms(1,3), of idle] by auto
  then obtain i where "md_calls m \<le> i" "env_clock w i - started \<le> 3 \<or> started = env_clock w i"
    using assms(4) unfolding none_overdue_def by fastforce
  moreover from this(1) have "env_clock w (md_calls m) \<le> env_clock w i" by (rule assms(2))
  ultimately show ?thesis by auto
qed

text \<open>
  Property C35. The health check tells the truth about the modem: after any run, a request for
  \<open>/healthz\<close> of a robot is answered 200 exactly when the port is open, the handshake complete and the
  radio ready, and 503 otherwise.
\<close>

theorem modem_health_truthful:
  assumes "env_ok w"
  shows "status_of (do_get show_value (md_metrics (run (modem_step w) (new_modem w rs) es)) (Some ''robot'') ''/healthz'') =
     (if md_serial (run (modem_step w) (new_modem w rs) es) \<and>
         md_handshake_complete (run (modem_step w) (new_modem w rs) es) \<and>
         md_radio_ready (run (modem_step w) (new_modem w rs) es) then 200 else 503)"
proof -
  let ?m = "run (modem_step w) (new_modem w rs) es"
  have "gauges ?m = (of_flag (md_serial ?m), of_flag (md_handshake_complete ?m), of_flag (md_radio_ready ?m))"
    using modem_run_inv [OF assms, of rs es] unfolding modem_inv_def by blast
  then show ?thesis unfolding healthz_status by (auto simp: health_for_role_iff gauges_def of_flag_def split: if_splits)
qed

text \<open>
  A late answer is observability only: an answer or an error for a request that had timed
  out leaves the pending request, the outcomes and the handshake as they are, and its tombstone is
  used up unless the error cannot be decoded.
\<close>

theorem modem_late_answers_harmless:
  assumes "modem_inv m" and "uf_session f = md_session m" and "uf_sequence f \<in> fst ` set (md_timed_out_radio m)"
    and "uf_msg_type f \<in> {RADIO_TX_RESULT, USB_ERROR}"
  shows "\<exists>m'. handle_frame w f m = (m', Inr ()) \<and> md_pending m' = md_pending m \<and>
     md_tx_outcomes m' = md_tx_outcomes m \<and> md_handshake_complete m' = md_handshake_complete m \<and>
     (uf_msg_type f = RADIO_TX_RESULT \<or> length (uf_payload f) = 5 \<longrightarrow>
        md_timed_out_radio m' = AList.delete (uf_sequence f) (md_timed_out_radio m))"
proof -
  have t: "\<exists>u. map_of (md_timed_out_radio m) (uf_sequence f) = Some u"
    using assms(3) by (simp add: lookup_some_iff)
  have "map_of (md_pending m) (uf_sequence f) = None"
  proof (rule ccontr)
    assume "map_of (md_pending m) (uf_sequence f) \<noteq> None"
    then obtain mtype u where "map_of (md_pending m) (uf_sequence f) = Some (mtype, u)" by auto
    from modem_inv_pending(6) [OF assms(1) this] assms(3) show False by simp
  qed
  moreover have "\<exists>c d e. parse_error (uf_payload f) = Inr (c, d, e)" if "length (uf_payload f) = 5"
    using that by (simp add: parse_error_def struct_unpack_def)
  ultimately show ?thesis
    using t assms(2,4) by (auto simp: handle_frame_def dispatch_frame_def handle_tx_result_def handle_error_def
        Let_def split: sum.split)
qed


subsection \<open>Witnesses\<close>

text \<open>A quiet world: the clock stands at 2, the port opens, takes every byte and delivers none.\<close>

definition sample_env :: env where
  "sample_env = \<lparr>env_clock = \<lambda>i. 2, env_random = \<lambda>i. 5, env_open = \<lambda>i. True, env_read = \<lambda>i. Some [],
     env_write = \<lambda>i. Some 1000\<rparr>"

lemma sample_env_ok: "env_ok sample_env"
  by (simp add: env_ok_def sample_env_def)

lemma modem_safe_witness:
  "is_ok (snd (modem_tick sample_env True
     (run (modem_step sample_env) (new_modem sample_env 1) [TickModem True, SendAir [1], CloseModem])))"
  using modem_safe [OF sample_env_ok, of 1 "[TickModem True, SendAir [1], CloseModem]" True]
  unfolding Let_def by blast

lemma modem_outcomes_conserved_witness:
  "let es = [TickModem True, SendAir [1], TakeOutcomes, CloseModem];
       m = run (modem_step sample_env) (new_modem sample_env 1) es
   in accepted_sends sample_env (new_modem sample_env 1) es =
      outcomes_taken sample_env (new_modem sample_env 1) es @ map fst (md_tx_outcomes m) @ sends (md_pending m)"
  unfolding Let_def by (rule modem_outcomes_conserved [OF sample_env_ok])

definition sample_greeting :: modem where
  "sample_greeting = gauge ''modem_connected'' 1 ((new_modem sample_env 1)
     \<lparr>md_serial := True, md_sequence := 1, md_pending := [(1, USB_HELLO, 0)]\<rparr>)"

lemma sample_greeting_inv: "modem_inv sample_greeting"
  by (simp add: sample_greeting_def modem_inv_def new_modem_def gauges_def gauge_def called_def sample_env_def)

lemma modem_requests_time_out_witness:
  "(1, USB_HELLO, 0) \<in> set (md_pending (fst (modem_tick sample_env True sample_greeting))) \<and>
   env_clock sample_env (md_calls sample_greeting) - 0 \<le> 3"
proof -
  have "(1, USB_HELLO, 0) \<in> set (md_pending (fst (modem_tick sample_env True sample_greeting)))"
    by (simp add: modem_tick_def modem_open_def tick_connected_def sample_greeting_def new_modem_def Let_def
        sample_env_def gauge_def called_def expire_timed_out_radio.simps poll_diagnostics_def)
  moreover from modem_requests_time_out [OF sample_env_ok _ sample_greeting_inv this]
  have "env_clock sample_env (md_calls sample_greeting) - 0 \<le> 3" by (simp add: sample_env_def)
  ultimately show ?thesis by blast
qed

lemma modem_health_truthful_witness:
  "status_of (do_get (\<lambda>_. []) (md_metrics (run (modem_step sample_env) (new_modem sample_env 1) [CloseModem]))
     (Some ''robot'') ''/healthz'') = 503"
proof -
  have "\<not> md_serial (run (modem_step sample_env) (new_modem sample_env 1) [CloseModem])"
    by (simp add: modem_close_def disconnect_def Let_def)
  with modem_health_truthful [OF sample_env_ok, of "\<lambda>_. []" 1 "[CloseModem]"] show ?thesis by presburger
qed

definition sample_late :: modem where
  "sample_late = gauge ''modem_handshake_complete'' 1 (gauge ''modem_connected'' 1 ((new_modem sample_env 1)
     \<lparr>md_serial := True, md_handshake_complete := True, md_sequence := 2, md_pending := [(2, RADIO_SEND, 1)],
      md_timed_out_radio := [(1, 0)]\<rparr>))"

lemma modem_late_answers_harmless_witness:
  "\<exists>m'. handle_frame sample_env \<lparr>uf_msg_type = RADIO_TX_RESULT, uf_session = 5, uf_sequence = 1,
       uf_payload = []\<rparr> sample_late = (m', Inr ()) \<and>
     md_pending m' = [(2, RADIO_SEND, 1)] \<and> md_tx_outcomes m' = []"
proof -
  have "modem_inv sample_late"
    by (simp add: sample_late_def modem_inv_def new_modem_def gauges_def gauge_def called_def sample_env_def)
  from modem_late_answers_harmless [OF this, of "\<lparr>uf_msg_type = RADIO_TX_RESULT, uf_session = 5,
      uf_sequence = 1, uf_payload = []\<rparr>" sample_env]
  show ?thesis by (auto simp: sample_late_def new_modem_def sample_env_def gauge_def called_def)
qed

end
