(* ===== verification/Base_Service.thy ===== *)
theory Base_Service
  imports Rtcm_Parser Modem
begin

text \<open>
  The base station's service loop, \<open>BaseService\<close> of \<open>host/mowgli_lora/service.py\<close>: corrections are
  parsed into a bounded queue, fragmented one message at a time and given to the modem one fragment
  at a time, as long as they are fresh. The metrics registry is the one of the modem transport, as
  \<open>_run_base\<close> sets it up. The configuration is only stored, and left out.
\<close>

abbreviation (input) MAX_QUEUED_RTCM_FRAMES :: nat where "MAX_QUEUED_RTCM_FRAMES \<equiv> 128"

record base_service =
  bs_modem :: modem
  bs_parser :: rtcm_parser
  bs_queue :: "rtcm_frame list"
  bs_fragments :: "(app_frame \<times> time) list"
  bs_input_rate :: "(time \<times> nat \<times> nat) list"
  bs_lora_rate :: "(time \<times> nat) list"
  bs_in_flight :: "int option"
  bs_session :: int
  bs_message_id :: int

subsection \<open>The code\<close>

text \<open>\<open>str(n)\<close> of a number, for the counters by message type.\<close>

fun decimal :: "nat \<Rightarrow> string" where
  "decimal n = (if n < 10 then [char_of (48 + n)] else decimal (n div 10) @ [char_of (48 + n mod 10)])"

definition py_str :: "int \<Rightarrow> string" where
  "py_str i = (if i < 0 then ''-'' @ decimal (nat (- i)) else decimal (nat i))"

definition new_base_service :: "modem \<Rightarrow> base_service" where
  "new_base_service m = \<lparr>bs_modem = m, bs_parser = new_rtcm_parser, bs_queue = [], bs_fragments = [],
     bs_input_rate = [], bs_lora_rate = [], bs_in_flight = None, bs_session = md_session m,
     bs_message_id = 0\<rparr>"

definition bs_add :: "string \<Rightarrow> real \<Rightarrow> base_service \<Rightarrow> base_service" where
  "bs_add name n b = b\<lparr>bs_modem := count name n (bs_modem b)\<rparr>"

definition bs_set :: "string \<Rightarrow> real \<Rightarrow> base_service \<Rightarrow> base_service" where
  "bs_set name v b = b\<lparr>bs_modem := gauge name v (bs_modem b)\<rparr>"

definition base_idle :: "base_service \<Rightarrow> bool" where
  "base_idle b \<longleftrightarrow> bs_queue b = [] \<and> bs_fragments b = [] \<and> bs_in_flight b = None"

text \<open>The two loops of \<open>_update_rates\<close>: entries of one second or more leave the front.\<close>

definition recent :: "time \<Rightarrow> (time \<times> 'a) list \<Rightarrow> (time \<times> 'a) list" where
  "recent now rate = dropWhile (\<lambda>item. now - fst item \<ge> 1) rate"

definition update_rates :: "time \<Rightarrow> base_service \<Rightarrow> base_service" where
  "update_rates now b0 =
     (let b = b0\<lparr>bs_input_rate := recent now (bs_input_rate b0),
                 bs_lora_rate := recent now (bs_lora_rate b0)\<rparr>
      in bs_set ''lora_application_bytes_per_second'' (real (\<Sum>item\<leftarrow>bs_lora_rate b. snd item))
           (bs_set ''rtcm_input_frames_per_second'' (real (\<Sum>item\<leftarrow>bs_input_rate b. snd (snd item)))
             (bs_set ''rtcm_input_bytes_per_second'' (real (\<Sum>item\<leftarrow>bs_input_rate b. fst (snd item))) b)))"

definition source_times :: "base_service \<Rightarrow> time list" where
  "source_times b =
     (case bs_queue b of [] \<Rightarrow> [] | frame # _ \<Rightarrow> [rf_received_at frame]) @
     (case bs_fragments b of [] \<Rightarrow> [] | (_, t) # _ \<Rightarrow> [t])"

definition update_queue_metrics :: "time \<Rightarrow> base_service \<Rightarrow> base_service" where
  "update_queue_metrics now b =
     bs_set ''rtcm_oldest_queued_age_ms''
       (if source_times b \<noteq> [] then of_int (py_int (1000 * (now - Min (set (source_times b))))) else 0)
       (bs_set ''rtcm_fragment_in_flight'' (of_flag (bs_in_flight b \<noteq> None))
         (bs_set ''rtcm_fragment_queue_depth'' (real (length (bs_fragments b)))
           (bs_set ''rtcm_queue_depth'' (real (length (bs_queue b))) b)))"

text \<open>The loop of \<open>ingest\<close> over the new frames.\<close>

fun enqueue :: "rtcm_frame list \<Rightarrow> base_service \<Rightarrow> base_service" where
  "enqueue [] b = b"
| "enqueue (frame # fs) b =
     (let b = b\<lparr>bs_queue := bs_queue b @ [frame]\<rparr>;
          b = (if length (bs_queue b) > MAX_QUEUED_RTCM_FRAMES
               then bs_add ''rtcm_frames_dropped_queue_full'' 1 (b\<lparr>bs_queue := tl (bs_queue b)\<rparr>) else b)
      in enqueue fs (bs_add (''rtcm_type_'' @ py_str (rf_message_type frame)) 1
           (bs_add ''rtcm_frames_ingested'' 1 b)))"

definition ingest :: "time \<Rightarrow> bytes \<Rightarrow> base_service \<Rightarrow> base_service \<times> nat" where
  "ingest now chunk b =
     (let (p, frames) = rtcm_feed now (bs_parser b) chunk;
          b = b\<lparr>bs_parser := p, bs_input_rate := bs_input_rate b @ [(now, length chunk, length frames)]\<rparr>;
          b = enqueue frames (bs_add ''rtcm_input_bytes'' (real (length chunk)) b);
          b = bs_set ''rtcm_crc_failures'' (real (rp_crc_failures p)) (update_queue_metrics now b)
      in (update_rates now b, length frames))"

definition reset_source :: "base_service \<Rightarrow> base_service" where
  "reset_source b0 =
     (let b = b0\<lparr>bs_parser := rtcm_reset (bs_parser b0)\<rparr>;
          b = (if bs_queue b \<noteq> []
               then (bs_add ''rtcm_frames_dropped_source_reset'' (real (length (bs_queue b))) b)\<lparr>bs_queue := []\<rparr>
               else b)
      in if bs_fragments b \<noteq> []
         then (bs_add ''rtcm_fragments_dropped_source_reset'' (real (length (bs_fragments b))) b)
                \<lparr>bs_fragments := []\<rparr>
         else b)"

text \<open>The loop of \<open>step\<close> over the outcomes the modem reports.\<close>

fun note_outcomes :: "(int \<times> bool option) list \<Rightarrow> base_service \<Rightarrow> base_service" where
  "note_outcomes [] b = b"
| "note_outcomes ((sqn, completed) # os) b =
     note_outcomes os
       (if bs_in_flight b \<noteq> Some sqn then bs_add ''radio_tx_unexpected_outcomes'' 1 b
        else let b = b\<lparr>bs_in_flight := None\<rparr> in
          case completed of
            Some True \<Rightarrow> bs_add ''rtcm_fragments_tx_completed'' 1 b
          | Some False \<Rightarrow> bs_add ''rtcm_fragments_tx_failed'' 1 (b\<lparr>bs_fragments := []\<rparr>)
          | None \<Rightarrow> bs_add ''rtcm_fragments_tx_uncertain'' 1 (b\<lparr>bs_fragments := []\<rparr>))"

definition note_session :: "base_service \<Rightarrow> base_service" where
  "note_session b =
     (if md_session (bs_modem b) \<noteq> bs_session b
      then bs_add ''app_sender_session_resets'' 1
             (b\<lparr>bs_session := md_session (bs_modem b), bs_message_id := 0, bs_fragments := [],
                bs_in_flight := None\<rparr>)
      else b)"

function drop_stale :: "time \<Rightarrow> base_service \<Rightarrow> base_service" where
  "drop_stale now b =
     (case bs_queue b of
        [] \<Rightarrow> b
      | frame # rest \<Rightarrow>
          (if now - rf_received_at frame > 8 / 10
           then drop_stale now (bs_add ''rtcm_frames_dropped_stale'' 1 (b\<lparr>bs_queue := rest\<rparr>))
           else b))"
  by pat_completeness auto
termination
  by (relation "measure (\<lambda>(now, b). length (bs_queue b))") (auto simp: bs_add_def)

declare drop_stale.simps [simp del]

definition load_next :: "base_service \<Rightarrow> base_service \<times> unit result" where
  "load_next b =
     (case bs_queue b of
        [] \<Rightarrow> (b, Inr ())
      | frame # rest \<Rightarrow>
          (if bs_fragments b \<noteq> [] then (b, Inr ())
           else (let b = b\<lparr>bs_queue := rest,
                           bs_message_id := if bs_message_id b = 0xFFFFFFFF then 1 else bs_message_id b + 1\<rparr>
                 in case fragment (rf_raw frame) (bs_session b) (bs_message_id b) 0 of
                      Inl (ApplicationError _) \<Rightarrow> (bs_add ''rtcm_fragment_failures'' 1 b, Inr ())
                    | Inl e \<Rightarrow> (b, Inl e)
                    | Inr fs \<Rightarrow>
                        (b\<lparr>bs_fragments := bs_fragments b @ map (\<lambda>f. (f, rf_received_at frame)) fs\<rparr>, Inr ()))))"

definition source_age :: "time \<Rightarrow> time \<Rightarrow> int" where
  "source_age now received_at = py_int ((now - received_at) * 1000)"

definition send_next :: "env \<Rightarrow> time \<Rightarrow> base_service \<Rightarrow> base_service \<times> unit result" where
  "send_next w now b =
     (case bs_fragments b of
        [] \<Rightarrow> (b, Inr ())
      | (f, received_at) # rest \<Rightarrow>
          (if bs_in_flight b \<noteq> None \<or> \<not> ready_for_send (bs_modem b) then (b, Inr ())
           else if source_age now received_at \<ge> RTCM_TRANSPORT_TTL_MS
           then (bs_add ''rtcm_fragments_dropped_stale'' 1 (b\<lparr>bs_fragments := []\<rparr>), Inr ())
           else (let b = b\<lparr>bs_fragments := rest\<rparr>
                 in case app_encode (f\<lparr>af_source_age_ms := source_age now received_at\<rparr>) of
                      Inl e \<Rightarrow> (b, Inl e)
                    | Inr encoded \<Rightarrow>
                        (case send_air w encoded (bs_modem b) of
                           (m, Inl e) \<Rightarrow> (b\<lparr>bs_modem := m\<rparr>, Inl e)
                         | (m, Inr None) \<Rightarrow>
                             (bs_add ''rtcm_fragments_dropped_disconnected'' 1
                                (b\<lparr>bs_modem := m, bs_fragments := (f, received_at) # rest\<rparr>), Inr ())
                         | (m, Inr (Some sqn)) \<Rightarrow>
                             (let b = bs_add ''lora_bytes_sent'' (real (length encoded))
                                        (bs_add ''rtcm_fragments_usb_accepted'' 1
                                          (b\<lparr>bs_modem := m, bs_in_flight := Some sqn\<rparr>))
                              in (b\<lparr>bs_lora_rate := bs_lora_rate b @ [(now, length encoded)]\<rparr>, Inr ()))))))"

text \<open>The step after \<open>transport.tick\<close>, and the step.\<close>

definition step_work :: "env \<Rightarrow> time \<Rightarrow> base_service \<Rightarrow> base_service \<times> unit result" where
  "step_work w now b =
     (let (m, os) = take_tx_outcomes (bs_modem b);
          b = drop_stale now (note_session (note_outcomes os (b\<lparr>bs_modem := m\<rparr>)))
      in if \<not> md_serial (bs_modem b) then (update_queue_metrics now b, Inr ())
         else case load_next b of
           (b, Inl e) \<Rightarrow> (b, Inl e)
         | (b, Inr _) \<Rightarrow>
             (case send_next w now b of
                (b, Inl e) \<Rightarrow> (b, Inl e)
              | (b, Inr _) \<Rightarrow> (update_queue_metrics now (update_rates now b), Inr ())))"

definition base_step :: "env \<Rightarrow> time \<Rightarrow> base_service \<Rightarrow> base_service \<times> unit result" where
  "base_step w now b =
     (case modem_tick w (base_idle b) (bs_modem b) of
        (m, Inl e) \<Rightarrow> (b\<lparr>bs_modem := m\<rparr>, Inl e)
      | (m, Inr _) \<Rightarrow> step_work w now (b\<lparr>bs_modem := m\<rparr>))"


subsection \<open>What the methods change\<close>

lemma bs_add_simps [simp]:
  "bs_modem (bs_add k n b) = count k n (bs_modem b)" "bs_parser (bs_add k n b) = bs_parser b"
  "bs_queue (bs_add k n b) = bs_queue b" "bs_fragments (bs_add k n b) = bs_fragments b"
  "bs_in_flight (bs_add k n b) = bs_in_flight b" "bs_session (bs_add k n b) = bs_session b"
  "bs_message_id (bs_add k n b) = bs_message_id b"
  by (simp_all add: bs_add_def)

lemma bs_set_simps [simp]:
  "bs_modem (bs_set k v b) = gauge k v (bs_modem b)" "bs_parser (bs_set k v b) = bs_parser b"
  "bs_queue (bs_set k v b) = bs_queue b" "bs_fragments (bs_set k v b) = bs_fragments b"
  "bs_in_flight (bs_set k v b) = bs_in_flight b" "bs_session (bs_set k v b) = bs_session b"
  "bs_message_id (bs_set k v b) = bs_message_id b"
  by (simp_all add: bs_set_def)

subsection \<open>The invariant\<close>

text \<open>
  The fragments waiting are the last ones of one message: a valid frame, fragmented under the
  current session and message number, received at one time.
\<close>

definition fragments_ok :: "time \<Rightarrow> base_service \<Rightarrow> bool" where
  "fragments_ok now b \<longleftrightarrow> bs_fragments b = [] \<or>
     0 < bs_message_id b \<and>
     (\<exists>raw fs t k. valid_rtcm3 raw \<and> fragment raw (bs_session b) (bs_message_id b) 0 = Inr fs \<and> t \<le> now \<and>
        bs_fragments b = map (\<lambda>f. (f, t)) (drop k fs))"

text \<open>The fragment in flight is the one send the modem has pending, in the service's session.\<close>

definition flight_ok :: "base_service \<Rightarrow> bool" where
  "flight_ok b \<longleftrightarrow>
     md_tx_outcomes (bs_modem b) = [] \<and>
     sends (md_pending (bs_modem b)) = (case bs_in_flight b of None \<Rightarrow> [] | Some sqn \<Rightarrow> [sqn]) \<and>
     (bs_in_flight b \<noteq> None \<longrightarrow> md_session (bs_modem b) = bs_session b)"

definition queue_ok :: "time \<Rightarrow> rtcm_frame list \<Rightarrow> bool" where
  "queue_ok now q \<longleftrightarrow> length q \<le> MAX_QUEUED_RTCM_FRAMES \<and> sorted (map rf_received_at q) \<and>
     list_all (\<lambda>f. valid_rtcm3 (rf_raw f) \<and> rf_received_at f \<le> now) q"

definition base_inv :: "time \<Rightarrow> base_service \<Rightarrow> bool" where
  "base_inv now b \<longleftrightarrow>
     modem_inv (bs_modem b) \<and> flight_ok b \<and> queue_ok now (bs_queue b) \<and> fragments_ok now b \<and>
     0 < bs_session b \<and> bs_session b \<le> MAX_SEQUENCE \<and> 0 \<le> bs_message_id b \<and> bs_message_id b \<le> 0xFFFFFFFF"

lemma fragments_ok_cong:
  "bs_fragments b' = bs_fragments b \<Longrightarrow> bs_session b' = bs_session b \<Longrightarrow> bs_message_id b' = bs_message_id b \<Longrightarrow>
     fragments_ok now b' = fragments_ok now b"
  by (simp add: fragments_ok_def)

lemma fragments_ok_Nil [simp]: "bs_fragments b = [] \<Longrightarrow> fragments_ok now b"
  by (simp add: fragments_ok_def)

lemma base_inv_changes [simp]:
  "k \<notin> gauge_names \<Longrightarrow> base_inv now (bs_add k n b) = base_inv now b"
  "k \<notin> gauge_names \<Longrightarrow> base_inv now (bs_set k v b) = base_inv now b"
  "base_inv now (b\<lparr>bs_input_rate := ir\<rparr>) = base_inv now b"
  "base_inv now (b\<lparr>bs_lora_rate := lr\<rparr>) = base_inv now b"
  "base_inv now (b\<lparr>bs_parser := p\<rparr>) = base_inv now b"
  by (simp_all add: base_inv_def flight_ok_def fragments_ok_def)

lemma update_rates_inv [simp]: "base_inv now (update_rates t b) = base_inv now b"
  by (simp add: update_rates_def Let_def)

lemma update_queue_metrics_inv [simp]: "base_inv now (update_queue_metrics t b) = base_inv now b"
  by (simp add: update_queue_metrics_def)

lemma queue_ok_later: "queue_ok t q \<Longrightarrow> t \<le> now \<Longrightarrow> queue_ok now q"
  by (auto simp: queue_ok_def list_all_iff)

lemma fragments_ok_later: "fragments_ok t b \<Longrightarrow> t \<le> now \<Longrightarrow> fragments_ok now b"
  unfolding fragments_ok_def by (meson order_trans)

lemma base_inv_later: "base_inv t b \<Longrightarrow> t \<le> now \<Longrightarrow> base_inv now b"
  using queue_ok_later fragments_ok_later unfolding base_inv_def by blast

lemma queue_ok_drop: "queue_ok now q \<Longrightarrow> queue_ok now (drop k q)"
  using sorted_wrt_drop [of "(\<le>)" "map rf_received_at q" k]
  by (auto simp: queue_ok_def list_all_iff drop_map dest: in_set_dropD)

lemma base_inv_queue: "base_inv now b \<Longrightarrow> queue_ok now q \<Longrightarrow> base_inv now (b\<lparr>bs_queue := q\<rparr>)"
  by (simp add: base_inv_def flight_ok_def fragments_ok_def)

lemma base_inv_no_fragments: "base_inv now b \<Longrightarrow> base_inv now (b\<lparr>bs_fragments := []\<rparr>)"
  by (simp add: base_inv_def flight_ok_def)

lemma base_inv_later_fragments:
  "base_inv now b \<Longrightarrow> bs_fragments b = x # rest \<Longrightarrow> base_inv now (b\<lparr>bs_fragments := rest\<rparr>)"
proof -
  assume b: "base_inv now b" and x: "bs_fragments b = x # rest"
  then have "fragments_ok now b" by (simp add: base_inv_def)
  then have "0 < bs_message_id b \<and> (\<exists>raw fs t k. valid_rtcm3 raw \<and>
      fragment raw (bs_session b) (bs_message_id b) 0 = Inr fs \<and> t \<le> now \<and>
      x # rest = map (\<lambda>f. (f, t)) (drop k fs))"
    unfolding fragments_ok_def x by blast
  then obtain raw fs t k where f: "valid_rtcm3 raw" "t \<le> now" "0 < bs_message_id b"
      "fragment raw (bs_session b) (bs_message_id b) 0 = Inr fs" "x # rest = map (\<lambda>f. (f, t)) (drop k fs)"
    by (elim conjE exE) (rule that)
  then have "rest = map (\<lambda>f. (f, t)) (drop (Suc k) fs)" by (metis drop_Suc list.sel(3) map_tl tl_drop)
  with f b have "fragments_ok now (b\<lparr>bs_fragments := rest\<rparr>)"
    unfolding fragments_ok_def by (simp (no_asm_use)) blast
  with b show ?thesis by (simp add: base_inv_def flight_ok_def)
qed

subsection \<open>Ingest and reset\<close>

lemma type_counter_other [simp]: "''rtcm_type_'' @ s \<notin> gauge_names"
  by simp

lemma enqueue_queue:
  "length (bs_queue b) \<le> MAX_QUEUED_RTCM_FRAMES \<Longrightarrow>
     bs_queue (enqueue fs b) = drop (length (bs_queue b @ fs) - MAX_QUEUED_RTCM_FRAMES) (bs_queue b @ fs)"
proof (induction fs arbitrary: b)
  case (Cons f fs)
  show ?case
  proof (cases "length (bs_queue b) < 128")
    case True
    with Cons.IH [of "bs_add (''rtcm_type_'' @ py_str (rf_message_type f)) 1
        (bs_add ''rtcm_frames_ingested'' 1 (b\<lparr>bs_queue := bs_queue b @ [f]\<rparr>))"]
    show ?thesis by (simp add: Let_def)
  next
    case False
    then have l: "length (bs_queue b) = 128" using Cons.prems by simp
    then obtain x q where q: "bs_queue b = x # q" by (cases "bs_queue b") auto
    with l Cons.IH [of "bs_add (''rtcm_type_'' @ py_str (rf_message_type f)) 1
        (bs_add ''rtcm_frames_ingested'' 1 (bs_add ''rtcm_frames_dropped_queue_full'' 1
          (b\<lparr>bs_queue := q @ [f]\<rparr>)))"]
    show ?thesis by (simp add: Let_def)
  qed
qed simp

lemma bs_add_queue [simp]: "(bs_add k n b)\<lparr>bs_queue := q\<rparr> = bs_add k n (b\<lparr>bs_queue := q\<rparr>)"
  by (simp add: bs_add_def)

lemma enqueue_inv: "base_inv now (b\<lparr>bs_queue := q\<rparr>) \<Longrightarrow> base_inv now ((enqueue fs b)\<lparr>bs_queue := q\<rparr>)"
  by (induction fs b rule: enqueue.induct) (simp_all add: Let_def)

lemma feed_queue_ok:
  assumes "queue_ok now q"
  shows "queue_ok now (drop (length (q @ snd (rtcm_feed now p chunk)) - 128) (q @ snd (rtcm_feed now p chunk)))"
proof -
  let ?fs = "snd (rtcm_feed now p chunk)"
  have fs: "valid_rtcm3 (rf_raw f) \<and> rf_received_at f = now" if "f \<in> set ?fs" for f
    using that scan_good_valid by (auto simp: rtcm_feed_scan as_frame_def)
  then have "sorted (map rf_received_at ?fs)"
    by (simp add: sorted_wrt_map) (metis (mono_tags, lifting) order_refl sorted_wrt_iff_nth_less nth_mem order_less_trans)
  then have "sorted (map rf_received_at (q @ ?fs))"
    using assms fs by (auto simp: sorted_append queue_ok_def list_all_iff)
  then have "sorted (map rf_received_at (drop (length (q @ ?fs) - 128) (q @ ?fs)))"
    using sorted_wrt_drop by (simp only: drop_map [symmetric])
  moreover have "list_all (\<lambda>f. valid_rtcm3 (rf_raw f) \<and> rf_received_at f \<le> now) (drop (length (q @ ?fs) - 128) (q @ ?fs))"
    using assms fs by (auto simp: list_all_iff queue_ok_def dest!: in_set_dropD)
  ultimately show ?thesis unfolding queue_ok_def by simp
qed

lemma ingest_queue:
  "length (bs_queue b) \<le> 128 \<Longrightarrow>
     bs_queue (fst (ingest now chunk b)) =
       (let q = bs_queue b @ snd (rtcm_feed now (bs_parser b) chunk) in drop (length q - 128) q)"
  by (simp add: ingest_def Let_def case_prod_unfold update_rates_def update_queue_metrics_def enqueue_queue)

lemma ingest_inv: "base_inv now b \<Longrightarrow> base_inv now (fst (ingest now chunk b))"
proof -
  assume b: "base_inv now b"
  let ?q = "bs_queue b @ snd (rtcm_feed now (bs_parser b) chunk)"
  have "queue_ok now (bs_queue b)" using b by (simp add: base_inv_def)
  then have q: "queue_ok now (drop (length ?q - 128) ?q)" "length (bs_queue b) \<le> 128"
    by (rule feed_queue_ok) (use \<open>queue_ok now (bs_queue b)\<close> in \<open>simp add: queue_ok_def\<close>)
  define c where "c = bs_add ''rtcm_input_bytes'' (real (length chunk))
    (b\<lparr>bs_parser := fst (rtcm_feed now (bs_parser b) chunk), bs_input_rate := bs_input_rate b @
      [(now, length chunk, length (snd (rtcm_feed now (bs_parser b) chunk)))]\<rparr>)"
  have "base_inv now c" using b by (simp add: c_def)
  then have "base_inv now (c\<lparr>bs_queue := drop (length ?q - 128) ?q\<rparr>)" using q(1) by (rule base_inv_queue)
  then have "base_inv now ((enqueue (snd (rtcm_feed now (bs_parser b) chunk)) c)\<lparr>bs_queue := drop (length ?q - 128) ?q\<rparr>)"
    by (rule enqueue_inv)
  moreover have "bs_queue (enqueue (snd (rtcm_feed now (bs_parser b) chunk)) c) = drop (length ?q - 128) ?q"
    using q(2) by (simp add: enqueue_queue c_def)
  ultimately have "base_inv now (enqueue (snd (rtcm_feed now (bs_parser b) chunk)) c)"
    by (metis base_service.surjective base_service.update_convs(3))
  then show ?thesis by (simp add: ingest_def Let_def case_prod_unfold c_def)
qed

lemma reset_source_eqs [simp]:
  "bs_queue (reset_source b) = []" "bs_fragments (reset_source b) = []"
  "rp_buffer (bs_parser (reset_source b)) = []" "bs_in_flight (reset_source b) = bs_in_flight b"
  "bs_session (reset_source b) = bs_session b" "bs_message_id (reset_source b) = bs_message_id b"
  by (simp_all add: reset_source_def Let_def rtcm_reset_def)

lemma reset_source_inv: "base_inv now b \<Longrightarrow> base_inv now (reset_source b)"
proof -
  assume b: "base_inv now b"
  have "queue_ok now []" by (simp add: queue_ok_def)
  with b show ?thesis
    by (simp add: reset_source_def Let_def base_inv_queue base_inv_no_fragments)
qed


subsection \<open>The step\<close>

lemma note_step:
  assumes b: "base_inv now b" and m: "step_ok w (bs_modem b) m"
  shows "base_inv now (note_session (note_outcomes (md_tx_outcomes m) (b\<lparr>bs_modem := m\<lparr>md_tx_outcomes := []\<rparr>\<rparr>)))"
proof -
  let ?m = "m\<lparr>md_tx_outcomes := []\<rparr>"
  have inv: "modem_inv ?m" "0 < md_session m" "md_session m \<le> MAX_SEQUENCE"
    using m by (auto simp: step_ok_def modem_inv_def)
  have sent: "map fst (md_tx_outcomes m) @ sends (md_pending m) = (case bs_in_flight b of None \<Rightarrow> [] | Some sqn \<Rightarrow> [sqn])"
    using b m by (simp add: step_ok_def balance_def base_inv_def flight_ok_def)
  have old: "md_session m = bs_session b" if "sends (md_pending m) \<noteq> []"
  proof -
    from that obtain p where "p \<in> set (md_pending m)" "fst (snd p) = RADIO_SEND"
      by (auto simp: sends_def filter_empty_conv)
    then have "p \<in> set (md_pending (bs_modem b))" "md_session m = md_session (bs_modem b)"
      using m unfolding step_ok_def old_sends_def by auto
    moreover from this(1) \<open>fst (snd p) = RADIO_SEND\<close> have "sends (md_pending (bs_modem b)) \<noteq> []"
      by (force simp: sends_def filter_empty_conv)
    then have "bs_in_flight b \<noteq> None" using b by (cases "bs_in_flight b") (auto simp: base_inv_def flight_ok_def)
    ultimately show ?thesis using b by (simp add: base_inv_def flight_ok_def)
  qed
  consider "bs_in_flight b = None" "md_tx_outcomes m = []" "sends (md_pending m) = []"
    | sqn r where "bs_in_flight b = Some sqn" "md_tx_outcomes m = [(sqn, r)]" "sends (md_pending m) = []"
    | sqn where "bs_in_flight b = Some sqn" "md_tx_outcomes m = []" "sends (md_pending m) = [sqn]"
    using sent by (cases "bs_in_flight b"; cases "md_tx_outcomes m") auto
  then show ?thesis
  proof cases
    case 1
    then show ?thesis using b inv
      by (simp add: note_session_def base_inv_def flight_ok_def fragments_ok_def)
  next
    case 2
    then show ?thesis using b inv
      by (cases r rule: option.exhaust; simp add: note_session_def base_inv_def flight_ok_def fragments_ok_def Let_def split: bool.split)
  next
    case 3
    then show ?thesis using b inv old
      by (simp add: note_session_def base_inv_def flight_ok_def fragments_ok_def)
  qed
qed

lemma drop_stale_queue:
  "bs_queue (drop_stale now b) = dropWhile (\<lambda>f. now - rf_received_at f > 8 / 10) (bs_queue b)"
  by (induction now b rule: drop_stale.induct, subst drop_stale.simps, simp split: list.split)

lemma drop_stale_inv: "base_inv t b \<Longrightarrow> base_inv t (drop_stale now b)"
proof (induction now b rule: drop_stale.induct)
  case (1 now b)
  show ?case
  proof (cases "bs_queue b")
    case Nil
    with 1 show ?thesis by (simp add: drop_stale.simps [of now b])
  next
    case (Cons f q)
    have "queue_ok t q" using 1(2) queue_ok_drop [of t "bs_queue b" 1] by (simp add: base_inv_def Cons)
    with 1(2) have "base_inv t (b\<lparr>bs_queue := q\<rparr>)" by (rule base_inv_queue)
    with 1 Cons show ?thesis by (simp add: drop_stale.simps [of now b])
  qed
qed

text \<open>After it nothing in the queue is older than 0.8 seconds, because the queue is in order of arrival.\<close>

lemma drop_stale_fresh:
  assumes "sorted (map rf_received_at q)"
    and "f \<in> set (dropWhile (\<lambda>f. now - rf_received_at f > 8 / 10) q)"
  shows "now - rf_received_at f \<le> 8 / 10"
  using assms
proof (induction q)
  case (Cons g q)
  show ?case
  proof (cases "now - rf_received_at g > 8 / 10")
    case True
    then show ?thesis using Cons by simp
  next
    case False
    then have "f = g \<or> f \<in> set q" using Cons.prems by simp
    then have "rf_received_at g \<le> rf_received_at f" using Cons.prems by auto
    with False show ?thesis by simp
  qed
qed simp

lemma load_next_step:
  assumes "base_inv now b"
  shows "\<exists>b'. load_next b = (b', Inr ()) \<and> base_inv now b' \<and> bs_modem b' = bs_modem b \<and>
    bs_session b' = bs_session b \<and> (\<exists>k. bs_queue b' = drop k (bs_queue b))"
proof (cases "bs_queue b = [] \<or> bs_fragments b \<noteq> []")
  case True
  then have "load_next b = (b, Inr ())" by (auto simp: load_next_def split: list.split)
  with assms show ?thesis by (auto intro: exI [of _ 0])
next
  case False
  then obtain f q where q: "bs_queue b = f # q" and e: "bs_fragments b = []"
    by (cases "bs_queue b") auto
  have f: "valid_rtcm3 (rf_raw f)" "rf_received_at f \<le> now" "queue_ok now q"
    using assms queue_ok_drop [of now "bs_queue b" 1] by (auto simp: base_inv_def q queue_ok_def)
  let ?mid = "if bs_message_id b = 0xFFFFFFFF then 1 else bs_message_id b + 1"
  obtain t where "rtcm_type (rf_raw f) = Inr t" using rtcm_type_valid [OF f(1)] .
  from fragment_eq [OF f(1) this] obtain fs where
    fs: "fragment (rf_raw f) (bs_session b) ?mid 0 = Inr fs" by blast
  let ?b = "b\<lparr>bs_queue := q, bs_message_id := ?mid, bs_fragments := map (\<lambda>g. (g, rf_received_at f)) fs\<rparr>"
  have mid: "0 < ?mid" "?mid \<le> 0xFFFFFFFF" using assms by (auto simp: base_inv_def)
  have eq: "load_next b = (?b, Inr ())"
    using fs by (simp add: load_next_def q e Let_def)
  have "fragments_ok now ?b"
    using f(1,2) fs mid unfolding fragments_ok_def
    by (intro disjI2 conjI exI [of _ "rf_raw f"] exI [of _ fs] exI [of _ "rf_received_at f"] exI [of _ 0]) auto
  then have "base_inv now ?b" using assms f(3) mid by (simp add: base_inv_def flight_ok_def)
  with eq show ?thesis by (auto simp: q intro: exI [of _ "Suc 0"])
qed

lemma source_age_nonneg: "t \<le> now \<Longrightarrow> 0 \<le> source_age now t"
  by (simp add: source_age_def py_int_def)

text \<open>What \<open>send_next\<close> gives the modem decodes to the fragment it took, with its age.\<close>

lemma waiting_fragment_origin:
  assumes "base_inv now b" and "bs_fragments b = (f, t) # rest"
  obtains raw fs where "valid_rtcm3 raw" and "t \<le> now" and "0 < bs_message_id b"
    and "fragment raw (bs_session b) (bs_message_id b) 0 = Inr fs" and "f \<in> set fs"
proof -
  have "fragments_ok now b" using assms(1) by (simp add: base_inv_def)
  then have "0 < bs_message_id b \<and> (\<exists>raw fs t k. valid_rtcm3 raw \<and>
      fragment raw (bs_session b) (bs_message_id b) 0 = Inr fs \<and> t \<le> now \<and>
      bs_fragments b = map (\<lambda>f. (f, t)) (drop k fs))"
    using assms(2) unfolding fragments_ok_def by (metis list.distinct(1))
  then obtain raw fs t' k where f: "valid_rtcm3 raw" "t' \<le> now" "0 < bs_message_id b"
      "fragment raw (bs_session b) (bs_message_id b) 0 = Inr fs" "(f, t) # rest = map (\<lambda>f. (f, t')) (drop k fs)"
    unfolding assms(2) by (elim conjE exE) (rule that)
  then have t: "t \<le> now" and "f \<in> set (drop k fs)" by (auto simp: Cons_eq_map_conv)
  from this(2) have "f \<in> set fs" by (rule in_set_dropD)
  with f t that show ?thesis by blast
qed

lemma waiting_time: "base_inv now b \<Longrightarrow> bs_fragments b = (f, t) # rest \<Longrightarrow> t \<le> now"
  by (rule waiting_fragment_origin)

lemma waiting_fragment:
  assumes "base_inv now b" and "bs_fragments b = (f, t) # rest" and "source_age now t < 1000"
  obtains bs where "app_encode (f\<lparr>af_source_age_ms := source_age now t\<rparr>) = Inr bs" and "length bs \<le> 200"
    and "app_decode bs = Inr (f\<lparr>af_source_age_ms := source_age now t\<rparr>)"
proof -
  obtain raw fs where f: "valid_rtcm3 raw" "t \<le> now" "0 < bs_message_id b"
      "fragment raw (bs_session b) (bs_message_id b) 0 = Inr fs" "f \<in> set fs"
    using waiting_fragment_origin [OF assms(1,2)] .
  obtain ty where "rtcm_type raw = Inr ty" using rtcm_type_valid [OF f(1)] .
  from fragment_eq [OF f(1) this] f(4,5) obtain i where
    "f = fragment_frame ty raw (bs_session b) (bs_message_id b) 0 i" by auto
  then have "f\<lparr>af_source_age_ms := source_age now t\<rparr> =
      fragment_frame ty raw (bs_session b) (bs_message_id b) (source_age now t) i"
    by (simp add: fragment_frame_def)
  then show ?thesis
    using fragment_frame_encodes [of "bs_session b" "bs_message_id b" "source_age now t" ty raw i]
      assms(1,3) f(3) source_age_nonneg [OF f(2)] that by (auto simp: base_inv_def)
qed

lemma send_next_step:
  assumes w: "env_ok w" and b: "base_inv t0 b" and le: "t0 \<le> now" and s: "md_session (bs_modem b) = bs_session b"
  shows "\<exists>b'. send_next w now b = (b', Inr ()) \<and> base_inv t0 b'"
proof (cases "bs_fragments b")
  case Nil
  with b show ?thesis by (simp add: send_next_def)
next
  case (Cons x rest)
  obtain f t where x: "x = (f, t)" by (rule prod.exhaust)
  note frags = Cons [unfolded x]
  consider "bs_in_flight b \<noteq> None \<or> \<not> ready_for_send (bs_modem b)"
    | "bs_in_flight b = None" "ready_for_send (bs_modem b)" "source_age now t \<ge> 1000"
    | "bs_in_flight b = None" "ready_for_send (bs_modem b)" "source_age now t < 1000" by fastforce
  then show ?thesis
  proof cases
    case 1
    with b show ?thesis by (simp add: send_next_def frags)
  next
    case 2
    with b show ?thesis by (simp add: send_next_def frags base_inv_no_fragments)
  next
    case 3
    obtain bs where bs: "app_encode (f\<lparr>af_source_age_ms := source_age now t\<rparr>) = Inr bs" "length bs \<le> 200"
      using waiting_fragment [OF base_inv_later [OF b le] frags 3(3)] .
    have "modem_inv (bs_modem b)" "length bs \<le> 256" using b bs by (auto simp: base_inv_def)
    from send_air_step [OF w this] obtain m r where m: "send_air w bs (bs_modem b) = (m, Inr r)"
        "modem_inv m" "balance m = balance (bs_modem b) @ (case r of None \<Rightarrow> [] | Some sqn \<Rightarrow> [sqn])"
        "\<And>sqn. r = Some sqn \<Longrightarrow> sends (md_pending m) = [sqn] \<and> md_session m = md_session (bs_modem b)"
      by blast
    show ?thesis
    proof (cases r)
      case None
      let ?b = "bs_add ''rtcm_fragments_dropped_disconnected'' 1 (b\<lparr>bs_modem := m, bs_fragments := (f, t) # rest\<rparr>)"
      have "send_next w now b = (?b, Inr ())" using 3 bs m None by (simp add: send_next_def frags)
      moreover have "base_inv t0 ?b"
        using b m(2,3) None 3(1) by (simp add: base_inv_def flight_ok_def balance_def fragments_ok_def frags)
      ultimately show ?thesis by blast
    next
      case (Some sqn)
      let ?b = "(bs_add ''lora_bytes_sent'' (real (length bs)) (bs_add ''rtcm_fragments_usb_accepted'' 1
          (b\<lparr>bs_modem := m, bs_in_flight := Some sqn, bs_fragments := rest\<rparr>)))
          \<lparr>bs_lora_rate := bs_lora_rate b @ [(now, length bs)]\<rparr>"
      have "send_next w now b = (?b, Inr ())"
        using 3 bs m Some by (simp add: send_next_def frags Let_def) (simp add: bs_add_def)
      moreover have r: "base_inv t0 (b\<lparr>bs_fragments := rest\<rparr>)" using b frags by (rule base_inv_later_fragments)
      have "balance (bs_modem b) = []" using b 3(1) by (simp add: base_inv_def flight_ok_def balance_def)
      then have "md_tx_outcomes m = []" "sends (md_pending m) = [sqn]"
        using m(3) m(4) [OF Some] Some by (simp_all add: balance_def)
      then have "base_inv t0 ?b"
        using r m(2) m(4) [OF Some] s by (simp add: base_inv_def flight_ok_def fragments_ok_def)
      ultimately show ?thesis by blast
    qed
  qed
qed


lemma note_session_session: "md_session (bs_modem (note_session b)) = bs_session (note_session b)"
  by (simp add: note_session_def)

lemma drop_stale_sessions:
  "md_session (bs_modem (drop_stale now b)) = md_session (bs_modem b)"
  "bs_session (drop_stale now b) = bs_session b"
  by (induction now b rule: drop_stale.induct; subst drop_stale.simps; simp split: list.split)+

lemma metrics_queue [simp]:
  "bs_queue (update_rates now b) = bs_queue b" "bs_queue (update_queue_metrics now b) = bs_queue b"
  by (simp_all add: update_rates_def update_queue_metrics_def Let_def)

lemma send_next_queue: "bs_queue (fst (send_next w now b)) = bs_queue b"
  by (auto simp: send_next_def Let_def split: list.split sum.split option.split prod.split)

lemma step_work_step:
  assumes w: "env_ok w" and b: "base_inv t0 b" and le: "t0 \<le> now" and m: "step_ok w (bs_modem b) m"
  shows "\<exists>b'. step_work w now (b\<lparr>bs_modem := m\<rparr>) = (b', Inr ()) \<and> base_inv t0 b' \<and>
    (\<forall>f\<in>set (bs_queue b'). now - rf_received_at f \<le> 8 / 10)"
proof -
  define b1 where "b1 = note_session (note_outcomes (md_tx_outcomes m) (b\<lparr>bs_modem := m\<lparr>md_tx_outcomes := []\<rparr>\<rparr>))"
  define b2 where "b2 = drop_stale now b1"
  have b1: "base_inv t0 b1" unfolding b1_def using b m by (rule note_step)
  then have b2: "base_inv t0 b2" unfolding b2_def by (rule drop_stale_inv)
  have s: "md_session (bs_modem b2) = bs_session b2"
    by (simp add: b2_def drop_stale_sessions b1_def note_session_session)
  have "sorted (map rf_received_at (bs_queue b1))" using b1 by (simp add: base_inv_def queue_ok_def)
  then have fresh: "now - rf_received_at f \<le> 8 / 10" if "f \<in> set (bs_queue b2)" for f
    using that drop_stale_fresh unfolding b2_def drop_stale_queue by blast
  have eq: "step_work w now (b\<lparr>bs_modem := m\<rparr>) =
      (if \<not> md_serial (bs_modem b2) then (update_queue_metrics now b2, Inr ())
       else case load_next b2 of
         (b, Inl e) \<Rightarrow> (b, Inl e)
       | (b, Inr _) \<Rightarrow> (case send_next w now b of
            (b, Inl e) \<Rightarrow> (b, Inl e) | (b, Inr _) \<Rightarrow> (update_queue_metrics now (update_rates now b), Inr ())))"
    by (simp add: step_work_def take_tx_outcomes_def b1_def b2_def Let_def)
  show ?thesis
  proof (cases "md_serial (bs_modem b2)")
    case False
    with b2 fresh show ?thesis by (simp add: eq)
  next
    case True
    obtain b3 k where b3: "load_next b2 = (b3, Inr ())" "base_inv t0 b3" "bs_modem b3 = bs_modem b2"
        "bs_session b3 = bs_session b2" "bs_queue b3 = drop k (bs_queue b2)"
      using load_next_step [OF b2] by blast
    then have "md_session (bs_modem b3) = bs_session b3" using s by simp
    from send_next_step [OF w b3(2) le this] obtain b4 where
      b4: "send_next w now b3 = (b4, Inr ())" "base_inv t0 b4" by blast
    have "bs_queue b4 = drop k (bs_queue b2)" using send_next_queue [of w now b3] b3(5) b4(1) by simp
    then have "now - rf_received_at f \<le> 8 / 10" if "f \<in> set (bs_queue b4)" for f
      using that fresh in_set_dropD by metis
    with True b3 b4 show ?thesis by (simp add: eq)
  qed
qed

text \<open>The invariant may be that of an earlier moment: the last at which something was ingested.\<close>

lemma base_step_later:
  assumes w: "env_ok w" and b: "base_inv t0 b" and le: "t0 \<le> now"
  shows "\<exists>b'. base_step w now b = (b', Inr ()) \<and> base_inv t0 b' \<and>
    (\<forall>f\<in>set (bs_queue b'). now - rf_received_at f \<le> 8 / 10)"
proof -
  have "modem_inv (bs_modem b)" using b by (simp add: base_inv_def)
  from modem_tick_step [OF w this] obtain m rs where
    m: "modem_tick w (base_idle b) (bs_modem b) = (m, Inr rs)" "step_ok w (bs_modem b) m" by blast
  show ?thesis using step_work_step [OF w b le m(2)] by (simp add: base_step_def m(1))
qed

lemma base_step_step:
  assumes "env_ok w" and "base_inv now b"
  shows "\<exists>b'. base_step w now b = (b', Inr ()) \<and> base_inv now b' \<and>
    (\<forall>f\<in>set (bs_queue b'). now - rf_received_at f \<le> 8 / 10)"
  by (rule base_step_later [OF assms order_refl])


subsection \<open>The service as a machine\<close>

text \<open>The machine's state has the time besides; an event brings the time that has passed since the last.\<close>

datatype base_event = Ingest time bytes | ResetSource | StepBase time

fun base_event_step :: "env \<Rightarrow> time \<times> base_service \<Rightarrow> base_event \<Rightarrow> time \<times> base_service" where
  "base_event_step w (now, b) (Ingest dt chunk) =
     (let now = now + max 0 dt in (now, fst (ingest now chunk b)))"
| "base_event_step w (now, b) ResetSource = (now, reset_source b)"
| "base_event_step w (now, b) (StepBase dt) =
     (let now = now + max 0 dt in (now, fst (base_step w now b)))"

lemma base_event_step_inv:
  "env_ok w \<and> base_inv (fst s) (snd s) \<Longrightarrow> base_inv (fst (base_event_step w s e)) (snd (base_event_step w s e))"
proof -
  assume s: "env_ok w \<and> base_inv (fst s) (snd s)"
  have later: "base_inv (fst s + max 0 dt) (snd s)" for dt
    using s base_inv_later [of "fst s" "snd s" "fst s + max 0 dt"] by simp
  show ?thesis
  proof (cases e)
    case (StepBase dt)
    then show ?thesis using base_step_step [OF _ later [of dt], of w] s by (cases s) (auto simp: Let_def)
  qed (use s later ingest_inv reset_source_inv in \<open>cases s; simp add: Let_def\<close>)+
qed

interpretation base: machine "base_event_step w" "\<lambda>s. env_ok w \<and> base_inv (fst s) (snd s)"
  using base_event_step_inv by unfold_locales blast

lemma new_base_service_inv: "env_ok w \<Longrightarrow> base_inv now (new_base_service (new_modem w rs))"
  using new_modem_inv [of w rs]
  by (simp add: base_inv_def new_base_service_def flight_ok_def queue_ok_def fragments_ok_def modem_inv_def)
    (simp add: new_modem_def)

lemma base_run_inv:
  "env_ok w \<Longrightarrow> run (base_event_step w) (t0, new_base_service (new_modem w rs)) es = (now, b) \<Longrightarrow> base_inv now b"
  using base.run_inv [of w "(t0, new_base_service (new_modem w rs))" es] new_base_service_inv [of w t0 rs] by simp


subsection \<open>Properties\<close>

lemma single_send:
  assumes "modem_inv m" and "sends (md_pending m) = [sqn]"
  shows "\<exists>t. md_pending m = [(sqn, RADIO_SEND, t)]"
proof (cases "md_handshake_complete m")
  case True
  then have "md_pending m = [] \<or> (\<exists>t. md_pending m = [(md_sequence m, RADIO_SEND, t)] \<or>
      md_pending m = [(md_sequence m, GET_DIAGNOSTICS, t)])"
    using assms(1) unfolding modem_inv_def by blast
  with assms(2) show ?thesis by auto
next
  case False
  then have "md_pending m = [] \<or> (\<exists>t. md_pending m = [(md_sequence m, USB_HELLO, t)])"
    using assms(1) unfolding modem_inv_def by blast
  with assms(2) show ?thesis by auto
qed

text \<open>
  Property C8. Whatever the receiver, the modem and the port do, after any sequence of ingested
  chunks, source resets and steps: at most 128 frames are queued; the fragment in flight, if there is
  one, is exactly the send the modem has pending, so the modem's timeout always frees it; the
  fragments waiting are the rest of one valid message, fragmented under the current session; and the
  next step does not raise.
\<close>

theorem base_service_safe:
  assumes "env_ok w"
    and "run (base_event_step w) (t0, new_base_service (new_modem w rs)) es = (now, b)" and "now \<le> now'"
  shows "length (bs_queue b) \<le> MAX_QUEUED_RTCM_FRAMES \<and>
    (\<forall>sqn. bs_in_flight b = Some sqn \<longrightarrow> (\<exists>t. md_pending (bs_modem b) = [(sqn, RADIO_SEND, t)])) \<and>
    (bs_fragments b = [] \<or> (\<exists>raw fs k. valid_rtcm3 raw \<and>
       fragment raw (bs_session b) (bs_message_id b) 0 = Inr fs \<and> map fst (bs_fragments b) = drop k fs)) \<and>
    is_ok (snd (base_step w now' b))"
proof -
  have b: "base_inv now b" using base_run_inv [OF assms(1,2)] .
  have "is_ok (snd (base_step w now' b))"
    using base_step_step [OF assms(1) base_inv_later [OF b assms(3)]] by auto
  moreover have "\<exists>t. md_pending (bs_modem b) = [(sqn, RADIO_SEND, t)]" if "bs_in_flight b = Some sqn" for sqn
    using b that single_send by (simp add: base_inv_def flight_ok_def)
  moreover have "bs_fragments b = [] \<or> (\<exists>raw fs k. valid_rtcm3 raw \<and>
       fragment raw (bs_session b) (bs_message_id b) 0 = Inr fs \<and> map fst (bs_fragments b) = drop k fs)"
  proof -
    have "fragments_ok now b" using b by (simp add: base_inv_def)
    moreover have "map fst (map (\<lambda>f. (f, t)) xs) = xs" for t :: time and xs :: "app_frame list"
      by (simp add: comp_def)
    ultimately show ?thesis unfolding fragments_ok_def by metis
  qed
  ultimately show ?thesis using b by (simp add: base_inv_def queue_ok_def)
qed

text \<open>
  Old corrections are dropped, new ones kept: ingesting a chunk leaves the newest 128 of
  the frames queued before and the frames found, in order; and no frame that is older than 0.8 seconds
  is queued after a step.
\<close>

theorem base_queue_policy:
  assumes "env_ok w" and "base_inv now b"
  shows "bs_queue (fst (ingest now chunk b)) =
      (let q = bs_queue b @ snd (rtcm_feed now (bs_parser b) chunk)
       in drop (length q - MAX_QUEUED_RTCM_FRAMES) q) \<and>
    list_all (\<lambda>f. now - rf_received_at f \<le> 8 / 10) (bs_queue (fst (base_step w now b)))"
proof
  have "length (bs_queue b) \<le> 128" using assms(2) by (simp add: base_inv_def queue_ok_def)
  then show "bs_queue (fst (ingest now chunk b)) =
      (let q = bs_queue b @ snd (rtcm_feed now (bs_parser b) chunk)
       in drop (length q - MAX_QUEUED_RTCM_FRAMES) q)" by (rule ingest_queue)
  show "list_all (\<lambda>f. now - rf_received_at f \<le> 8 / 10) (bs_queue (fst (base_step w now b)))"
    using base_step_step [OF assms] unfolding list_all_iff by force
qed

text \<open>
  Property C7. Only fresh fragments are sent, in order: when a step gives a fragment to the modem and
  it is accepted, it is the first one waiting, its age is below one second, and the rest go on
  waiting; and what the modem's port has taken in this is exactly one \<open>RADIO_SEND\<close> frame, in the
  modem's session and under the number noted as in flight, whose payload decodes to that fragment with
  that age.
\<close>

theorem base_sends_fresh:
  assumes "base_inv now b" and "bs_in_flight b = None"
    and "bs_in_flight (fst (send_next w now b)) = Some sqn"
  shows "\<exists>f t payload frame. bs_fragments b = (f, t) # bs_fragments (fst (send_next w now b)) \<and>
     0 \<le> source_age now t \<and> source_age now t < RTCM_TRANSPORT_TTL_MS \<and>
     md_written (bs_modem (fst (send_next w now b))) = md_written (bs_modem b) @ frame \<and>
     encode_frame RADIO_SEND (md_session (bs_modem b)) sqn payload = Inr frame \<and>
     app_decode payload = Inr (f\<lparr>af_source_age_ms := source_age now t\<rparr>)"
proof (cases "bs_fragments b")
  case Nil
  with assms show ?thesis by (simp add: send_next_def)
next
  case (Cons x rest)
  obtain f t where x: "x = (f, t)" by (rule prod.exhaust)
  note frags = Cons [unfolded x]
  have c: "ready_for_send (bs_modem b)" "source_age now t < 1000"
    using assms(2,3) by (auto simp: send_next_def frags split: if_splits)
  obtain bs where bs: "app_encode (f\<lparr>af_source_age_ms := source_age now t\<rparr>) = Inr bs"
      "app_decode bs = Inr (f\<lparr>af_source_age_ms := source_age now t\<rparr>)"
    using waiting_fragment [OF assms(1) frags c(2)] .
  have t: "0 \<le> source_age now t" using waiting_time [OF assms(1) frags] by (rule source_age_nonneg)
  obtain m r where m: "send_air w bs (bs_modem b) = (m, r)" by (rule prod.exhaust)
  have sent: "r = Inr (Some sqn) \<and> bs_fragments (fst (send_next w now b)) = rest \<and>
      md_written (bs_modem (fst (send_next w now b))) = md_written m"
    using assms(2,3) c bs m by (auto simp: send_next_def frags Let_def split: sum.splits option.splits)
  with send_air_written [of w bs "bs_modem b" m sqn] m frags t c(2) bs(2) show ?thesis by auto
qed

subsection \<open>Witnesses\<close>

definition sample_base :: base_service where
  "sample_base = new_base_service (new_modem sample_env 1)"

lemma base_service_safe_witness:
  "is_ok (snd (base_step sample_env 3
     (snd (run (base_event_step sample_env) (0, sample_base) [StepBase 1, Ingest 1 [1, 2, 3], ResetSource]))))"
proof -
  let ?es = "[StepBase 1, Ingest 1 [1, 2, 3], ResetSource]"
  let ?s = "run (base_event_step sample_env) (0, sample_base) ?es"
  have "?s = (2, snd ?s)" by (simp add: Let_def)
  from base_service_safe [OF sample_env_ok this [unfolded sample_base_def], of 3] show ?thesis
    by (simp add: sample_base_def)
qed

lemma base_queue_policy_witness:
  "length (bs_queue (fst (ingest 5 [211, 0, 2, 62, 208, 164, 224, 0] sample_base))) = 1"
proof -
  have "base_inv 5 sample_base" unfolding sample_base_def by (rule new_base_service_inv [OF sample_env_ok])
  note q = base_queue_policy [OF sample_env_ok this, of "[211, 0, 2, 62, 208, 164, 224, 0]", THEN conjunct1]
  have "snd (rtcm_feed 5 new_rtcm_parser [211, 0, 2, 62, 208, 164, 224, 0]) = [as_frame 5 [211, 0, 2, 62, 208, 164, 224, 0]]"
    using scan_clean [of "[[211, 0, 2, 62, 208, 164, 224, 0]]"] rtcm_vector
    by (simp add: rtcm_feed_scan) (simp add: new_rtcm_parser_def)
  moreover have "bs_queue sample_base = []" "bs_parser sample_base = new_rtcm_parser"
    by (simp_all add: sample_base_def new_base_service_def)
  ultimately show ?thesis unfolding q by simp
qed


text \<open>The quiet world takes every send of a modem that is ready.\<close>

lemma sample_writes: "snd (write_loop sample_env raw m)"
proof (induction "sample_env" raw m rule: write_loop.induct)
  case (1 raw m)
  then show ?case by (subst write_loop.simps) (simp add: sample_env_def)
qed

lemma sample_send:
  assumes "ready_for_send m" and "md_sequence m = 0" and "md_session m = 5" and "length pl \<le> 256"
  shows "snd (send_air sample_env pl m) = Inr (Some 1)"
proof -
  let ?m = "count ''lora_bytes_queued'' (real (length pl)) (count ''application_frames_generated'' 1 m)"
  define m1 where "m1 = count ''usb_send_requests'' 1 (next_sequence ?m)"
  have m1: "md_serial m1" "md_sequence m1 = 1" "md_session m1 = 5"
    using assms by (simp_all add: m1_def next_sequence_def ready_for_send_def)
  obtain raw where raw: "encode_frame RADIO_SEND 5 1 pl = Inr raw"
    using encode_frame_ok [of RADIO_SEND 5 1 pl] assms(4) by auto
  obtain m2 where "write_loop sample_env raw m1 = (m2, True)"
    using sample_writes [of raw m1] by (cases "write_loop sample_env raw m1") auto
  then have w: "modem_write sample_env raw m1 = (m2, Inr ())" using m1(1) by (simp add: modem_write_def)
  have "snd (modem_request sample_env RADIO_SEND pl ?m) = Inr 1"
    using assms(2) raw w m1
    unfolding modem_request_def Let_def m1_def [symmetric] by simp
  then obtain m3 where "modem_request sample_env RADIO_SEND pl ?m = (m3, Inr 1)"
    by (cases "modem_request sample_env RADIO_SEND pl ?m") simp
  then show ?thesis using assms by (simp add: send_air_def rotate_before_sequence_wrap_def)
qed

definition sample_ready :: modem where
  "sample_ready = gauge ''modem_radio_ready'' 1 (gauge ''modem_handshake_complete'' 1 (gauge ''modem_connected'' 1
     ((new_modem sample_env 1)\<lparr>md_serial := True, md_handshake_complete := True, md_radio_ready := True\<rparr>)))"

definition sample_loaded :: base_service where
  "sample_loaded = fst (load_next ((new_base_service sample_ready)
     \<lparr>bs_queue := [as_frame 5 [211, 0, 2, 62, 208, 164, 224, 0]]\<rparr>))"

lemma sample_ready_simps:
  "ready_for_send sample_ready" "md_sequence sample_ready = 0" "md_session sample_ready = 5"
  "modem_inv sample_ready"
  by (simp_all add: sample_ready_def ready_for_send_def new_modem_def sample_env_def modem_inv_def
      gauges_def gauge_def called_def)

lemma sample_loaded_inv:
  "base_inv 5 sample_loaded \<and> bs_modem sample_loaded = sample_ready \<and> bs_in_flight sample_loaded = None \<and>
   (\<exists>f rest. bs_fragments sample_loaded = (f, 5) # rest)"
proof -
  let ?b = "(new_base_service sample_ready)\<lparr>bs_queue := [as_frame 5 [211, 0, 2, 62, 208, 164, 224, 0]]\<rparr>"
  have "base_inv 5 ?b"
    using sample_ready_simps rtcm_vector
    by (simp add: base_inv_def new_base_service_def flight_ok_def queue_ok_def fragments_ok_def as_frame_def)
      (simp add: sample_ready_def new_modem_def gauge_def called_def)
  then have inv: "base_inv 5 sample_loaded" "bs_modem sample_loaded = sample_ready"
    using load_next_step [of 5 ?b] by (auto simp: sample_loaded_def new_base_service_def)
  obtain t where "rtcm_type [211, 0, 2, 62, 208, 164, 224, 0] = Inr t" using rtcm_type_valid [OF rtcm_vector] .
  from fragment_eq [OF rtcm_vector this, of 5 1 0]
  have "fragment [211, 0, 2, 62, 208, 164, 224, 0] 5 1 0 =
      Inr [fragment_frame t [211, 0, 2, 62, 208, 164, 224, 0] 5 1 0 0]"
    by (simp add: fragment_count_def)
  then show ?thesis using inv
    by (simp add: sample_loaded_def load_next_def new_base_service_def sample_ready_simps as_frame_def)
qed

lemma base_sends_fresh_witness:
  "\<exists>f payload frame. bs_fragments sample_loaded = (f, 5) # bs_fragments (fst (send_next sample_env 5 sample_loaded)) \<and>
     md_written (bs_modem (fst (send_next sample_env 5 sample_loaded))) = md_written sample_ready @ frame \<and>
     encode_frame RADIO_SEND (md_session sample_ready) 1 payload = Inr frame \<and>
     app_decode payload = Inr (f\<lparr>af_source_age_ms := 0\<rparr>)"
proof -
  obtain f rest where l: "base_inv 5 sample_loaded" "bs_modem sample_loaded = sample_ready"
      "bs_in_flight sample_loaded = None" "bs_fragments sample_loaded = (f, 5) # rest"
    using sample_loaded_inv by blast
  have age: "source_age 5 5 = 0" by (simp add: source_age_def py_int_def)
  obtain bs where bs: "app_encode (f\<lparr>af_source_age_ms := 0\<rparr>) = Inr bs" "length bs \<le> 200"
    using waiting_fragment [OF l(1,4)] by (auto simp: age)
  have "snd (send_air sample_env bs sample_ready) = Inr (Some 1)"
    using sample_ready_simps bs(2) by (intro sample_send) simp_all
  then obtain m where "send_air sample_env bs sample_ready = (m, Inr (Some 1))"
    by (cases "send_air sample_env bs sample_ready") simp
  then have "bs_in_flight (fst (send_next sample_env 5 sample_loaded)) = Some 1"
    using l age bs sample_ready_simps(1) by (simp add: send_next_def Let_def)
  from base_sends_fresh [OF l(1,3) this] show ?thesis unfolding l(2) using l(4) age by fastforce
qed

end
