(* ===== verification/Tcp_Output.thy ===== *)
theory Tcp_Output
  imports Rtcm_Frame Metrics "HOL-Library.Sublist"
begin

text \<open>
  The robot's broadcast of RTCM frames to TCP clients, \<open>TcpRtcmOutput\<close> and \<open>_QueuedRtcmOutput\<close> of
  \<open>host/mowgli_lora/service.py\<close>. The sockets are the world's: a record of functions that tell, for
  the \<open>i\<close>-th interaction, how many clients wait to be accepted or how many of the bytes given a
  socket takes. Binding, listening and closing do not change this state; they are in \<open>Service_Main\<close>.
\<close>

abbreviation (input) MAX_CLIENTS :: nat where "MAX_CLIENTS \<equiv> 16"
abbreviation (input) MAX_CLIENT_QUEUE_BYTES :: int where "MAX_CLIENT_QUEUE_BYTES \<equiv> 64 * 1029"
abbreviation (input) MAX_CLIENT_QUEUE_FRAMES :: nat where "MAX_CLIENT_QUEUE_FRAMES \<equiv> 64"
abbreviation (input) CLIENT_QUEUE_TTL_S :: time where "CLIENT_QUEUE_TTL_S \<equiv> 1"

record queued_output =
  qo_raw :: bytes
  qo_enqueued_at :: time
  qo_offset :: nat

text \<open>
  A client is named by the number of clients accepted before it: accepted sockets are new keys of the
  dictionary. \<open>to_taken\<close> is the world's part of a client's socket: the bytes it took so far.
\<close>

record tcp_output =
  to_clients :: "(nat \<times> queued_output list) list"
  to_next_client :: nat
  to_taken :: "(nat \<times> bytes) list"
  to_metrics :: metrics
  to_calls :: nat

datatype send_result = Took nat | WouldBlock | SendError

text \<open>
  \<open>net_accept i\<close>: how many clients wait, and whether \<open>accept\<close> then raises an \<open>OSError\<close> other than
  \<open>BlockingIOError\<close>. \<open>net_send i data\<close>: the result of \<open>send\<close>, or the exception it raises.
\<close>

record net =
  net_accept :: "nat \<Rightarrow> nat \<times> bool"
  net_send :: "nat \<Rightarrow> bytes \<Rightarrow> send_result"

subsection \<open>The code\<close>

definition new_tcp_output :: "metrics \<Rightarrow> tcp_output" where
  "new_tcp_output ms = \<lparr>to_clients = [], to_next_client = 0, to_taken = [], to_metrics = ms, to_calls = 0\<rparr>"

definition to_add :: "string \<Rightarrow> real \<Rightarrow> tcp_output \<Rightarrow> tcp_output" where
  "to_add name n t = t\<lparr>to_metrics := metric_add name n (to_metrics t)\<rparr>"

definition to_set :: "string \<Rightarrow> real \<Rightarrow> tcp_output \<Rightarrow> tcp_output" where
  "to_set name v t = t\<lparr>to_metrics := metric_set name v (to_metrics t)\<rparr>"

definition to_called :: "tcp_output \<Rightarrow> tcp_output" where
  "to_called t = t\<lparr>to_calls := Suc (to_calls t)\<rparr>"

definition qo_remaining :: "queued_output \<Rightarrow> int" where
  "qo_remaining q = int (length (qo_raw q)) - int (qo_offset q)"

definition queued_bytes :: "queued_output list \<Rightarrow> int" where
  "queued_bytes frames = (\<Sum>q\<leftarrow>frames. qo_remaining q)"

text \<open>The loop of \<open>_accept\<close> over the waiting clients.\<close>

fun accept_waiting :: "nat \<Rightarrow> tcp_output \<Rightarrow> tcp_output" where
  "accept_waiting 0 t = t"
| "accept_waiting (Suc n) t =
     (if length (to_clients t) \<ge> MAX_CLIENTS
      then accept_waiting n (to_add ''rtcm_tcp_clients_rejected_limit'' 1 t)
      else accept_waiting n (to_add ''rtcm_tcp_clients_connected'' 1
             (t\<lparr>to_clients := to_clients t @ [(to_next_client t, [])],
                to_next_client := Suc (to_next_client t),
                to_taken := to_taken t @ [(to_next_client t, [])]\<rparr>)))"

definition accept_clients :: "net \<Rightarrow> tcp_output \<Rightarrow> tcp_output \<times> unit result" where
  "accept_clients w t =
     (let (n, fails) = net_accept w (to_calls t)
      in (accept_waiting n (to_called t), if fails then Inl OsError else Inr ()))"

definition client_frames :: "nat \<Rightarrow> tcp_output \<Rightarrow> queued_output list" where
  "client_frames c t = (case map_of (to_clients t) c of None \<Rightarrow> [] | Some frames \<Rightarrow> frames)"

definition drop_client :: "nat \<Rightarrow> string \<Rightarrow> tcp_output \<Rightarrow> tcp_output" where
  "drop_client c why t =
     (let pending = queued_bytes (client_frames c t)
      in to_add ''rtcm_tcp_client_bytes_abandoned'' (of_int pending)
           (to_add (''rtcm_tcp_client_dropped_'' @ why) 1
             (t\<lparr>to_clients := AList.delete c (to_clients t)\<rparr>)))"

definition set_frames :: "nat \<Rightarrow> queued_output list \<Rightarrow> tcp_output \<Rightarrow> tcp_output" where
  "set_frames c frames t = t\<lparr>to_clients := AList.update c frames (to_clients t)\<rparr>"

definition is_stale :: "time \<Rightarrow> queued_output list \<Rightarrow> bool" where
  "is_stale now frames \<longleftrightarrow>
     (case frames of [] \<Rightarrow> False | q # _ \<Rightarrow> now - qo_enqueued_at q \<ge> CLIENT_QUEUE_TTL_S)"

text \<open>The body of the loop of \<open>flush\<close>, for one client.\<close>

definition flush_client :: "net \<Rightarrow> time \<Rightarrow> nat \<Rightarrow> tcp_output \<Rightarrow> tcp_output" where
  "flush_client w now c t =
     (case client_frames c t of
        [] \<Rightarrow> t
      | pending # rest \<Rightarrow>
          (if is_stale now (pending # rest) then drop_client c ''stale'' t
           else (let data = drop (qo_offset pending) (qo_raw pending);
                     r = net_send w (to_calls t) data;
                     t = to_called t
                 in case r of
                      WouldBlock \<Rightarrow> t
                    | SendError \<Rightarrow> drop_client c ''socket_error'' t
                    | Took n \<Rightarrow>
                        (if n = 0 then drop_client c ''closed'' t
                         else (let t = t\<lparr>to_taken := AList.map_entry c (\<lambda>bs. bs @ take n data) (to_taken t)\<rparr>;
                                   pending = pending\<lparr>qo_offset := qo_offset pending + n\<rparr>;
                                   frames = (if qo_offset pending = length (qo_raw pending) then rest
                                             else pending # rest)
                               in to_add ''rtcm_tcp_bytes_sent'' (real n) (set_frames c frames t))))))"

definition flush :: "net \<Rightarrow> time \<Rightarrow> tcp_output \<Rightarrow> tcp_output \<times> unit result" where
  "flush w now t0 =
     (case accept_clients w t0 of
        (t, Inl e) \<Rightarrow> (t, Inl e)
      | (t, Inr _) \<Rightarrow>
          (let t = fold (flush_client w now) (map fst (to_clients t)) t
           in (to_set ''rtcm_tcp_client_queue_bytes''
                 (of_int (\<Sum>(c, frames)\<leftarrow>to_clients t. queued_bytes frames)) t, Inr ())))"

text \<open>The body of the loop of \<open>publish\<close>, for one client.\<close>

definition publish_client :: "time \<Rightarrow> bytes \<Rightarrow> nat \<Rightarrow> tcp_output \<times> nat \<Rightarrow> tcp_output \<times> nat" where
  "publish_client now raw c s =
     (let (t, delivered) = s; frames = client_frames c t
      in if is_stale now frames then (drop_client c ''stale'' t, delivered)
         else if length frames \<ge> MAX_CLIENT_QUEUE_FRAMES \<or>
                 queued_bytes frames + int (length raw) > MAX_CLIENT_QUEUE_BYTES
         then (drop_client c ''slow'' t, delivered)
         else (to_add ''rtcm_tcp_bytes_queued'' (real (length raw))
                 (set_frames c (frames @ [\<lparr>qo_raw = raw, qo_enqueued_at = now, qo_offset = 0\<rparr>]) t),
               Suc delivered))"

definition publish :: "net \<Rightarrow> time \<Rightarrow> bytes \<Rightarrow> tcp_output \<Rightarrow> tcp_output \<times> nat result" where
  "publish w now raw t0 =
     (case accept_clients w t0 of
        (t, Inl e) \<Rightarrow> (t, Inl e)
      | (t, Inr _) \<Rightarrow>
          (let (t, delivered) = fold (publish_client now raw) (map fst (to_clients t)) (t, 0)
           in case flush w now t of
                (t, Inl e) \<Rightarrow> (t, Inl e)
              | (t, Inr _) \<Rightarrow> (t, Inr delivered)))"


subsection \<open>The invariant\<close>

text \<open>What a client will still get: the rest of the first frame, then whole frames.\<close>

definition stream_of :: "queued_output list \<Rightarrow> bytes" where
  "stream_of frames = concat (map (\<lambda>q. drop (qo_offset q) (qo_raw q)) frames)"

definition frames_ok :: "time \<Rightarrow> queued_output list \<Rightarrow> bool" where
  "frames_ok now frames \<longleftrightarrow>
     length frames \<le> MAX_CLIENT_QUEUE_FRAMES \<and> queued_bytes frames \<le> MAX_CLIENT_QUEUE_BYTES \<and>
     sorted (map qo_enqueued_at frames) \<and>
     list_all (\<lambda>q. qo_offset q \<le> length (qo_raw q) \<and> qo_enqueued_at q \<le> now) frames"

text \<open>
  What a client took and what waits for it: for one that was connected when \<open>since\<close> frames had been
  published, what it had then and all frames published since; for a later one, the frames published
  since it was accepted.
\<close>

definition stream_ok :: "(nat \<Rightarrow> bytes option) \<Rightarrow> nat \<Rightarrow> bytes list \<Rightarrow> nat \<Rightarrow> bytes \<Rightarrow> bool" where
  "stream_ok base since published c s \<longleftrightarrow>
     since \<le> length published \<and>
     (case base c of
        Some b \<Rightarrow> s = b @ concat (drop since published)
      | None \<Rightarrow> \<exists>k\<ge>since. k \<le> length published \<and> s = concat (drop k published))"

definition client_ok :: "(nat \<Rightarrow> bytes option) \<Rightarrow> nat \<Rightarrow> bytes list \<Rightarrow> time \<Rightarrow> nat \<Rightarrow> tcp_output \<Rightarrow> bool" where
  "client_ok base since published now c t \<longleftrightarrow>
     (\<forall>frames. map_of (to_clients t) c = Some frames \<longrightarrow> frames_ok now frames \<and>
        (\<exists>taken. map_of (to_taken t) c = Some taken \<and> stream_ok base since published c (taken @ stream_of frames)))"

definition clients_shape :: "(nat \<Rightarrow> bytes option) \<Rightarrow> tcp_output \<Rightarrow> bool" where
  "clients_shape base t \<longleftrightarrow> distinct_keys (to_clients t) \<and> length (to_clients t) \<le> MAX_CLIENTS \<and>
     (\<forall>c. c \<in> fst ` set (to_clients t) \<or> c \<in> fst ` set (to_taken t) \<or> base c \<noteq> None \<longrightarrow> c < to_next_client t)"

definition to_inv :: "(nat \<Rightarrow> bytes option) \<Rightarrow> nat \<Rightarrow> bytes list \<Rightarrow> time \<Rightarrow> tcp_output \<Rightarrow> bool" where
  "to_inv base since published now t \<longleftrightarrow>
     since \<le> length published \<and> clients_shape base t \<and> (\<forall>c. client_ok base since published now c t)"

lemma stream_ok_publish:
  "stream_ok base since published c s \<Longrightarrow> stream_ok base since (published @ [raw]) c (s @ raw)"
  by (auto simp: stream_ok_def split: option.splits)

definition net_ok :: "net \<Rightarrow> bool" where
  "net_ok w \<longleftrightarrow> (\<forall>i data n. net_send w i data = Took n \<longrightarrow> n \<le> length data)"

lemma to_simps [simp]:
  "to_clients (to_add k n t) = to_clients t" "to_clients (to_set k n t) = to_clients t"
  "to_clients (to_called t) = to_clients t" "to_next_client (to_add k n t) = to_next_client t"
  "to_next_client (to_set k n t) = to_next_client t" "to_next_client (to_called t) = to_next_client t"
  "to_taken (to_add k n t) = to_taken t" "to_taken (to_set k n t) = to_taken t"
  "to_taken (to_called t) = to_taken t"
  by (simp_all add: to_add_def to_set_def to_called_def)

lemma drop_client_simps [simp]:
  "to_clients (drop_client c why t) = AList.delete c (to_clients t)"
  "to_taken (drop_client c why t) = to_taken t" "to_next_client (drop_client c why t) = to_next_client t"
  by (simp_all add: drop_client_def Let_def)

lemma set_frames_simps [simp]:
  "to_clients (set_frames c frames t) = AList.update c frames (to_clients t)"
  "to_taken (set_frames c frames t) = to_taken t" "to_next_client (set_frames c frames t) = to_next_client t"
  by (simp_all add: set_frames_def)

lemma queued_bytes_simps [simp]:
  "queued_bytes [] = 0" "queued_bytes (q # qs) = qo_remaining q + queued_bytes qs"
  "queued_bytes (qs @ qs') = queued_bytes qs + queued_bytes qs'"
  by (simp_all add: queued_bytes_def)

lemma stream_of_simps [simp]:
  "stream_of [] = []" "stream_of (q # qs) = drop (qo_offset q) (qo_raw q) @ stream_of qs"
  "stream_of (qs @ qs') = stream_of qs @ stream_of qs'"
  by (simp_all add: stream_of_def)

lemma lookup_map_entry: "map_of (AList.map_entry k f d) k' = (if k' = k then map_option f (map_of d k) else map_of d k')"
  by (induction d) auto

lemma keys_map_entry: "fst ` set (AList.map_entry k f d) = fst ` set d"
  by (induction d) auto

text \<open>A fold over the clients is a loop in which each one is handled alone.\<close>

locale each_client =
  fixes f :: "nat \<Rightarrow> 's \<Rightarrow> 's"
    and before :: "nat \<Rightarrow> 's \<Rightarrow> bool"
    and after :: "nat \<Rightarrow> 's \<Rightarrow> bool"
  assumes own: "before c s \<Longrightarrow> after c (f c s)"
    and other_before: "c' \<noteq> c \<Longrightarrow> before c' s \<Longrightarrow> before c' (f c s)"
    and other_after: "c' \<noteq> c \<Longrightarrow> after c' s \<Longrightarrow> after c' (f c s)"
begin

lemma fold_after:
  assumes "distinct cs" and "\<And>c. c \<in> set cs \<Longrightarrow> before c s" and "\<And>c. c \<notin> set cs \<Longrightarrow> after c s"
  shows "after c (fold f cs s)"
  using assms
proof (induction cs arbitrary: s)
  case (Cons k cs)
  have "after c (fold f cs (f k s))"
  proof (rule Cons.IH)
    show "before c (f k s)" if "c \<in> set cs" for c
      using that Cons.prems by (intro other_before) auto
    show "after c (f k s)" if "c \<notin> set cs" for c
      using that Cons.prems own other_after by (cases "c = k") auto
  qed (use Cons.prems in auto)
  then show ?case by simp
qed simp

end

subsection \<open>Accepting\<close>

lemma accept_waiting_inv: "to_inv base since published now t \<Longrightarrow> to_inv base since published now (accept_waiting n t)"
proof (induction n t rule: accept_waiting.induct)
  case (2 n t)
  show ?case
  proof (cases "length (to_clients t) \<ge> 16")
    case True
    have "to_inv base since published now (to_add ''rtcm_tcp_clients_rejected_limit'' 1 t)"
      using 2(3) by (simp add: to_inv_def clients_shape_def client_ok_def)
    with 2(1) [OF True] True show ?thesis by simp
  next
    case False
    let ?c = "to_next_client t"
    let ?t = "to_add ''rtcm_tcp_clients_connected'' 1 (t\<lparr>to_clients := to_clients t @ [(?c, [])],
        to_next_client := Suc ?c, to_taken := to_taken t @ [(?c, [])]\<rparr>)"
    have s: "clients_shape base t" and ok: "\<And>c. client_ok base since published now c t"
      using 2(3) by (auto simp: to_inv_def)
    have fresh: "?c \<notin> fst ` set (to_clients t)" "?c \<notin> fst ` set (to_taken t)"
      using s unfolding clients_shape_def by blast+
    have "c < Suc ?c"
      if "c \<in> fst ` set (to_clients ?t) \<or> c \<in> fst ` set (to_taken ?t) \<or> base c \<noteq> None" for c
    proof -
      have "c = ?c \<or> c \<in> fst ` set (to_clients t) \<or> c \<in> fst ` set (to_taken t) \<or> base c \<noteq> None"
        using that by (simp del: image_iff) blast
      with s show ?thesis unfolding clients_shape_def by (meson less_Suc_eq)
    qed
    moreover have "distinct_keys (to_clients ?t)" "length (to_clients ?t) \<le> 16"
      using s False fresh(1) by (simp_all add: clients_shape_def)
    ultimately have "clients_shape base ?t" unfolding clients_shape_def by simp
    moreover have "client_ok base since published now c ?t" for c
    proof (cases "c = ?c")
      case True
      have "map_of (to_clients t) ?c = None" "map_of (to_taken t) ?c = None"
        using fresh by (simp_all add: map_of_eq_None_iff)
      moreover have "base ?c = None" using s unfolding clients_shape_def by blast
      moreover have "since \<le> length published" using 2(3) by (simp add: to_inv_def)
      ultimately show ?thesis unfolding True
        by (auto simp: client_ok_def stream_ok_def frames_ok_def map_add_def intro: exI [of _ "length published"])
    next
      case False
      then have "map_of (to_clients ?t) c = map_of (to_clients t) c" "map_of (to_taken ?t) c = map_of (to_taken t) c"
        by (simp_all add: map_add_def split: option.split)
      with ok [of c] show ?thesis unfolding client_ok_def by presburger
    qed
    ultimately have "to_inv base since published now ?t" using 2(3) by (simp add: to_inv_def)
    with 2(2) [OF False] False show ?thesis by simp
  qed
qed simp

lemma accept_clients_inv: "to_inv base since published now t \<Longrightarrow> to_inv base since published now (fst (accept_clients w t))"
proof -
  assume "to_inv base since published now t"
  then have "to_inv base since published now (to_called t)" by (simp add: to_inv_def clients_shape_def client_ok_def)
  then show ?thesis by (simp add: accept_clients_def Let_def case_prod_unfold accept_waiting_inv)
qed


subsection \<open>Flush\<close>

lemma clients_shape_drop: "clients_shape base t \<Longrightarrow> clients_shape base (drop_client c why t)"
  using length_delete_le [of c "to_clients t"]
  by (simp add: clients_shape_def distinct_keys_delete keys_delete)

lemma clients_shape_set:
  assumes "clients_shape base t" and "c \<in> fst ` set (to_clients t)"
  shows "clients_shape base (set_frames c frames t)"
  using assms insert_absorb [OF assms(2)]
  by (simp add: clients_shape_def distinct_keys_update keys_update length_update_key del: image_iff)

lemma client_ok_other:
  "map_of (to_clients t') c = map_of (to_clients t) c \<Longrightarrow> map_of (to_taken t') c = map_of (to_taken t) c \<Longrightarrow>
     client_ok base since published now c t' = client_ok base since published now c t"
  by (simp add: client_ok_def)

lemma clients_shape_changes [simp]:
  "clients_shape base (to_called t) = clients_shape base t" "clients_shape base (to_add k n t) = clients_shape base t"
  "clients_shape base (to_set k n t) = clients_shape base t"
  "clients_shape base (t\<lparr>to_taken := AList.map_entry c f taken\<rparr>) = clients_shape base (t\<lparr>to_taken := taken\<rparr>)"
  "clients_shape base (t\<lparr>to_taken := to_taken t\<rparr>) = clients_shape base t"
  "clients_shape base ((to_called t)\<lparr>to_taken := to_taken t\<rparr>) = clients_shape base t"
  by (simp_all add: clients_shape_def keys_map_entry del: image_iff)

text \<open>One client's turn leaves the others alone.\<close>

lemma flush_client_other:
  assumes "c' \<noteq> c"
  shows "map_of (to_clients (flush_client w now c t)) c' = map_of (to_clients t) c' \<and>
    map_of (to_taken (flush_client w now c t)) c' = map_of (to_taken t) c'"
  using assms
  by (auto simp: flush_client_def Let_def lookup_delete lookup_update lookup_map_entry
      split: list.split send_result.split)

lemma publish_client_other:
  assumes "c' \<noteq> c"
  shows "map_of (to_clients (fst (publish_client now raw c s))) c' = map_of (to_clients (fst s)) c' \<and>
    to_taken (fst (publish_client now raw c s)) = to_taken (fst s)"
  using assms by (auto simp: publish_client_def Let_def case_prod_unfold lookup_delete lookup_update)

lemma client_frames_known: "client_frames c t = q # qs \<Longrightarrow> map_of (to_clients t) c = Some (q # qs)"
  by (auto simp: client_frames_def split: option.splits)

lemma flush_client_shape: "clients_shape base t \<Longrightarrow> clients_shape base (flush_client w now c t)"
proof (cases "client_frames c t")
  case (Cons q qs)
  assume s: "clients_shape base t"
  have "c \<in> fst ` set (to_clients t)"
    using client_frames_known [OF Cons] by (simp add: lookup_some_iff [symmetric])
  then show ?thesis
    using s by (auto simp: flush_client_def Let_def Cons clients_shape_drop intro!: clients_shape_set
        simp del: image_iff split: send_result.split)
qed (simp add: flush_client_def)

text \<open>One client's turn: what it takes comes off the front of its stream, and no stale frame stays.\<close>

definition client_fresh :: "time \<Rightarrow> nat \<Rightarrow> tcp_output \<Rightarrow> bool" where
  "client_fresh now c t \<longleftrightarrow>
     (\<forall>frames. map_of (to_clients t) c = Some frames \<longrightarrow>
        list_all (\<lambda>q. now - qo_enqueued_at q < CLIENT_QUEUE_TTL_S) frames)"

lemma sorted_fresh:
  "sorted (map qo_enqueued_at (q # qs)) \<Longrightarrow> \<not> is_stale now (q # qs) \<Longrightarrow>
     list_all (\<lambda>q. now - qo_enqueued_at q < 1) (q # qs)"
  by (auto simp: is_stale_def list_all_iff)

lemma flush_client_own:
  assumes w: "net_ok w" and ok: "client_ok base since published now' c t"
  shows "client_ok base since published now' c (flush_client w now c t) \<and> client_fresh now c (flush_client w now c t)"
proof (cases "client_frames c t")
  case Nil
  then have "map_of (to_clients t) c = Some frames \<Longrightarrow> frames = []" for frames
    by (simp add: client_frames_def)
  with ok Nil show ?thesis by (auto simp: flush_client_def client_fresh_def)
next
  case (Cons q qs)
  note known = client_frames_known [OF Cons]
  obtain taken where fr: "frames_ok now' (q # qs)" and tk: "map_of (to_taken t) c = Some taken"
      "stream_ok base since published c (taken @ stream_of (q # qs))"
    using ok known unfolding client_ok_def by blast
  have gone: "client_ok base since published now' c (drop_client c why t')" "client_fresh now c (drop_client c why t')" for why t'
    by (simp_all add: client_ok_def client_fresh_def lookup_delete)
  have fresh: "list_all (\<lambda>q. now - qo_enqueued_at q < 1) (q # qs)" if "\<not> is_stale now (q # qs)"
    using sorted_fresh [OF _ that] fr by (simp add: frames_ok_def)
  consider "is_stale now (q # qs)"
    | "\<not> is_stale now (q # qs)" "net_send w (to_calls t) (drop (qo_offset q) (qo_raw q)) \<in> {WouldBlock, SendError, Took 0}"
    | n where "\<not> is_stale now (q # qs)" "net_send w (to_calls t) (drop (qo_offset q) (qo_raw q)) = Took n" "n \<noteq> 0"
    by (cases "net_send w (to_calls t) (drop (qo_offset q) (qo_raw q))") auto
  then show ?thesis
  proof cases
    case 1
    then show ?thesis using gone by (simp add: flush_client_def Cons)
  next
    case 2
    have "client_ok base since published now' c (to_called t)" using ok by (simp add: client_ok_def)
    moreover have "client_fresh now c (to_called t)" using fresh [OF 2(1)] known by (simp add: client_fresh_def)
    ultimately show ?thesis using 2 gone by (auto simp: flush_client_def Cons Let_def)
  next
    case 3
    have n: "n \<le> length (qo_raw q) - qo_offset q" using w 3(2) by (force simp: net_ok_def)
    have "qo_offset q \<le> length (qo_raw q)" using fr by (simp add: frames_ok_def)
    with n have n': "qo_offset q + n \<le> length (qo_raw q)" by simp
    let ?q = "q\<lparr>qo_offset := qo_offset q + n\<rparr>"
    let ?qs = "if qo_offset ?q = length (qo_raw ?q) then qs else ?q # qs"
    let ?t = "flush_client w now c t"
    have t: "map_of (to_clients ?t) c = Some ?qs"
      "map_of (to_taken ?t) c = Some (taken @ take n (drop (qo_offset q) (qo_raw q)))"
      using 3 tk(1) by (simp_all add: flush_client_def Cons Let_def lookup_update lookup_map_entry)
    have "take n (drop (qo_offset q) (qo_raw q)) @ stream_of ?qs = stream_of (q # qs)"
      using append_take_drop_id [of n "drop (qo_offset q) (qo_raw q)"] by (auto simp: add.commute)
    then have "stream_ok base since published c ((taken @ take n (drop (qo_offset q) (qo_raw q))) @ stream_of ?qs)"
      using tk(2) unfolding append_assoc by argo
    moreover have "frames_ok now' ?qs" using fr n' by (auto simp: frames_ok_def qo_remaining_def)
    ultimately have "client_ok base since published now' c ?t" using t unfolding client_ok_def by auto
    moreover have "client_fresh now c ?t" using fresh [OF 3(1)] t(1) by (simp add: client_fresh_def)
    ultimately show ?thesis by blast
  qed
qed

lemma client_fresh_other:
  "map_of (to_clients t') c = map_of (to_clients t) c \<Longrightarrow> client_fresh now c t' = client_fresh now c t"
  by (simp add: client_fresh_def)

interpretation flush_each: each_client "flush_client w now" "\<lambda>c t. net_ok w \<and> client_ok base since published now' c t"
  "\<lambda>c t. client_ok base since published now' c t \<and> client_fresh now c t"
proof
  fix c c' :: nat and t :: tcp_output
  assume c: "c' \<noteq> c"
  from flush_client_other [OF c, of w now t] show
    "net_ok w \<and> client_ok base since published now' c' t \<Longrightarrow> net_ok w \<and> client_ok base since published now' c' (flush_client w now c t)"
    "client_ok base since published now' c' t \<and> client_fresh now c' t \<Longrightarrow>
       client_ok base since published now' c' (flush_client w now c t) \<and> client_fresh now c' (flush_client w now c t)"
    using client_ok_other [of "flush_client w now c t" c' t] client_fresh_other [of "flush_client w now c t" c' t]
    by simp_all
qed (use flush_client_own in blast)

lemma fold_shape: "(\<And>c t. clients_shape base t \<Longrightarrow> clients_shape base (f c t)) \<Longrightarrow> clients_shape base t \<Longrightarrow> clients_shape base (fold f cs t)"
  by (induction cs arbitrary: t) auto

lemma flush_inv:
  assumes w: "net_ok w" and t: "to_inv base since published now' t"
  shows "to_inv base since published now' (fst (flush w now t)) \<and>
    (is_ok (snd (flush w now t)) \<longrightarrow> (\<forall>c. client_fresh now c (fst (flush w now t))))"
proof (cases "accept_clients w t")
  case (Pair t1 r)
  have t1: "to_inv base since published now' t1" using accept_clients_inv [OF t, of w] Pair by simp
  show ?thesis
  proof (cases r)
    case (Inl e)
    with t1 Pair show ?thesis by (simp add: flush_def)
  next
    case (Inr u)
    let ?t = "fold (flush_client w now) (map fst (to_clients t1)) t1"
    have d: "distinct (map fst (to_clients t1))" using t1 by (simp add: to_inv_def clients_shape_def distinct_keys_def)
    have gone: "client_fresh now c t1" if "c \<notin> set (map fst (to_clients t1))" for c
      using that by (simp add: client_fresh_def map_of_eq_None_iff [THEN iffD2])
    have each: "client_ok base since published now' c ?t \<and> client_fresh now c ?t" for c
      by (rule flush_each.fold_after [OF d]) (use t1 w gone in \<open>auto simp: to_inv_def\<close>)
    have "clients_shape base ?t" using t1 by (intro fold_shape flush_client_shape) (simp_all add: to_inv_def)
    then have "to_inv base since published now' (to_set k v ?t)" "client_fresh now c (to_set k v ?t)" for k v c
      using each t1 by (simp_all add: to_inv_def client_ok_def client_fresh_def)
    then show ?thesis by (simp add: flush_def Pair Inr Let_def)
  qed
qed

subsection \<open>Publish\<close>

lemma publish_client_own:
  assumes ok: "client_ok base since published now' c (fst s)" and t: "now' \<le> now"
    and m: "map_of (to_clients (fst s)) c \<noteq> None"
  shows "client_ok base since (published @ [raw]) now c (fst (publish_client now raw c s))"
proof -
  let ?frames = "client_frames c (fst s)"
  consider "is_stale now ?frames \<or> length ?frames \<ge> 64 \<or> queued_bytes ?frames + int (length raw) > 64 * 1029"
    | "\<not> is_stale now ?frames" "length ?frames < 64" "queued_bytes ?frames + int (length raw) \<le> 64 * 1029"
    by fastforce
  then show ?thesis
  proof cases
    case 1
    then show ?thesis
      by (auto simp: publish_client_def Let_def case_prod_unfold client_ok_def lookup_delete)
  next
    case 2
    let ?q = "\<lparr>qo_raw = raw, qo_enqueued_at = now, qo_offset = 0\<rparr>"
    have eq: "fst (publish_client now raw c s) =
        to_add ''rtcm_tcp_bytes_queued'' (real (length raw)) (set_frames c (?frames @ [?q]) (fst s))"
      using 2 by (simp add: publish_client_def Let_def case_prod_unfold)
    show ?thesis
    proof -
      obtain frames where Some: "map_of (to_clients (fst s)) c = Some frames" using m by blast
      then have fs: "?frames = frames" by (simp add: client_frames_def)
      obtain taken where fr: "frames_ok now' frames" and tk: "map_of (to_taken (fst s)) c = Some taken"
          "stream_ok base since published c (taken @ stream_of frames)"
        using ok Some unfolding client_ok_def by blast
      have "stream_ok base since (published @ [raw]) c (taken @ stream_of (frames @ [?q]))"
        using stream_ok_publish [OF tk(2), of raw] by simp
      moreover have "frames_ok now (frames @ [?q])"
        using fr 2 t unfolding fs by (auto simp: frames_ok_def sorted_append list_all_iff qo_remaining_def)
      ultimately show ?thesis
        using tk(1) unfolding eq fs client_ok_def by (simp add: lookup_update)
    qed
  qed
qed

lemma publish_client_shape: "clients_shape base (fst s) \<Longrightarrow> clients_shape base (fst (publish_client now raw c s))"
  if "map_of (to_clients (fst s)) c \<noteq> None"
proof -
  from that have "c \<in> fst ` set (to_clients (fst s))" by (simp add: lookup_in_keys del: not_None_eq)
  then show "clients_shape base (fst s) \<Longrightarrow> clients_shape base (fst (publish_client now raw c s))"
    by (auto simp: publish_client_def Let_def case_prod_unfold intro!: clients_shape_drop clients_shape_set
        simp del: image_iff)
qed

definition connected_ok :: "(nat \<Rightarrow> bytes option) \<Rightarrow> nat \<Rightarrow> bytes list \<Rightarrow> time \<Rightarrow> time \<Rightarrow> nat \<Rightarrow> tcp_output \<times> nat \<Rightarrow> bool" where
  "connected_ok base since published now' now c s \<longleftrightarrow>
     client_ok base since published now' c (fst s) \<and> now' \<le> now \<and> map_of (to_clients (fst s)) c \<noteq> None"

interpretation publish_each: each_client "publish_client now raw" "connected_ok base since published now' now"
  "\<lambda>c s. client_ok base since (published @ [raw]) now c (fst s)"
proof
  fix c c' :: nat and s :: "tcp_output \<times> nat"
  assume c: "c' \<noteq> c"
  note other = publish_client_other [OF c, of now raw s]
  then have "client_ok base since ps t c' (fst (publish_client now raw c s)) = client_ok base since ps t c' (fst s)" for ps t
    by (intro client_ok_other) simp_all
  with other show
    "connected_ok base since published now' now c' s \<Longrightarrow> connected_ok base since published now' now c' (publish_client now raw c s)"
    "client_ok base since (published @ [raw]) now c' (fst s) \<Longrightarrow>
       client_ok base since (published @ [raw]) now c' (fst (publish_client now raw c s))"
    by (simp_all add: connected_ok_def)
qed (auto simp: connected_ok_def intro: publish_client_own)

lemma publish_fold_shape:
  assumes "distinct cs" and "clients_shape base (fst s)" and "\<And>c. c \<in> set cs \<Longrightarrow> map_of (to_clients (fst s)) c \<noteq> None"
  shows "clients_shape base (fst (fold (publish_client now raw) cs s))"
  using assms
proof (induction cs arbitrary: s)
  case (Cons c cs)
  have "map_of (to_clients (fst (publish_client now raw c s))) c' = map_of (to_clients (fst s)) c'"
    if "c' \<in> set cs" for c'
    using that Cons.prems(1) publish_client_other [of c' c now raw s] by auto
  then have "clients_shape base (fst (fold (publish_client now raw) cs (publish_client now raw c s)))"
    using Cons.prems by (intro Cons.IH publish_client_shape) auto
  then show ?case by simp
qed simp

lemma publish_fold_inv:
  assumes t: "to_inv base since published now' t" and le: "now' \<le> now"
  shows "to_inv base since (published @ [raw]) now (fst (fold (publish_client now raw) (map fst (to_clients t)) (t, 0)))"
proof -
  let ?cs = "map fst (to_clients t)"
  have d: "distinct ?cs" using t by (simp add: to_inv_def clients_shape_def distinct_keys_def)
  have known: "map_of (to_clients t) c \<noteq> None" if "c \<in> set ?cs" for c
    using that by (simp add: map_of_eq_None_iff)
  have gone: "client_ok base since ps u c t" if "c \<notin> set ?cs" for c ps u
    using that by (simp add: client_ok_def map_of_eq_None_iff [THEN iffD2])
  have "client_ok base since (published @ [raw]) now c (fst (fold (publish_client now raw) ?cs (t, 0)))" for c
    by (rule publish_each.fold_after [OF d])
      (use t le known gone in \<open>auto simp: connected_ok_def to_inv_def\<close>)
  moreover have "clients_shape base (fst (fold (publish_client now raw) ?cs (t, 0)))"
    using t known by (intro publish_fold_shape d) (auto simp: to_inv_def)
  ultimately show ?thesis using t by (simp add: to_inv_def)
qed

lemma client_ok_later: "client_ok base since published t' c t \<Longrightarrow> t' \<le> now \<Longrightarrow> client_ok base since published now c t"
proof -
  assume c: "client_ok base since published t' c t" and le: "t' \<le> now"
  have "frames_ok t' fs \<Longrightarrow> frames_ok now fs" for fs using le by (auto simp: frames_ok_def list_all_iff)
  with c show ?thesis unfolding client_ok_def by blast
qed

lemma to_inv_later: "to_inv base since published t' t \<Longrightarrow> t' \<le> now \<Longrightarrow> to_inv base since published now t"
  using client_ok_later unfolding to_inv_def by metis

text \<open>A frame counts as published when the clients could be accepted.\<close>

definition published_by :: "net \<Rightarrow> tcp_output \<Rightarrow> bytes \<Rightarrow> bytes list" where
  "published_by w t raw = (if snd (net_accept w (to_calls t)) then [] else [raw])"

lemma publish_inv:
  assumes w: "net_ok w" and t: "to_inv base since published now' t" and le: "now' \<le> now"
  shows "to_inv base since (published @ published_by w t raw) now (fst (publish w now raw t))"
proof (cases "accept_clients w t")
  case (Pair t1 r)
  have t1: "to_inv base since published now' t1" using accept_clients_inv [OF t, of w] Pair by simp
  have r: "r = (if snd (net_accept w (to_calls t)) then Inl OsError else Inr ())"
    using Pair by (auto simp: accept_clients_def case_prod_unfold Let_def)
  show ?thesis
  proof (cases "snd (net_accept w (to_calls t))")
    case True
    with Pair r t1 le show ?thesis by (simp add: publish_def published_by_def to_inv_later)
  next
    case False
    obtain t2 n where f: "fold (publish_client now raw) (map fst (to_clients t1)) (t1, 0) = (t2, n)"
      by (rule prod.exhaust)
    have "to_inv base since (published @ [raw]) now t2" using publish_fold_inv [OF t1 le, of raw] f by simp
    from flush_inv [OF w this, of now] have "to_inv base since (published @ [raw]) now (fst (flush w now t2))" by blast
    then show ?thesis
      using Pair r False f by (cases "flush w now t2") (auto simp: publish_def published_by_def split: sum.split)
  qed
qed


subsection \<open>The output as a machine\<close>

text \<open>The state has the frames published and the time besides; events bring the time passed.\<close>

datatype out_event = FlushAfter time | PublishAfter time bytes

fun out_step :: "net \<Rightarrow> bytes list \<times> time \<times> tcp_output \<Rightarrow> out_event \<Rightarrow> bytes list \<times> time \<times> tcp_output" where
  "out_step w (published, now, t) (FlushAfter dt) =
     (let now = now + max 0 dt in (published, now, fst (flush w now t)))"
| "out_step w (published, now, t) (PublishAfter dt raw) =
     (let now = now + max 0 dt in (published @ published_by w t raw, now, fst (publish w now raw t)))"

definition out_inv :: "(nat \<Rightarrow> bytes option) \<Rightarrow> nat \<Rightarrow> bytes list \<times> time \<times> tcp_output \<Rightarrow> bool" where
  "out_inv base since s \<longleftrightarrow> to_inv base since (fst s) (fst (snd s)) (snd (snd s))"

lemma out_step_inv: "net_ok w \<and> out_inv base since s \<Longrightarrow> out_inv base since (out_step w s e)"
proof (cases e)
  case (FlushAfter dt)
  assume s: "net_ok w \<and> out_inv base since s"
  then have "to_inv base since (fst s) (fst (snd s) + max 0 dt) (snd (snd s))"
    using to_inv_later [of base since "fst s" "fst (snd s)" "snd (snd s)" "fst (snd s) + max 0 dt"] by (simp add: out_inv_def)
  with s FlushAfter flush_inv show ?thesis by (cases s) (simp add: out_inv_def Let_def)
next
  case (PublishAfter dt raw)
  assume s: "net_ok w \<and> out_inv base since s"
  with PublishAfter publish_inv [of w base since "fst s" "fst (snd s)" "snd (snd s)" "fst (snd s) + max 0 dt" raw]
  show ?thesis by (cases s) (simp add: out_inv_def Let_def)
qed

interpretation out: machine "out_step w" "\<lambda>s. net_ok w \<and> out_inv base since s"
  using out_step_inv by unfold_locales blast

lemma new_tcp_output_inv: "to_inv (\<lambda>_. None) 0 [] now (new_tcp_output ms)"
  by (simp add: to_inv_def clients_shape_def client_ok_def new_tcp_output_def)

lemma out_run_inv:
  "net_ok w \<Longrightarrow> run (out_step w) ([], t0, new_tcp_output ms) es = (published, now, t) \<Longrightarrow>
     to_inv (\<lambda>_. None) 0 published now t"
  using out.run_inv [where w = w and base = "\<lambda>_. None" and since = 0 and s = "([], t0, new_tcp_output ms)" and es = es]
    new_tcp_output_inv [of t0 ms]
  by (simp add: out_inv_def)

lemma out_run_prefix: "prefix (fst s) (fst (run (out_step w) s es))"
proof (induction es arbitrary: s)
  case (Cons e es)
  have "prefix (fst s) (fst (out_step w s e))" by (cases s; cases e) (simp_all add: Let_def)
  then show ?case using Cons [of "out_step w s e"] by (auto intro: prefix_order.trans)
qed simp

text \<open>What a connected client took, and what waits for it.\<close>

definition client_stream :: "nat \<Rightarrow> tcp_output \<Rightarrow> bytes option" where
  "client_stream c t =
     (case map_of (to_clients t) c of
        None \<Rightarrow> None
      | Some frames \<Rightarrow> map_option (\<lambda>taken. taken @ stream_of frames) (map_of (to_taken t) c))"

lemma client_streamD:
  assumes "to_inv base since published now t" and "client_stream c t = Some s"
  shows "stream_ok base since published c s"
  using assms by (fastforce simp: to_inv_def client_ok_def client_stream_def split: option.splits)

lemma client_stream_exists:
  "to_inv base since published now t \<Longrightarrow> client_stream c t = None \<longleftrightarrow> map_of (to_clients t) c = None"
  by (fastforce simp: to_inv_def client_ok_def client_stream_def split: option.splits)

text \<open>The same clients, seen from now on.\<close>

lemma to_inv_rebase:
  assumes "to_inv base since published now t"
  shows "to_inv (\<lambda>c. client_stream c t) (length published) published now t"
proof -
  have "client_ok (\<lambda>c. client_stream c t) (length published) published now c t" for c
    using assms by (fastforce simp: to_inv_def client_ok_def stream_ok_def client_stream_def)
  moreover have "clients_shape (\<lambda>c. client_stream c t) t"
    using assms unfolding to_inv_def clients_shape_def client_stream_def
    by (auto simp: lookup_some_iff [symmetric] split: option.splits simp del: image_iff)
  ultimately show ?thesis by (simp add: to_inv_def)
qed

subsection \<open>Properties\<close>

text \<open>
  Slow clients cost nothing but themselves: whatever the sockets do, there are never more
  than 16 clients, no client ever has more than 64 frames or 64 * 1029 bytes waiting, and after a flush
  that does not raise no frame has been waiting for a second or longer.
\<close>

theorem tcp_output_bounded:
  assumes "net_ok w" and "run (out_step w) ([], t0, new_tcp_output ms) es = (published, now, t)"
  shows "length (to_clients t) \<le> MAX_CLIENTS \<and>
    (\<forall>c frames. map_of (to_clients t) c = Some frames \<longrightarrow>
       length frames \<le> MAX_CLIENT_QUEUE_FRAMES \<and> queued_bytes frames \<le> MAX_CLIENT_QUEUE_BYTES) \<and>
    (is_ok (snd (flush w now' t)) \<longrightarrow>
       (\<forall>c frames. map_of (to_clients (fst (flush w now' t))) c = Some frames \<longrightarrow>
          list_all (\<lambda>q. now' - qo_enqueued_at q < CLIENT_QUEUE_TTL_S) frames))"
proof -
  have t: "to_inv (\<lambda>_. None) 0 published now t" using out_run_inv [OF assms] .
  from flush_inv [OF assms(1) t, of now'] t show ?thesis
    unfolding to_inv_def clients_shape_def client_ok_def client_fresh_def frames_ok_def by blast
qed

text \<open>
  Property C5. No client ever sees a torn, reordered or incomplete stream, however its socket splits or
  delays the sends. Take any two moments of a run of flushes and publications, and what a connected
  client's socket took together with what waits for it. If the client was connected at the first
  moment too, it is what it had then and exactly the frames published since, whole and in order; if it
  came in between, it is exactly the frames published since some moment in between.
\<close>

theorem tcp_streams_whole:
  assumes "net_ok w" and "run (out_step w) ([], t0, new_tcp_output ms) es = (published, now, t)"
    and "run (out_step w) (published, now, t) es' = (published', now', t')"
    and "client_stream c t' = Some s'"
  shows "case client_stream c t of
      Some s \<Rightarrow> \<exists>frames. published' = published @ frames \<and> s' = s @ concat frames
    | None \<Rightarrow> \<exists>k\<ge>length published. k \<le> length published' \<and> s' = concat (drop k published')"
proof -
  have "out_inv (\<lambda>c. client_stream c t) (length published) (published, now, t)"
    using to_inv_rebase [OF out_run_inv [OF assms(1,2)]] by (simp add: out_inv_def)
  with assms(1) have "out_inv (\<lambda>c. client_stream c t) (length published) (run (out_step w) (published, now, t) es')"
    using out.run_inv by blast
  then have "stream_ok (\<lambda>c. client_stream c t) (length published) published' c s'"
    unfolding assms(3) out_inv_def using client_streamD [OF _ assms(4)] by simp
  then show ?thesis
    using out_run_prefix [of "(published, now, t)" w es'] assms(3)
    by (fastforce simp: stream_ok_def prefix_def split: option.splits)
qed

subsection \<open>Witnesses\<close>

text \<open>One client comes at the first call; its socket takes two bytes at a time.\<close>

definition sample_net :: net where
  "sample_net = \<lparr>net_accept = \<lambda>i. (if i = 0 then 1 else 0, False),
     net_send = \<lambda>i data. Took (min 2 (length data))\<rparr>"

lemma sample_net_ok: "net_ok sample_net"
  by (simp add: net_ok_def sample_net_def)

lemma sample_published:
  "run (out_step sample_net) ([], 0, new_tcp_output []) [PublishAfter 1 [1, 2, 3]] =
     ([[1, 2, 3]], 1, snd (snd (run (out_step sample_net) ([], 0, new_tcp_output []) [PublishAfter 1 [1, 2, 3]])))"
  by (simp add: Let_def published_by_def sample_net_def)

lemma sample_clients:
  "to_clients (snd (snd (run (out_step sample_net) ([], 0, new_tcp_output []) [PublishAfter 1 [1, 2, 3]]))) =
     [(0, [\<lparr>qo_raw = [1, 2, 3], qo_enqueued_at = 1, qo_offset = 2\<rparr>])]"
  by (simp add: Let_def sample_net_def publish_def accept_clients_def new_tcp_output_def flush_def
      publish_client_def flush_client_def client_frames_def is_stale_def to_add_def set_frames_def to_called_def numeral_eq_Suc)

lemma tcp_output_bounded_witness:
  "length (to_clients (snd (snd (run (out_step sample_net) ([], 0, new_tcp_output []) [PublishAfter 1 [1, 2, 3]])))) \<le> 16"
  using tcp_output_bounded [OF sample_net_ok sample_published] by blast

lemma sample_streams:
  "client_stream 0 (snd (snd (run (out_step sample_net) ([], 0, new_tcp_output []) [PublishAfter 1 [1, 2, 3]]))) =
     Some [1, 2, 3]"
  "client_stream 0 (snd (snd (run (out_step sample_net) ([], 0, new_tcp_output [])
     [PublishAfter 1 [1, 2, 3], PublishAfter 0 [4]]))) \<noteq> None"
  by (simp_all add: Let_def sample_net_def publish_def accept_clients_def new_tcp_output_def flush_def client_stream_def
      publish_client_def flush_client_def client_frames_def is_stale_def to_add_def set_frames_def to_called_def
      to_set_def qo_remaining_def numeral_eq_Suc)

lemma tcp_streams_whole_witness:
  "\<exists>frames. fst (run (out_step sample_net) ([], 0, new_tcp_output []) [PublishAfter 1 [1, 2, 3], PublishAfter 0 [4]]) =
       [[1, 2, 3]] @ frames \<and>
     client_stream 0 (snd (snd (run (out_step sample_net) ([], 0, new_tcp_output [])
       [PublishAfter 1 [1, 2, 3], PublishAfter 0 [4]]))) = Some ([1, 2, 3] @ concat frames)"
proof -
  let ?s = "run (out_step sample_net) ([], 0, new_tcp_output []) [PublishAfter 1 [1, 2, 3]]"
  let ?s' = "run (out_step sample_net) ([], 0, new_tcp_output []) [PublishAfter 1 [1, 2, 3], PublishAfter 0 [4]]"
  obtain s' where s': "client_stream 0 (snd (snd ?s')) = Some s'" using sample_streams(2) by blast
  have "run (out_step sample_net) ([[1, 2, 3]], 1, snd (snd ?s)) [PublishAfter 0 [4]] = ?s'"
    unfolding sample_published [symmetric] by (simp del: out_step.simps)
  then have "run (out_step sample_net) ([[1, 2, 3]], 1, snd (snd ?s)) [PublishAfter 0 [4]] =
      (fst ?s', fst (snd ?s'), snd (snd ?s'))" by simp
  from tcp_streams_whole [OF sample_net_ok sample_published this s'] show ?thesis
    unfolding sample_streams(1) s' option.case by simp
qed

end
