(* ===== verification/Robot_Service.thy ===== *)
theory Robot_Service
  imports Reassembler Tcp_Output Modem
begin

text \<open>
  The robot's service loop, \<open>RobotService\<close> of \<open>host/mowgli_lora/service.py\<close>: what the modem received
  is decoded, fragments are reassembled, and complete RTCM frames are published to the TCP clients.
  The metrics registry is one object for the modem and the output; it is kept with the modem.
\<close>

record robot_service =
  rs_modem :: modem
  rs_output :: tcp_output
  rs_reassembler :: reassembler

subsection \<open>The code\<close>

definition new_robot_service :: "modem \<Rightarrow> tcp_output \<Rightarrow> robot_service" where
  "new_robot_service m t = \<lparr>rs_modem = m, rs_output = t, rs_reassembler = new_reassembler\<rparr>"

definition rs_add :: "string \<Rightarrow> real \<Rightarrow> robot_service \<Rightarrow> robot_service" where
  "rs_add name n r = r\<lparr>rs_modem := count name n (rs_modem r)\<rparr>"

definition rs_set :: "string \<Rightarrow> real \<Rightarrow> robot_service \<Rightarrow> robot_service" where
  "rs_set name v r = r\<lparr>rs_modem := gauge name v (rs_modem r)\<rparr>"

text \<open>A call of the output, on the common metrics registry.\<close>

definition on_output :: "(tcp_output \<Rightarrow> tcp_output \<times> 'a) \<Rightarrow> robot_service \<Rightarrow> robot_service \<times> 'a" where
  "on_output f r =
     (let (t, x) = f ((rs_output r)\<lparr>to_metrics := md_metrics (rs_modem r)\<rparr>)
      in (r\<lparr>rs_output := t, rs_modem := (rs_modem r)\<lparr>md_metrics := to_metrics t\<rparr>\<rparr>, x))"

text \<open>\<open>time.monotonic()\<close>.\<close>

definition robot_clock :: "env \<Rightarrow> robot_service \<Rightarrow> robot_service \<times> time" where
  "robot_clock w r = (r\<lparr>rs_modem := called (rs_modem r)\<rparr>, env_clock w (md_calls (rs_modem r)))"

text \<open>What the loop does with a complete frame.\<close>

definition deliver :: "env \<Rightarrow> net \<Rightarrow> bytes \<Rightarrow> robot_service \<Rightarrow> robot_service \<times> unit result" where
  "deliver w wn raw r =
     (let r = rs_add ''rtcm_output_bytes'' (real (length raw))
                (rs_add ''rtcm_frames_delivered'' 1 (rs_add ''rtcm_frames_completed'' 1 r));
          (r, t) = robot_clock w r
      in case on_output (publish wn t raw) r of
           (r, Inl e) \<Rightarrow> (r, Inl e)
         | (r, Inr delivered) \<Rightarrow> (rs_add ''rtcm_tcp_clients_delivered'' (real delivered) r, Inr ()))"

text \<open>The body of the loop over the received payloads.\<close>

definition robot_payload :: "env \<Rightarrow> net \<Rightarrow> time \<Rightarrow> bytes \<Rightarrow> robot_service \<Rightarrow> robot_service \<times> unit result" where
  "robot_payload w wn now payload r =
     (case app_decode payload of
        Inl (ApplicationError _) \<Rightarrow> (rs_add ''application_decode_failures'' 1 r, Inr ())
      | Inl e \<Rightarrow> (r, Inl e)
      | Inr f \<Rightarrow>
          (if af_typ f \<noteq> RTCM_FRAGMENT then (rs_add ''application_non_rtcm_frames'' 1 r, Inr ())
           else (let (ra, res) = ra_add now f (rs_reassembler r);
                     r = r\<lparr>rs_reassembler := ra\<rparr>
                 in case res of
                      Inl (ApplicationError _) \<Rightarrow> (rs_add ''rtcm_fragments_rejected'' 1 r, Inr ())
                    | Inl e \<Rightarrow> (r, Inl e)
                    | Inr None \<Rightarrow> (rs_add ''rtcm_fragments_accepted'' 1 r, Inr ())
                    | Inr (Some raw) \<Rightarrow> deliver w wn raw (rs_add ''rtcm_fragments_accepted'' 1 r))))"

fun robot_payloads :: "env \<Rightarrow> net \<Rightarrow> time \<Rightarrow> bytes list \<Rightarrow> robot_service \<Rightarrow> robot_service \<times> unit result" where
  "robot_payloads w wn now [] r = (r, Inr ())"
| "robot_payloads w wn now (p # ps) r =
     (case robot_payload w wn now p r of
        (r, Inl e) \<Rightarrow> (r, Inl e)
      | (r, Inr _) \<Rightarrow> robot_payloads w wn now ps r)"

text \<open>What \<open>step\<close> does after the loop, and the step.\<close>

definition robot_finish :: "env \<Rightarrow> net \<Rightarrow> time \<Rightarrow> robot_service \<Rightarrow> robot_service \<times> unit result" where
  "robot_finish w wn now r0 =
     (let (r, t) = robot_clock w (r0\<lparr>rs_reassembler := fst (ra_expire now (rs_reassembler r0))\<rparr>)
      in case on_output (flush wn t) r of
           (r, Inl e) \<Rightarrow> (r, Inl e)
         | (r, Inr _) \<Rightarrow>
             (rs_set ''rtcm_reassembly_conflicts'' (real (ra_conflict_count (rs_reassembler r)))
                (rs_set ''rtcm_reassembly_timeouts'' (real (ra_timeout_count (rs_reassembler r))) r), Inr ()))"

definition robot_step :: "env \<Rightarrow> net \<Rightarrow> robot_service \<Rightarrow> robot_service \<times> unit result" where
  "robot_step w wn r0 =
     (let (r, now) = robot_clock w r0
      in case modem_tick w True (rs_modem r) of
           (m, Inl e) \<Rightarrow> (r\<lparr>rs_modem := m\<rparr>, Inl e)
         | (m, Inr payloads) \<Rightarrow>
             (case robot_payloads w wn now payloads (r\<lparr>rs_modem := m\<rparr>) of
                (r, Inl e) \<Rightarrow> (r, Inl e)
              | (r, Inr _) \<Rightarrow> robot_finish w wn now r))"

subsection \<open>What publishing does to the metrics\<close>

text \<open>The output only touches its own counters.\<close>

abbreviation (input) foreign :: "string \<Rightarrow> bool" where "foreign k \<equiv> take 8 k \<noteq> ''rtcm_tcp''"

lemma foreign_accept: "foreign k \<Longrightarrow> metric_get k (to_metrics (accept_waiting n t)) = metric_get k (to_metrics t)"
  by (induction n t rule: accept_waiting.induct) (auto simp: to_add_def)

lemma foreign_drop: "foreign k \<Longrightarrow> metric_get k (to_metrics (drop_client c why t)) = metric_get k (to_metrics t)"
  by (auto simp: drop_client_def Let_def to_add_def)

lemma foreign_flush_client:
  "foreign k \<Longrightarrow> metric_get k (to_metrics (flush_client w now c t)) = metric_get k (to_metrics t)"
  by (auto simp: flush_client_def Let_def foreign_drop to_add_def to_called_def set_frames_def
      split: list.split send_result.split)

lemma foreign_publish_client:
  "foreign k \<Longrightarrow> metric_get k (to_metrics (fst (publish_client now raw c s))) = metric_get k (to_metrics (fst s))"
  by (auto simp: publish_client_def Let_def case_prod_unfold foreign_drop to_add_def set_frames_def)

lemma foreign_flush: "foreign k \<Longrightarrow> metric_get k (to_metrics (fst (flush w now t))) = metric_get k (to_metrics t)"
proof -
  assume k: "foreign k"
  have "metric_get k (to_metrics (fold (flush_client w now) cs t)) = metric_get k (to_metrics t)" for cs t
    using k by (induction cs arbitrary: t) (simp_all add: foreign_flush_client)
  with k show ?thesis
    by (auto simp: flush_def Let_def accept_clients_def case_prod_unfold foreign_accept to_set_def to_called_def)
qed

lemma foreign_publish: "foreign k \<Longrightarrow> metric_get k (to_metrics (fst (publish w now raw t))) = metric_get k (to_metrics t)"
proof -
  assume k: "foreign k"
  have "metric_get k (to_metrics (fst (fold (publish_client now raw) cs s))) = metric_get k (to_metrics (fst s))" for cs s
    using k by (induction cs arbitrary: s) (simp_all add: foreign_publish_client)
  moreover have "metric_get k (to_metrics (fst (accept_clients w t))) = metric_get k (to_metrics t)"
    using k by (simp add: accept_clients_def Let_def case_prod_unfold foreign_accept to_called_def)
  ultimately show ?thesis
    using k foreign_flush [OF k, of w now]
    by (auto simp: publish_def Let_def case_prod_unfold split: sum.split)
qed


subsection \<open>The invariant\<close>

definition clock_ok :: "env \<Rightarrow> bool" where
  "clock_ok w \<longleftrightarrow> (\<forall>i j. i \<le> j \<longrightarrow> env_clock w i \<le> env_clock w j)"

definition robot_inv :: "env \<Rightarrow> (nat \<Rightarrow> bytes option) \<Rightarrow> nat \<Rightarrow> bytes list \<Rightarrow> robot_service \<Rightarrow> bool" where
  "robot_inv w base since published r \<longleftrightarrow>
     modem_inv (rs_modem r) \<and> ra_inv (rs_reassembler r) \<and> list_all valid_rtcm3 published \<and>
     (\<exists>i\<le>md_calls (rs_modem r). to_inv base since published (env_clock w i) (rs_output r))"

lemma to_inv_metrics [simp]: "to_inv base since published now (t\<lparr>to_metrics := ms\<rparr>) = to_inv base since published now t"
  by (simp add: to_inv_def clients_shape_def client_ok_def)

lemma modem_inv_metrics:
  assumes "modem_inv m" and "\<And>k. foreign k \<Longrightarrow> metric_get k ms = metric_get k (md_metrics m)"
  shows "modem_inv (m\<lparr>md_metrics := ms\<rparr>)"
proof -
  have "gauges (m\<lparr>md_metrics := ms\<rparr>) = gauges m"
    by (simp add: gauges_def assms(2))
  then show ?thesis using assms(1) by (simp add: modem_inv_def)
qed

lemma rs_simps [simp]:
  "rs_modem (rs_add k n r) = count k n (rs_modem r)" "rs_output (rs_add k n r) = rs_output r"
  "rs_reassembler (rs_add k n r) = rs_reassembler r"
  "rs_modem (rs_set k v r) = gauge k v (rs_modem r)" "rs_output (rs_set k v r) = rs_output r"
  "rs_reassembler (rs_set k v r) = rs_reassembler r"
  by (simp_all add: rs_add_def rs_set_def)

lemma robot_inv_changes [simp]:
  "k \<notin> gauge_names \<Longrightarrow> robot_inv w base since published (rs_add k n r) = robot_inv w base since published r"
  "k \<notin> gauge_names \<Longrightarrow> robot_inv w base since published (rs_set k v r) = robot_inv w base since published r"
  by (simp_all add: robot_inv_def)

lemma robot_clock_inv:
  "robot_inv w base since published r \<Longrightarrow> robot_inv w base since published (fst (robot_clock w r))"
  by (auto simp: robot_inv_def robot_clock_def intro: le_SucI)

lemma flush_error: "snd (flush w now t) = Inl e \<Longrightarrow> e = OsError \<and> snd (net_accept w (to_calls t))"
  by (auto simp: flush_def accept_clients_def Let_def case_prod_unfold split: sum.splits if_splits)

lemma publish_error: "snd (publish w now raw t) = Inl e \<Longrightarrow> e = OsError \<and> (\<exists>i. snd (net_accept w i))"
  using flush_error [of w now] 
  by (fastforce simp: publish_def accept_clients_def Let_def case_prod_unfold split: sum.splits if_splits)

text \<open>The only exception that can leave a step is the one of \<open>accept\<close>.\<close>

definition raises_ok :: "net \<Rightarrow> 'a result \<Rightarrow> bool" where
  "raises_ok wn res \<longleftrightarrow> (\<forall>e. res = Inl e \<longrightarrow> e = OsError \<and> (\<exists>i. snd (net_accept wn i)))"

lemma raises_ok_Inr [simp]: "raises_ok wn (Inr x)"
  by (simp add: raises_ok_def)

text \<open>The frame that the body of the loop publishes.\<close>

definition published_frame :: "time \<Rightarrow> bytes \<Rightarrow> robot_service \<Rightarrow> bytes list" where
  "published_frame now payload r =
     (case app_decode payload of
        Inl e \<Rightarrow> []
      | Inr f \<Rightarrow>
          (if af_typ f \<noteq> RTCM_FRAGMENT then []
           else case snd (ra_add now f (rs_reassembler r)) of Inr (Some raw) \<Rightarrow> [raw] | _ \<Rightarrow> []))"

lemma deliver_inv:
  assumes w: "clock_ok w" "net_ok wn" and r: "robot_inv w base since published r" and v: "valid_rtcm3 raw"
  shows "\<exists>t. robot_inv w base since (published @ published_by wn t raw) (fst (deliver w wn raw r)) \<and>
    raises_ok wn (snd (deliver w wn raw r))"
proof -
  let ?r = "rs_add ''rtcm_output_bytes'' (real (length raw))
    (rs_add ''rtcm_frames_delivered'' 1 (rs_add ''rtcm_frames_completed'' 1 r))"
  obtain r1 t where c: "robot_clock w ?r = (r1, t)" by (rule prod.exhaust)
  have r1: "robot_inv w base since published r1" using robot_clock_inv [of w base since published ?r] r c by simp
  have t: "t = env_clock w (md_calls (rs_modem r))" "md_calls (rs_modem r1) = Suc (md_calls (rs_modem r))"
    "rs_output r1 = rs_output r"
    using c by (auto simp: robot_clock_def)
  let ?o = "(rs_output r1)\<lparr>to_metrics := md_metrics (rs_modem r1)\<rparr>"
  obtain o' res where p: "publish wn t raw ?o = (o', res)" by (rule prod.exhaust)
  obtain i where i: "i \<le> md_calls (rs_modem r)" "to_inv base since published (env_clock w i) ?o"
    using r t(3) by (auto simp: robot_inv_def)
  have "env_clock w i \<le> t" using w(1) i(1) by (simp add: clock_ok_def t)
  from publish_inv [OF w(2) i(2) this, of raw] p
  have o: "to_inv base since (published @ published_by wn ?o raw) t o'" by simp
  have "foreign k \<Longrightarrow> metric_get k (to_metrics o') = metric_get k (md_metrics (rs_modem r1))" for k
    using foreign_publish [of k wn t raw ?o] p by simp
  then have m: "modem_inv ((rs_modem r1)\<lparr>md_metrics := to_metrics o'\<rparr>)"
    using r1 by (intro modem_inv_metrics) (simp_all add: robot_inv_def)
  let ?r2 = "r1\<lparr>rs_output := o', rs_modem := (rs_modem r1)\<lparr>md_metrics := to_metrics o'\<rparr>\<rparr>"
  have "list_all valid_rtcm3 (published @ published_by wn ?o raw)"
    using r v by (auto simp: robot_inv_def published_by_def)
  then have r2: "robot_inv w base since (published @ published_by wn ?o raw) ?r2"
    using r1 m o t(1,2) by (auto simp: robot_inv_def intro!: exI [of _ "md_calls (rs_modem r)"])
  have eq: "deliver w wn raw r = (case res of Inl e \<Rightarrow> (?r2, Inl e)
      | Inr d \<Rightarrow> (rs_add ''rtcm_tcp_clients_delivered'' (real d) ?r2, Inr ()))"
    by (simp add: deliver_def on_output_def Let_def c p)
  show ?thesis
  proof (cases res)
    case (Inl e)
    have "raises_ok wn (Inl e :: unit result)" using publish_error [of wn t raw ?o e] p Inl by (simp add: raises_ok_def)
    with r2 Inl show ?thesis unfolding eq by auto
  next
    case (Inr d)
    with r2 show ?thesis unfolding eq by (intro exI [of _ "?o"]) simp
  qed
qed

lemma app_decode_error: "app_decode raw = Inl e \<Longrightarrow> \<exists>m. e = ApplicationError m"
proof -
  assume e: "app_decode raw = Inl e"
  show ?thesis
  proof (cases "20 \<le> length raw")
    case False
    with e show ?thesis by (auto simp: app_decode_def)
  next
    case True
    then have "\<exists>a b c d. struct_unpack_from [U 4, U 4, U 2, U 2] raw 6 = Inr [a, b, c, d]"
      by (simp add: struct_unpack_from_def)
    with e show ?thesis by (auto simp: app_decode_def Let_def split: if_splits)
  qed
qed

lemma robot_payload_inv:
  assumes w: "clock_ok w" "net_ok wn" and r: "robot_inv w base since published r"
  shows "\<exists>ps. robot_inv w base since (published @ ps) (fst (robot_payload w wn now payload r)) \<and>
    raises_ok wn (snd (robot_payload w wn now payload r)) \<and>
    ((\<forall>i. \<not> snd (net_accept wn i)) \<longrightarrow> ps = published_frame now payload r)"
proof (cases "app_decode payload")
  case (Inl e)
  then obtain m where "e = ApplicationError m" using app_decode_error by blast
  with Inl r show ?thesis by (intro exI [of _ "[]"]) (simp add: robot_payload_def published_frame_def)
next
  case (Inr f)
  show ?thesis
  proof (cases "af_typ f = RTCM_FRAGMENT")
    case False
    with Inr r show ?thesis by (intro exI [of _ "[]"]) (simp add: robot_payload_def published_frame_def)
  next
    case True
    obtain ra res where a: "ra_add now f (rs_reassembler r) = (ra, res)" by (rule prod.exhaust)
    have "ra_inv (rs_reassembler r)" using r by (simp add: robot_inv_def)
    from ra_add_ok [OF this, of now f] a have ra: "ra_inv ra"
      "ra_result_ok (af_sender_session f, af_message_id f) ra res" by simp_all
    let ?r = "r\<lparr>rs_reassembler := ra\<rparr>"
    have r1: "robot_inv w base since published ?r" using r ra(1) by (simp add: robot_inv_def)
    consider m where "res = Inl (ApplicationError m)" | "res = Inr None"
      | raw where "res = Inr (Some raw)" "valid_rtcm3 raw"
      using ra(2) by (cases res) (auto simp: ra_result_ok_def ra_errors_def split: option.splits)
    then show ?thesis
    proof cases
      case 3
      from r1 have "robot_inv w base since published (rs_add ''rtcm_fragments_accepted'' 1 ?r)" by simp
      from deliver_inv [OF w this 3(2)] obtain t where
        "robot_inv w base since (published @ published_by wn t raw)
           (fst (deliver w wn raw (rs_add ''rtcm_fragments_accepted'' 1 ?r)))"
        "raises_ok wn (snd (deliver w wn raw (rs_add ''rtcm_fragments_accepted'' 1 ?r)))" by blast
      then show ?thesis using Inr True a 3
        by (intro exI [of _ "published_by wn t raw"]) (simp add: robot_payload_def published_frame_def published_by_def)
    qed (use r1 Inr True a in \<open>intro exI [of _ "[]"], simp add: robot_payload_def published_frame_def\<close>)+
  qed
qed


lemma robot_payloads_inv:
  assumes w: "clock_ok w" "net_ok wn"
  shows "robot_inv w base since published r \<Longrightarrow> \<exists>ps. robot_inv w base since (published @ ps) (fst (robot_payloads w wn now payloads r)) \<and>
    raises_ok wn (snd (robot_payloads w wn now payloads r))"
proof (induction payloads arbitrary: published r)
  case Nil
  then show ?case by (intro exI [of _ "[]"]) simp
next
  case (Cons p payloads)
  obtain r1 res where p: "robot_payload w wn now p r = (r1, res)" by (rule prod.exhaust)
  from robot_payload_inv [OF w Cons.prems, of now p] p obtain ps where
    r1: "robot_inv w base since (published @ ps) r1" "raises_ok wn res" by auto
  show ?case
  proof (cases res)
    case (Inl e)
    with r1 p show ?thesis by (auto simp: raises_ok_def)
  next
    case (Inr u)
    from Cons.IH [OF r1(1)] obtain qs where
      "robot_inv w base since ((published @ ps) @ qs) (fst (robot_payloads w wn now payloads r1))"
      "raises_ok wn (snd (robot_payloads w wn now payloads r1))" by blast
    then show ?thesis using p Inr by (intro exI [of _ "ps @ qs"]) simp
  qed
qed

lemma robot_flush_inv:
  assumes w: "net_ok wn" and r: "robot_inv w base since published r"
  shows "robot_inv w base since published (fst (on_output (flush wn t) r)) \<and> raises_ok wn (snd (on_output (flush wn t) r))"
proof -
  let ?o = "(rs_output r)\<lparr>to_metrics := md_metrics (rs_modem r)\<rparr>"
  obtain o' res where f: "flush wn t ?o = (o', res)" by (rule prod.exhaust)
  obtain i where i: "i \<le> md_calls (rs_modem r)" "to_inv base since published (env_clock w i) ?o"
    using r by (auto simp: robot_inv_def)
  from flush_inv [OF w i(2), of t] f have o: "to_inv base since published (env_clock w i) o'" by simp
  have "foreign k \<Longrightarrow> metric_get k (to_metrics o') = metric_get k (md_metrics (rs_modem r))" for k
    using foreign_flush [of k wn t ?o] f by simp
  then have "modem_inv ((rs_modem r)\<lparr>md_metrics := to_metrics o'\<rparr>)"
    using r by (intro modem_inv_metrics) (simp_all add: robot_inv_def)
  then have "robot_inv w base since published (r\<lparr>rs_output := o', rs_modem := (rs_modem r)\<lparr>md_metrics := to_metrics o'\<rparr>\<rparr>)"
    using r i(1) o by (auto simp: robot_inv_def)
  moreover have "raises_ok wn res" using flush_error [of wn t ?o] f by (auto simp: raises_ok_def)
  ultimately show ?thesis by (simp add: on_output_def Let_def f)
qed

lemma robot_finish_inv:
  assumes w: "net_ok wn" and r: "robot_inv w base since published r"
  shows "robot_inv w base since published (fst (robot_finish w wn now r)) \<and>
    raises_ok wn (snd (robot_finish w wn now r)) \<and>
    rs_reassembler (fst (robot_finish w wn now r)) = fst (ra_expire now (rs_reassembler r))"
proof -
  let ?r = "r\<lparr>rs_reassembler := fst (ra_expire now (rs_reassembler r))\<rparr>"
  obtain r1 t where c: "robot_clock w ?r = (r1, t)" by (rule prod.exhaust)
  have "robot_inv w base since published ?r" using r by (simp add: robot_inv_def ra_expire_inv)
  then have "robot_inv w base since published r1" using robot_clock_inv [of w base since published ?r] c by simp
  from robot_flush_inv [OF w this, of t] obtain r2 res where
    f: "on_output (flush wn t) r1 = (r2, res)" "robot_inv w base since published r2" "raises_ok wn res"
    by (metis prod.collapse)
  have "rs_reassembler r2 = fst (ra_expire now (rs_reassembler r))"
    using f(1) c by (auto simp: on_output_def robot_clock_def Let_def split: prod.splits)
  moreover have "robot_finish w wn now r = (case res of Inl e \<Rightarrow> (r2, Inl e) | Inr _ \<Rightarrow>
      (rs_set ''rtcm_reassembly_conflicts'' (real (ra_conflict_count (rs_reassembler r2)))
         (rs_set ''rtcm_reassembly_timeouts'' (real (ra_timeout_count (rs_reassembler r2))) r2), Inr ()))"
    by (simp add: robot_finish_def c f(1))
  ultimately show ?thesis using f(2,3) by (cases res) (auto simp: raises_ok_def)
qed

lemma robot_tick_inv:
  assumes w: "env_ok w" and r: "robot_inv w base since published r"
  obtains r1 now m payloads where "robot_clock w r = (r1, now)" "modem_tick w True (rs_modem r1) = (m, Inr payloads)"
    "robot_inv w base since published (r1\<lparr>rs_modem := m\<rparr>)" "rs_reassembler r1 = rs_reassembler r"
    "rs_output r1 = rs_output r"
proof -
  obtain r1 now where c: "robot_clock w r = (r1, now)" by (rule prod.exhaust)
  have r1: "robot_inv w base since published r1" using robot_clock_inv [OF r] c by simp
  then have "modem_inv (rs_modem r1)" by (simp add: robot_inv_def)
  from modem_tick_step [OF w(1) this] obtain m payloads where
    m: "modem_tick w True (rs_modem r1) = (m, Inr payloads)" "step_ok w (rs_modem r1) m" by blast
  have "robot_inv w base since published (r1\<lparr>rs_modem := m\<rparr>)"
    using r1 m(2) by (auto simp: robot_inv_def step_ok_def intro: order_trans)
  then show ?thesis using that c m(1) by (auto simp: robot_clock_def)
qed

lemma robot_step_inv:
  assumes w: "env_ok w" "clock_ok w" "net_ok wn" and r: "robot_inv w base since published r"
  shows "\<exists>ps. robot_inv w base since (published @ ps) (fst (robot_step w wn r)) \<and> raises_ok wn (snd (robot_step w wn r))"
proof -
  obtain r1 now m payloads where c: "robot_clock w r = (r1, now)"
    and m: "modem_tick w True (rs_modem r1) = (m, Inr payloads)"
    and i: "robot_inv w base since published (r1\<lparr>rs_modem := m\<rparr>)"
    using robot_tick_inv [OF w(1) r] .
  from robot_payloads_inv [OF w(2,3) i, of now payloads] obtain ps r2 res where
    p: "robot_payloads w wn now payloads (r1\<lparr>rs_modem := m\<rparr>) = (r2, res)"
      "robot_inv w base since (published @ ps) r2" "raises_ok wn res"
    by (metis prod.collapse)
  show ?thesis
  proof (cases res)
    case (Inl e)
    with p c m show ?thesis by (intro exI [of _ ps]) (simp add: robot_step_def raises_ok_def)
  next
    case (Inr u)
    with robot_finish_inv [OF w(3) p(2), of now] c m p(1) show ?thesis
      by (intro exI [of _ ps]) (simp add: robot_step_def)
  qed
qed

subsection \<open>The service as a machine\<close>

definition robot_turn :: "env \<Rightarrow> net \<Rightarrow> robot_service \<Rightarrow> unit \<Rightarrow> robot_service" where
  "robot_turn w wn r u = fst (robot_step w wn r)"

definition robot_ok :: "env \<Rightarrow> net \<Rightarrow> robot_service \<Rightarrow> bool" where
  "robot_ok w wn r \<longleftrightarrow> env_ok w \<and> clock_ok w \<and> net_ok wn \<and> (\<exists>published. robot_inv w (\<lambda>_. None) 0 published r)"

interpretation robot: machine "robot_turn w wn" "robot_ok w wn"
proof
  fix r u
  assume "robot_ok w wn r"
  then show "robot_ok w wn (robot_turn w wn r u)"
    using robot_step_inv [where w = w and wn = wn and r = r] unfolding robot_ok_def robot_turn_def by blast
qed

lemma new_robot_ok:
  assumes "env_ok w" "clock_ok w" "net_ok wn"
  shows "robot_ok w wn (new_robot_service (new_modem w rs) (new_tcp_output ms))"
proof -
  have "robot_inv w (\<lambda>_. None) 0 [] (new_robot_service (new_modem w rs) (new_tcp_output ms))"
    using new_modem_inv [OF assms(1), of rs] new_reassembler_inv new_tcp_output_inv
    by (auto simp: robot_inv_def new_robot_service_def)
  with assms show ?thesis unfolding robot_ok_def by blast
qed

text \<open>What a client took and what waits for it are whole valid frames.\<close>

lemma robot_ok_streams:
  assumes "robot_ok w wn r" and "map_of (to_clients (rs_output r)) c = Some frames"
  shows "\<exists>taken raws. map_of (to_taken (rs_output r)) c = Some taken \<and>
    taken @ stream_of frames = concat raws \<and> list_all valid_rtcm3 raws"
proof -
  from assms(1) obtain published where r: "robot_inv w (\<lambda>_. None) 0 published r" unfolding robot_ok_def by blast
  then obtain i where i: "to_inv (\<lambda>_. None) 0 published (env_clock w i) (rs_output r)" "list_all valid_rtcm3 published"
    unfolding robot_inv_def by blast
  have "list_all valid_rtcm3 (drop k published)" for k
    using i(2) by (auto simp: list_all_iff dest: in_set_dropD)
  then show ?thesis
    using i(1) assms(2) unfolding to_inv_def client_ok_def stream_ok_def option.case by blast
qed

lemma robot_ok_raises: "robot_ok w wn r \<Longrightarrow> raises_ok wn (snd (robot_step w wn r))"
  using robot_step_inv unfolding robot_ok_def by blast

subsection \<open>Properties\<close>

text \<open>
  Property C10. The receiver only ever sees valid corrections: after any number of steps of the robot's
  loop, whatever the radio delivered and the sockets did, what a connected client took and what waits
  for it is a sequence of whole valid RTCM3 frames; and the next step raises nothing but the error of
  \<open>accept\<close>.
\<close>

theorem robot_streams_valid:
  assumes "env_ok w" and "clock_ok w" and "net_ok wn"
    and "r = run (robot_turn w wn) (new_robot_service (new_modem w rs) (new_tcp_output ms)) turns"
  shows "raises_ok wn (snd (robot_step w wn r)) \<and>
    (\<forall>c frames. map_of (to_clients (rs_output r)) c = Some frames \<longrightarrow>
       (\<exists>taken raws. map_of (to_taken (rs_output r)) c = Some taken \<and>
          taken @ stream_of frames = concat raws \<and> list_all valid_rtcm3 raws))"
proof -
  have "robot_ok w wn r" unfolding assms(4) using new_robot_ok [OF assms(1-3)] by (rule robot.run_inv)
  then show ?thesis using robot_ok_streams robot_ok_raises by blast
qed

lemma robot_streams_valid_witness:
  "snd (robot_step sample_env sample_net
     (run (robot_turn sample_env sample_net) (new_robot_service (new_modem sample_env 1) (new_tcp_output [])) [()])) =
   Inr ()"
proof -
  have "clock_ok sample_env" by (simp add: clock_ok_def sample_env_def)
  from robot_streams_valid [OF sample_env_ok this sample_net_ok refl, of 1 "[]" "[()]"] show ?thesis
    by (cases "snd (robot_step sample_env sample_net
        (run (robot_turn sample_env sample_net) (new_robot_service (new_modem sample_env 1) (new_tcp_output [])) [()]))")
      (auto simp: raises_ok_def sample_net_def)
qed

end
