(* ===== verification/Input_Pump.thy ===== *)
theory Input_Pump
  imports Base_Service "HOL-Library.Sublist"
begin

text \<open>
  The base station's two threads, \<open>_InputPump._read\<close> and \<open>_run_base\<close> of \<open>host/mowgli_lora/service.py\<close>:
  one reads the RTCM source, reconnects to it, and puts what it read into a bounded queue; the other
  takes it from there, under a lock on the generation of the input, and drives the service. Each
  thread is a step relation whose steps are the atomic accesses to what the threads share: the queue,
  the generation, the flags. What the source does (opening, reading) is free. The counters and gauges
  of the pump, whose names no other component uses, are a registry of their own.
\<close>

abbreviation (input) INITIAL_BACKOFF_SECONDS :: time where "INITIAL_BACKOFF_SECONDS \<equiv> 1 / 4"
abbreviation (input) MAX_BACKOFF_SECONDS :: time where "MAX_BACKOFF_SECONDS \<equiv> 5"
abbreviation (input) QUEUE_SIZE :: nat where "QUEUE_SIZE \<equiv> 64"

datatype input_type = Stdin | Tcp | Serial

text \<open>
  \<open>_InputChunk\<close>, \<open>_InputSessionStarted\<close>, the exception of a bad
  configuration, and \<open>None\<close> at the end.
\<close>

datatype queue_item = InputChunk bytes time nat | SessionStarted nat | InputFailure | InputDone

text \<open>
  Where \<open>_read\<close> is. \<open>Opening\<close> and \<open>Reading\<close> are the tests of its two loops, \<open>InOpen\<close> and \<open>InRead\<close>
  the calls that open and read the source, which return when the source lets them: no time-out bounds
  the opening, and none bounds the reading of standard input. \<open>PuttingMarker\<close> and \<open>PuttingLast\<close> are the
  test of \<open>_put\<close>, \<open>InMarker\<close> and \<open>InLast\<close> its waiting for room. \<open>Discarding n b k\<close> is the loop of \<open>_discard_queued_input\<close> with its two counters,
  on the way to \<open>k\<close>; \<open>Leaving c again\<close> is the \<open>finally\<close> block, of a connected source or not, with what
  follows it: the rest of the loop body, or the end of the thread after a \<open>return\<close>.
\<close>

datatype after_discard = ToMarker nat | ToOverflow bytes time nat

datatype reader_pc =
    Opening
  | InOpen
  | Starting
  | Discarding nat nat after_discard
  | PuttingMarker nat
  | InMarker nat
  | Reading
  | InRead
  | Putting bytes time
  | OverflowMarker bytes time nat
  | OverflowItem bytes time nat
  | Leaving bool bool
  | Sleeping
  | PuttingLast queue_item bool
  | InLast queue_item bool
  | ReaderEnded
  | FullEscaped

text \<open>Where \<open>_run_base\<close> is: \<open>Taking\<close> is the test of its loop, \<open>Getting\<close> is \<open>queue.get\<close>.\<close>

datatype loop_pc = LoopStart | Taking | Getting | Handling "queue_item option" | LoopEnded

record pump =
  pu_queue :: "queue_item list"
  pu_generation :: nat
  pu_connected :: bool
  pu_last_data_at :: "time option"
  pu_backoff :: time
  pu_had_connection :: bool
  pu_stopped :: bool
  pu_metrics :: metrics
  pu_pc :: reader_pc

text \<open>
  Both threads together. \<open>bl_log\<close> and \<open>bl_ingested\<close> are history: every chunk put into the queue with
  its generation, and the chunks the service ingested since its parser was last reset.
\<close>

record base_loop =
  bl_pump :: pump
  bl_pc :: loop_pc
  bl_service :: base_service
  bl_active_generation :: nat
  bl_source_done :: bool
  bl_log :: "(nat \<times> bytes) list"
  bl_ingested :: "bytes list"

subsection \<open>The pump's methods\<close>

definition pu_add :: "string \<Rightarrow> real \<Rightarrow> pump \<Rightarrow> pump" where
  "pu_add name n p = p\<lparr>pu_metrics := metric_add name n (pu_metrics p)\<rparr>"

definition pu_set :: "string \<Rightarrow> real \<Rightarrow> pump \<Rightarrow> pump" where
  "pu_set name v p = p\<lparr>pu_metrics := metric_set name v (pu_metrics p)\<rparr>"

definition new_pump :: pump where
  "new_pump = pu_set ''rtcm_source_last_data_age_ms'' (- 1) (pu_set ''rtcm_source_connected'' 0
     \<lparr>pu_queue = [], pu_generation = 0, pu_connected = False, pu_last_data_at = None,
      pu_backoff = INITIAL_BACKOFF_SECONDS, pu_had_connection = False, pu_stopped = False,
      pu_metrics = [], pu_pc = Opening\<rparr>)"

definition set_connected :: "bool \<Rightarrow> pump \<Rightarrow> pump" where
  "set_connected c p = pu_set ''rtcm_source_connected'' (of_flag c) (p\<lparr>pu_connected := c\<rparr>)"

definition pump_tick_metrics :: "time \<Rightarrow> pump \<Rightarrow> pump" where
  "pump_tick_metrics now p =
     pu_set ''rtcm_source_last_data_age_ms''
       (case pu_last_data_at p of None \<Rightarrow> - 1 | Some t \<Rightarrow> of_int (max 0 (py_int ((now - t) * 1000)))) p"

definition next_generation :: "pump \<Rightarrow> pump" where
  "next_generation p = p\<lparr>pu_generation := Suc (pu_generation p)\<rparr>"

definition enqueue_item :: "queue_item \<Rightarrow> pump \<Rightarrow> pump" where
  "enqueue_item x p = p\<lparr>pu_queue := pu_queue p @ [x]\<rparr>"

definition chunk_size :: "queue_item \<Rightarrow> nat option" where
  "chunk_size x = (case x of InputChunk raw t g \<Rightarrow> Some (length raw) | _ \<Rightarrow> None)"

text \<open>One turn of the loop of \<open>_discard_queued_input\<close>, and its end; then what its two callers do.\<close>

definition discard_one :: "queue_item \<Rightarrow> nat \<Rightarrow> nat \<Rightarrow> after_discard \<Rightarrow> pump \<Rightarrow> pump" where
  "discard_one x n b k p =
     p\<lparr>pu_queue := tl (pu_queue p),
       pu_pc := (case chunk_size x of None \<Rightarrow> Discarding n b k | Some m \<Rightarrow> Discarding (Suc n) (b + m) k)\<rparr>"

definition discard_done :: "nat \<Rightarrow> nat \<Rightarrow> after_discard \<Rightarrow> pump \<Rightarrow> pump" where
  "discard_done n b k p =
     (let p = (if n \<noteq> 0
               then pu_add ''rtcm_source_handoff_bytes_dropped'' (real b)
                      (pu_add ''rtcm_source_handoff_chunks_dropped'' (real n) p)
               else p)
      in case k of
           ToMarker g \<Rightarrow>
             (if n \<noteq> 0 then pu_add ''rtcm_source_handoff_resets'' 1 p else p)\<lparr>pu_pc := PuttingMarker g\<rparr>
         | ToOverflow raw t g \<Rightarrow>
             (pu_add ''rtcm_source_handoff_resets'' 1 p)\<lparr>pu_pc := OverflowMarker raw t g\<rparr>)"

text \<open>\<open>_read\<close> once a source is open, and its \<open>finally\<close> block.\<close>

definition source_opened :: "pump \<Rightarrow> pump" where
  "source_opened p =
     (let p = pu_add ''rtcm_source_connects'' 1 (set_connected True p);
          p = (if pu_had_connection p then pu_add ''rtcm_source_reconnects'' 1 p else p)
      in p\<lparr>pu_had_connection := True, pu_pc := Starting\<rparr>)"

definition leave_source :: "bool \<Rightarrow> pump \<Rightarrow> pump" where
  "leave_source conn p =
     set_connected False (if conn then pu_add ''rtcm_source_disconnects'' 1 p else p)"

definition double_backoff :: "pump \<Rightarrow> pump" where
  "double_backoff p = p\<lparr>pu_backoff := min MAX_BACKOFF_SECONDS (pu_backoff p * 2)\<rparr>"

text \<open>A chunk arrived: the time is noted and the backoff begins anew, before \<open>_put_fresh\<close>.\<close>

definition data_arrived :: "bytes \<Rightarrow> time \<Rightarrow> pump \<Rightarrow> pump" where
  "data_arrived raw t p =
     p\<lparr>pu_last_data_at := Some t, pu_backoff := INITIAL_BACKOFF_SECONDS, pu_pc := Putting raw t\<rparr>"

subsection \<open>The consumer's turn\<close>

definition on_pump :: "(pump \<Rightarrow> pump) \<Rightarrow> base_loop \<Rightarrow> base_loop" where
  "on_pump f s = s\<lparr>bl_pump := f (bl_pump s)\<rparr>"

text \<open>The first part of the guarded block: a new generation resets the service.\<close>

definition follow_generation :: "base_loop \<Rightarrow> base_loop" where
  "follow_generation s =
     (if pu_generation (bl_pump s) \<noteq> bl_active_generation s
      then on_pump (pu_add ''rtcm_source_parser_resets'' 1)
             (s\<lparr>bl_active_generation := pu_generation (bl_pump s),
                bl_service := reset_source (bl_service s), bl_ingested := []\<rparr>)
      else s)"

definition take_item :: "queue_item option \<Rightarrow> base_loop \<Rightarrow> base_loop" where
  "take_item x s =
     (case x of
        Some (SessionStarted g) \<Rightarrow>
          (if g \<noteq> pu_generation (bl_pump s)
           then on_pump (pu_add ''rtcm_source_handoff_markers_superseded'' 1) s else s)
      | Some (InputChunk raw t g) \<Rightarrow>
          (if g \<noteq> pu_generation (bl_pump s)
           then on_pump (pu_add ''rtcm_source_handoff_bytes_superseded'' (real (length raw)))
                  (on_pump (pu_add ''rtcm_source_handoff_chunks_superseded'' 1) s)
           else s\<lparr>bl_service := fst (ingest t raw (bl_service s)), bl_ingested := bl_ingested s @ [raw]\<rparr>)
      | _ \<Rightarrow> s)"

text \<open>
  One turn of \<open>_run_base\<close> after \<open>queue.get\<close>; \<open>None\<close> stands for the empty queue. The loop ends when the
  item is an exception, when the step raises, or when a finite input is used up.
\<close>

definition base_turn :: "env \<Rightarrow> input_type \<Rightarrow> queue_item option \<Rightarrow> time \<Rightarrow> base_loop \<Rightarrow> base_loop" where
  "base_turn w ty x now s0 =
     (if x = Some InputFailure then s0\<lparr>bl_pc := LoopEnded\<rparr>
      else (let s = take_item x (follow_generation
                      (s0\<lparr>bl_source_done := bl_source_done s0 \<or> x = Some InputDone\<rparr>));
                (b, res) = base_step w now (bl_service s);
                s = s\<lparr>bl_service := b\<rparr>
            in if \<not> is_ok res then s\<lparr>bl_pc := LoopEnded\<rparr>
               else (on_pump (pump_tick_metrics now) s)
                      \<lparr>bl_pc := if bl_source_done s \<and> ty = Stdin \<and> base_idle b then LoopEnded else Taking\<rparr>))"

subsection \<open>The threads as step relations\<close>

text \<open>
  \<open>_read\<close>, in the order of its statements. The rules at \<open>InOpen\<close> and \<open>InRead\<close> are the ways opening and
  reading may end: \<open>open_fails\<close> and \<open>read_fails\<close> are an \<open>OSError\<close> or \<open>RuntimeError\<close>, \<open>bad_config\<close> a
  \<open>ValueError\<close>; a timeout (and an empty read of a serial port) goes round the loop, which standard input
  never does. The flag matters only where the code tests it.
\<close>

inductive reader :: "input_type \<Rightarrow> base_loop \<Rightarrow> base_loop \<Rightarrow> bool" for ty where
  open_begin: "pu_pc p = Opening \<Longrightarrow> \<not> pu_stopped p \<Longrightarrow> bl_pump s = p \<Longrightarrow>
    reader ty s (s\<lparr>bl_pump := p\<lparr>pu_pc := InOpen\<rparr>\<rparr>)"
| loop_stopped: "pu_pc p = Opening \<Longrightarrow> pu_stopped p \<Longrightarrow> bl_pump s = p \<Longrightarrow>
    reader ty s (s\<lparr>bl_pump := p\<lparr>pu_pc := PuttingLast InputDone False\<rparr>\<rparr>)"
| open_ok: "pu_pc p = InOpen \<Longrightarrow> bl_pump s = p \<Longrightarrow> reader ty s (s\<lparr>bl_pump := source_opened p\<rparr>)"
| open_fails: "pu_pc p = InOpen \<Longrightarrow> bl_pump s = p \<Longrightarrow>
    reader ty s (s\<lparr>bl_pump := (pu_add ''rtcm_source_connect_failures'' 1 p)\<lparr>pu_pc := Leaving False True\<rparr>\<rparr>)"
| bad_config: "pu_pc p \<in> {InOpen, InRead} \<Longrightarrow> bl_pump s = p \<Longrightarrow>
    reader ty s (s\<lparr>bl_pump := p\<lparr>pu_pc := PuttingLast InputFailure (pu_pc p = InRead)\<rparr>\<rparr>)"
| start: "pu_pc p = Starting \<Longrightarrow> bl_pump s = p \<Longrightarrow>
    reader ty s (s\<lparr>bl_pump := (next_generation p)
      \<lparr>pu_pc := Discarding 0 0 (ToMarker (pu_generation (next_generation p)))\<rparr>\<rparr>)"
| discard: "pu_pc p = Discarding n b k \<Longrightarrow> pu_queue p = x # q \<Longrightarrow> bl_pump s = p \<Longrightarrow>
    reader ty s (s\<lparr>bl_pump := discard_one x n b k p\<rparr>)"
| discarded: "pu_pc p = Discarding n b k \<Longrightarrow> pu_queue p = [] \<Longrightarrow> bl_pump s = p \<Longrightarrow>
    reader ty s (s\<lparr>bl_pump := discard_done n b k p\<rparr>)"
| put_marker: "pu_pc p = PuttingMarker g \<Longrightarrow> \<not> pu_stopped p \<Longrightarrow> bl_pump s = p \<Longrightarrow>
    reader ty s (s\<lparr>bl_pump := p\<lparr>pu_pc := InMarker g\<rparr>\<rparr>)"
| marker_put: "pu_pc p = InMarker g \<Longrightarrow> length (pu_queue p) < QUEUE_SIZE \<Longrightarrow> bl_pump s = p \<Longrightarrow>
    reader ty s (s\<lparr>bl_pump := (enqueue_item (SessionStarted g) p)\<lparr>pu_pc := Reading\<rparr>\<rparr>)"
| marker_full: "pu_pc p = InMarker g \<Longrightarrow> length (pu_queue p) \<ge> QUEUE_SIZE \<Longrightarrow> bl_pump s = p \<Longrightarrow>
    reader ty s (s\<lparr>bl_pump := p\<lparr>pu_pc := PuttingMarker g\<rparr>\<rparr>)"
| marker_stopped: "pu_pc p = PuttingMarker g \<Longrightarrow> pu_stopped p \<Longrightarrow> bl_pump s = p \<Longrightarrow>
    reader ty s (s\<lparr>bl_pump := p\<lparr>pu_pc := Leaving True False\<rparr>\<rparr>)"
| read_begin: "pu_pc p = Reading \<Longrightarrow> \<not> pu_stopped p \<Longrightarrow> bl_pump s = p \<Longrightarrow>
    reader ty s (s\<lparr>bl_pump := p\<lparr>pu_pc := InRead\<rparr>\<rparr>)"
| read_stopped: "pu_pc p = Reading \<Longrightarrow> pu_stopped p \<Longrightarrow> bl_pump s = p \<Longrightarrow>
    reader ty s (s\<lparr>bl_pump := p\<lparr>pu_pc := Leaving True True\<rparr>\<rparr>)"
| read_again: "pu_pc p = InRead \<Longrightarrow> ty \<noteq> Stdin \<Longrightarrow> bl_pump s = p \<Longrightarrow>
    reader ty s (s\<lparr>bl_pump := p\<lparr>pu_pc := Reading\<rparr>\<rparr>)"
| read_eof: "pu_pc p = InRead \<Longrightarrow> ty \<noteq> Serial \<Longrightarrow> bl_pump s = p \<Longrightarrow>
    reader ty s (s\<lparr>bl_pump := p\<lparr>pu_pc := Leaving True True\<rparr>\<rparr>)"
| read_fails: "pu_pc p = InRead \<Longrightarrow> bl_pump s = p \<Longrightarrow>
    reader ty s (s\<lparr>bl_pump := (pu_add ''rtcm_source_read_failures'' 1 p)\<lparr>pu_pc := Leaving True True\<rparr>\<rparr>)"
| read_late: "pu_pc p = InRead \<Longrightarrow> pu_stopped p \<Longrightarrow> bl_pump s = p \<Longrightarrow>
    reader ty s (s\<lparr>bl_pump := p\<lparr>pu_pc := Leaving True False\<rparr>\<rparr>)"
| read_ok: "pu_pc p = InRead \<Longrightarrow> \<not> pu_stopped p \<Longrightarrow> raw \<noteq> [] \<Longrightarrow> bl_pump s = p \<Longrightarrow>
    reader ty s (s\<lparr>bl_pump := data_arrived raw t p\<rparr>)"
| put_fresh: "pu_pc p = Putting raw t \<Longrightarrow> length (pu_queue p) < QUEUE_SIZE \<Longrightarrow> bl_pump s = p \<Longrightarrow>
    reader ty s (s\<lparr>bl_pump := (enqueue_item (InputChunk raw t (pu_generation p)) p)\<lparr>pu_pc := Reading\<rparr>,
                   bl_log := bl_log s @ [(pu_generation p, raw)]\<rparr>)"
| overflow: "pu_pc p = Putting raw t \<Longrightarrow> length (pu_queue p) \<ge> QUEUE_SIZE \<Longrightarrow> bl_pump s = p \<Longrightarrow>
    reader ty s (s\<lparr>bl_pump := (next_generation p)
      \<lparr>pu_pc := Discarding 0 0 (ToOverflow raw t (pu_generation (next_generation p)))\<rparr>\<rparr>)"
| overflow_marker: "pu_pc p = OverflowMarker raw t g \<Longrightarrow> bl_pump s = p \<Longrightarrow>
    reader ty s (s\<lparr>bl_pump := (if length (pu_queue p) < QUEUE_SIZE
      then (enqueue_item (SessionStarted g) p)\<lparr>pu_pc := OverflowItem raw t g\<rparr> else p\<lparr>pu_pc := FullEscaped\<rparr>)\<rparr>)"
| overflow_item: "pu_pc p = OverflowItem raw t g \<Longrightarrow> length (pu_queue p) < QUEUE_SIZE \<Longrightarrow> bl_pump s = p \<Longrightarrow>
    reader ty s (s\<lparr>bl_pump := (enqueue_item (InputChunk raw t g) p)\<lparr>pu_pc := Reading\<rparr>,
                   bl_log := bl_log s @ [(g, raw)]\<rparr>)"
| overflow_full: "pu_pc p = OverflowItem raw t g \<Longrightarrow> length (pu_queue p) \<ge> QUEUE_SIZE \<Longrightarrow> bl_pump s = p \<Longrightarrow>
    reader ty s (s\<lparr>bl_pump := p\<lparr>pu_pc := FullEscaped\<rparr>\<rparr>)"
| leave_return: "pu_pc p = Leaving conn False \<Longrightarrow> bl_pump s = p \<Longrightarrow>
    reader ty s (s\<lparr>bl_pump := (leave_source conn p)\<lparr>pu_pc := ReaderEnded\<rparr>\<rparr>)"
| leave: "pu_pc p = Leaving conn True \<Longrightarrow> bl_pump s = p \<Longrightarrow>
    reader ty s (s\<lparr>bl_pump := (leave_source conn p)
      \<lparr>pu_pc := if ty = Stdin then PuttingLast InputDone False
                else if pu_stopped p then ReaderEnded else Sleeping\<rparr>\<rparr>)"
| slept: "pu_pc p = Sleeping \<Longrightarrow> bl_pump s = p \<Longrightarrow>
    reader ty s (s\<lparr>bl_pump := (double_backoff p)\<lparr>pu_pc := Opening\<rparr>\<rparr>)"
| put_last: "pu_pc p = PuttingLast x conn \<Longrightarrow> \<not> pu_stopped p \<Longrightarrow> bl_pump s = p \<Longrightarrow>
    reader ty s (s\<lparr>bl_pump := p\<lparr>pu_pc := InLast x conn\<rparr>\<rparr>)"
| last_put: "pu_pc p = InLast x conn \<Longrightarrow> length (pu_queue p) < QUEUE_SIZE \<Longrightarrow> bl_pump s = p \<Longrightarrow>
    reader ty s (s\<lparr>bl_pump := (enqueue_item x p)
      \<lparr>pu_pc := if x = InputFailure then Leaving conn False else ReaderEnded\<rparr>\<rparr>)"
| last_full: "pu_pc p = InLast x conn \<Longrightarrow> length (pu_queue p) \<ge> QUEUE_SIZE \<Longrightarrow> bl_pump s = p \<Longrightarrow>
    reader ty s (s\<lparr>bl_pump := p\<lparr>pu_pc := PuttingLast x conn\<rparr>\<rparr>)"
| last_stopped: "pu_pc p = PuttingLast x conn \<Longrightarrow> pu_stopped p \<Longrightarrow> bl_pump s = p \<Longrightarrow>
    reader ty s (s\<lparr>bl_pump := p\<lparr>pu_pc := if x = InputFailure then Leaving conn False else ReaderEnded\<rparr>\<rparr>)"

text \<open>
  \<open>_run_base\<close>: the loop may find the queue empty when it is, and the clock shows any
  later time.
\<close>

inductive consumer :: "env \<Rightarrow> input_type \<Rightarrow> base_loop \<Rightarrow> base_loop \<Rightarrow> bool" for w ty where
  begin_loop: "bl_pc s = LoopStart \<Longrightarrow>
    consumer w ty s (s\<lparr>bl_active_generation := pu_generation (bl_pump s), bl_pc := Taking\<rparr>)"
| take_begin: "bl_pc s = Taking \<Longrightarrow> \<not> pu_stopped (bl_pump s) \<Longrightarrow> consumer w ty s (s\<lparr>bl_pc := Getting\<rparr>)"
| take_some: "bl_pc s = Getting \<Longrightarrow> pu_queue (bl_pump s) = x # q \<Longrightarrow>
    consumer w ty s (s\<lparr>bl_pump := (bl_pump s)\<lparr>pu_queue := q\<rparr>, bl_pc := Handling (Some x)\<rparr>)"
| take_none: "bl_pc s = Getting \<Longrightarrow> pu_queue (bl_pump s) = [] \<Longrightarrow> consumer w ty s (s\<lparr>bl_pc := Handling None\<rparr>)"
| take_stopped: "bl_pc s = Taking \<Longrightarrow> pu_stopped (bl_pump s) \<Longrightarrow>
    consumer w ty s (s\<lparr>bl_pc := LoopEnded\<rparr>)"
| handle: "bl_pc s = Handling x \<Longrightarrow> consumer w ty s (base_turn w ty x now s)"

text \<open>The threads interleave; a signal may set the stop flag at any time.\<close>

inductive base_system :: "env \<Rightarrow> input_type \<Rightarrow> base_loop \<Rightarrow> base_loop \<Rightarrow> bool" for w ty where
  reads: "reader ty s s' \<Longrightarrow> base_system w ty s s'"
| consumes: "consumer w ty s s' \<Longrightarrow> base_system w ty s s'"
| signal: "base_system w ty s (on_pump (\<lambda>p. p\<lparr>pu_stopped := True\<rparr>) s)"

definition new_base_loop :: "modem \<Rightarrow> base_loop" where
  "new_base_loop m = \<lparr>bl_pump = new_pump, bl_pc = LoopStart, bl_service = new_base_service m,
     bl_active_generation = 0, bl_source_done = False, bl_log = [], bl_ingested = []\<rparr>"

inductive reachable :: "env \<Rightarrow> input_type \<Rightarrow> modem \<Rightarrow> base_loop \<Rightarrow> bool" for w ty m where
  initial: "reachable w ty m (new_base_loop m)"
| further: "reachable w ty m s \<Longrightarrow> base_system w ty s s' \<Longrightarrow> reachable w ty m s'"


subsection \<open>The invariant\<close>

definition log_of :: "nat \<Rightarrow> base_loop \<Rightarrow> bytes list" where
  "log_of g s = map snd (filter (\<lambda>e. fst e = g) (bl_log s))"

fun chunk_of :: "nat \<Rightarrow> queue_item \<Rightarrow> bytes list" where
  "chunk_of g (InputChunk raw t h) = (if h = g then [raw] else [])"
| "chunk_of g _ = []"

definition chunks_of :: "nat \<Rightarrow> queue_item list \<Rightarrow> bytes list" where
  "chunks_of g xs = concat (map (chunk_of g) xs)"

fun item_generation :: "queue_item \<Rightarrow> nat" where
  "item_generation (InputChunk raw t h) = h"
| "item_generation _ = 0"

definition in_hand :: "base_loop \<Rightarrow> queue_item list" where
  "in_hand s = (case bl_pc s of Handling (Some x) \<Rightarrow> [x] | _ \<Rightarrow> [])"

text \<open>Where the thread is between a new generation and its first chunk, and how long the queue is.\<close>

fun new_session_pc :: "reader_pc \<Rightarrow> nat \<Rightarrow> bool" where
  "new_session_pc (Discarding n b (ToMarker g)) h = (g = h)"
| "new_session_pc (Discarding n b (ToOverflow raw t g)) h = (g = h)"
| "new_session_pc (PuttingMarker g) h = (g = h)"
| "new_session_pc (InMarker g) h = (g = h)"
| "new_session_pc (OverflowMarker raw t g) h = (g = h)"
| "new_session_pc (OverflowItem raw t g) h = (g = h)"
| "new_session_pc _ h = False"

fun pc_ok :: "reader_pc \<Rightarrow> nat \<Rightarrow> nat \<Rightarrow> bool" where
  "pc_ok FullEscaped g n = False"
| "pc_ok (OverflowMarker raw t h) g n = (n = 0 \<and> h = g)"
| "pc_ok (OverflowItem raw t h) g n = (n \<le> 1 \<and> h = g)"
| "pc_ok (PuttingMarker h) g n = (h = g)"
| "pc_ok (InMarker h) g n = (h = g)"
| "pc_ok (Discarding a b (ToMarker h)) g n = (h = g)"
| "pc_ok (Discarding a b (ToOverflow raw t h)) g n = (h = g)"
| "pc_ok (PuttingLast x c) g n = (x = InputFailure \<or> x = InputDone)"
| "pc_ok (InLast x c) g n = (x = InputFailure \<or> x = InputDone)"
| "pc_ok _ g n = True"

definition pump_ok :: "pump \<Rightarrow> bool" where
  "pump_ok p \<longleftrightarrow> length (pu_queue p) \<le> QUEUE_SIZE \<and> pc_ok (pu_pc p) (pu_generation p) (length (pu_queue p)) \<and>
     INITIAL_BACKOFF_SECONDS \<le> pu_backoff p \<and> pu_backoff p \<le> MAX_BACKOFF_SECONDS"

definition generations_ok :: "base_loop \<Rightarrow> bool" where
  "generations_ok s \<longleftrightarrow>
     (let g = pu_generation (bl_pump s)
      in bl_active_generation s \<le> g \<and> list_all (\<lambda>e. fst e \<le> g) (bl_log s) \<and>
         list_all (\<lambda>x. item_generation x \<le> g) (in_hand s @ pu_queue (bl_pump s)) \<and>
         (new_session_pc (pu_pc (bl_pump s)) g \<longrightarrow> log_of g s = []))"

text \<open>Of the current generation nothing is lost: every chunk is ingested, in hand, or in the queue.\<close>

definition nothing_lost :: "base_loop \<Rightarrow> bool" where
  "nothing_lost s \<longleftrightarrow>
     (let g = pu_generation (bl_pump s)
      in (if bl_active_generation s = g then bl_ingested s else []) @
         chunks_of g (in_hand s) @ chunks_of g (pu_queue (bl_pump s)) = log_of g s)"

definition ingested_ok :: "base_loop \<Rightarrow> bool" where
  "ingested_ok s \<longleftrightarrow>
     prefix (bl_ingested s) (log_of (bl_active_generation s) s) \<and>
     (bl_pc s = LoopStart \<longrightarrow> bl_ingested s = []) \<and>
     rp_buffer (bs_parser (bl_service s)) = snd (scan (concat (bl_ingested s)))"

definition loop_inv :: "base_loop \<Rightarrow> bool" where
  "loop_inv s \<longleftrightarrow> pump_ok (bl_pump s) \<and> generations_ok s \<and> nothing_lost s \<and> ingested_ok s"

lemma chunks_of_simps [simp]:
  "chunks_of g [] = []" "chunks_of g (x # xs) = chunk_of g x @ chunks_of g xs"
  "chunks_of g (xs @ ys) = chunks_of g xs @ chunks_of g ys"
  by (simp_all add: chunks_of_def)

lemma chunk_of_old: "item_generation x < g \<Longrightarrow> chunk_of g x = []"
  by (cases x) auto

lemma chunks_of_old: "list_all (\<lambda>x. item_generation x \<le> g) xs \<Longrightarrow> chunks_of (Suc g) xs = []"
  by (induction xs) (auto intro: chunk_of_old)

lemma log_of_old: "list_all (\<lambda>e. fst e \<le> g) (bl_log s) \<Longrightarrow> log_of (Suc g) s = []"
  by (auto simp: log_of_def filter_empty_conv list_all_iff)

lemma pu_simps [simp]:
  "pu_queue (pu_add k n p) = pu_queue p" "pu_queue (pu_set k n p) = pu_queue p"
  "pu_generation (pu_add k n p) = pu_generation p" "pu_generation (pu_set k n p) = pu_generation p"
  "pu_backoff (pu_add k n p) = pu_backoff p" "pu_backoff (pu_set k n p) = pu_backoff p"
  "pu_stopped (pu_add k n p) = pu_stopped p" "pu_stopped (pu_set k n p) = pu_stopped p"
  "pu_pc (pu_add k n p) = pu_pc p" "pu_pc (pu_set k n p) = pu_pc p"
  by (simp_all add: pu_add_def pu_set_def)

lemmas pump_defs = source_opened_def next_generation_def enqueue_item_def discard_done_def leave_source_def
  double_backoff_def data_arrived_def set_connected_def Let_def

lemma log_of_cong: "bl_log s' = bl_log s \<Longrightarrow> log_of g s' = log_of g s"
  by (simp add: log_of_def)

lemma log_of_update [simp]:
  "log_of g (s\<lparr>bl_pump := p\<rparr>) = log_of g s" "log_of g (s\<lparr>bl_pc := c\<rparr>) = log_of g s"
  "log_of g (s\<lparr>bl_active_generation := a\<rparr>) = log_of g s"
  "log_of g (s\<lparr>bl_log := l @ [(h, raw)]\<rparr>) = (if h = g then log_of g (s\<lparr>bl_log := l\<rparr>) @ [raw] else log_of g (s\<lparr>bl_log := l\<rparr>))"
  "log_of g (s\<lparr>bl_log := bl_log s\<rparr>) = log_of g s"
  by (simp_all add: log_of_def)

lemma in_hand_update [simp]:
  "in_hand (s\<lparr>bl_pump := p\<rparr>) = in_hand s" "in_hand (s\<lparr>bl_log := l\<rparr>) = in_hand s"
  "in_hand (s\<lparr>bl_pc := Handling (Some x)\<rparr>) = [x]" "in_hand (s\<lparr>bl_pc := Handling None\<rparr>) = []"
  "in_hand (s\<lparr>bl_pc := Taking\<rparr>) = []" "in_hand (s\<lparr>bl_pc := Getting\<rparr>) = []"
  "in_hand (s\<lparr>bl_pc := LoopEnded\<rparr>) = []"
  by (simp_all add: in_hand_def)

text \<open>A step that changes neither queue nor generation, and one that begins a new generation.\<close>

lemma quiet_step:
  assumes "loop_inv s" and "pu_queue p = pu_queue (bl_pump s)" "pu_generation p = pu_generation (bl_pump s)"
    and "pump_ok p" and "new_session_pc (pu_pc p) (pu_generation p) \<Longrightarrow> log_of (pu_generation p) s = []"
  shows "loop_inv (s\<lparr>bl_pump := p\<rparr>)"
  using assms by (auto simp: loop_inv_def generations_ok_def nothing_lost_def ingested_ok_def Let_def)

lemma new_generation_step:
  assumes s: "loop_inv s" and "pu_queue p = pu_queue (bl_pump s)" "pu_generation p = Suc (pu_generation (bl_pump s))"
    and "pump_ok p"
  shows "loop_inv (s\<lparr>bl_pump := p\<rparr>)"
proof -
  let ?g = "pu_generation (bl_pump s)"
  have g: "bl_active_generation s \<le> ?g" "list_all (\<lambda>e. fst e \<le> ?g) (bl_log s)"
      "list_all (\<lambda>x. item_generation x \<le> ?g) (in_hand s)"
      "list_all (\<lambda>x. item_generation x \<le> ?g) (pu_queue (bl_pump s))"
    using s by (auto simp: loop_inv_def generations_ok_def Let_def)
  have "log_of (Suc ?g) s = []" "chunks_of (Suc ?g) (in_hand s) = []" "chunks_of (Suc ?g) (pu_queue (bl_pump s)) = []"
    using g log_of_old chunks_of_old by blast+
  moreover have "list_all (\<lambda>e. fst e \<le> Suc ?g) (bl_log s)" "list_all (\<lambda>x. item_generation x \<le> Suc ?g) (in_hand s)"
    "list_all (\<lambda>x. item_generation x \<le> Suc ?g) (pu_queue (bl_pump s))"
    using g by (auto simp: list_all_iff le_SucI)
  ultimately show ?thesis
    using s assms(2-4) g(1) by (simp add: loop_inv_def generations_ok_def nothing_lost_def ingested_ok_def Let_def)
qed

lemma enqueue_step:
  assumes s: "loop_inv s" and "pu_queue p = pu_queue (bl_pump s) @ [x]" "pu_generation p = pu_generation (bl_pump s)"
    and "pump_ok p" and "\<not> new_session_pc (pu_pc p) (pu_generation p) \<or> log_of (pu_generation p) s = []"
    and "\<And>g. chunk_of g x = []" "item_generation x \<le> pu_generation p"
  shows "loop_inv (s\<lparr>bl_pump := p\<rparr>)"
  using assms by (auto simp: loop_inv_def generations_ok_def nothing_lost_def ingested_ok_def Let_def)

lemma enqueue_chunk_step:
  assumes s: "loop_inv s" and "pu_queue p = pu_queue (bl_pump s) @ [InputChunk raw t (pu_generation (bl_pump s))]"
    and "pu_generation p = pu_generation (bl_pump s)" and "pump_ok p" and "\<not> new_session_pc (pu_pc p) (pu_generation p)"
  shows "loop_inv (s\<lparr>bl_pump := p, bl_log := bl_log s @ [(pu_generation (bl_pump s), raw)]\<rparr>)"
proof -
  have "prefix (bl_ingested s) (log_of (bl_active_generation s) s)" using s by (simp add: loop_inv_def ingested_ok_def)
  then have "prefix (bl_ingested s) (log_of (bl_active_generation s) s @ [raw])" by simp
  then show ?thesis
    using assms by (auto simp: loop_inv_def generations_ok_def nothing_lost_def ingested_ok_def Let_def)
qed

text \<open>Discarding only ever removes what older generations left.\<close>

lemma discard_step:
  assumes s: "loop_inv s" and "pu_queue (bl_pump s) = x # pu_queue p" "pu_generation p = pu_generation (bl_pump s)"
    and "pump_ok p" and e: "log_of (pu_generation (bl_pump s)) s = []"
  shows "loop_inv (s\<lparr>bl_pump := p\<rparr>)"
proof -
  have "(if bl_active_generation s = pu_generation (bl_pump s) then bl_ingested s else []) @
      chunks_of (pu_generation (bl_pump s)) (in_hand s) @ chunks_of (pu_generation (bl_pump s)) (pu_queue (bl_pump s)) = []"
    using s e unfolding loop_inv_def nothing_lost_def Let_def by simp
  then show ?thesis using assms
    by (auto simp: loop_inv_def generations_ok_def nothing_lost_def ingested_ok_def Let_def)
qed

lemma reader_inv:
  assumes "reader ty s s'" and s: "loop_inv s"
  shows "loop_inv s'"
proof -
  have pump: "pump_ok (bl_pump s)" using s by (simp add: loop_inv_def)
  from assms(1) show ?thesis
  proof cases
    case (discard p n b k x q)
    have "log_of (pu_generation (bl_pump s)) s = []" "pump_ok (discard_one x n b k p)"
        "pu_generation (discard_one x n b k p) = pu_generation p" "pu_queue (discard_one x n b k p) = q"
      using s discard
      by (cases k; cases x; auto simp: loop_inv_def generations_ok_def pump_ok_def discard_one_def chunk_size_def Let_def)+
    with discard s show ?thesis by (auto intro!: discard_step)
  next
    case (discarded p n b k)
    have "log_of (pu_generation (bl_pump s)) s = []"
      using s discarded by (cases k) (auto simp: loop_inv_def generations_ok_def pump_ok_def Let_def)
    with discarded s pump show ?thesis
      by (cases k) (auto simp: pump_ok_def pump_defs intro!: quiet_step)
  next
    case (put_marker p g)
    have "log_of (pu_generation (bl_pump s)) s = []"
      using s put_marker by (auto simp: loop_inv_def generations_ok_def pump_ok_def Let_def)
    with put_marker s pump show ?thesis by (auto simp: pump_ok_def intro!: quiet_step)
  next
    case (marker_full p g)
    have "log_of (pu_generation (bl_pump s)) s = []"
      using s marker_full by (auto simp: loop_inv_def generations_ok_def pump_ok_def Let_def)
    with marker_full s pump show ?thesis by (auto simp: pump_ok_def intro!: quiet_step)
  next
    case (marker_put p g)
    have "log_of (pu_generation (bl_pump s)) s = []"
      using s marker_put by (auto simp: loop_inv_def generations_ok_def pump_ok_def Let_def)
    with marker_put s pump show ?thesis
      by (auto simp: pump_ok_def pump_defs intro!: enqueue_step [where x = "SessionStarted g"])
  next
    case (overflow_marker p raw t g)
    have "log_of (pu_generation (bl_pump s)) s = []"
      using s overflow_marker by (auto simp: loop_inv_def generations_ok_def pump_ok_def Let_def)
    with overflow_marker s pump show ?thesis
      by (auto simp: pump_ok_def pump_defs intro!: enqueue_step [where x = "SessionStarted g"])
  next
    case (put_fresh p raw t)
    then show ?thesis using s pump
      by (auto simp: pump_ok_def pump_defs intro!: enqueue_chunk_step)
  next
    case (overflow_item p raw t g)
    then show ?thesis using s pump
      by (auto simp: pump_ok_def pump_defs intro!: enqueue_chunk_step)
  next
    case (last_put p x conn)
    then show ?thesis using s pump
      by (auto simp: pump_ok_def pump_defs intro!: enqueue_step [where x = x])
  next
    case (start p)
    then show ?thesis using s pump
      by (auto simp: pump_ok_def pump_defs intro!: new_generation_step)
  next
    case (overflow p raw t)
    then show ?thesis using s pump
      by (auto simp: pump_ok_def pump_defs intro!: new_generation_step)
  qed (use s pump in \<open>auto simp: pump_ok_def pump_defs intro!: quiet_step\<close>)
qed


lemma base_step_parser: "bs_parser (fst (base_step w now b)) = bs_parser b"
proof -
  have n: "bs_parser (note_outcomes os b) = bs_parser b" for os b
    by (induction os b rule: note_outcomes.induct) (auto simp: Let_def split: option.split bool.split)
  have d: "bs_parser (drop_stale now b) = bs_parser b" for b
    by (induction now b rule: drop_stale.induct; subst drop_stale.simps; simp split: list.split)
  have s: "bs_parser (note_session b) = bs_parser b" for b by (simp add: note_session_def)
  have l: "bs_parser (fst (load_next b)) = bs_parser b" for b
    by (auto simp: load_next_def Let_def split: list.split sum.split py_exc.split)
  have e: "bs_parser (fst (send_next w now b)) = bs_parser b" for b
    by (auto simp: send_next_def Let_def split: list.split sum.split option.split prod.split)
  have q: "bs_parser (update_rates now b) = bs_parser b" "bs_parser (update_queue_metrics now b) = bs_parser b" for b
    by (simp_all add: update_rates_def update_queue_metrics_def Let_def)
  have "bs_parser (fst (step_work w now b)) = bs_parser b" for b
  proof -
    let ?b = "drop_stale now (note_session (note_outcomes (snd (take_tx_outcomes (bs_modem b)))
        (b\<lparr>bs_modem := fst (take_tx_outcomes (bs_modem b))\<rparr>)))"
    have b: "bs_parser ?b = bs_parser b" by (simp add: d s n)
    obtain b1 r where b1: "load_next ?b = (b1, r)" by (rule prod.exhaust)
    obtain b2 r' where b2: "send_next w now b1 = (b2, r')" by (rule prod.exhaust)
    show ?thesis using l [of ?b] e [of b1] b b1 b2
      by (simp add: step_work_def case_prod_unfold Let_def q split: sum.split)
  qed
  then show ?thesis by (simp add: base_step_def case_prod_unfold split: sum.split)
qed

lemma ingest_parser_buffer:
  "rp_buffer (bs_parser (fst (ingest now raw b))) = snd (scan (rp_buffer (bs_parser b) @ raw))"
proof -
  have "bs_parser (enqueue fs b) = bs_parser b" for fs b
    by (induction fs b rule: enqueue.induct) (auto simp: Let_def)
  then show ?thesis
    by (simp add: ingest_def Let_def case_prod_unfold update_rates_def update_queue_metrics_def rtcm_feed_scan)
qed

text \<open>What a turn of the consumer does to the shared state and to the history.\<close>

lemma on_pump_simps [simp]:
  "bl_pump (on_pump f s) = f (bl_pump s)" "bl_pc (on_pump f s) = bl_pc s" "bl_service (on_pump f s) = bl_service s"
  "bl_active_generation (on_pump f s) = bl_active_generation s" "bl_log (on_pump f s) = bl_log s"
  "bl_ingested (on_pump f s) = bl_ingested s" "bl_source_done (on_pump f s) = bl_source_done s"
  by (simp_all add: on_pump_def)

definition same_pump :: "pump \<Rightarrow> pump \<Rightarrow> bool" where
  "same_pump p p' \<longleftrightarrow> pu_queue p' = pu_queue p \<and> pu_generation p' = pu_generation p \<and>
     pu_backoff p' = pu_backoff p \<and> pu_pc p' = pu_pc p"

definition turn_ingested :: "queue_item option \<Rightarrow> base_loop \<Rightarrow> bytes list" where
  "turn_ingested x s =
     (if bl_active_generation s = pu_generation (bl_pump s) then bl_ingested s else []) @
     (case x of None \<Rightarrow> [] | Some i \<Rightarrow> chunk_of (pu_generation (bl_pump s)) i)"

lemma follow_generation_effect:
  "same_pump (bl_pump s) (bl_pump (follow_generation s)) \<and> bl_log (follow_generation s) = bl_log s \<and>
   bl_active_generation (follow_generation s) = pu_generation (bl_pump s) \<and>
   bl_ingested (follow_generation s) =
     (if bl_active_generation s = pu_generation (bl_pump s) then bl_ingested s else []) \<and>
   rp_buffer (bs_parser (bl_service (follow_generation s))) =
     (if bl_active_generation s = pu_generation (bl_pump s) then rp_buffer (bs_parser (bl_service s)) else [])"
  by (simp add: follow_generation_def same_pump_def)

lemma take_item_effect:
  assumes "rp_buffer (bs_parser (bl_service s)) = snd (scan (concat (bl_ingested s)))"
  shows "same_pump (bl_pump s) (bl_pump (take_item x s)) \<and> bl_log (take_item x s) = bl_log s \<and>
    bl_active_generation (take_item x s) = bl_active_generation s \<and>
    bl_ingested (take_item x s) = bl_ingested s @ (case x of None \<Rightarrow> [] | Some i \<Rightarrow> chunk_of (pu_generation (bl_pump s)) i) \<and>
    rp_buffer (bs_parser (bl_service (take_item x s))) = snd (scan (concat (bl_ingested (take_item x s))))"
  using assms scan_append [of "concat (bl_ingested s)"]
  by (auto simp: take_item_def same_pump_def ingest_parser_buffer split: option.split queue_item.split)

lemma base_turn_effect:
  assumes "x \<noteq> Some InputFailure" and b: "rp_buffer (bs_parser (bl_service s)) = snd (scan (concat (bl_ingested s)))"
  shows "same_pump (bl_pump s) (bl_pump (base_turn w ty x now s)) \<and> bl_log (base_turn w ty x now s) = bl_log s \<and>
    bl_active_generation (base_turn w ty x now s) = pu_generation (bl_pump s) \<and>
    bl_ingested (base_turn w ty x now s) = turn_ingested x s \<and>
    bl_pc (base_turn w ty x now s) \<in> {Taking, LoopEnded} \<and>
    rp_buffer (bs_parser (bl_service (base_turn w ty x now s))) =
      snd (scan (concat (bl_ingested (base_turn w ty x now s))))"
proof -
  let ?s = "follow_generation (s\<lparr>bl_source_done := bl_source_done s \<or> x = Some InputDone\<rparr>)"
  note f = follow_generation_effect [of "s\<lparr>bl_source_done := bl_source_done s \<or> x = Some InputDone\<rparr>"]
  have "rp_buffer (bs_parser (bl_service ?s)) = snd (scan (concat (bl_ingested ?s)))" using f b by simp
  note t = take_item_effect [OF this, of x]
  obtain b' res where st: "base_step w now (bl_service (take_item x ?s)) = (b', res)" by (rule prod.exhaust)
  have "bs_parser b' = bs_parser (bl_service (take_item x ?s))"
    using base_step_parser [of w now "bl_service (take_item x ?s)"] st by simp
  then show ?thesis
    using f t assms(1) st
    by (cases x) (simp_all add: base_turn_def Let_def turn_ingested_def same_pump_def pump_tick_metrics_def)
qed

lemma base_turn_inv:
  assumes s: "loop_inv s" and h: "bl_pc s = Handling x"
  shows "loop_inv (base_turn w ty x now s)"
proof (cases "x = Some InputFailure")
  case True
  with s h show ?thesis
    by (auto simp: base_turn_def loop_inv_def generations_ok_def nothing_lost_def ingested_ok_def in_hand_def log_of_def Let_def)
next
  case False
  let ?t = "base_turn w ty x now s" and ?g = "pu_generation (bl_pump s)"
  have "rp_buffer (bs_parser (bl_service s)) = snd (scan (concat (bl_ingested s)))"
    using s by (simp add: loop_inv_def ingested_ok_def)
  note t = base_turn_effect [OF False this, of w ty now]
  have l: "log_of g ?t = log_of g s" for g using t by (simp add: log_of_def)
  have hand: "in_hand ?t = []" using t by (auto simp: in_hand_def)
  have "in_hand s = (case x of None \<Rightarrow> [] | Some i \<Rightarrow> [i])" using h by (auto simp: in_hand_def split: option.split)
  then have c: "chunks_of ?g (in_hand s) = (case x of None \<Rightarrow> [] | Some i \<Rightarrow> chunk_of ?g i)"
    by (cases x) auto
  have "turn_ingested x s @ chunks_of ?g (pu_queue (bl_pump s)) = log_of ?g s"
    using s c unfolding loop_inv_def nothing_lost_def turn_ingested_def Let_def by simp
  moreover from this have "prefix (turn_ingested x s) (log_of ?g s)" by (metis prefixI)
  moreover have "pump_ok (bl_pump ?t)" using s t by (simp add: loop_inv_def pump_ok_def same_pump_def)
  ultimately show ?thesis
    using s t by (auto simp: loop_inv_def generations_ok_def nothing_lost_def ingested_ok_def l hand same_pump_def Let_def)
qed

lemma consumer_inv:
  assumes "consumer w ty s s'" and s: "loop_inv s"
  shows "loop_inv s'"
  using assms(1)
proof cases
  case begin_loop
  have "bl_ingested s = []" "in_hand s = []"
    using s begin_loop by (auto simp: loop_inv_def ingested_ok_def in_hand_def)
  moreover from this have "chunks_of (pu_generation (bl_pump s)) (pu_queue (bl_pump s)) = log_of (pu_generation (bl_pump s)) s"
    using s unfolding loop_inv_def nothing_lost_def Let_def by (auto split: if_splits)
  ultimately show ?thesis using s begin_loop
    by (auto simp: loop_inv_def generations_ok_def nothing_lost_def ingested_ok_def Let_def in_hand_def log_of_def)
next
  case (take_some x q)
  have "pc_ok pc g (Suc n) \<Longrightarrow> pc_ok pc g n" for pc g n
    by (rule pc_ok.cases [of "(pc, g, n)"]) auto
  then show ?thesis using s take_some
    by (auto simp: loop_inv_def generations_ok_def nothing_lost_def ingested_ok_def pump_ok_def Let_def in_hand_def log_of_def)
next
  case (handle x now)
  with base_turn_inv [OF s] show ?thesis by blast
qed (use s in \<open>auto simp: loop_inv_def generations_ok_def nothing_lost_def ingested_ok_def Let_def in_hand_def log_of_def\<close>)

lemma new_base_loop_inv: "loop_inv (new_base_loop m)"
  by (simp add: loop_inv_def new_base_loop_def new_pump_def pump_ok_def generations_ok_def nothing_lost_def
      ingested_ok_def in_hand_def log_of_def new_base_service_def new_rtcm_parser_def Let_def)

lemma base_system_inv: "base_system w ty s s' \<Longrightarrow> loop_inv s \<Longrightarrow> loop_inv s'"
proof (induction rule: base_system.induct)
  case (signal s)
  have "loop_inv (s\<lparr>bl_pump := (bl_pump s)\<lparr>pu_stopped := True\<rparr>\<rparr>)"
    by (rule quiet_step [OF signal]) (use signal in \<open>auto simp: loop_inv_def pump_ok_def generations_ok_def Let_def\<close>)
  then show ?case by (simp add: on_pump_def)
qed (blast intro: reader_inv consumer_inv)+

lemma reachable_inv: "reachable w ty m s \<Longrightarrow> loop_inv s"
  by (induction rule: reachable.induct) (auto intro: new_base_loop_inv base_system_inv)

subsection \<open>Properties\<close>

text \<open>
  Property C6. Two input sessions are never spliced: however the threads interleave and the source
  fails, reconnects or overruns the queue, the chunks the service ingested since its parser was last
  reset are the first chunks of one generation, in order and without a gap; its parser's buffer is
  what a parser fed with exactly these holds; and of the generation the source is in, every chunk
  queued is ingested, in the consumer's hand, or still waiting.
\<close>

theorem input_never_spliced:
  assumes "reachable w ty m s"
  shows "prefix (bl_ingested s) (log_of (bl_active_generation s) s) \<and>
    rp_buffer (bs_parser (bl_service s)) = snd (scan (concat (bl_ingested s))) \<and>
    (bl_active_generation s = pu_generation (bl_pump s) \<longrightarrow>
       bl_ingested s @ chunks_of (pu_generation (bl_pump s)) (in_hand s) @
       chunks_of (pu_generation (bl_pump s)) (pu_queue (bl_pump s)) = log_of (pu_generation (bl_pump s)) s)"
  using reachable_inv [OF assms]
  unfolding loop_inv_def ingested_ok_def nothing_lost_def Let_def by presburger

text \<open>
  The pump keeps its bounds: at most 64 items wait, the pause before a reconnection is
  between 0.25 and 5 seconds, and the full queue's exception never ends the reader: after an overflow
  there is room for the marker and the chunk.
\<close>

theorem input_pump_bounded:
  assumes "reachable w ty m s"
  shows "length (pu_queue (bl_pump s)) \<le> QUEUE_SIZE \<and>
    INITIAL_BACKOFF_SECONDS \<le> pu_backoff (bl_pump s) \<and> pu_backoff (bl_pump s) \<le> MAX_BACKOFF_SECONDS \<and>
    pu_pc (bl_pump s) \<noteq> FullEscaped"
  using reachable_inv [OF assms] unfolding loop_inv_def pump_ok_def by (metis pc_ok.simps(1))

subsection \<open>Witnesses\<close>

lemma reads_further: "reachable w ty m s \<Longrightarrow> reader ty s s' \<Longrightarrow> reachable w ty m s'"
  by (blast intro: reachable.further base_system.reads)

lemma consumes_further: "reachable w ty m s \<Longrightarrow> consumer w ty s s' \<Longrightarrow> reachable w ty m s'"
  by (blast intro: reachable.further base_system.consumes)

text \<open>A source is opened, its marker and a chunk are queued, and the consumer takes the marker.\<close>

lemma sample_session:
  "\<exists>s. reachable w Tcp m s \<and> bl_pc s = Taking \<and> bl_active_generation s = 1 \<and> bl_ingested s = [] \<and>
     bl_service s = new_base_service m \<and> \<not> bl_source_done s \<and> bl_log s = [(1, [7])] \<and>
     \<not> pu_stopped (bl_pump s) \<and> pu_generation (bl_pump s) = 1 \<and>
     pu_queue (bl_pump s) = [SessionStarted 1, InputChunk [7] 0 1]"
proof -
  let ?s0 = "new_base_loop m"
  define s1 where "s1 = ?s0\<lparr>bl_pump := (bl_pump ?s0)\<lparr>pu_pc := InOpen\<rparr>\<rparr>"
  have s1: "reachable w Tcp m s1" unfolding s1_def
    by (rule reads_further [OF reachable.initial], rule reader.open_begin) (simp_all add: new_base_loop_def new_pump_def pu_set_def)
  define s1' where "s1' = s1\<lparr>bl_pump := source_opened (bl_pump s1)\<rparr>"
  have s1': "reachable w Tcp m s1'" unfolding s1'_def
    by (rule reads_further [OF s1], rule reader.open_ok) (simp_all add: s1_def)
  define s2 where "s2 = s1'\<lparr>bl_pump := (next_generation (bl_pump s1'))
      \<lparr>pu_pc := Discarding 0 0 (ToMarker (pu_generation (next_generation (bl_pump s1'))))\<rparr>\<rparr>"
  have r2: "reachable w Tcp m s2" unfolding s2_def
    by (rule reads_further [OF s1'], rule reader.start) (simp_all add: s1'_def source_opened_def Let_def)
  have s2: "reachable w Tcp m s2" "pu_pc (bl_pump s2) = Discarding 0 0 (ToMarker 1)" "pu_queue (bl_pump s2) = []"
    "pu_generation (bl_pump s2) = 1" "\<not> pu_stopped (bl_pump s2)" "bl_pc s2 = LoopStart" "bl_ingested s2 = []"
    "bl_service s2 = new_base_service m" "bl_log s2 = []" "\<not> bl_source_done s2"
    using r2
    by (simp_all add: s2_def s1'_def s1_def source_opened_def next_generation_def new_base_loop_def new_pump_def pu_set_def
        pu_add_def set_connected_def Let_def)
  define s3 where "s3 = s2\<lparr>bl_pump := discard_done 0 0 (ToMarker 1) (bl_pump s2)\<rparr>"
  have s3: "reachable w Tcp m s3" unfolding s3_def
    by (rule reads_further [OF s2(1)], rule reader.discarded) (use s2 in simp_all)
  define s3' where "s3' = s3\<lparr>bl_pump := (bl_pump s3)\<lparr>pu_pc := InMarker 1\<rparr>\<rparr>"
  have s3': "reachable w Tcp m s3'" unfolding s3'_def
    by (rule reads_further [OF s3], rule reader.put_marker) (use s2 in \<open>simp_all add: s3_def discard_done_def\<close>)
  define s4 where "s4 = s3'\<lparr>bl_pump := (enqueue_item (SessionStarted 1) (bl_pump s3'))\<lparr>pu_pc := Reading\<rparr>\<rparr>"
  have s4: "reachable w Tcp m s4" unfolding s4_def
    by (rule reads_further [OF s3'], rule reader.marker_put) (use s2 in \<open>simp_all add: s3'_def s3_def discard_done_def\<close>)
  define s4' where "s4' = s4\<lparr>bl_pump := (bl_pump s4)\<lparr>pu_pc := InRead\<rparr>\<rparr>"
  have s4': "reachable w Tcp m s4'" unfolding s4'_def
    by (rule reads_further [OF s4], rule reader.read_begin)
      (use s2 in \<open>simp_all add: s4_def s3'_def s3_def discard_done_def enqueue_item_def\<close>)
  define s5 where "s5 = s4'\<lparr>bl_pump := data_arrived [7] 0 (bl_pump s4')\<rparr>"
  have s5: "reachable w Tcp m s5" unfolding s5_def
    by (rule reads_further [OF s4'], rule reader.read_ok)
      (use s2 in \<open>simp_all add: s4'_def s4_def s3'_def s3_def discard_done_def enqueue_item_def\<close>)
  define s6 where "s6 = s5\<lparr>bl_pump := (enqueue_item (InputChunk [7] 0 (pu_generation (bl_pump s5))) (bl_pump s5))
      \<lparr>pu_pc := Reading\<rparr>, bl_log := bl_log s5 @ [(pu_generation (bl_pump s5), [7])]\<rparr>"
  have s6: "reachable w Tcp m s6" unfolding s6_def
    by (rule reads_further [OF s5], rule reader.put_fresh)
      (use s2 in \<open>simp_all add: s5_def s4'_def s4_def s3'_def s3_def discard_done_def enqueue_item_def data_arrived_def\<close>)
  define s7 where "s7 = s6\<lparr>bl_active_generation := pu_generation (bl_pump s6), bl_pc := Taking\<rparr>"
  have "reachable w Tcp m s7" unfolding s7_def
    by (rule consumes_further [OF s6], rule consumer.begin_loop)
      (use s2 in \<open>simp_all add: s6_def s5_def s4'_def s4_def s3'_def s3_def\<close>)
  then show ?thesis using s2
    by (intro exI [of _ s7])
      (simp add: s7_def s6_def s5_def s4'_def s4_def s3'_def s3_def discard_done_def enqueue_item_def data_arrived_def)
qed

lemma input_pump_bounded_witness:
  "\<exists>s. reachable sample_env Tcp (new_modem sample_env 1) s \<and> length (pu_queue (bl_pump s)) = 2 \<and>
     pu_pc (bl_pump s) \<noteq> FullEscaped"
proof -
  obtain s where s: "reachable sample_env Tcp (new_modem sample_env 1) s" "length (pu_queue (bl_pump s)) = 2"
    using sample_session [of sample_env "new_modem sample_env 1"] by auto
  with input_pump_bounded [OF s(1)] show ?thesis by blast
qed

lemma base_turn_taking:
  assumes "is_ok (snd (base_step w now (bl_service (take_item x (follow_generation
      (s\<lparr>bl_source_done := bl_source_done s \<or> x = Some InputDone\<rparr>))))))" and "x \<noteq> Some InputFailure" "ty \<noteq> Stdin"
  shows "bl_pc (base_turn w ty x now s) = Taking"
  using assms by (simp add: base_turn_def Let_def case_prod_unfold)

lemma input_never_spliced_witness:
  "\<exists>s. reachable sample_env Tcp (new_modem sample_env 1) s \<and> bl_ingested s = [[7]] \<and>
     rp_buffer (bs_parser (bl_service s)) = snd (scan [7]) \<and> log_of 1 s = [[7]]"
proof -
  let ?m = "new_modem sample_env 1"
  obtain s where s: "reachable sample_env Tcp ?m s" "bl_pc s = Taking" "bl_active_generation s = 1" "bl_ingested s = []"
      "bl_service s = new_base_service ?m" "\<not> bl_source_done s" "bl_log s = [(1, [7])]" "\<not> pu_stopped (bl_pump s)"
      "pu_generation (bl_pump s) = 1" "pu_queue (bl_pump s) = [SessionStarted 1, InputChunk [7] 0 1]"
    using sample_session by blast
  define s1 where "s1 = s\<lparr>bl_pump := (bl_pump s)\<lparr>pu_queue := [InputChunk [7] 0 1]\<rparr>, bl_pc := Handling (Some (SessionStarted 1))\<rparr>"
  have "reachable sample_env Tcp ?m (s\<lparr>bl_pc := Getting\<rparr>)"
    by (rule consumes_further [OF s(1)], rule consumer.take_begin) (use s in simp_all)
  moreover have "consumer sample_env Tcp (s\<lparr>bl_pc := Getting\<rparr>) s1"
    using consumer.take_some [of "s\<lparr>bl_pc := Getting\<rparr>" "SessionStarted 1" "[InputChunk [7] 0 1]"] s by (simp add: s1_def)
  ultimately have "reachable sample_env Tcp ?m s1" by (rule consumes_further)
  define s2 where "s2 = base_turn sample_env Tcp (Some (SessionStarted 1)) 0 s1"
  have r2: "reachable sample_env Tcp ?m s2" unfolding s2_def
    by (rule consumes_further [OF \<open>reachable sample_env Tcp ?m s1\<close>], rule consumer.handle) (simp add: s1_def)
  have b1: "rp_buffer (bs_parser (bl_service s1)) = snd (scan (concat (bl_ingested s1)))"
    using s by (simp add: s1_def new_base_service_def new_rtcm_parser_def)
  have "base_inv 0 (new_base_service ?m)" using sample_env_ok by (rule new_base_service_inv)
  from base_step_step [OF sample_env_ok this] have "is_ok (snd (base_step sample_env 0 (new_base_service ?m)))" by auto
  then have "bl_pc s2 = Taking"
    unfolding s2_def by (intro base_turn_taking) (use s in \<open>simp_all add: take_item_def follow_generation_def s1_def\<close>)
  have "Some (SessionStarted 1) \<noteq> Some InputFailure" by simp
  note turn = base_turn_effect [OF this b1, of sample_env Tcp 0, folded s2_def]
  have s1: "pu_queue (bl_pump s1) = [InputChunk [7] 0 1]" "pu_generation (bl_pump s1) = 1" "bl_log s1 = [(1, [7])]"
    "bl_active_generation s1 = 1" "bl_ingested s1 = []"
    using s by (simp_all add: s1_def)
  from turn have e2: "pu_queue (bl_pump s2) = [InputChunk [7] 0 1]" "pu_generation (bl_pump s2) = 1" "bl_log s2 = [(1, [7])]"
    "bl_active_generation s2 = 1" "bl_ingested s2 = []" 
    "rp_buffer (bs_parser (bl_service s2)) = snd (scan (concat (bl_ingested s2)))"
    by (simp_all add: same_pump_def turn_ingested_def s1)
  have "\<not> pu_stopped (bl_pump s2)"
    using s by (simp add: s2_def base_turn_def s1_def Let_def case_prod_unfold take_item_def follow_generation_def pump_tick_metrics_def)
  define s3 where "s3 = s2\<lparr>bl_pump := (bl_pump s2)\<lparr>pu_queue := []\<rparr>, bl_pc := Handling (Some (InputChunk [7] 0 1))\<rparr>"
  have "reachable sample_env Tcp ?m (s2\<lparr>bl_pc := Getting\<rparr>)"
    by (rule consumes_further [OF r2], rule consumer.take_begin)
      (use \<open>bl_pc s2 = Taking\<close> \<open>\<not> pu_stopped (bl_pump s2)\<close> in simp_all)
  moreover have "consumer sample_env Tcp (s2\<lparr>bl_pc := Getting\<rparr>) s3"
    using consumer.take_some [of "s2\<lparr>bl_pc := Getting\<rparr>" "InputChunk [7] 0 1" "[]"] e2 by (simp add: s3_def)
  ultimately have r3: "reachable sample_env Tcp ?m s3" by (rule consumes_further)
  define s4 where "s4 = base_turn sample_env Tcp (Some (InputChunk [7] 0 1)) 0 s3"
  have r4: "reachable sample_env Tcp ?m s4" unfolding s4_def
    by (rule consumes_further [OF r3], rule consumer.handle) (simp add: s3_def)
  have "Some (InputChunk [7] 0 1) \<noteq> Some InputFailure" by simp
  moreover have s3: "pu_generation (bl_pump s3) = 1" "bl_log s3 = [(1, [7])]"
    "bl_active_generation s3 = 1" "bl_ingested s3 = []"
    "rp_buffer (bs_parser (bl_service s3)) = snd (scan (concat (bl_ingested s3)))"
    using e2 by (simp_all add: s3_def)
  ultimately have "bl_ingested s4 = [[7]]" "bl_log s4 = [(1, [7])]"
    using base_turn_effect [of "Some (InputChunk [7] 0 1)" s3 sample_env Tcp 0, folded s4_def]
    by (simp_all add: turn_ingested_def)
  with input_never_spliced [OF r4] r4 show ?thesis by (intro exI [of _ s4]) (simp add: log_of_def)
qed

end
