(* ===== verification/Scheduler.thy ===== *)
theory Scheduler
  imports App_Frame "HOL-Library.Multiset"
begin

text \<open>
  The mixed bench's radio scheduler (\<open>tools/lora_usb/mixed_bench.py\<close>, \<open>Scheduler\<close>): one bounded
  queue for both directions. A new telemetry sample replaces the queued one of its direction; a
  full queue loses its least urgent item, or the new one when that is no more urgent; \<open>pop\<close> drops
  RTCM fragments older than 0.9 s and serves the most urgent item, oldest first. The priorities
  come from a dictionary, so an unknown frame type is a \<open>KeyError\<close>, which the model keeps.
\<close>

subsection \<open>The first best element of a list\<close>

text \<open>
  Python's \<open>min(range(len(xs)), key=...)\<close> and \<open>max(...)\<close>: the first index whose element no
  other beats. The order is a parameter, and its two uses are interpretations of one locale.
\<close>

fun best_index :: "('a \<Rightarrow> 'a \<Rightarrow> bool) \<Rightarrow> 'a list \<Rightarrow> nat" where
  "best_index better [] = 0"
| "best_index better [x] = 0"
| "best_index better (x # y # ys) =
     (let j = best_index better (y # ys) in if better ((y # ys) ! j) x then Suc j else 0)"

locale choice =
  fixes better :: "'a \<Rightarrow> 'a \<Rightarrow> bool"
  assumes better_asym: "better x y \<Longrightarrow> \<not> better y x"
    and better_weak: "\<not> better x y \<Longrightarrow> \<not> better y z \<Longrightarrow> \<not> better x z"
begin

lemma best_in_range: "xs \<noteq> [] \<Longrightarrow> best_index better xs < length xs"
  by (induction better xs rule: best_index.induct) (auto simp: Let_def)

lemma best_member: "xs \<noteq> [] \<Longrightarrow> xs ! best_index better xs \<in> set xs"
  by (simp add: best_in_range)

lemma none_better: "y \<in> set xs \<Longrightarrow> \<not> better y (xs ! best_index better xs)"
proof (induction xs arbitrary: y rule: induct_list012)
  case (2 x)
  then show ?case using better_asym by auto
next
  case (3 x z zs)
  let ?j = "best_index better (z # zs)"
  note rest = 3(2)
  show ?case
  proof (cases "better ((z # zs) ! ?j) x")
    case True
    then show ?thesis using 3(3) rest [of y] better_asym by (auto simp: Let_def)
  next
    case False
    have "\<not> better x x" using better_asym by blast
    with False show ?thesis using 3(3) rest better_weak by (auto simp: Let_def)
  qed
qed simp

end

text \<open>\<open>xs.pop(i)\<close>, the list without its element \<open>i\<close>.\<close>

definition pop_at :: "nat \<Rightarrow> 'a list \<Rightarrow> 'a list" where
  "pop_at i xs = take i xs @ drop (Suc i) xs"

lemma pop_at_facts:
  assumes "i < length xs"
  shows mset_pop_at: "mset xs = add_mset (xs ! i) (mset (pop_at i xs))"
    and length_pop_at: "length xs = Suc (length (pop_at i xs))"
proof -
  have eq: "xs = take i xs @ xs ! i # drop (Suc i) xs" using assms by (rule id_take_nth_drop)
  show "mset xs = add_mset (xs ! i) (mset (pop_at i xs))"
    by (subst eq) (simp add: pop_at_def)
  show "length xs = Suc (length (pop_at i xs))" using assms by (simp add: pop_at_def)
qed

lemma set_pop_at: "i < length xs \<Longrightarrow> set xs = insert (xs ! i) (set (pop_at i xs))"
  by (drule mset_pop_at) (metis set_mset_add_mset_insert set_mset_mset)

lemma sorted_pop_at:
  assumes "sorted_wrt R xs"
  shows "sorted_wrt R (pop_at i xs)"
proof -
  have "sorted_wrt R (take i xs @ drop i xs)" using assms by simp
  moreover have "set (drop (Suc i) xs) \<subseteq> set (drop i xs)" by (rule set_drop_subset_set_drop) simp
  ultimately show ?thesis
    using assms by (auto simp: pop_at_def sorted_wrt_append sorted_wrt_drop simp del: append_take_drop_id)
qed

subsection \<open>Constants and data\<close>

datatype direction = BASE_TO_ROBOT | ROBOT_TO_BASE

definition PRIORITY :: "int \<Rightarrow> int option" where
  "PRIORITY t =
     (if t = COMMAND_ACK then Some 0 else if t = STOP_REQUEST then Some 1
      else if t = APP_HELLO then Some 1 else if t = TELEMETRY then Some 2
      else if t = RTCM_FRAGMENT then Some 3 else None)"

record work_item =
  wi_frame :: app_frame
  wi_direction :: direction
  wi_created_at :: time
  wi_order :: int
  wi_rtcm_key :: "(int \<times> int) option"

abbreviation wi_typ :: "work_item \<Rightarrow> int" where
  "wi_typ item \<equiv> af_typ (wi_frame item)"

record scheduler =
  sh_limit :: int
  sh_items :: "work_item list"
  sh_high_water :: int
  sh_queue_drops :: nat
  sh_telemetry_replaced :: nat
  sh_stale_rtcm_drops :: nat
  sh_stale_rtcm_keys :: "(int \<times> int) set"

definition new_scheduler :: "int \<Rightarrow> scheduler" where
  "new_scheduler limit =
     \<lparr>sh_limit = limit, sh_items = [], sh_high_water = 0, sh_queue_drops = 0,
      sh_telemetry_replaced = 0, sh_stale_rtcm_drops = 0, sh_stale_rtcm_keys = {}\<rparr>"

definition known_types :: "work_item list \<Rightarrow> bool" where
  "known_types items = list_all (\<lambda>item. PRIORITY (wi_typ item) \<noteq> None) items"

definition urgency :: "work_item \<Rightarrow> int" where
  "urgency item = the (PRIORITY (wi_typ item))"

subsection \<open>The operations\<close>

text \<open>
  The keys of \<open>max\<close> in \<open>push\<close> and of \<open>min\<close> in
  \<open>pop\<close>: tuples, compared lexicographically.
\<close>

definition worse :: "work_item \<Rightarrow> work_item \<Rightarrow> bool" where
  "worse x y \<longleftrightarrow> urgency y < urgency x \<or> urgency y = urgency x \<and> wi_order y < wi_order x"

definition sooner :: "work_item \<Rightarrow> work_item \<Rightarrow> bool" where
  "sooner x y \<longleftrightarrow>
     urgency x < urgency y \<or>
     urgency x = urgency y \<and>
       (wi_created_at x < wi_created_at y \<or>
        wi_created_at x = wi_created_at y \<and> wi_order x < wi_order y)"

definition superseded :: "work_item \<Rightarrow> work_item \<Rightarrow> bool" where
  "superseded item queued \<longleftrightarrow>
     wi_typ item = TELEMETRY \<and> wi_typ queued = TELEMETRY \<and> wi_direction queued = wi_direction item"

definition replace_telemetry :: "work_item \<Rightarrow> scheduler \<Rightarrow> scheduler" where
  "replace_telemetry item s =
     s\<lparr>sh_telemetry_replaced := sh_telemetry_replaced s + length (filter (superseded item) (sh_items s)),
       sh_items := filter (\<lambda>queued. \<not> superseded item queued) (sh_items s)\<rparr>"

definition admit :: "work_item \<Rightarrow> scheduler \<Rightarrow> scheduler" where
  "admit item s =
     (let items = sh_items s @ [item]
      in s\<lparr>sh_items := items, sh_high_water := max (sh_high_water s) (int (length items))\<rparr>)"

definition push :: "work_item \<Rightarrow> scheduler \<Rightarrow> scheduler \<times> bool result" where
  "push item s0 =
     (let s = replace_telemetry item s0; items = sh_items s
      in if int (length items) \<ge> sh_limit s
         then if items = [] then (s, Inl (ValueExc ''max() iterable argument is empty''))
         else if \<not> known_types items \<or> PRIORITY (wi_typ item) = None then (s, Inl KeyError)
         else (let worst = best_index worse items;
                   s' = s\<lparr>sh_queue_drops := Suc (sh_queue_drops s)\<rparr>
               in if urgency item < urgency (items ! worst)
                  then (admit item (s'\<lparr>sh_items := pop_at worst items\<rparr>), Inr True)
                  else (s', Inr False))
         else (admit item s, Inr True))"

definition stale :: "time \<Rightarrow> work_item \<Rightarrow> bool" where
  "stale now item \<longleftrightarrow> wi_typ item = RTCM_FRAGMENT \<and> now - wi_created_at item > 900 / 1000"

definition drop_stale :: "time \<Rightarrow> scheduler \<Rightarrow> scheduler" where
  "drop_stale now s =
     (let gone = filter (stale now) (sh_items s)
      in s\<lparr>sh_stale_rtcm_drops := sh_stale_rtcm_drops s + length gone,
           sh_stale_rtcm_keys :=
             sh_stale_rtcm_keys s \<union> set (List.map_filter wi_rtcm_key gone),
           sh_items := filter (\<lambda>item. \<not> stale now item) (sh_items s)\<rparr>)"

definition pop :: "time \<Rightarrow> scheduler \<Rightarrow> scheduler \<times> work_item option result" where
  "pop now s0 =
     (let s = drop_stale now s0; items = sh_items s
      in if items = [] then (s, Inr None)
         else if \<not> known_types items then (s, Inl KeyError)
         else (let index = best_index sooner items
               in (s\<lparr>sh_items := pop_at index items\<rparr>, Inr (Some (items ! index)))))"

interpretation worst: choice worse
  by unfold_locales (auto simp: worse_def)

interpretation next_item: choice sooner
  by unfold_locales (auto simp: sooner_def)

subsection \<open>What the operations do to the queue\<close>

lemmas push_unfold = push_def Let_def replace_telemetry_def admit_def
lemmas pop_unfold = pop_def Let_def drop_stale_def

lemma known_typesD: "known_types items \<Longrightarrow> item \<in> set items \<Longrightarrow> PRIORITY (wi_typ item) \<noteq> None"
  by (auto simp: known_types_def list_all_iff)

lemma known_types_subset: "known_types items \<Longrightarrow> set items' \<subseteq> set items \<Longrightarrow> known_types items'"
  by (auto simp: known_types_def list_all_iff)

definition kept :: "work_item \<Rightarrow> scheduler \<Rightarrow> work_item list" where
  "kept item s = filter (\<lambda>queued. \<not> superseded item queued) (sh_items s)"

lemma kept_subset: "set (kept item s) \<subseteq> set (sh_items s)"
  by (auto simp: kept_def)

lemma push_roomy:
  "int (length (kept item s)) < sh_limit s \<Longrightarrow>
     push item s = (admit item (replace_telemetry item s), Inr True)"
  by (simp add: push_unfold kept_def)

lemma push_full:
  assumes "sh_limit s \<le> int (length (kept item s))" and "0 < sh_limit s"
    and "known_types (item # sh_items s)"
  shows "push item s =
    (let worst = best_index worse (kept item s); s' = replace_telemetry item s;
         s'' = s'\<lparr>sh_queue_drops := Suc (sh_queue_drops s')\<rparr>
     in if urgency item < urgency (kept item s ! worst)
        then (admit item (s''\<lparr>sh_items := pop_at worst (kept item s)\<rparr>), Inr True)
        else (s'', Inr False))"
proof -
  have "kept item s \<noteq> []" using assms by auto
  moreover have "known_types (kept item s)" "PRIORITY (wi_typ item) \<noteq> None"
    using assms(3) known_types_subset [OF _ kept_subset] by (auto simp: known_types_def)
  ultimately show ?thesis using assms(1,2) by (simp add: push_unfold kept_def)
qed

lemma push_limit [simp]: "sh_limit (fst (push item s)) = sh_limit s"
  by (simp add: push_unfold)

lemma pop_limit [simp]: "sh_limit (fst (pop now s)) = sh_limit s"
  by (simp add: pop_unfold)

lemma push_items:
  "sh_items (fst (push item s)) =
     (case snd (push item s) of
        Inr True \<Rightarrow> (if sh_limit s \<le> int (length (kept item s))
                    then pop_at (best_index worse (kept item s)) (kept item s) else kept item s) @ [item]
      | _ \<Rightarrow> kept item s)"
  by (simp add: push_unfold kept_def)

lemma pop_items:
  "sh_items (fst (pop now s)) =
     (let fresh = filter (\<lambda>item. \<not> stale now item) (sh_items s)
      in case snd (pop now s) of
           Inr (Some _) \<Rightarrow> pop_at (best_index sooner fresh) fresh
         | _ \<Rightarrow> fresh)"
  by (simp add: pop_unfold)

lemma pop_served:
  assumes "pop now s = (s', Inr (Some item))"
  shows "item \<in> set (sh_items s)" "\<not> stale now item"
    "add_mset item (mset (sh_items s')) = filter_mset (\<lambda>q. \<not> stale now q) (mset (sh_items s))"
    "\<And>q. q \<in> set (sh_items s') \<Longrightarrow> \<not> sooner q item"
proof -
  define fresh where "fresh = filter (\<lambda>q. \<not> stale now q) (sh_items s)"
  have ne: "fresh \<noteq> []" and item: "item = fresh ! best_index sooner fresh"
    and s': "sh_items s' = pop_at (best_index sooner fresh) fresh"
    using assms by (auto simp: pop_unfold fresh_def split: if_splits)
  note r = next_item.best_in_range [OF ne]
  have "item \<in> set fresh" using next_item.best_member [OF ne] by (simp add: item)
  then show "item \<in> set (sh_items s)" "\<not> stale now item" by (auto simp: fresh_def)
  show "add_mset item (mset (sh_items s')) = filter_mset (\<lambda>q. \<not> stale now q) (mset (sh_items s))"
    using mset_pop_at [OF r] by (simp add: s' item) (simp add: fresh_def mset_filter)
  fix q
  assume "q \<in> set (sh_items s')"
  then have "q \<in> set fresh" using set_pop_at [OF r] by (simp add: s')
  then show "\<not> sooner q item" by (simp add: item next_item.none_better)
qed

lemma pop_unserved:
  assumes "pop now s = (s', r)" and "\<And>item. r \<noteq> Inr (Some item)"
  shows "sh_items s' = filter (\<lambda>q. \<not> stale now q) (sh_items s)"
    "r = Inr None \<Longrightarrow> sh_items s' = []" "known_types (sh_items s) \<Longrightarrow> r = Inr None"
proof -
  show "sh_items s' = filter (\<lambda>q. \<not> stale now q) (sh_items s)" "r = Inr None \<Longrightarrow> sh_items s' = []"
    using assms by (auto simp: pop_unfold split: if_splits)
  assume "known_types (sh_items s)"
  then have "known_types (filter (\<lambda>q. \<not> stale now q) (sh_items s))"
    by (rule known_types_subset) auto
  then show "r = Inr None" using assms by (auto simp: pop_unfold split: if_splits)
qed

subsection \<open>The invariant\<close>

definition telemetry_of :: "direction \<Rightarrow> work_item \<Rightarrow> bool" where
  "telemetry_of d item \<longleftrightarrow> wi_typ item = TELEMETRY \<and> wi_direction item = d"

definition sh_inv :: "scheduler \<Rightarrow> bool" where
  "sh_inv s \<longleftrightarrow>
     int (length (sh_items s)) \<le> max 0 (sh_limit s) \<and>
     int (length (sh_items s)) \<le> sh_high_water s \<and> sh_high_water s \<le> max 0 (sh_limit s) \<and>
     (\<forall>d. size (filter_mset (telemetry_of d) (mset (sh_items s))) \<le> 1)"

lemma sh_inv_new: "sh_inv (new_scheduler limit)"
  by (simp add: sh_inv_def new_scheduler_def)

lemma size_filter_mset_mono: "A \<subseteq># B \<Longrightarrow> size (filter_mset P A) \<le> size (filter_mset P B)"
  by (intro size_mset_mono multiset_filter_mono)

lemma sh_inv_shrink:
  assumes "sh_inv s" and "mset items \<subseteq># mset (sh_items s)"
    and "sh_limit s' = sh_limit s" "sh_high_water s' = sh_high_water s" "sh_items s' = items"
  shows "sh_inv s'"
proof -
  have "length items \<le> length (sh_items s)" using size_mset_mono [OF assms(2)] by simp
  moreover have "size (filter_mset (telemetry_of d) (mset items)) \<le> 1" for d
    using size_filter_mset_mono [OF assms(2), of "telemetry_of d"] assms(1) le_trans
    unfolding sh_inv_def by blast
  ultimately show ?thesis using assms by (auto simp: sh_inv_def)
qed

lemma mset_pop_at_subset: "mset (pop_at i xs) \<subseteq># mset xs"
  by (cases "i < length xs") (simp_all add: mset_pop_at pop_at_def)

lemma mset_kept_subset: "mset (kept item s) \<subseteq># mset (sh_items s)"
  by (simp add: kept_def mset_filter)

lemma kept_telemetry:
  assumes "telemetry_of d item"
  shows "filter_mset (telemetry_of d) (mset (kept item s)) = {#}"
  using assms by (simp add: kept_def telemetry_of_def superseded_def multiset_eq_iff count_eq_zero_iff
      flip: set_mset_eq_empty_iff)

lemma admit_inv:
  assumes "sh_inv s" and "mset (sh_items s') \<subseteq># mset (kept item s)"
    and "int (length (sh_items s')) < max 0 (sh_limit s)"
    and "sh_limit s' = sh_limit s" "sh_high_water s' = sh_high_water s"
  shows "sh_inv (admit item s')"
proof -
  have sub: "mset (sh_items s') \<subseteq># mset (sh_items s)"
    using assms(2) mset_kept_subset subset_mset.trans by blast
  have telemetry: "\<forall>d. size (filter_mset (telemetry_of d) (mset (sh_items s))) \<le> 1"
    using assms(1) unfolding sh_inv_def by blast
  have "size (filter_mset (telemetry_of d) (mset (sh_items s') + {#item#})) \<le> 1" for d
  proof (cases "telemetry_of d item")
    case True
    then show ?thesis
      using size_filter_mset_mono [OF assms(2), of "telemetry_of d"] kept_telemetry [of d item s]
      by simp
  next
    case False
    then show ?thesis
      using size_filter_mset_mono [OF sub, of "telemetry_of d"] spec [OF telemetry, of d] by simp
  qed
  then show ?thesis using assms by (auto simp: sh_inv_def admit_def Let_def)
qed

lemma push_inv:
  assumes "sh_inv s"
  shows "sh_inv (fst (push item s))"
proof (cases "int (length (kept item s)) < sh_limit s")
  case True
  then have "sh_inv (admit item (replace_telemetry item s))"
    by (intro admit_inv [OF assms]) (auto simp: replace_telemetry_def kept_def)
  then show ?thesis by (simp add: push_roomy [OF True])
next
  case False
  let ?s' = "fst (push item s)" let ?w = "best_index worse (kept item s)"
  have lim: "int (length (kept item s)) \<le> max 0 (sh_limit s)"
    using assms size_mset_mono [OF mset_kept_subset [of item s]] by (auto simp: sh_inv_def)
  show ?thesis
  proof (cases "snd (push item s) = Inr True")
    case True
    then have ne: "kept item s \<noteq> []" and
      s': "?s' = admit item ((replace_telemetry item s)
             \<lparr>sh_queue_drops := Suc (sh_queue_drops s), sh_items := pop_at ?w (kept item s)\<rparr>)"
      using False by (auto simp: push_unfold kept_def split: if_splits)
    have "length (kept item s) = Suc (length (pop_at ?w (kept item s)))"
      by (rule length_pop_at [OF worst.best_in_range [OF ne]])
    then show ?thesis
      unfolding s' using lim mset_pop_at_subset
      by (intro admit_inv [OF assms]) (auto simp: replace_telemetry_def)
  next
    case False
    have "sh_items ?s' = kept item s"
      using False by (auto simp: push_items split: sum.splits bool.splits)
    moreover have "sh_high_water ?s' = sh_high_water s"
      using False by (auto simp: push_unfold)
    ultimately show ?thesis
      using sh_inv_shrink [OF assms mset_kept_subset] by simp
  qed
qed

lemma pop_inv: "sh_inv s \<Longrightarrow> sh_inv (fst (pop now s))"
proof (rule sh_inv_shrink)
  show "mset (sh_items (fst (pop now s))) \<subseteq># mset (sh_items s)"
    by (auto simp: pop_items Let_def mset_filter split: sum.splits option.splits
        intro: subset_mset.trans [OF mset_pop_at_subset])
qed (auto simp: pop_unfold)

subsection \<open>Runs of the scheduler\<close>

datatype sched_event = Offer work_item | Serve time

fun sched_step :: "scheduler \<Rightarrow> sched_event \<Rightarrow> scheduler" where
  "sched_step s (Offer item) = fst (push item s)"
| "sched_step s (Serve now) = fst (pop now s)"

interpretation sched: machine sched_step sh_inv
proof
  show "sh_inv s \<Longrightarrow> sh_inv (sched_step s e)" for s e
    by (cases e) (simp_all add: push_inv pop_inv)
qed

definition offered_items :: "sched_event list \<Rightarrow> work_item list" where
  "offered_items es = List.map_filter (\<lambda>e. case e of Offer item \<Rightarrow> Some item | Serve _ \<Rightarrow> None) es"

fun served_items :: "scheduler \<Rightarrow> sched_event list \<Rightarrow> work_item list" where
  "served_items s [] = []"
| "served_items s (Offer item # es) = served_items (fst (push item s)) es"
| "served_items s (Serve now # es) =
     (case snd (pop now s) of Inr (Some item) \<Rightarrow> [item] | _ \<Rightarrow> []) @ served_items (fst (pop now s)) es"

lemma offered_simps [simp]:
  "offered_items [] = []" "offered_items (Offer item # es) = item # offered_items es"
  "offered_items (Serve now # es) = offered_items es"
  by (simp_all add: offered_items_def map_filter_simps)

text \<open>Items the scheduler has let go without serving them.\<close>

definition lost_items :: "scheduler \<Rightarrow> nat" where
  "lost_items s = sh_queue_drops s + sh_telemetry_replaced s + sh_stale_rtcm_drops s"

lemma push_subset: "mset (sh_items (fst (push item s))) \<subseteq># add_mset item (mset (sh_items s))"
  using mset_kept_subset [of item s] mset_pop_at_subset [of _ "kept item s"]
  by (auto simp: push_items split: sum.splits bool.splits intro: subset_mset.trans
      subset_mset.order_trans [OF mset_kept_subset])

lemma pop_subset:
  "mset (case snd (pop now s) of Inr (Some item) \<Rightarrow> [item] | _ \<Rightarrow> []) +
     mset (sh_items (fst (pop now s))) \<subseteq># mset (sh_items s)"
proof (cases "pop now s")
  case (Pair s' r)
  show ?thesis
  proof (cases "\<exists>item. r = Inr (Some item)")
    case True
    then show ?thesis using Pair pop_served(3) by fastforce
  next
    case False
    then have "mset (sh_items s') \<subseteq># mset (sh_items s)"
      using pop_unserved(1) [OF Pair] by (auto simp: mset_filter)
    then show ?thesis using False Pair by (auto split: sum.splits option.splits)
  qed
qed

lemma served_subset:
  "mset (served_items s es) + mset (sh_items (run sched_step s es)) \<subseteq>#
     mset (sh_items s) + mset (offered_items es)"
proof (induction s es rule: served_items.induct)
  case (2 s item es)
  then show ?case
    using subset_mset.add_right_mono [OF push_subset [of item s], of "mset (offered_items es)"]
    by (auto elim: subset_mset.trans)
next
  case (3 s now es)
  let ?got = "mset (case snd (pop now s) of Inr (Some item) \<Rightarrow> [item] | _ \<Rightarrow> [])"
  have "?got + (mset (served_items (fst (pop now s)) es) +
      mset (sh_items (run sched_step (fst (pop now s)) es))) \<subseteq>#
      ?got + (mset (sh_items (fst (pop now s))) + mset (offered_items es))"
    using 3 by (rule subset_mset.add_left_mono)
  also have "\<dots> \<subseteq># mset (sh_items s) + mset (offered_items es)"
    using subset_mset.add_right_mono [OF pop_subset, of now s "mset (offered_items es)"]
    by (simp add: add.assoc)
  finally show ?case by (simp add: add.assoc)
qed simp

lemma filter_split_length: "length (filter P xs) + length (filter (\<lambda>x. \<not> P x) xs) = length xs"
  by (rule sum_length_filter_compl)

lemma push_counts:
  assumes "0 < sh_limit s" and "known_types (item # sh_items s)"
  shows "length (sh_items (fst (push item s))) + lost_items (fst (push item s)) =
           Suc (length (sh_items s) + lost_items s)"
    and "known_types (sh_items (fst (push item s)))" and "is_ok (snd (push item s))"
proof -
  note split = filter_split_length [of "superseded item" "sh_items s"]
  have "length (sh_items (fst (push item s))) + lost_items (fst (push item s)) =
           Suc (length (sh_items s) + lost_items s) \<and> is_ok (snd (push item s))"
  proof (cases "int (length (kept item s)) < sh_limit s")
    case True
    then show ?thesis
      using split by (simp add: push_roomy lost_items_def admit_def Let_def replace_telemetry_def)
  next
    case False
    then have full: "sh_limit s \<le> int (length (kept item s))" by simp
    then have "kept item s \<noteq> []" using assms(1) by auto
    then have "length (kept item s) = Suc (length (pop_at (best_index worse (kept item s)) (kept item s)))"
      by (intro length_pop_at worst.best_in_range)
    then show ?thesis
      using split push_full [OF full assms]
      by (simp add: lost_items_def admit_def Let_def replace_telemetry_def) (simp add: kept_def)
  qed
  then show "length (sh_items (fst (push item s))) + lost_items (fst (push item s)) =
           Suc (length (sh_items s) + lost_items s)" "is_ok (snd (push item s))"
    by blast+
  show "known_types (sh_items (fst (push item s)))"
    using assms(2) set_mset_mono [OF push_subset [of item s]]
    by (intro known_types_subset [OF assms(2)]) simp
qed

lemma pop_counts:
  assumes "known_types (sh_items s)"
  shows "length (sh_items (fst (pop now s))) + lost_items (fst (pop now s)) +
           (case snd (pop now s) of Inr (Some _) \<Rightarrow> 1 | _ \<Rightarrow> 0) = length (sh_items s) + lost_items s"
    and "known_types (sh_items (fst (pop now s)))" and "is_ok (snd (pop now s))"
proof -
  let ?fresh = "filter (\<lambda>q. \<not> stale now q) (sh_items s)"
  note split = filter_split_length [of "stale now" "sh_items s"]
  have known: "known_types ?fresh" using assms by (rule known_types_subset) auto
  have "length (sh_items (fst (pop now s))) + lost_items (fst (pop now s)) +
           (case snd (pop now s) of Inr (Some _) \<Rightarrow> 1 | _ \<Rightarrow> 0) = length (sh_items s) + lost_items s \<and>
        is_ok (snd (pop now s))"
  proof (cases "?fresh = []")
    case True
    then show ?thesis using split by (simp add: pop_unfold lost_items_def)
  next
    case False
    then show ?thesis
      using split known length_pop_at [OF next_item.best_in_range [OF False]]
      by (simp add: pop_unfold lost_items_def)
  qed
  then show "length (sh_items (fst (pop now s))) + lost_items (fst (pop now s)) +
           (case snd (pop now s) of Inr (Some _) \<Rightarrow> 1 | _ \<Rightarrow> 0) = length (sh_items s) + lost_items s"
    "is_ok (snd (pop now s))"
    by blast+
  show "known_types (sh_items (fst (pop now s)))"
    using assms set_mset_mono [OF pop_subset [of now s]]
    by (auto intro!: known_types_subset [OF assms])
qed

lemma served_counts:
  "0 < sh_limit s \<Longrightarrow> known_types (offered_items es @ sh_items s) \<Longrightarrow>
   length (served_items s es) + length (sh_items (run sched_step s es)) +
     lost_items (run sched_step s es) = length (offered_items es) + length (sh_items s) + lost_items s"
proof (induction s es rule: served_items.induct)
  case (2 s item es)
  then have k: "known_types (item # sh_items s)" and "known_types (offered_items es)"
    by (auto simp: known_types_def)
  with 2 push_counts [OF 2(2) k] show ?case by (simp add: known_types_def)
next
  case (3 s now es)
  then have k: "known_types (sh_items s)" and "known_types (offered_items es)"
    by (auto simp: known_types_def)
  with 3 pop_counts [OF k, of now] show ?case
    by (auto simp: known_types_def split: sum.splits option.splits)
qed simp

subsection \<open>Properties\<close>

definition sample_item :: "int \<Rightarrow> int \<Rightarrow> work_item" where
  "sample_item t n =
     \<lparr>wi_frame = \<lparr>af_typ = t, af_sender_session = 1, af_message_id = 1, af_source_age_ms = 0, af_body = []\<rparr>,
      wi_direction = BASE_TO_ROBOT, wi_created_at = 0, wi_order = n, wi_rtcm_key = None\<rparr>"

text \<open>
  The bench's scheduler stays within its limit, holds at most one telemetry sample per
  direction, serves nothing that was not offered, and serves it at most once; and every item offered
  is served, still queued, or counted as dropped, replaced or stale.
\<close>

theorem scheduler_accounts:
  assumes "0 < limit" and "known_types (offered_items es)"
    and "s = run sched_step (new_scheduler limit) es"
    and "served = served_items (new_scheduler limit) es"
  shows "int (length (sh_items s)) \<le> sh_high_water s \<and> sh_high_water s \<le> limit \<and>
    size (filter_mset (telemetry_of d) (mset (sh_items s))) \<le> 1 \<and>
    mset served + mset (sh_items s) \<subseteq># mset (offered_items es) \<and>
    length served + length (sh_items s) + sh_queue_drops s + sh_telemetry_replaced s +
      sh_stale_rtcm_drops s = length (offered_items es)"
proof -
  have "sh_inv s" unfolding assms(3) by (rule sched.run_inv [OF sh_inv_new])
  moreover have "sh_limit s = limit"
  proof -
    have "sh_limit (run sched_step s0 es') = sh_limit s0" for s0 es'
    proof (induction es' arbitrary: s0)
      case (Cons e es')
      then show ?case by (cases e) simp_all
    qed simp
    then show ?thesis by (simp add: assms(3) new_scheduler_def)
  qed
  moreover have "mset served + mset (sh_items s) \<subseteq># mset (offered_items es)"
    using served_subset [of "new_scheduler limit" es] by (simp add: assms(3,4) new_scheduler_def)
  moreover have "length served + length (sh_items s) + lost_items s = length (offered_items es)"
    using served_counts [of "new_scheduler limit" es] assms
    by (simp add: new_scheduler_def lost_items_def)
  ultimately show ?thesis using assms(1) by (simp add: sh_inv_def lost_items_def)
qed

definition sample_offers :: "sched_event list" where
  "sample_offers = [Offer (sample_item 0x30 1), Offer (sample_item 0x10 2), Serve 0]"

lemma sample_offers_known: "known_types (offered_items sample_offers)"
  by (simp add: known_types_def sample_offers_def PRIORITY_def sample_item_def)

lemma sample_offers_served: "served_items (new_scheduler 1) sample_offers = [sample_item 0x10 2]"
  by (simp add: sample_offers_def push_unfold pop_unfold superseded_def new_scheduler_def known_types_def
      PRIORITY_def sample_item_def urgency_def stale_def pop_at_def)

theorem scheduler_accounts_witness:
  "\<exists>s. s = run sched_step (new_scheduler 1) sample_offers \<and>
     length [sample_item 0x10 2] + length (sh_items s) + sh_queue_drops s + sh_telemetry_replaced s +
       sh_stale_rtcm_drops s = 2"
  using scheduler_accounts [OF _ sample_offers_known refl refl, of 1]
  by (simp add: sample_offers_served) (simp add: sample_offers_def)

text \<open>
  A full queue loses exactly one item on a push, and no item that stays is less urgent
  than the one lost: a COMMAND_ACK or STOP_REQUEST is given up only when nothing less urgent is
  queued.
\<close>

theorem scheduler_admission:
  assumes "0 < sh_limit s" and "known_types (item # sh_items s)"
  shows "\<exists>s' accepted. push item s = (s', Inr accepted) \<and>
    (if int (length (kept item s)) < sh_limit s
     then accepted \<and> sh_items s' = kept item s @ [item]
     else \<exists>lost. add_mset lost (mset (sh_items s')) = add_mset item (mset (kept item s)) \<and>
            (accepted \<longleftrightarrow> lost \<noteq> item) \<and> sh_queue_drops s' = Suc (sh_queue_drops s) \<and>
            (\<forall>q\<in>set (sh_items s'). urgency q \<le> urgency lost))"
proof (cases "int (length (kept item s)) < sh_limit s")
  case True
  then show ?thesis
    by (auto simp: push_roomy admit_def Let_def replace_telemetry_def kept_def)
next
  case False
  then have full: "sh_limit s \<le> int (length (kept item s))" by simp
  then have ne: "kept item s \<noteq> []" using assms(1) by auto
  let ?worst = "best_index worse (kept item s)"
  let ?lost = "kept item s ! ?worst"
  have le: "urgency q \<le> urgency ?lost" if "q \<in> set (kept item s)" for q
    using worst.none_better [OF that] by (auto simp: worse_def)
  note r = worst.best_in_range [OF ne]
  show ?thesis
  proof (cases "urgency item < urgency ?lost")
    case True
    then show ?thesis
      using push_full [OF full assms] False mset_pop_at [OF r] set_pop_at [OF r] le
      by (intro exI [of _ "fst (push item s)"] exI [of _ True])
         (auto simp: Let_def admit_def replace_telemetry_def intro!: exI [of _ ?lost])
  next
    case refuse: False
    have "urgency q \<le> urgency item" if "q \<in> set (kept item s)" for q
      using le [OF that] refuse by linarith
    with refuse show ?thesis
      using push_full [OF full assms] False
      by (intro exI [of _ "fst (push item s)"] exI [of _ False])
         (auto simp: Let_def replace_telemetry_def kept_def intro!: exI [of _ item])
  qed
qed

lemma sample_full:
  "known_types (sample_item 0x10 2 # sh_items (run sched_step (new_scheduler 1) [Offer (sample_item 0x30 1)]))"
  "sh_limit (run sched_step (new_scheduler 1) [Offer (sample_item 0x30 1)]) = 1"
  by (simp_all add: push_unfold superseded_def new_scheduler_def known_types_def PRIORITY_def sample_item_def)

theorem scheduler_admission_witness:
  "\<exists>s' accepted. push (sample_item 0x10 2)
     (run sched_step (new_scheduler 1) [Offer (sample_item 0x30 1)]) = (s', Inr accepted)"
  using scheduler_admission [OF _ sample_full(1)] unfolding sample_full(2) by auto

text \<open>
  What \<open>pop\<close> is to serve, said without the functions of the code: the frame types in four classes
  of falling urgency, and a fragment that is too old.
\<close>

definition urgency_classes :: "int set list" where
  "urgency_classes = [{COMMAND_ACK}, {STOP_REQUEST, APP_HELLO}, {TELEMETRY}, {RTCM_FRAGMENT}]"

definition served_first :: "work_item \<Rightarrow> work_item \<Rightarrow> bool" where
  "served_first item q \<longleftrightarrow>
     (\<exists>i j. i \<le> j \<and> j < 4 \<and> wi_typ item \<in> urgency_classes ! i \<and> wi_typ q \<in> urgency_classes ! j \<and>
       (i = j \<longrightarrow> wi_created_at item \<le> wi_created_at q) \<and>
       (i = j \<and> wi_created_at item = wi_created_at q \<longrightarrow> wi_order item \<le> wi_order q))"

lemma urgency_class:
  "PRIORITY t = Some (int i) \<Longrightarrow> i < 4 \<and> t \<in> urgency_classes ! i"
  by (auto simp: PRIORITY_def urgency_classes_def split: if_splits)

lemma classes_known: "t \<in> \<Union> (set urgency_classes) \<Longrightarrow> \<exists>i. PRIORITY t = Some (int i)"
  by (auto simp: PRIORITY_def urgency_classes_def intro: exI [of _ 0] exI [of _ 1] exI [of _ 2] exI [of _ 3])

lemma not_sooner_class:
  assumes "\<not> sooner q item" and "wi_typ q \<in> \<Union> (set urgency_classes)"
    and "wi_typ item \<in> \<Union> (set urgency_classes)"
  shows "served_first item q"
proof -
  from classes_known [OF assms(2)] classes_known [OF assms(3)]
  obtain i j where "PRIORITY (wi_typ item) = Some (int i)" "PRIORITY (wi_typ q) = Some (int j)"
    by blast
  with assms(1) urgency_class [of "wi_typ item" i] urgency_class [of "wi_typ q" j] show ?thesis
    unfolding served_first_def by (intro exI [of _ i] exI [of _ j]) (auto simp: sooner_def urgency_def)
qed

text \<open>
  Property C12. \<open>pop\<close> refines an abstract priority queue, described without the order
  and the age test of the code. When every queued frame is of one of the five known types, \<open>pop\<close>
  raises nothing; it takes away exactly the RTCM fragments (type 0x30) created more than 0.9 s ago,
  and counts them; it answers None only when nothing else was queued, and otherwise takes exactly
  one of the other items out of the queue, the rest keeping their order, such that every item left
  behind is of the same or of a less urgent class (\<open>COMMAND_ACK\<close>, then \<open>STOP_REQUEST\<close> and HELLO, then TELEMETRY,
  then RTCM fragments), and if of the same class was created at the same time or later, and if
  created at the same time has the same or a higher order number.
\<close>

theorem scheduler_serves_most_urgent:
  assumes "\<forall>q\<in>set (sh_items s). wi_typ q \<in> \<Union> (set urgency_classes)"
    and "old = (\<lambda>q. wi_typ q = 0x30 \<and> now - wi_created_at q > 9 / 10)"
    and "fresh = filter (\<lambda>q. \<not> old q) (sh_items s)"
  shows "\<exists>s' r. pop now s = (s', Inr r) \<and>
    sh_stale_rtcm_drops s' = sh_stale_rtcm_drops s + length (filter old (sh_items s)) \<and>
    (case r of
       None \<Rightarrow> fresh = [] \<and> sh_items s' = []
     | Some item \<Rightarrow> \<exists>before after. fresh = before @ item # after \<and> sh_items s' = before @ after \<and>
         (\<forall>q\<in>set (before @ after). served_first item q))"
proof -
  have old: "old = stale now" by (simp add: assms(2) stale_def fun_eq_iff)
  have "known_types (sh_items s)"
    using assms(1) classes_known by (force simp: known_types_def list_all_iff)
  then obtain s' r where p: "pop now s = (s', Inr r)"
    using pop_counts(3) [of s now] by (cases "pop now s") (auto simp: is_ok_iff)
  have drops: "sh_stale_rtcm_drops s' = sh_stale_rtcm_drops s + length (filter old (sh_items s))"
    using p by (auto simp: pop_unfold old split: if_splits)
  show ?thesis
  proof (cases r)
    case None
    with p drops pop_unserved [OF p] show ?thesis by (auto simp: assms(3) old)
  next
    case (Some item)
    let ?i = "best_index sooner fresh"
    have ne: "fresh \<noteq> []" and item: "item = fresh ! ?i" and s': "sh_items s' = take ?i fresh @ drop (Suc ?i) fresh"
      using p Some by (auto simp: pop_unfold assms(3) old pop_at_def split: if_splits)
    have eq: "fresh = take ?i fresh @ item # drop (Suc ?i) fresh"
      unfolding item by (rule id_take_nth_drop [OF next_item.best_in_range [OF ne]])
    have "set (take ?i fresh @ item # drop (Suc ?i) fresh) \<subseteq> set (sh_items s)"
      unfolding eq [symmetric] by (simp add: assms(3))
    then have "set (sh_items s') \<subseteq> set (sh_items s)" "item \<in> set (sh_items s)"
      by (simp_all add: s')
    moreover have "\<not> sooner q item" if "q \<in> set (sh_items s')" for q
      using pop_served(4) [of now s s' item q] p Some that by simp
    ultimately have "\<forall>q\<in>set (sh_items s'). served_first item q"
      using assms(1) by (auto intro!: not_sooner_class)
    with eq s' have "\<exists>before after. fresh = before @ item # after \<and> sh_items s' = before @ after \<and>
        (\<forall>q\<in>set (before @ after). served_first item q)"
      by metis
    with p drops Some show ?thesis by auto
  qed
qed

definition sample_queue :: "work_item list" where
  "sample_queue = [sample_item 0x30 1, sample_item 0x20 2, sample_item 0x10 3]"

lemma sample_queue_classes: "\<forall>q\<in>set sample_queue. wi_typ q \<in> \<Union> (set urgency_classes)"
  by (simp add: sample_queue_def sample_item_def urgency_classes_def)

lemma sample_classes:
  assumes "i < 4"
  shows "0x20 \<in> urgency_classes ! i \<longleftrightarrow> i = 2" "0x10 \<in> urgency_classes ! i \<longleftrightarrow> i = 1"
  using assms by (auto simp: urgency_classes_def less_Suc_eq numeral_eq_Suc)

lemma sample_fresh:
  fixes old defines "old \<equiv> \<lambda>q. wi_typ q = 0x30 \<and> 1 - wi_created_at q > 9 / 10"
  shows "[sample_item 0x20 2, sample_item 0x10 3] =
      filter (\<lambda>q. \<not> old q) (sh_items (new_scheduler 96\<lparr>sh_items := sample_queue\<rparr>))"
    and "length (filter old (sh_items (new_scheduler 96\<lparr>sh_items := sample_queue\<rparr>))) = 1"
  by (simp_all add: old_def sample_queue_def sample_item_def)

theorem scheduler_serves_most_urgent_witness:
  "\<exists>s' r. pop 1 (new_scheduler 96\<lparr>sh_items := sample_queue\<rparr>) = (s', Inr r) \<and>
     r = Some (sample_item 0x10 3) \<and> sh_items s' = [sample_item 0x20 2] \<and> sh_stale_rtcm_drops s' = 1"
proof -
  let ?s = "new_scheduler 96\<lparr>sh_items := sample_queue\<rparr>"
  have c: "\<forall>q\<in>set (sh_items ?s). wi_typ q \<in> \<Union> (set urgency_classes)"
    using sample_queue_classes by simp
  note served = scheduler_serves_most_urgent [OF c refl sample_fresh(1)]
  from served obtain s' item before after where
    p: "pop 1 ?s = (s', Inr (Some item))" and drops: "sh_stale_rtcm_drops s' = 1" and
    eq: "[sample_item 0x20 2, sample_item 0x10 3] = before @ item # after" and
    left: "sh_items s' = before @ after" and
    least: "\<forall>q\<in>set (before @ after). served_first item q"
    unfolding sample_fresh(2) by (auto simp: new_scheduler_def split: option.splits)
  from eq consider "before = []" "item = sample_item 0x20 2" "after = [sample_item 0x10 3]" |
    "before = [sample_item 0x20 2]" "item = sample_item 0x10 3" "after = []"
    by (auto simp: append_eq_Cons_conv Cons_eq_append_conv)
  then show ?thesis
  proof cases
    case 1
    with least obtain i j where "i \<le> j" "j < 4" "0x20 \<in> urgency_classes ! i" "0x10 \<in> urgency_classes ! j"
      by (auto simp: sample_item_def served_first_def)
    with sample_classes [of i] sample_classes [of j] show ?thesis by simp
  qed (use p drops left in auto)
qed

end
