(* ===== verification/Statements.thy ===== *)
theory Statements
  imports Prelude
begin

text \<open>
  Statements of the benches and the synchronous client: they change a state and may raise an
  exception, after which the changes made so far remain. Sequences, loops over lists and
  \<open>while\<close> loops that need not end, and triples to reason about them.
\<close>

subsection \<open>Statements that change a state and may raise\<close>

type_synonym ('s, 'a) act = "'s \<Rightarrow> 's \<times> 'a result"

definition lift :: "'a result \<Rightarrow> ('s, 'a) act" where
  "lift r s = (s, r)"

definition change :: "('s \<Rightarrow> 's) \<Rightarrow> ('s, unit) act" where
  "change f s = (f s, Inr ())"

definition seqA :: "('s, 'a) act \<Rightarrow> ('a \<Rightarrow> ('s, 'b) act) \<Rightarrow> ('s, 'b) act" where
  "seqA f g s = (case f s of (s', Inl e) \<Rightarrow> (s', Inl e) | (s', Inr x) \<Rightarrow> g x s')"

definition thenA :: "('s, unit) act \<Rightarrow> ('s, 'b) act \<Rightarrow> ('s, 'b) act" where
  "thenA f g = seqA f (\<lambda>_. g)"

fun eachA :: "('a \<Rightarrow> ('s, unit) act) \<Rightarrow> 'a list \<Rightarrow> ('s, unit) act" where
  "eachA f [] = change (\<lambda>s. s)"
| "eachA f (x # xs) = thenA (f x) (eachA f xs)"

text \<open>\<open>while cond: body\<close>; None when it never ends.\<close>

partial_function (option) whileA ::
  "('s \<Rightarrow> bool) \<Rightarrow> ('s, unit) act \<Rightarrow> 's \<Rightarrow> ('s \<times> unit result) option" where
  "whileA cond body s =
     (if cond s
      then (case body s of (s', Inl e) \<Rightarrow> Some (s', Inl e) | (s', Inr _) \<Rightarrow> whileA cond body s')
      else Some (s, Inr ()))"

text \<open>What follows a statement that may not end: nothing when it raised.\<close>

definition thenO :: "('s \<times> 'a result) option \<Rightarrow> ('a \<Rightarrow> 's \<Rightarrow> ('s \<times> 'b result) option) \<Rightarrow>
    ('s \<times> 'b result) option" where
  "thenO r f =
     (case r of None \<Rightarrow> None | Some (s, Inl e) \<Rightarrow> Some (s, Inl e) | Some (s, Inr x) \<Rightarrow> f x s)"

lemma thenO_simps [simp]:
  "thenO None f = None" "thenO (Some (s, Inl e)) f = Some (s, Inl e)" "thenO (Some (s, Inr x)) f = f x s"
  by (simp_all add: thenO_def)

lemma thenO_assoc: "thenO (thenO r f) g = thenO r (\<lambda>x s. thenO (f x s) g)"
  by (auto simp: thenO_def split: option.splits sum.splits)

lemma thenO_mono [partial_function_mono]:
  assumes "monotone (fun_ord option_ord) option_ord b"
    and "\<And>x s. monotone (fun_ord option_ord) option_ord (\<lambda>f. c x s f)"
  shows "monotone (fun_ord option_ord) option_ord (\<lambda>f. thenO (b f) (\<lambda>x s. c x s f))"
proof -
  have eq: "(\<lambda>f. thenO (b f) (\<lambda>x s. c x s f)) =
      (\<lambda>f. Option.bind (b f) (\<lambda>y. case y of (s, Inl e) \<Rightarrow> Some (s, Inl e) | (s, Inr x) \<Rightarrow> c x s f))"
    by (auto simp: thenO_def fun_eq_iff split: option.splits sum.splits)
  have "monotone (fun_ord option_ord) option_ord
      (\<lambda>f. case y of (s, Inl e) \<Rightarrow> Some (s, Inl e) | (s, Inr x) \<Rightarrow> c x s f)" for y
  proof (cases y)
    case (Pair s r)
    then show ?thesis using assms(2) by (cases r) (simp_all add: option.const_mono)
  qed
  then show ?thesis unfolding eq by (rule bind_mono [OF assms(1)])
qed

subsection \<open>Triples\<close>

text \<open>
  \<open>triple P f Q E\<close>: from a state with \<open>P\<close>, \<open>f\<close> ends with a result and state of \<open>Q\<close>, or raises an
  exception and leaves a state of \<open>E\<close>.
\<close>

definition triple :: "('s \<Rightarrow> bool) \<Rightarrow> ('s, 'a) act \<Rightarrow> ('a \<Rightarrow> 's \<Rightarrow> bool) \<Rightarrow> (py_exc \<Rightarrow> 's \<Rightarrow> bool) \<Rightarrow> bool" where
  "triple P f Q E \<longleftrightarrow>
     (\<forall>s. P s \<longrightarrow> (case f s of (s', Inl e) \<Rightarrow> E e s' | (s', Inr x) \<Rightarrow> Q x s'))"

lemma tripleI:
  "(\<And>s s' r. P s \<Longrightarrow> f s = (s', r) \<Longrightarrow> case r of Inl e \<Rightarrow> E e s' | Inr x \<Rightarrow> Q x s') \<Longrightarrow> triple P f Q E"
  by (fastforce simp: triple_def split: sum.splits)

lemma tripleD:
  "triple P f Q E \<Longrightarrow> P s \<Longrightarrow> f s = (s', r) \<Longrightarrow> case r of Inl e \<Rightarrow> E e s' | Inr x \<Rightarrow> Q x s'"
  by (fastforce simp: triple_def split: sum.splits)

lemma triple_seq:
  "triple P f R E \<Longrightarrow> (\<And>x. triple (R x) (g x) Q E) \<Longrightarrow> triple P (seqA f g) Q E"
  by (fastforce simp: triple_def seqA_def split: sum.splits prod.splits)

lemma triple_then: "triple P f (\<lambda>_. R) E \<Longrightarrow> triple R g Q E \<Longrightarrow> triple P (thenA f g) Q E"
  unfolding thenA_def by (rule triple_seq)

lemma triple_change: "(\<And>s. P s \<Longrightarrow> Q () (f s)) \<Longrightarrow> triple P (change f) Q E"
  by (simp add: triple_def change_def)

lemma triple_lift:
  "(\<And>s. P s \<Longrightarrow> case r of Inl e \<Rightarrow> E e s | Inr x \<Rightarrow> Q x s) \<Longrightarrow> triple P (lift r) Q E"
  by (auto simp: triple_def lift_def split: sum.splits)

lemma seqA_lift [simp]: "seqA (lift (Inr x)) g = g x" "seqA (lift (Inl e)) g = lift (Inl e)"
  by (simp_all add: seqA_def lift_def fun_eq_iff)

lemma seqA_change [simp]: "seqA (change f) g s = g () (f s)"
  by (simp add: seqA_def change_def)

lemma seqA_ran:
  "f s = (s', Inr x) \<Longrightarrow> seqA f g s = g x s'"
  "f s = (s', Inl e) \<Longrightarrow> seqA f g s = (s', Inl e)"
  by (simp_all add: seqA_def)

lemma triple_each:
  "(\<And>x. x \<in> set xs \<Longrightarrow> triple I (f x) (\<lambda>_. I) E) \<Longrightarrow> triple I (eachA f xs) (\<lambda>_. I) E"
  by (induction xs) (auto intro: triple_then triple_change)

lemma triple_weaken:
  "triple P' f Q' E' \<Longrightarrow> (\<And>s. P s \<Longrightarrow> P' s) \<Longrightarrow> (\<And>x s. Q' x s \<Longrightarrow> Q x s) \<Longrightarrow>
   (\<And>e s. E' e s \<Longrightarrow> E e s) \<Longrightarrow> triple P f Q E"
  by (fastforce simp: triple_def split: sum.splits)

text \<open>A loop whose body lowers a measure ends, and ends with its invariant or an exception.\<close>

lemma whileA_total:
  assumes body: "\<And>n. triple (\<lambda>s. P s \<and> cond s \<and> measure' s = n) body
      (\<lambda>_ s. P s \<and> measure' s < (n :: nat)) E"
    and "P s"
  shows "\<exists>s' r. whileA cond body s = Some (s', r) \<and>
    (case r of Inl e \<Rightarrow> E e s' | Inr _ \<Rightarrow> P s' \<and> \<not> cond s')"
  using assms(2)
proof (induction "measure' s" arbitrary: s rule: less_induct)
  case less
  show ?case
  proof (cases "cond s")
    case True
    obtain s' r where b: "body s = (s', r)" by fastforce
    have res: "case r of Inl e \<Rightarrow> E e s' | Inr _ \<Rightarrow> P s' \<and> measure' s' < measure' s"
      using tripleD [OF body _ b] less.prems True by auto
    show ?thesis
    proof (cases r)
      case (Inl e)
      then show ?thesis using res True b by (subst whileA.simps) simp
    next
      case (Inr u)
      then show ?thesis using res True b less.hyps [of s'] by (subst whileA.simps) simp
    qed
  next
    case False
    then show ?thesis using less.prems by (subst whileA.simps) simp
  qed
qed

text \<open>When such a loop has ended, and however it did, its invariant holds, or an exception came of the body.\<close>

lemma whileA_partial:
  assumes "whileA cond body s = Some (s', r)"
    and "triple (\<lambda>s. P s \<and> cond s) body (\<lambda>_. P) E" and "P s"
  shows "case r of Inl e \<Rightarrow> E e s' | Inr _ \<Rightarrow> P s' \<and> \<not> cond s'"
proof -
  have "triple (\<lambda>s. P s \<and> cond s) body (\<lambda>_. P) E \<longrightarrow> P s \<longrightarrow>
      (case snd y of Inl e \<Rightarrow> E e (fst y) | Inr _ \<Rightarrow> P (fst y) \<and> \<not> cond (fst y))"
    if "whileA cond body s = Some y" for y
  proof (rule whileA.raw_induct [where P = "\<lambda>cond body s y.
      triple (\<lambda>s. P s \<and> cond s) body (\<lambda>_. P) E \<longrightarrow> P s \<longrightarrow>
      (case snd y of Inl e \<Rightarrow> E e (fst y) | Inr _ \<Rightarrow> P (fst y) \<and> \<not> cond (fst y))", OF _ that], intro impI)
    fix rec cond and body :: "('a, unit) act" and s y
    assume ih: "\<And>cond body s y. rec cond body s = Some y \<Longrightarrow>
          triple (\<lambda>s. P s \<and> cond s) body (\<lambda>_. P) E \<longrightarrow> P s \<longrightarrow>
          (case snd y of Inl e \<Rightarrow> E e (fst y) | Inr _ \<Rightarrow> P (fst y) \<and> \<not> cond (fst y))"
      and eq: "(if cond s then case body s of (s', Inl e) \<Rightarrow> Some (s', Inl e) | (s', Inr _) \<Rightarrow> rec cond body s'
          else Some (s, Inr ())) = Some y"
      and p: "triple (\<lambda>s. P s \<and> cond s) body (\<lambda>_. P) E" "P s"
    show "case snd y of Inl e \<Rightarrow> E e (fst y) | Inr _ \<Rightarrow> P (fst y) \<and> \<not> cond (fst y)"
    proof (cases "cond s")
      case True
      obtain t r where t: "body s = (t, r)" by (rule prod.exhaust)
      from True p(2) have "P s \<and> cond s" by simp
      from tripleD [OF p(1) this t] ih [of cond body t y] eq p(1) t True show ?thesis by (cases r) auto
    qed (use eq p in auto)
  qed
  from this [OF assms(1)] assms(2,3) show ?thesis by (cases r) simp_all
qed

text \<open>
  The same for statements that need not end: from \<open>P\<close>, \<open>f\<close> ends, and with \<open>Q\<close> unless it raised.
\<close>

definition ends :: "('s \<Rightarrow> bool) \<Rightarrow> ('s \<Rightarrow> ('s \<times> 'a result) option) \<Rightarrow> ('a \<Rightarrow> 's \<Rightarrow> bool) \<Rightarrow> bool" where
  "ends P f Q \<longleftrightarrow>
     (\<forall>s. P s \<longrightarrow> (\<exists>s' r. f s = Some (s', r) \<and> (case r of Inl e \<Rightarrow> True | Inr x \<Rightarrow> Q x s')))"

lemma endsI:
  "(\<And>s. P s \<Longrightarrow> \<exists>s' r. f s = Some (s', r) \<and> (case r of Inl e \<Rightarrow> True | Inr x \<Rightarrow> Q x s')) \<Longrightarrow> ends P f Q"
  by (simp add: ends_def)

lemma endsD:
  "ends P f Q \<Longrightarrow> P s \<Longrightarrow> \<exists>s' r. f s = Some (s', r) \<and> (case r of Inl e \<Rightarrow> True | Inr x \<Rightarrow> Q x s')"
  by (simp add: ends_def)

lemma ends_then:
  assumes "ends P f R" and "\<And>x. ends (R x) (g x) Q"
  shows "ends P (\<lambda>s. thenO (f s) g) Q"
proof (rule endsI)
  fix s assume "P s"
  from endsD [OF assms(1) this] obtain s' r where f: "f s = Some (s', r)"
    "case r of Inl e \<Rightarrow> True | Inr x \<Rightarrow> R x s'" by blast
  then show "\<exists>s' r. thenO (f s) g = Some (s', r) \<and> (case r of Inl e \<Rightarrow> True | Inr x \<Rightarrow> Q x s')"
    using endsD [OF assms(2)] by (cases r) auto
qed

lemma ends_some:
  "(\<And>s. P s \<Longrightarrow> case f s of (s', Inl e) \<Rightarrow> True | (s', Inr x) \<Rightarrow> Q x s') \<Longrightarrow> ends P (\<lambda>s. Some (f s)) Q"
  by (rule endsI) (fastforce split: prod.splits sum.splits)

lemma ends_weaken:
  assumes "ends P' f Q'" and "\<And>s. P s \<Longrightarrow> P' s" and "\<And>x s. Q' x s \<Longrightarrow> Q x s"
  shows "ends P f Q"
proof (rule endsI)
  fix s assume "P s"
  from endsD [OF assms(1) assms(2) [OF this]] obtain s' r where "f s = Some (s', r)"
    "case r of Inl e \<Rightarrow> True | Inr x \<Rightarrow> Q' x s'" by blast
  then show "\<exists>s' r. f s = Some (s', r) \<and> (case r of Inl e \<Rightarrow> True | Inr x \<Rightarrow> Q x s')"
    using assms(3) by (cases r) auto
qed

subsection \<open>Deadlines\<close>

text \<open>
  A loop meets its deadline, whether it sleeps or not, when the clock never goes back and passes every
  time at last; what it still has to read until the deadline goes down with every reading.
\<close>

definition passes :: "(nat \<Rightarrow> time) \<Rightarrow> bool" where
  "passes clock \<longleftrightarrow> mono clock \<and> (\<forall>t. \<exists>n. t \<le> clock n)"

definition readings_left :: "(nat \<Rightarrow> time) \<Rightarrow> time \<Rightarrow> nat \<Rightarrow> nat" where
  "readings_left clock deadline n = (LEAST k. deadline \<le> clock k) - n"

lemma passes_mono: "passes clock \<Longrightarrow> i \<le> j \<Longrightarrow> clock i \<le> clock j"
  by (simp add: passes_def monoD)

lemma readings_less:
  assumes "passes clock" and "clock n < deadline" and "n < n'"
  shows "readings_left clock deadline n' < readings_left clock deadline n"
proof -
  define k where "k = (LEAST k. deadline \<le> clock k)"
  obtain j where "deadline \<le> clock j" using assms(1) by (auto simp: passes_def)
  then have "deadline \<le> clock k" unfolding k_def by (rule LeastI [of "\<lambda>k. deadline \<le> clock k"])
  then have "\<not> clock k \<le> clock n" using assms(2) by linarith
  then have "\<not> k \<le> n" using passes_mono [OF assms(1)] by blast
  then show ?thesis using assms(3) unfolding readings_left_def k_def [symmetric] by arith
qed

text \<open>For instance, a clock that advances at least a millisecond from one reading to the next.\<close>

definition ticks :: "(nat \<Rightarrow> time) \<Rightarrow> bool" where
  "ticks clock \<longleftrightarrow> (\<forall>n. clock n + 1 / 1000 \<le> clock (Suc n))"

lemma ticks_from_start:
  assumes "ticks clock"
  shows "clock 0 + real n / 1000 \<le> clock n"
proof (induction n)
  case (Suc n)
  have "real (Suc n) / 1000 = real n / 1000 + 1 / 1000" by (simp add: add_divide_distrib)
  then show ?case using Suc assms [unfolded ticks_def, rule_format, of n] by linarith
qed simp

lemma ticks_pass:
  assumes "ticks clock"
  shows "passes clock"
proof -
  have "mono clock"
  proof (rule incseq_SucI)
    show "clock n \<le> clock (Suc n)" for n
      using assms [unfolded ticks_def, rule_format, of n] by simp
  qed
  moreover have "\<exists>n. t \<le> clock n" for t
  proof -
    obtain n where "(t - clock 0) * 1000 \<le> real n" using real_arch_simple by blast
    then have "t \<le> clock 0 + real n / 1000" by simp
    then show ?thesis using order_trans ticks_from_start [OF assms] by blast
  qed
  ultimately show ?thesis by (simp add: passes_def)
qed

end
