(* ===== verification/Mixed_Runner.thy ===== *)
theory Mixed_Runner
  imports Statements Scheduler Reassembler Stop_Cache
begin

text \<open>
  The mixed STOP, telemetry and RTCM bench (\<open>tools/lora_usb/mixed_bench.py\<close>): \<open>MixedRunner\<close> over
  the \<open>SimulatedTransport\<close>. The runner offers synthetic traffic for both directions when it is
  due, the scheduler picks one frame at a time, the transport carries it, and the receiving side
  reassembles, applies STOPs and acknowledges them. Operations that may raise after having changed
  the runner return the changed runner with the exception; loops the code does not bound return an
  option, whose None means that the loop never ends. The sessions that the constructor draws at
  random are arguments.
\<close>

subsection \<open>Airtime and percentiles\<close>

text \<open>\<open>lora_airtime_s\<close>, in seconds.\<close>

definition lora_airtime_s :: "nat \<Rightarrow> real" where
  "lora_airtime_s application_size =
     (let radio_packet_bytes = application_size + 18;
          payload_term = \<lceil>(8 * real radio_packet_bytes + 16) / 20\<rceil>
      in 128 / 1000000 * (2625 / 100 + 5 * of_int payload_term))"

text \<open>\<open>xs[i]\<close> with Python's negative indices.\<close>

definition py_index :: "'a list \<Rightarrow> int \<Rightarrow> 'a result" where
  "py_index xs i =
     (let j = (if i < 0 then int (length xs) + i else i)
      in if 0 \<le> j \<and> j < int (length xs) then Inr (xs ! nat j) else Inl IndexError)"

definition percentile :: "real list \<Rightarrow> real \<Rightarrow> real option result" where
  "percentile values' fraction =
     (if values' = [] then Inr None
      else (let ordered = sort values';
                index = min (int (length ordered) - 1) (\<lceil>real (length ordered) * fraction\<rceil> - 1)
            in bindR (py_index ordered index) (\<lambda>x. Inr (Some x))))"

subsection \<open>The simulated transport\<close>

record sim_transport =
  st_clock :: time
  st_estimated_airtime_s :: real
  st_transaction_times_ms :: "real list"

definition new_transport :: sim_transport where
  "new_transport = \<lparr>st_clock = 0, st_estimated_airtime_s = 0, st_transaction_times_ms = []\<rparr>"

definition idle_until :: "time \<Rightarrow> sim_transport \<Rightarrow> sim_transport" where
  "idle_until target t = t\<lparr>st_clock := max (st_clock t) target\<rparr>"

text \<open>The result is the received frame with its RSSI and SNR.\<close>

definition transmit :: "app_frame \<Rightarrow> (sim_transport, app_frame \<times> real \<times> real) act" where
  "transmit frame t =
     (case app_encode frame of
        Inl e \<Rightarrow> (t, Inl e)
      | Inr wire \<Rightarrow>
          (let duration = lora_airtime_s (length wire);
               t' = t\<lparr>st_estimated_airtime_s := st_estimated_airtime_s t + duration,
                      st_clock := st_clock t + (duration + 1 / 1000),
                      st_transaction_times_ms :=
                        st_transaction_times_ms t @ [(duration + 1 / 1000) * 1000]\<rparr>
           in (t', bindR (app_decode wire) (\<lambda>f. Inr (f, - 55, 85 / 10)))))"

subsection \<open>The runner's state\<close>

definition KIND_BY_TYPE :: "int \<Rightarrow> string option" where
  "KIND_BY_TYPE t =
     (if t = APP_HELLO then Some ''hello'' else if t = STOP_REQUEST then Some ''stop''
      else if t = COMMAND_ACK then Some ''ack'' else if t = TELEMETRY then Some ''telemetry''
      else if t = RTCM_FRAGMENT then Some ''rtcm_fragment'' else None)"

record traffic =
  tr_offered :: nat
  tr_sent :: nat
  tr_delivered :: nat
  tr_dropped :: nat
  tr_bytes :: nat

definition empty_traffic :: traffic where
  "empty_traffic = \<lparr>tr_offered = 0, tr_sent = 0, tr_delivered = 0, tr_dropped = 0, tr_bytes = 0\<rparr>"

datatype bench_error = Caught py_exc | DrainDeadline

record mixed =
  mr_profile :: string
  mr_duration_s :: time
  mr_status_interval_s :: time
  mr_stop_interval_s :: time
  mr_rtcm_hz :: real
  mr_base_session :: int
  mr_robot_session :: int
  mr_base_id :: int
  mr_robot_id :: int
  mr_order :: int
  mr_scheduler :: scheduler
  mr_reassembler :: reassembler
  mr_stop_cache :: stop_cache
  mr_traffic :: "string \<Rightarrow> traffic option"
  mr_errors :: "bench_error list"
  mr_rssi :: "real list"
  mr_snr :: "real list"
  mr_rtcm_offered :: nat
  mr_rtcm_completed :: nat
  mr_rtcm_completed_types :: "(int \<times> nat) list"
  mr_rtcm_meta :: "((int \<times> int) \<times> (int \<times> int \<times> bool)) list"
  mr_epoch_completed_types :: "(int \<times> int set) list"
  mr_observation_epochs_offered :: nat
  mr_telemetry_offered :: nat
  mr_telemetry_delivered :: nat
  mr_telemetry_ages_ms :: "real list"
  mr_stop_unique :: nat
  mr_stop_attempts :: nat
  mr_stop_acks :: "(int \<times> int) set"
  mr_stop_created :: "((int \<times> int) \<times> time) list"
  mr_stop_latencies_ms :: "real list"
  mr_stop_duplicate_attempts :: nat
  mr_last_rtcm_complete_at :: "time option"
  mr_next_epoch :: time
  mr_next_telemetry :: time
  mr_next_stop :: "time option"
  mr_next_status :: "time option"
  mr_epoch :: int
  mr_low_duty_type_index :: nat

text \<open>
  \<open>next_stop\<close> and \<open>next_status\<close> are None where the code has
  \<open>math.inf\<close>.
\<close>

definition new_mixed :: "string \<Rightarrow> time \<Rightarrow> time \<Rightarrow> time \<Rightarrow> real \<Rightarrow> int \<Rightarrow> int \<Rightarrow> mixed result" where
  "new_mixed profile duration status_interval stop_interval rtcm_hz base robot =
     bindR (new_stop_cache robot 2000) (\<lambda>cache. Inr
       \<lparr>mr_profile = profile, mr_duration_s = duration, mr_status_interval_s = status_interval,
        mr_stop_interval_s = stop_interval,
        mr_rtcm_hz = (if profile = ''nominal'' then rtcm_hz else 1 / 10),
        mr_base_session = base, mr_robot_session = robot, mr_base_id = 0, mr_robot_id = 0,
        mr_order = 0, mr_scheduler = new_scheduler 96, mr_reassembler = new_reassembler,
        mr_stop_cache = cache,
        mr_traffic = [''hello'' \<mapsto> empty_traffic, ''stop'' \<mapsto> empty_traffic, ''ack'' \<mapsto> empty_traffic,
                      ''telemetry'' \<mapsto> empty_traffic, ''rtcm_fragment'' \<mapsto> empty_traffic],
        mr_errors = [], mr_rssi = [], mr_snr = [], mr_rtcm_offered = 0, mr_rtcm_completed = 0,
        mr_rtcm_completed_types = [], mr_rtcm_meta = [], mr_epoch_completed_types = [],
        mr_observation_epochs_offered = 0, mr_telemetry_offered = 0, mr_telemetry_delivered = 0,
        mr_telemetry_ages_ms = [], mr_stop_unique = 0, mr_stop_attempts = 0, mr_stop_acks = {},
        mr_stop_created = [], mr_stop_latencies_ms = [], mr_stop_duplicate_attempts = 0,
        mr_last_rtcm_complete_at = None, mr_next_epoch = 0, mr_next_telemetry = 0,
        mr_next_stop = (if stop_interval > 0 then Some stop_interval else None),
        mr_next_status = (if status_interval > 0 then Some status_interval else None),
        mr_epoch = 0, mr_low_duty_type_index = 0\<rparr>)"

subsection \<open>Offering traffic\<close>

definition bump :: "string \<Rightarrow> (traffic \<Rightarrow> traffic) \<Rightarrow> mixed \<Rightarrow> mixed" where
  "bump kind f m = m\<lparr>mr_traffic := (mr_traffic m)(kind := map_option f (mr_traffic m kind))\<rparr>"

definition next_id :: "direction \<Rightarrow> (mixed, int) act" where
  "next_id dir m =
     (if dir = BASE_TO_ROBOT
      then (m\<lparr>mr_base_id := mr_base_id m + 1\<rparr>, Inr (mr_base_id m + 1))
      else (m\<lparr>mr_robot_id := mr_robot_id m + 1\<rparr>, Inr (mr_robot_id m + 1)))"

definition push_offer :: "string \<Rightarrow> work_item \<Rightarrow> (mixed, unit) act" where
  "push_offer kind item m =
     (case push item (mr_scheduler m) of
        (sched, Inl e) \<Rightarrow> (m\<lparr>mr_scheduler := sched\<rparr>, Inl e)
      | (sched, Inr accepted) \<Rightarrow>
          (let m' = m\<lparr>mr_scheduler := sched\<rparr>
           in (if accepted then m'
               else bump kind (\<lambda>tr. tr\<lparr>tr_dropped := Suc (tr_dropped tr)\<rparr>) m', Inr ())))"

definition offer :: "app_frame \<Rightarrow> direction \<Rightarrow> time \<Rightarrow> (int \<times> int) option \<Rightarrow> (mixed, unit) act" where
  "offer frame dir created_at rtcm_key m0 =
     (let m = m0\<lparr>mr_order := mr_order m0 + 1\<rparr>;
          item = \<lparr>wi_frame = frame, wi_direction = dir, wi_created_at = created_at,
                  wi_order = mr_order m, wi_rtcm_key = rtcm_key\<rparr>
      in case KIND_BY_TYPE (af_typ frame) of
           None \<Rightarrow> (m, Inl KeyError)
         | Some kind \<Rightarrow>
             (let m' = bump kind (\<lambda>tr. tr\<lparr>tr_offered := Suc (tr_offered tr)\<rparr>) m
              in case app_encode frame of
                   Inl e \<Rightarrow> (m', Inl e)
                 | Inr raw \<Rightarrow>
                     push_offer kind item
                       (bump kind (\<lambda>tr. tr\<lparr>tr_bytes := tr_bytes tr + length raw\<rparr>) m')))"

text \<open>A frame of the runner's own, with a fresh message ID of its direction and age 0.\<close>

definition make_frame :: "int \<Rightarrow> int \<Rightarrow> direction \<Rightarrow> bytes result \<Rightarrow> (mixed, app_frame) act" where
  "make_frame typ session dir body =
     seqA (next_id dir) (\<lambda>mid. lift (bindR body (\<lambda>b. Inr
       \<lparr>af_typ = typ, af_sender_session = session, af_message_id = mid, af_source_age_ms = 0,
        af_body = b\<rparr>)))"

definition offer_hello :: "time \<Rightarrow> (mixed, unit) act" where
  "offer_hello now m =
     thenA
       (seqA (make_frame APP_HELLO (mr_base_session m) BASE_TO_ROBOT (encode_hello ROLE_BASE 0x000F))
          (\<lambda>frame. offer frame BASE_TO_ROBOT now None))
       (seqA (make_frame APP_HELLO (mr_robot_session m) ROBOT_TO_BASE (encode_hello ROLE_ROBOT 0x000F))
          (\<lambda>frame. offer frame ROBOT_TO_BASE now None)) m"

definition offer_rtcm_raw :: "bytes \<Rightarrow> int \<Rightarrow> bool \<Rightarrow> time \<Rightarrow> (mixed, unit) act" where
  "offer_rtcm_raw raw epoch observation now =
     seqA (next_id BASE_TO_ROBOT) (\<lambda>mid.
     thenA (change (\<lambda>m. m\<lparr>mr_rtcm_offered := Suc (mr_rtcm_offered m)\<rparr>))
     (seqA (lift (rtcm_type raw)) (\<lambda>typ m.
       (let key = (mr_base_session m, mid)
        in thenA (change (\<lambda>m. m\<lparr>mr_rtcm_meta := AList.update key (epoch, typ, observation) (mr_rtcm_meta m)\<rparr>))
           (seqA (lift (fragment raw (mr_base_session m) mid 0))
              (eachA (\<lambda>frame. offer frame BASE_TO_ROBOT now (Some key)))) m))))"

subsection \<open>What is due\<close>

text \<open>The condition of the three \<open>while\<close> loops: the next time is before the end, and has come.\<close>

definition is_due :: "time \<Rightarrow> time \<Rightarrow> time \<Rightarrow> bool" where
  "is_due now duration next' \<longleftrightarrow> next' < duration \<and> now \<ge> next'"

definition epoch_due :: "time \<Rightarrow> mixed \<Rightarrow> bool" where
  "epoch_due now m = is_due now (mr_duration_s m) (mr_next_epoch m)"

definition telemetry_due :: "time \<Rightarrow> mixed \<Rightarrow> bool" where
  "telemetry_due now m = is_due now (mr_duration_s m) (mr_next_telemetry m)"

definition stop_due :: "time \<Rightarrow> mixed \<Rightarrow> bool" where
  "stop_due now m =
     (case mr_next_stop m of None \<Rightarrow> False | Some next' \<Rightarrow> is_due now (mr_duration_s m) next')"

definition is_observation :: "int \<Rightarrow> bool" where
  "is_observation typ \<longleftrightarrow> typ \<in> fst ` set RTCM_OBSERVATION_SIZES"

definition nominal_epoch :: "real \<Rightarrow> (mixed, unit) act" where
  "nominal_epoch period m0 =
     (let m = m0\<lparr>mr_epoch := mr_epoch m0 + 1,
                 mr_observation_epochs_offered := Suc (mr_observation_epochs_offered m0)\<rparr>
      in thenA
           (seqA (lift (synthetic_epoch (mr_epoch m)))
              (eachA (\<lambda>raw. seqA (lift (rtcm_type raw)) (\<lambda>typ.
                 offer_rtcm_raw raw (mr_epoch m) (is_observation typ) (mr_next_epoch m)))))
           (change (\<lambda>m. m\<lparr>mr_next_epoch := mr_next_epoch m + period\<rparr>)) m)"

definition low_duty_epoch :: "(mixed, unit) act" where
  "low_duty_epoch m0 =
     (let (typ, n) = RTCM_OBSERVATION_SIZES ! (mr_low_duty_type_index m0 mod 4);
          m = m0\<lparr>mr_epoch := mr_epoch m0 + 1, mr_low_duty_type_index := Suc (mr_low_duty_type_index m0)\<rparr>
      in thenA
           (seqA (lift (synthetic_rtcm typ n (mr_epoch m)))
              (\<lambda>raw. offer_rtcm_raw raw (mr_epoch m) False (mr_next_epoch m)))
           (change (\<lambda>m. m\<lparr>mr_next_epoch := mr_next_epoch m + 10\<rparr>)) m)"

definition rtcm_age :: "time \<Rightarrow> mixed \<Rightarrow> int" where
  "rtcm_age now m =
     (case mr_last_rtcm_complete_at m of
        None \<Rightarrow> 0xFFFF
      | Some last' \<Rightarrow> min 0xFFFF (py_int ((now - last') * 1000)))"

definition bench_sample :: "time \<Rightarrow> mixed \<Rightarrow> telemetry_sample" where
  "bench_sample now m =
     \<lparr>uptime_ms = min 0xFFFFFFFF (py_int (now * 1000)), latitude_e7 = 591234567,
      longitude_e7 = 181234567, speed_mm_s = 321, battery_mv = 25100,
      last_rtcm_transport_age_ms = rtcm_age now m,
      status_flags =
        (if sc_state (mr_stop_cache m) = STATE_STOPPED then 1 else 0) OR
        (if rtcm_age now m < 1000 then 2 else 0),
      fix_type = 4, satellites = 27\<rparr>"

definition telemetry_tick :: "time \<Rightarrow> real \<Rightarrow> (mixed, unit) act" where
  "telemetry_tick now period m =
     seqA (make_frame TELEMETRY (mr_robot_session m) ROBOT_TO_BASE (encode_telemetry (bench_sample now m)))
       (\<lambda>frame.
       thenA (change (\<lambda>m. m\<lparr>mr_telemetry_offered := Suc (mr_telemetry_offered m)\<rparr>))
       (thenA (\<lambda>m. offer frame ROBOT_TO_BASE (mr_next_telemetry m) None m)
       (change (\<lambda>m. m\<lparr>mr_next_telemetry := mr_next_telemetry m + period\<rparr>)))) m"

text \<open>
  One STOP: the mock is re-armed, and every second request is sent twice. \<open>due\<close> is
  \<open>next_stop\<close>, which is a number whenever the loop runs.
\<close>

definition stop_tick :: "time \<Rightarrow> (mixed, unit) act" where
  "stop_tick due m0 =
     (let m = m0\<lparr>mr_stop_cache := reset_mock_state (mr_stop_cache m0)\<rparr>
      in seqA (make_frame STOP_REQUEST (mr_base_session m) BASE_TO_ROBOT
             (encode_stop \<lparr>target_session = mr_robot_session m, command = STOP_COMMAND, reason = 1\<rparr>))
         (\<lambda>frame.
         thenA (change (\<lambda>m. m\<lparr>mr_stop_unique := Suc (mr_stop_unique m),
             mr_stop_attempts := Suc (mr_stop_attempts m),
             mr_stop_created := AList.update (frame_key frame) due (mr_stop_created m)\<rparr>))
         (thenA (offer frame BASE_TO_ROBOT due None)
         (thenA (\<lambda>m. if mr_stop_unique m mod 2 = 0
                     then thenA (change (\<lambda>m. m\<lparr>mr_stop_attempts := Suc (mr_stop_attempts m),
                            mr_stop_duplicate_attempts := Suc (mr_stop_duplicate_attempts m)\<rparr>))
                          (offer frame BASE_TO_ROBOT due None) m
                     else (m, Inr ()))
         (change (\<lambda>m. m\<lparr>mr_next_stop := Some (due + mr_stop_interval_s m)\<rparr>))))) m)"

definition stop_loop_body :: "(mixed, unit) act" where
  "stop_loop_body m =
     (case mr_next_stop m of None \<Rightarrow> (m, Inr ()) | Some due \<Rightarrow> stop_tick due m)"

definition schedule_epochs :: "time \<Rightarrow> mixed \<Rightarrow> (mixed \<times> unit result) option" where
  "schedule_epochs now m =
     (if mr_profile m = ''nominal''
      then if mr_rtcm_hz m = 0 then Some (m, Inl ZeroDivisionError)
           else whileA (epoch_due now) (nominal_epoch (1 / mr_rtcm_hz m)) m
      else whileA (epoch_due now) low_duty_epoch m)"

definition telemetry_period :: "mixed \<Rightarrow> real" where
  "telemetry_period m = (if mr_profile m = ''nominal'' then 5 / 10 else 2)"

definition schedule_due :: "time \<Rightarrow> mixed \<Rightarrow> (mixed \<times> unit result) option" where
  "schedule_due now m =
     thenO (schedule_epochs now m) (\<lambda>_ m.
     thenO (whileA (telemetry_due now) (telemetry_tick now (telemetry_period m)) m)
       (\<lambda>_. whileA (stop_due now) stop_loop_body))"

subsection \<open>Deliveries\<close>

definition deliver_rtcm :: "app_frame \<Rightarrow> time \<Rightarrow> (mixed, unit) act" where
  "deliver_rtcm received now m0 =
     (case ra_add now received (mr_reassembler m0) of
        (r, res) \<Rightarrow>
          seqA (lift res) (\<lambda>raw_option.
            case raw_option of
              None \<Rightarrow> change (\<lambda>m. m)
            | Some raw \<Rightarrow>
                thenA (change (\<lambda>m. m\<lparr>mr_rtcm_completed := Suc (mr_rtcm_completed m)\<rparr>))
                (seqA (lift (rtcm_type raw)) (\<lambda>typ.
                 thenA (change (\<lambda>m. m\<lparr>mr_rtcm_completed_types :=
                     AList.update typ
                       ((case map_of (mr_rtcm_completed_types m) typ of None \<Rightarrow> 0 | Some n \<Rightarrow> n) + 1)
                       (mr_rtcm_completed_types m)\<rparr>))
                 (thenA (\<lambda>m. case map_of (mr_rtcm_meta m) (frame_key received) of
                      None \<Rightarrow> (m, Inl KeyError)
                    | Some (epoch, _, observation) \<Rightarrow>
                        (if observation
                         then m\<lparr>mr_epoch_completed_types := AList.update epoch
                                (insert typ (case map_of (mr_epoch_completed_types m) epoch of
                                               None \<Rightarrow> {} | Some types \<Rightarrow> types))
                                (mr_epoch_completed_types m)\<rparr>
                         else m, Inr ()))
                 (change (\<lambda>m. m\<lparr>mr_last_rtcm_complete_at := Some now\<rparr>))))))
            (m0\<lparr>mr_reassembler := r\<rparr>))"

definition deliver_stop :: "app_frame \<Rightarrow> time \<Rightarrow> (mixed, unit) act" where
  "deliver_stop received now m0 =
     (case stop_apply received (mr_stop_cache m0) of
        (c, res) \<Rightarrow>
          seqA (lift res) (\<lambda>decision.
          seqA (make_frame COMMAND_ACK (mr_robot_session m0) ROBOT_TO_BASE
                 (encode_ack \<lparr>request_session = af_sender_session received,
                              request_id = af_message_id received, ack_result = sd_result decision,
                              ack_state = sd_state decision\<rparr>))
            (\<lambda>ack_frame. offer ack_frame ROBOT_TO_BASE now None)) (m0\<lparr>mr_stop_cache := c\<rparr>))"

definition deliver_ack :: "app_frame \<Rightarrow> time \<Rightarrow> (mixed, unit) act" where
  "deliver_ack received now =
     seqA (lift (decode_ack (af_body received))) (\<lambda>ack.
     change (\<lambda>m.
       let key = (request_session ack, request_id ack)
       in case map_of (mr_stop_created m) key of
            None \<Rightarrow> m
          | Some created \<Rightarrow>
              (if key \<in> mr_stop_acks m then m
               else m\<lparr>mr_stop_acks := insert key (mr_stop_acks m),
                      mr_stop_latencies_ms := mr_stop_latencies_ms m @ [(now - created) * 1000]\<rparr>)))"

definition deliver :: "work_item \<Rightarrow> app_frame \<Rightarrow> time \<Rightarrow> (mixed, unit) act" where
  "deliver item received now m0 =
     (case KIND_BY_TYPE (af_typ received) of
        None \<Rightarrow> (m0, Inl KeyError)
      | Some kind \<Rightarrow>
          (let m = bump kind (\<lambda>tr. tr\<lparr>tr_delivered := Suc (tr_delivered tr)\<rparr>) m0
           in if af_typ received = APP_HELLO
              then seqA (lift (decode_hello (af_body received))) (\<lambda>_. change (\<lambda>m. m)) m
              else if af_typ received = TELEMETRY
              then seqA (lift (decode_telemetry (af_body received))) (\<lambda>_.
                   change (\<lambda>m. m\<lparr>mr_telemetry_delivered := Suc (mr_telemetry_delivered m),
                     mr_telemetry_ages_ms := mr_telemetry_ages_ms m @ [(now - wi_created_at item) * 1000]\<rparr>)) m
              else if af_typ received = RTCM_FRAGMENT then deliver_rtcm received now m
              else if af_typ received = STOP_REQUEST then deliver_stop received now m
              else if af_typ received = COMMAND_ACK then deliver_ack received now m
              else (m, Inr ())))"

subsection \<open>The run\<close>

definition next_due :: "mixed \<Rightarrow> time" where
  "next_due m =
     (let due = filter (\<lambda>t. t < mr_duration_s m)
                  ([mr_next_epoch m, mr_next_telemetry m] @
                   (case mr_next_stop m of None \<Rightarrow> [] | Some t \<Rightarrow> [t]))
      in case due of [] \<Rightarrow> mr_duration_s m | t # ts \<Rightarrow> fold min ts t)"

text \<open>The exceptions the run records; the modem client's own error is a \<open>RuntimeError\<close>.\<close>

definition caught :: "py_exc \<Rightarrow> bool" where
  "caught e = (case e of ApplicationError _ \<Rightarrow> True | OsError \<Rightarrow> True | RuntimeExc _ \<Rightarrow> True
     | ModemError _ \<Rightarrow> True | TimeoutExc \<Rightarrow> True | _ \<Rightarrow> False)"

type_synonym bench = "mixed \<times> sim_transport"

datatype outcome = Continue bench | Finished bench | Raised py_exc

definition record_radio :: "real \<Rightarrow> real \<Rightarrow> mixed \<Rightarrow> mixed" where
  "record_radio rssi snr m = m\<lparr>mr_rssi := mr_rssi m @ [rssi], mr_snr := mr_snr m @ [snr]\<rparr>"

definition source_age :: "time \<Rightarrow> work_item \<Rightarrow> int" where
  "source_age now item = min 0xFFFF (max 0 (py_int ((now - wi_created_at item) * 1000)))"

definition add_error :: "bench_error \<Rightarrow> mixed \<Rightarrow> mixed" where
  "add_error e m = m\<lparr>mr_errors := mr_errors m @ [e]\<rparr>"

definition exchange :: "work_item \<Rightarrow> app_frame \<Rightarrow> bench \<Rightarrow> bench \<times> unit result" where
  "exchange item frame b =
     (case b of (m, t) \<Rightarrow>
        case transmit frame t of
          (t', Inl e) \<Rightarrow> ((m, t'), Inl e)
        | (t', Inr (received, rssi, snr)) \<Rightarrow>
            (case deliver item received (st_clock t') (record_radio rssi snr m) of
               (m', r) \<Rightarrow> ((m', t'), r)))"

definition status_due :: "bench \<Rightarrow> bench" where
  "status_due b =
     (case b of (m, t) \<Rightarrow>
        case mr_next_status m of
          None \<Rightarrow> (m, t)
        | Some next' \<Rightarrow>
            (if st_clock t \<ge> next' then (m\<lparr>mr_next_status := Some (next' + mr_status_interval_s m)\<rparr>, t)
             else (m, t)))"

definition send_item :: "work_item \<Rightarrow> bench \<Rightarrow> outcome" where
  "send_item item b =
     (case b of (m, t) \<Rightarrow>
        let frame = (wi_frame item)\<lparr>af_source_age_ms := source_age (st_clock t) item\<rparr>
        in case KIND_BY_TYPE (af_typ frame) of
             None \<Rightarrow> Raised KeyError
           | Some kind \<Rightarrow>
               (case exchange item frame (bump kind (\<lambda>tr. tr\<lparr>tr_sent := Suc (tr_sent tr)\<rparr>) m, t) of
                  (b', Inr _) \<Rightarrow> Continue (status_due b')
                | ((m', t'), Inl e) \<Rightarrow>
                    (if caught e then Continue (status_due (add_error (Caught e) m', t')) else Raised e)))"

definition serve :: "bench \<Rightarrow> outcome" where
  "serve b =
     (case b of (m, t) \<Rightarrow>
        let now = st_clock t
        in case pop now (mr_scheduler m) of
             (sched, Inl e) \<Rightarrow> Raised e
           | (sched, Inr None) \<Rightarrow>
               (let m' = m\<lparr>mr_scheduler := sched\<rparr>
                in if now \<ge> mr_duration_s m' then Finished (m', t)
                   else Continue (m', idle_until (next_due m') t))
           | (sched, Inr (Some item)) \<Rightarrow>
               (let m' = m\<lparr>mr_scheduler := sched\<rparr>
                in if now > mr_duration_s m' + 2 then Finished (add_error DrainDeadline m', t)
                   else send_item item (m', t)))"

definition loop_step :: "bench \<Rightarrow> outcome option" where
  "loop_step b =
     (case b of (m, t) \<Rightarrow>
        if \<not> (st_clock t < mr_duration_s m \<or> sh_items (mr_scheduler m) \<noteq> []) then Some (Finished (m, t))
        else if st_clock t < mr_duration_s m
        then (case schedule_due (st_clock t) m of
                None \<Rightarrow> None
              | Some (_, Inl e) \<Rightarrow> Some (Raised e)
              | Some (m', Inr _) \<Rightarrow> Some (serve (m', t)))
        else Some (serve (m, t)))"

partial_function (option) run_loop :: "bench \<Rightarrow> bench result option" where
  "run_loop b =
     (case loop_step b of
        None \<Rightarrow> None
      | Some (Continue b') \<Rightarrow> run_loop b'
      | Some (Finished b') \<Rightarrow> Some (Inr b')
      | Some (Raised e) \<Rightarrow> Some (Inl e))"

definition run_bench :: "bench \<Rightarrow> bench result option" where
  "run_bench b =
     (case b of (m0, t) \<Rightarrow>
        case offer_hello (st_clock t) m0 of
          (m, Inl e) \<Rightarrow> Some (Inl e)
        | (m, Inr _) \<Rightarrow>
            map_option (\<lambda>r. bindR r (\<lambda>(m', t'). Inr
                (m'\<lparr>mr_reassembler := fst (ra_expire (st_clock t' + 601 / 1000) (mr_reassembler m'))\<rparr>, t')))
              (run_loop (m, t)))"

subsection \<open>The report\<close>

record mixed_report =
  rep_profile :: string
  rep_rtcm_hz :: real
  rep_duration_s :: time
  rep_pass :: bool
  rep_traffic :: "string \<Rightarrow> traffic option"
  rep_rtcm_offered :: nat
  rep_rtcm_completed :: nat
  rep_rtcm_ratio :: real
  rep_completed_by_type :: "(int \<times> nat) list"
  rep_epochs_offered :: nat
  rep_epochs_complete :: nat
  rep_epoch_ratio :: real
  rep_reassembly_timeouts :: nat
  rep_reassembly_conflicts :: nat
  rep_stale_fragment_drops :: nat
  rep_telemetry_offered :: nat
  rep_telemetry_delivered :: nat
  rep_telemetry_ratio :: real
  rep_telemetry_replaced :: nat
  rep_age_p95_ms :: "real option"
  rep_age_max_ms :: "real option"
  rep_stop_unique :: nat
  rep_stop_attempts :: nat
  rep_stop_duplicate_attempts :: nat
  rep_stop_applied :: nat
  rep_stop_acked :: nat
  rep_latency_p95_ms :: "real option"
  rep_latency_max_ms :: "real option"
  rep_queue_high_water :: int
  rep_queue_drops :: nat
  rep_estimated_airtime_s :: real
  rep_transaction_p95_ms :: "real option"
  rep_rssi_min :: "real option"
  rep_rssi_max :: "real option"
  rep_snr_min :: "real option"
  rep_snr_max :: "real option"
  rep_errors :: "bench_error list"

text \<open>\<open>max(xs, default=None)\<close> and \<open>min(xs, default=None)\<close>.\<close>

definition max_default :: "real list \<Rightarrow> real option" where
  "max_default xs = (case xs of [] \<Rightarrow> None | y # ys \<Rightarrow> Some (fold max ys y))"

definition min_default :: "real list \<Rightarrow> real option" where
  "min_default xs = (case xs of [] \<Rightarrow> None | y # ys \<Rightarrow> Some (fold min ys y))"

definition ratio :: "nat \<Rightarrow> nat \<Rightarrow> real" where
  "ratio done offered = (if offered \<noteq> 0 then real done / real offered else 1)"

definition completed_epochs :: "mixed \<Rightarrow> nat" where
  "completed_epochs m =
     length (filter (\<lambda>types. fst ` set RTCM_OBSERVATION_SIZES \<subseteq> types) (map snd (mr_epoch_completed_types m)))"

definition passed :: "mixed \<Rightarrow> bool" where
  "passed m \<longleftrightarrow>
     mr_errors m = [] \<and>
     ratio (mr_rtcm_completed m) (mr_rtcm_offered m) \<ge> 99 / 100 \<and>
     ratio (completed_epochs m) (mr_observation_epochs_offered m) \<ge> 98 / 100 \<and>
     ratio (mr_telemetry_delivered m) (mr_telemetry_offered m) \<ge> 99 / 100 \<and>
     card (mr_stop_acks m) = mr_stop_unique m \<and>
     sc_apply_count (mr_stop_cache m) = mr_stop_unique m"

text \<open>
  \<open>report\<close>, from what it reads of the transport: the airtime, the transaction times and the errors
  the modems counted.
\<close>

definition report_of :: "mixed \<Rightarrow> real \<Rightarrow> real list \<Rightarrow> int \<Rightarrow> mixed_report result" where
  "report_of m airtime_s times_ms errors =
       (bindR (percentile (mr_telemetry_ages_ms m) (95 / 100)) (\<lambda>age_p95.
        bindR (percentile (mr_stop_latencies_ms m) (95 / 100)) (\<lambda>latency_p95.
        bindR (percentile times_ms (95 / 100)) (\<lambda>transaction_p95. Inr
          \<lparr>rep_profile = mr_profile m, rep_rtcm_hz = mr_rtcm_hz m, rep_duration_s = mr_duration_s m,
           rep_pass = (passed m \<and> errors = 0), rep_traffic = mr_traffic m, rep_rtcm_offered = mr_rtcm_offered m,
           rep_rtcm_completed = mr_rtcm_completed m,
           rep_rtcm_ratio = ratio (mr_rtcm_completed m) (mr_rtcm_offered m),
           rep_completed_by_type = mr_rtcm_completed_types m,
           rep_epochs_offered = mr_observation_epochs_offered m,
           rep_epochs_complete = completed_epochs m,
           rep_epoch_ratio = ratio (completed_epochs m) (mr_observation_epochs_offered m),
           rep_reassembly_timeouts = ra_timeout_count (mr_reassembler m),
           rep_reassembly_conflicts = ra_conflict_count (mr_reassembler m),
           rep_stale_fragment_drops = sh_stale_rtcm_drops (mr_scheduler m),
           rep_telemetry_offered = mr_telemetry_offered m,
           rep_telemetry_delivered = mr_telemetry_delivered m,
           rep_telemetry_ratio = ratio (mr_telemetry_delivered m) (mr_telemetry_offered m),
           rep_telemetry_replaced = sh_telemetry_replaced (mr_scheduler m),
           rep_age_p95_ms = age_p95, rep_age_max_ms = max_default (mr_telemetry_ages_ms m),
           rep_stop_unique = mr_stop_unique m, rep_stop_attempts = mr_stop_attempts m,
           rep_stop_duplicate_attempts = mr_stop_duplicate_attempts m,
           rep_stop_applied = sc_apply_count (mr_stop_cache m),
           rep_stop_acked = card (mr_stop_acks m),
           rep_latency_p95_ms = latency_p95, rep_latency_max_ms = max_default (mr_stop_latencies_ms m),
           rep_queue_high_water = sh_high_water (mr_scheduler m),
           rep_queue_drops = sh_queue_drops (mr_scheduler m),
           rep_estimated_airtime_s = airtime_s,
           rep_transaction_p95_ms = transaction_p95,
           rep_rssi_min = min_default (mr_rssi m), rep_rssi_max = max_default (mr_rssi m),
           rep_snr_min = min_default (mr_snr m), rep_snr_max = max_default (mr_snr m),
           rep_errors = mr_errors m\<rparr>))))"

text \<open>The simulated transport has no modem errors and nothing of its own to add.\<close>

definition report :: "bench \<Rightarrow> mixed_report result" where
  "report b = (case b of (m, t) \<Rightarrow> report_of m (st_estimated_airtime_s t) (st_transaction_times_ms t) 0)"

text \<open>\<open>run\<close>: the loop, the last expiry of the reassembler and the report.\<close>

definition run_mixed :: "mixed \<Rightarrow> mixed_report result option" where
  "run_mixed m = map_option (\<lambda>r. bindR r report) (run_bench (m, new_transport))"

end
