(* ===== verification/Mixed_Proofs.thy ===== *)
theory Mixed_Proofs
  imports Mixed_Runner
begin

text \<open>
  Proofs about the mixed bench (\<open>tools/lora_usb/mixed_bench.py\<close>): the runner's invariant, kept by every operation, and what a whole run ends with.
\<close>

subsection \<open>The frames the bench sends\<close>

definition id_error :: py_exc where
  "id_error = ApplicationError ''message id out of range''"

definition body_ok :: "mixed \<Rightarrow> app_frame \<Rightarrow> bool" where
  "body_ok m f \<longleftrightarrow>
     af_typ f = APP_HELLO \<and> is_ok (decode_hello (af_body f)) \<or>
     af_typ f = TELEMETRY \<and> is_ok (decode_telemetry (af_body f)) \<or>
     af_typ f = COMMAND_ACK \<and> is_ok (decode_ack (af_body f)) \<or>
     af_typ f = STOP_REQUEST \<and> frame_key f \<in> fst ` set (mr_stop_created m) \<or>
     af_typ f = RTCM_FRAGMENT \<and> frame_key f \<in> fst ` set (mr_rtcm_meta m)"

definition frame_shape :: "mixed \<Rightarrow> app_frame \<Rightarrow> bool" where
  "frame_shape m f \<longleftrightarrow>
     body_ok m f \<and> 0 < af_sender_session f \<and> af_sender_session f \<le> 0xFFFFFFFF \<and>
     0 < af_message_id f \<and> 0 \<le> af_source_age_ms f \<and> af_source_age_ms f \<le> 0xFFFF \<and>
     length (af_body f) \<le> 180"

definition frame_ok :: "mixed \<Rightarrow> app_frame \<Rightarrow> bool" where
  "frame_ok m f \<longleftrightarrow> frame_shape m f \<and> af_message_id f \<le> 0xFFFFFFFF"

lemma body_ok_types:
  assumes "body_ok m f"
  shows "PRIORITY (af_typ f) \<noteq> None" "\<exists>kind. KIND_BY_TYPE (af_typ f) = Some kind"
    "0 \<le> af_typ f" "af_typ f \<le> 255"
  using assms by (auto simp: body_ok_def PRIORITY_def KIND_BY_TYPE_def)

lemma shape_encode:
  assumes "frame_shape m f"
  shows "frame_ok m f \<Longrightarrow> \<exists>raw. app_encode f = Inr raw \<and> app_decode raw = Inr f"
    and "\<not> frame_ok m f \<Longrightarrow> app_encode f = Inl id_error"
proof -
  note t = body_ok_types [of m f]
  show "frame_ok m f \<Longrightarrow> \<exists>raw. app_encode f = Inr raw \<and> app_decode raw = Inr f"
    using app_encode_ok [of f] t by (auto simp: frame_ok_def frame_shape_def)
  show "\<not> frame_ok m f \<Longrightarrow> app_encode f = Inl id_error"
    using assms t by (auto simp: frame_ok_def frame_shape_def app_encode_def id_error_def)
qed

lemma frame_ok_age:
  "frame_ok m f \<Longrightarrow> 0 \<le> age \<Longrightarrow> age \<le> 0xFFFF \<Longrightarrow> frame_ok m (f\<lparr>af_source_age_ms := age\<rparr>)"
  by (simp add: frame_ok_def frame_shape_def body_ok_def frame_key_def)

lemma source_age_bounds: "0 \<le> source_age now item \<and> source_age now item \<le> 0xFFFF"
  by (simp add: source_age_def)

subsection \<open>The invariant\<close>

definition of_kind :: "string \<Rightarrow> work_item \<Rightarrow> bool" where
  "of_kind kind item \<longleftrightarrow> KIND_BY_TYPE (wi_typ item) = Some kind"

definition queued :: "string \<Rightarrow> scheduler \<Rightarrow> nat" where
  "queued kind s = size (filter_mset (of_kind kind) (mset (sh_items s)))"

definition queue_inv :: "mixed \<Rightarrow> bool" where
  "queue_inv m \<longleftrightarrow>
     sh_inv (mr_scheduler m) \<and> sh_limit (mr_scheduler m) = 96 \<and>
     (\<forall>item\<in>set (sh_items (mr_scheduler m)). frame_ok m (wi_frame item))"

text \<open>Of every kind, what was delivered was sent, and what was sent, waits or was refused was offered.\<close>

definition counts_ok :: "bool \<Rightarrow> traffic option \<Rightarrow> nat \<Rightarrow> bool" where
  "counts_ok known counts waiting \<longleftrightarrow>
     (case counts of
        None \<Rightarrow> \<not> known
      | Some tr \<Rightarrow> tr_delivered tr \<le> tr_sent tr \<and> tr_sent tr + waiting + tr_dropped tr \<le> tr_offered tr)"

definition kinds :: "string set" where
  "kinds = {''hello'', ''stop'', ''ack'', ''telemetry'', ''rtcm_fragment''}"

definition traffic_counts :: "string \<Rightarrow> mixed \<Rightarrow> bool" where
  "traffic_counts kind m \<longleftrightarrow> counts_ok (kind \<in> kinds) (mr_traffic m kind) (queued kind (mr_scheduler m))"

definition applied_within :: "mixed \<Rightarrow> bool" where
  "applied_within m \<longleftrightarrow>
     sc_apply_count (mr_stop_cache m) \<le>
       card {k \<in> fst ` set (mr_stop_created m). snd k \<le> high_water_of (mr_stop_cache m) (mr_base_session m)}"

definition stops_inv :: "mixed \<Rightarrow> bool" where
  "stops_inv m \<longleftrightarrow>
     stop_inv (mr_stop_cache m) \<and> sc_local_session (mr_stop_cache m) = mr_robot_session m \<and>
     distinct_keys (mr_stop_created m) \<and> length (mr_stop_created m) = mr_stop_unique m \<and>
     (\<forall>k\<in>fst ` set (mr_stop_created m). fst k = mr_base_session m \<and> snd k \<le> mr_base_id m) \<and>
     mr_stop_acks m \<subseteq> fst ` set (mr_stop_created m) \<and>
     length (mr_stop_latencies_ms m) = card (mr_stop_acks m) \<and> applied_within m"

definition session_ok :: "int \<Rightarrow> bool" where
  "session_ok s \<longleftrightarrow> 0 < s \<and> s \<le> 0xFFFFFFFF"

definition clock_inv :: "time \<Rightarrow> mixed \<Rightarrow> bool" where
  "clock_inv now m \<longleftrightarrow> 0 \<le> now \<and>
     (case mr_last_rtcm_complete_at m of None \<Rightarrow> True | Some t \<Rightarrow> t \<le> now)"

definition rest_inv :: "mixed \<Rightarrow> bool" where
  "rest_inv m \<longleftrightarrow>
     session_ok (mr_base_session m) \<and> session_ok (mr_robot_session m) \<and>
     0 \<le> mr_base_id m \<and> 0 \<le> mr_robot_id m \<and> ra_inv (mr_reassembler m)"

definition mixed_inv :: "mixed \<Rightarrow> bool" where
  "mixed_inv m \<longleftrightarrow> queue_inv m \<and> (\<forall>kind. traffic_counts kind m) \<and> stops_inv m \<and> rest_inv m"

text \<open>The fields the schedule reads, none of which an offer or a delivery touches.\<close>

definition timing :: "mixed \<Rightarrow> (string \<times> time \<times> time \<times> real) \<times> time \<times> time \<times> time option" where
  "timing m =
     ((mr_profile m, mr_duration_s m, mr_stop_interval_s m, mr_rtcm_hz m),
      mr_next_epoch m, mr_next_telemetry m, mr_next_stop m)"

subsection \<open>Offers\<close>

lemma offer_frame:
  obtains n sched tra where
    "fst (offer f dir c key m) = m\<lparr>mr_order := n, mr_scheduler := sched, mr_traffic := tra\<rparr>"
proof -
  have "fst (offer f dir c key m) =
      m\<lparr>mr_order := mr_order (fst (offer f dir c key m)),
        mr_scheduler := mr_scheduler (fst (offer f dir c key m)),
        mr_traffic := mr_traffic (fst (offer f dir c key m))\<rparr>"
    by (auto simp: offer_def push_offer_def bump_def Let_def split: option.splits sum.splits prod.splits)
  then show ?thesis by (rule that)
qed

lemma queued_push: "queued kind (fst (push item s)) \<le> queued kind s + (if of_kind kind item then 1 else 0)"
  using size_filter_mset_mono [OF push_subset [of item s], of "of_kind kind"]
  by (auto simp: queued_def split: if_splits)

lemma queued_refused:
  assumes "push item s = (s', r)" and "r \<noteq> Inr True"
  shows "queued kind s' \<le> queued kind s"
proof -
  have "sh_items s' = kept item s"
    using push_items [of item s] assms by (auto split: sum.splits bool.splits)
  then show ?thesis
    using size_filter_mset_mono [OF mset_kept_subset [of item s], of "of_kind kind"] by (simp add: queued_def)
qed

lemma queue_known: "queue_inv m \<Longrightarrow> known_types (sh_items (mr_scheduler m))"
  unfolding queue_inv_def known_types_def list_all_iff frame_ok_def frame_shape_def
  using body_ok_types(1) by blast

lemma frame_ok_queue: "frame_ok (m\<lparr>mr_order := n, mr_scheduler := sched, mr_traffic := tra\<rparr>) f = frame_ok m f"
  by (simp add: frame_ok_def frame_shape_def body_ok_def)

lemma push_ok_inv:
  assumes "queue_inv m" and "frame_ok m (wi_frame item)"
  shows "\<exists>s' acc. push item (mr_scheduler m) = (s', Inr acc) \<and> sh_inv s' \<and> sh_limit s' = 96 \<and>
    (\<forall>q\<in>set (sh_items s'). frame_ok m (wi_frame q))"
proof -
  have k: "known_types (item # sh_items (mr_scheduler m))"
    using queue_known [OF assms(1)] assms(2) body_ok_types(1)
    by (auto simp: known_types_def frame_ok_def frame_shape_def)
  obtain s' acc where p: "push item (mr_scheduler m) = (s', Inr acc)"
    using push_counts(3) [OF _ k] assms(1)
    by (cases "push item (mr_scheduler m)") (auto simp: queue_inv_def is_ok_iff)
  have "set (sh_items s') \<subseteq> insert item (set (sh_items (mr_scheduler m)))"
    using set_mset_mono [OF push_subset [of item "mr_scheduler m"]] p by simp
  moreover have "sh_inv s'" "sh_limit s' = 96"
    using push_inv [of "mr_scheduler m" item] push_limit [of item "mr_scheduler m"] p assms(1)
    by (simp_all add: queue_inv_def)
  ultimately show ?thesis using p assms by (auto simp: queue_inv_def)
qed

lemma offer_inv:
  assumes inv: "mixed_inv m" and shape: "frame_shape m f" and o: "offer f dir c key m = (m', r)"
  shows "mixed_inv m'" "r = Inr () \<or> r = Inl id_error"
proof -
  let ?item = "\<lparr>wi_frame = f, wi_direction = dir, wi_created_at = c, wi_order = mr_order m + 1,
                wi_rtcm_key = key\<rparr>"
  obtain kind where kind: "KIND_BY_TYPE (af_typ f) = Some kind"
    using shape body_ok_types(2) by (auto simp: frame_shape_def)
  have split: "queue_inv m" "\<And>k. traffic_counts k m" "stops_inv m" "rest_inv m"
    using inv by (simp_all add: mixed_inv_def)
  have "mixed_inv m' \<and> (r = Inr () \<or> r = Inl id_error)"
  proof (cases "frame_ok m f")
    case False
    then have "r = Inl id_error"
      and m': "m' = bump kind (\<lambda>tr. tr\<lparr>tr_offered := Suc (tr_offered tr)\<rparr>) (m\<lparr>mr_order := mr_order m + 1\<rparr>)"
      using o shape_encode(2) [OF shape] kind by (simp_all add: offer_def Let_def)
    moreover have "traffic_counts k m'" for k
      using split(2) [of k] by (auto simp: traffic_counts_def counts_ok_def m' bump_def split: option.splits)
    moreover have "queue_inv m' \<and> stops_inv m' \<and> rest_inv m'"
      using split by (simp add: m' bump_def queue_inv_def stops_inv_def rest_inv_def frame_ok_def
          frame_shape_def body_ok_def applied_within_def)
    ultimately show ?thesis by (simp add: mixed_inv_def)
  next
    case True
    then obtain raw where raw: "app_encode f = Inr raw" using shape_encode(1) [OF shape] by blast
    obtain s' acc where p: "push ?item (mr_scheduler m) = (s', Inr acc)" and s': "sh_inv s'" "sh_limit s' = 96"
      and items: "\<forall>q\<in>set (sh_items s'). frame_ok m (wi_frame q)"
      using push_ok_inv [OF split(1), of ?item] True by auto
    define tr' :: "traffic \<Rightarrow> traffic" where "tr' = (\<lambda>tr. tr\<lparr>tr_offered := Suc (tr_offered tr), tr_bytes := tr_bytes tr + length raw,
        tr_dropped := (if acc then tr_dropped tr else Suc (tr_dropped tr))\<rparr>)"
    have r: "r = Inr ()" and m': "m' = m\<lparr>mr_order := mr_order m + 1, mr_scheduler := s',
        mr_traffic := (mr_traffic m)(kind := map_option tr' (mr_traffic m kind))\<rparr>"
      using o kind raw p
      by (auto simp: offer_def Let_def push_offer_def bump_def tr'_def option.map_comp comp_def
          split: if_splits)
    have "traffic_counts k m'" for k
      using split(2) [of k] queued_push [of k ?item "mr_scheduler m"] p
        queued_refused [OF p, of k] kind
      by (auto simp: traffic_counts_def counts_ok_def m' tr'_def of_kind_def split: option.splits if_splits)
    moreover have "queue_inv m' \<and> stops_inv m' \<and> rest_inv m'"
      using split s' items by (simp add: m' queue_inv_def stops_inv_def rest_inv_def frame_ok_def
          frame_shape_def body_ok_def applied_within_def)
    ultimately show ?thesis using r by (simp add: mixed_inv_def)
  qed
  then show "mixed_inv m'" "r = Inr () \<or> r = Inl id_error" by blast+
qed

subsection \<open>Every operation keeps the invariant\<close>

text \<open>The state of the bench at a moment of the schedule, and how an operation may fail in it.\<close>

abbreviation binv :: "time \<Rightarrow> ((string \<times> time \<times> time \<times> real) \<times> time \<times> time \<times> time option) \<Rightarrow> mixed \<Rightarrow> bool"
  where "binv now tm m \<equiv> mixed_inv m \<and> clock_inv now m \<and> timing m = tm"

abbreviation id_fails where
  "id_fails now tm e m \<equiv> binv now tm m \<and> e = id_error"

lemma offer_triple:
  "triple (\<lambda>m. binv now tm m \<and> frame_shape m f) (offer f dir c key)
     (\<lambda>_ m. binv now tm m \<and> frame_shape m f) (id_fails now tm)"
proof (rule tripleI)
  fix m m' r
  assume pre: "binv now tm m \<and> frame_shape m f" and o: "offer f dir c key m = (m', r)"
  obtain n sched tra where "m' = m\<lparr>mr_order := n, mr_scheduler := sched, mr_traffic := tra\<rparr>"
    using offer_frame [of f dir c key m] o by (metis fst_conv)
  then have "binv now tm m' \<and> frame_shape m' f"
    using pre offer_inv(1) [OF _ _ o]
    by (simp add: clock_inv_def timing_def frame_shape_def body_ok_def)
  then show "case r of Inl e \<Rightarrow> id_fails now tm e m' | Inr _ \<Rightarrow> binv now tm m' \<and> frame_shape m' f"
    using offer_inv(2) [OF _ _ o] pre by auto
qed

lemma offer_triple_then:
  "triple (\<lambda>m. binv now tm m \<and> frame_shape m f) (offer f dir c key) (\<lambda>_. binv now tm) (id_fails now tm)"
  by (rule triple_weaken [OF offer_triple]) auto

lemma next_id_inv:
  assumes "binv now tm m" and "next_id dir m = (m', r)"
  obtains mid where "r = Inr mid" and "0 < mid" and "binv now tm m'"
    and "mr_base_session m' = mr_base_session m" "mr_robot_session m' = mr_robot_session m"
    and "dir = BASE_TO_ROBOT \<Longrightarrow> (mr_base_session m, mid) \<notin> fst ` set (mr_stop_created m') \<and> mr_base_id m' = mid"
    and "mr_stop_created m' = mr_stop_created m" "mr_rtcm_meta m' = mr_rtcm_meta m"
proof -
  let ?upd = "if dir = BASE_TO_ROBOT then m\<lparr>mr_base_id := mr_base_id m + 1\<rparr> else m\<lparr>mr_robot_id := mr_robot_id m + 1\<rparr>"
  have m': "m' = ?upd" and r: "r = Inr (if dir = BASE_TO_ROBOT then mr_base_id m + 1 else mr_robot_id m + 1)"
    using assms(2) by (auto simp: next_id_def split: if_splits)
  have counts: "traffic_counts k m' = traffic_counts k m" for k by (simp add: m' traffic_counts_def)
  have "queue_inv m' = queue_inv m"
    by (simp add: m' queue_inv_def frame_ok_def frame_shape_def body_ok_def)
  moreover have "stops_inv m \<Longrightarrow> stops_inv m'"
    by (auto simp: m' stops_inv_def applied_within_def)
  moreover have "rest_inv m \<Longrightarrow> rest_inv m'" by (simp add: m' rest_inv_def)
  moreover have "clock_inv now m' = clock_inv now m" "timing m' = timing m"
    by (simp_all add: m' clock_inv_def timing_def)
  ultimately have "binv now tm m'" using assms(1) by (simp add: mixed_inv_def counts)
  moreover have "dir = BASE_TO_ROBOT \<Longrightarrow>
      (mr_base_session m, mid) \<notin> fst ` set (mr_stop_created m') \<and> mr_base_id m' = mid"
    if "r = Inr mid" for mid
    using assms(1) that r m' unfolding mixed_inv_def stops_inv_def by fastforce
  ultimately show ?thesis
    using assms(1) r m'
    by (intro that [of "if dir = BASE_TO_ROBOT then mr_base_id m + 1 else mr_robot_id m + 1"])
       (auto simp: mixed_inv_def rest_inv_def)
qed

text \<open>Frames whose bodies decode by themselves: HELLO, TELEMETRY and COMMAND_ACK.\<close>

definition plain_body :: "int \<Rightarrow> bytes \<Rightarrow> bool" where
  "plain_body typ body \<longleftrightarrow> length body \<le> 180 \<and>
     (typ = APP_HELLO \<and> is_ok (decode_hello body) \<or> typ = TELEMETRY \<and> is_ok (decode_telemetry body) \<or>
      typ = COMMAND_ACK \<and> is_ok (decode_ack body))"

lemma make_plain_frame:
  assumes "body = Inr b" and "plain_body typ b" and "session_ok ses"
  shows "triple (binv now tm) (make_frame typ ses dir body)
    (\<lambda>f m. binv now tm m \<and> frame_shape m f) (id_fails now tm)"
proof (rule tripleI)
  fix m m' r
  assume pre: "binv now tm m" and "make_frame typ ses dir body m = (m', r)"
  moreover obtain m1 r1 where n: "next_id dir m = (m1, r1)" by fastforce
  moreover obtain mid where "r1 = Inr mid" "0 < mid" "binv now tm m1"
    using next_id_inv [OF pre n] by blast
  ultimately show "case r of Inl e \<Rightarrow> id_fails now tm e m' | Inr f \<Rightarrow> binv now tm m' \<and> frame_shape m' f"
    using assms by (auto simp: make_frame_def seqA_def lift_def frame_shape_def body_ok_def plain_body_def
        session_ok_def)
qed

lemma offer_plain:
  assumes "body = Inr b" and "plain_body typ b" and "session_ok ses"
  shows "triple (binv now tm) (seqA (make_frame typ ses dir body) (\<lambda>f. offer f dir' c key))
    (\<lambda>_. binv now tm) (id_fails now tm)"
  by (rule triple_seq [OF make_plain_frame [OF assms] offer_triple_then])

lemma hello_body: "\<exists>b. encode_hello role 0x000F = Inr b \<and> plain_body APP_HELLO b" if "role \<in> {ROLE_BASE, ROLE_ROBOT}"
proof -
  have "encode_hello role 15 = Inr (be 1 role @ be 2 15)"
    using that by (auto simp: encode_hello_def struct_pack_def)
  then show ?thesis by (auto simp: plain_body_def is_ok_iff simp flip: decode_hello_Inr_iff)
qed

lemma offer_hello_triple:
  "triple (binv now tm) (offer_hello t) (\<lambda>_. binv now tm) (id_fails now tm)"
proof -
  obtain b r where b: "encode_hello ROLE_BASE 15 = Inr b" "plain_body APP_HELLO b"
    and r: "encode_hello ROLE_ROBOT 15 = Inr r" "plain_body APP_HELLO r"
    using hello_body by blast
  show ?thesis
  proof (rule tripleI)
    fix m m' res
    assume pre: "binv now tm m" and run: "offer_hello t m = (m', res)"
    then have s: "session_ok (mr_base_session m)" "session_ok (mr_robot_session m)"
      by (auto simp: mixed_inv_def rest_inv_def)
    show "case res of Inl e \<Rightarrow> id_fails now tm e m' | Inr _ \<Rightarrow> binv now tm m'"
      by (rule tripleD [OF triple_then [OF offer_plain [OF b s(1)] offer_plain [OF r s(2)]] pre
            run [unfolded offer_hello_def]])
  qed
qed

text \<open>The statements of the schedule move the times they are due at and nothing else of it.\<close>

lemma timing_update:
  "timing (m\<lparr>mr_next_epoch := t\<rparr>) = (fst (timing m), t, mr_next_telemetry m, mr_next_stop m)"
  "timing (m\<lparr>mr_next_telemetry := t\<rparr>) = (fst (timing m), mr_next_epoch m, t, mr_next_stop m)"
  "timing (m\<lparr>mr_next_stop := u\<rparr>) = (fst (timing m), mr_next_epoch m, mr_next_telemetry m, u)"
  by (simp_all add: timing_def)

lemma mixed_inv_times [simp]:
  "mixed_inv (m\<lparr>mr_next_epoch := t\<rparr>) = mixed_inv m"
  "mixed_inv (m\<lparr>mr_next_telemetry := t\<rparr>) = mixed_inv m"
  "mixed_inv (m\<lparr>mr_next_stop := u\<rparr>) = mixed_inv m"
  "mixed_inv (m\<lparr>mr_epoch := e\<rparr>) = mixed_inv m"
  "mixed_inv (m\<lparr>mr_observation_epochs_offered := n\<rparr>) = mixed_inv m"
  "mixed_inv (m\<lparr>mr_low_duty_type_index := n\<rparr>) = mixed_inv m"
  "mixed_inv (m\<lparr>mr_telemetry_offered := n\<rparr>) = mixed_inv m"
  "mixed_inv (m\<lparr>mr_rtcm_offered := n\<rparr>) = mixed_inv m"
  by (simp_all add: mixed_inv_def queue_inv_def frame_ok_def frame_shape_def body_ok_def traffic_counts_def
      stops_inv_def applied_within_def rest_inv_def)

lemma clock_inv_times [simp]:
  "clock_inv now (m\<lparr>mr_next_epoch := t\<rparr>) = clock_inv now m"
  "clock_inv now (m\<lparr>mr_next_telemetry := t\<rparr>) = clock_inv now m"
  "clock_inv now (m\<lparr>mr_next_stop := u\<rparr>) = clock_inv now m"
  "clock_inv now (m\<lparr>mr_epoch := e\<rparr>) = clock_inv now m"
  "clock_inv now (m\<lparr>mr_observation_epochs_offered := n\<rparr>) = clock_inv now m"
  "clock_inv now (m\<lparr>mr_low_duty_type_index := n\<rparr>) = clock_inv now m"
  "clock_inv now (m\<lparr>mr_telemetry_offered := n\<rparr>) = clock_inv now m"
  "clock_inv now (m\<lparr>mr_rtcm_offered := n\<rparr>) = clock_inv now m"
  by (simp_all add: clock_inv_def)

lemma timing_counters [simp]:
  "timing (m\<lparr>mr_epoch := e\<rparr>) = timing m"
  "timing (m\<lparr>mr_observation_epochs_offered := n\<rparr>) = timing m"
  "timing (m\<lparr>mr_low_duty_type_index := n\<rparr>) = timing m"
  "timing (m\<lparr>mr_telemetry_offered := n\<rparr>) = timing m"
  "timing (m\<lparr>mr_rtcm_offered := n\<rparr>) = timing m"
  by (simp_all add: timing_def)

lemma mixed_inv_meta:
  assumes "mixed_inv m"
  shows "mixed_inv (m\<lparr>mr_rtcm_meta := AList.update key v (mr_rtcm_meta m)\<rparr>)"
  using assms
  by (auto simp: mixed_inv_def queue_inv_def frame_ok_def frame_shape_def body_ok_def traffic_counts_def
      stops_inv_def applied_within_def rest_inv_def keys_update)

lemma offer_fragments:
  assumes "valid_rtcm3 raw" and "rtcm_type raw = Inr t"
  shows "triple (\<lambda>m. binv now tm m \<and> session_ok ses \<and> 0 < mid \<and> (ses, mid) \<in> fst ` set (mr_rtcm_meta m))
    (seqA (lift (fragment raw ses mid 0)) (eachA (\<lambda>frame. offer frame BASE_TO_ROBOT now' key)))
    (\<lambda>_. binv now tm) (id_fails now tm)"
proof -
  let ?P = "\<lambda>m. binv now tm m \<and> session_ok ses \<and> 0 < mid \<and> (ses, mid) \<in> fst ` set (mr_rtcm_meta m)"
  let ?frames = "map (fragment_frame t raw ses mid 0) [0..<fragment_count (length raw)]"
  have shape: "frame_shape m f = (session_ok ses \<and> 0 < mid \<and> (ses, mid) \<in> fst ` set (mr_rtcm_meta m))"
    if "f \<in> set ?frames" for m f
  proof -
    obtain i where "f = fragment_frame t raw ses mid 0 i" using \<open>f \<in> set ?frames\<close> by auto
    then show ?thesis
      by (simp add: frame_shape_def body_ok_def frame_key_def session_ok_def length_fragment_data conj_ac)
  qed
  have each: "triple ?P (offer f BASE_TO_ROBOT now' key) (\<lambda>_. ?P) (id_fails now tm)" if "f \<in> set ?frames" for f
    using offer_triple [of now tm f BASE_TO_ROBOT now' key] by (simp only: shape [OF that] conj_assoc)
  show ?thesis
    unfolding fragment_eq [OF assms] seqA_lift
    by (rule triple_weaken [OF triple_each [OF each]]) auto
qed

lemma mixed_inv_session: "mixed_inv m \<Longrightarrow> session_ok (mr_base_session m) \<and> session_ok (mr_robot_session m)"
  by (simp add: mixed_inv_def rest_inv_def)

lemma offer_rtcm_triple:
  assumes "valid_rtcm3 raw"
  shows "triple (binv now tm) (offer_rtcm_raw raw epoch obs t) (\<lambda>_. binv now tm) (id_fails now tm)"
proof (rule tripleI)
  fix m m' r
  assume pre: "binv now tm m" and run: "offer_rtcm_raw raw epoch obs t m = (m', r)"
  obtain ty where t: "rtcm_type raw = Inr ty" using rtcm_type_valid [OF assms] .
  obtain m1 r1 where n: "next_id BASE_TO_ROBOT m = (m1, r1)" by fastforce
  obtain mid where r1: "r1 = Inr mid" "0 < mid" and m1: "binv now tm m1"
    using next_id_inv [OF pre n] by blast
  let ?key = "(mr_base_session m1, mid)"
  let ?m2 = "m1\<lparr>mr_rtcm_offered := Suc (mr_rtcm_offered m1),
                mr_rtcm_meta := AList.update ?key (epoch, ty, obs) (mr_rtcm_meta m1)\<rparr>"
  have "mixed_inv (m1\<lparr>mr_rtcm_offered := Suc (mr_rtcm_offered m1)\<rparr>)" using m1 by simp
  from mixed_inv_meta [OF this, of ?key "(epoch, ty, obs)"] have "mixed_inv ?m2" by simp
  then have m2: "binv now tm ?m2 \<and> session_ok (mr_base_session m1) \<and> 0 < mid \<and>
      ?key \<in> fst ` set (mr_rtcm_meta ?m2)"
    using m1 r1 mixed_inv_session [of m1] by (simp add: clock_inv_def timing_def keys_update)
  have "seqA (lift (fragment raw (mr_base_session m1) mid 0))
      (eachA (\<lambda>frame. offer frame BASE_TO_ROBOT t (Some ?key))) ?m2 = (m', r)"
    using run t by (simp add: offer_rtcm_raw_def seqA_ran(1) [where f = "next_id BASE_TO_ROBOT", OF n [unfolded r1(1)]] thenA_def Let_def)
  with offer_fragments [OF assms t, THEN tripleD, OF m2]
  show "case r of Inl e \<Rightarrow> id_fails now tm e m' | Inr _ \<Rightarrow> binv now tm m'" by blast
qed

text \<open>The three statements of the schedule.\<close>

lemma observation_sizes: "(ty, n) \<in> set RTCM_OBSERVATION_SIZES \<union> set RTCM_STATIC_SIZES \<Longrightarrow> 6 \<le> n \<and> n \<le> 1029"
  by (auto simp: RTCM_OBSERVATION_SIZES_def RTCM_STATIC_SIZES_def)

lemma synthetic_epoch_ok: "\<exists>fs. synthetic_epoch e = Inr fs \<and> (\<forall>raw\<in>set fs. valid_rtcm3 raw)"
proof -
  have "\<exists>ys. mapR (\<lambda>(ty, n). synthetic_rtcm ty n e) xs = Inr ys \<and> (\<forall>y\<in>set ys. valid_rtcm3 y)"
    if "set xs \<subseteq> set RTCM_OBSERVATION_SIZES \<union> set RTCM_STATIC_SIZES" for xs
  proof (rule mapR_ok, clarify)
    fix ty n
    assume "(ty, n) \<in> set xs"
    then have "6 \<le> n" "n \<le> 1029" using that observation_sizes by blast+
    then obtain raw where "synthetic_rtcm ty n e = Inr raw" "valid_rtcm3 raw" by (rule synthetic_valid)
    then show "\<exists>y. synthetic_rtcm ty n e = Inr y \<and> valid_rtcm3 y" by blast
  qed
  from this [of RTCM_OBSERVATION_SIZES] this [of RTCM_STATIC_SIZES] show ?thesis
    unfolding synthetic_epoch_def by fastforce
qed

lemma advance_triple:
  assumes "\<And>m. (mixed_inv (upd m) = mixed_inv m) \<and> (clock_inv now (upd m) = clock_inv now m)"
    and "\<And>m. timing m = tm \<Longrightarrow> timing (upd m) = tm'"
  shows "triple (binv now tm) (change upd) (\<lambda>_. binv now tm') E"
  by (rule triple_change) (use assms in simp)

lemma nominal_epoch_triple:
  "triple (binv now (c, e, t, s)) (nominal_epoch p) (\<lambda>_. binv now (c, e + p, t, s))
     (id_fails now (c, e, t, s))"
proof (rule tripleI)
  fix m m' r
  assume pre: "binv now (c, e, t, s) m" and run: "nominal_epoch p m = (m', r)"
  let ?m = "m\<lparr>mr_epoch := mr_epoch m + 1, mr_observation_epochs_offered := Suc (mr_observation_epochs_offered m)\<rparr>"
  obtain fs where fs: "synthetic_epoch (mr_epoch ?m) = Inr fs" "\<forall>raw\<in>set fs. valid_rtcm3 raw"
    using synthetic_epoch_ok by blast
  have each: "triple (binv now (c, e, t, s)) (seqA (lift (rtcm_type raw)) (\<lambda>typ.
      offer_rtcm_raw raw ep (is_observation typ) t0)) (\<lambda>_. binv now (c, e, t, s)) (id_fails now (c, e, t, s))"
    if "raw \<in> set fs" for raw ep t0
  proof -
    have v: "valid_rtcm3 raw" using fs that by blast
    then obtain ty where "rtcm_type raw = Inr ty" using rtcm_type_valid by blast
    then show ?thesis using offer_rtcm_triple [OF v] by simp
  qed
  have "triple (binv now (c, e, t, s)) (thenA (eachA (\<lambda>raw. seqA (lift (rtcm_type raw)) (\<lambda>typ.
      offer_rtcm_raw raw (mr_epoch ?m) (is_observation typ) (mr_next_epoch ?m))) fs)
      (change (\<lambda>m. m\<lparr>mr_next_epoch := mr_next_epoch m + p\<rparr>)))
      (\<lambda>_. binv now (c, e + p, t, s)) (id_fails now (c, e, t, s))"
    by (rule triple_then [OF triple_each [OF each] advance_triple]) (simp_all add: timing_def)
  then show "case r of Inl x \<Rightarrow> id_fails now (c, e, t, s) x m' | Inr _ \<Rightarrow> binv now (c, e + p, t, s) m'"
    by (rule tripleD) (use pre run fs(1) in \<open>simp_all add: nominal_epoch_def Let_def\<close>)
qed

lemma low_duty_epoch_triple:
  "triple (binv now (c, e, t, s)) low_duty_epoch (\<lambda>_. binv now (c, e + 10, t, s))
     (id_fails now (c, e, t, s))"
proof (rule tripleI)
  fix m m' r
  assume pre: "binv now (c, e, t, s) m" and run: "low_duty_epoch m = (m', r)"
  let ?i = "mr_low_duty_type_index m mod 4"
  obtain ty n where sz: "RTCM_OBSERVATION_SIZES ! ?i = (ty, n)" by fastforce
  have "?i < length RTCM_OBSERVATION_SIZES" by (simp add: RTCM_OBSERVATION_SIZES_def)
  then have "(ty, n) \<in> set RTCM_OBSERVATION_SIZES" using sz by (metis nth_mem)
  then have "6 \<le> n" "n \<le> 1029" using observation_sizes by blast+
  then obtain raw where raw: "synthetic_rtcm ty n (mr_epoch m + 1) = Inr raw" "valid_rtcm3 raw"
    by (rule synthetic_valid)
  have "triple (binv now (c, e, t, s)) (thenA (offer_rtcm_raw raw ep False t0)
      (change (\<lambda>m. m\<lparr>mr_next_epoch := mr_next_epoch m + 10\<rparr>)))
      (\<lambda>_. binv now (c, e + 10, t, s)) (id_fails now (c, e, t, s))" for ep t0
    by (rule triple_then [OF offer_rtcm_triple [OF raw(2)] advance_triple]) (simp_all add: timing_def)
  then show "case r of Inl x \<Rightarrow> id_fails now (c, e, t, s) x m' | Inr _ \<Rightarrow> binv now (c, e + 10, t, s) m'"
    by (rule tripleD) (use pre run raw(1) in \<open>simp_all add: low_duty_epoch_def Let_def sz\<close>)
qed

lemma py_int_nonneg: "0 \<le> x \<Longrightarrow> 0 \<le> py_int x"
  by (simp add: py_int_def)

lemma bench_sample_body:
  assumes "clock_inv now m"
  shows "\<exists>b. encode_telemetry (bench_sample now m) = Inr b \<and> plain_body TELEMETRY b"
proof -
  have up: "0 \<le> py_int (now * 1000)" using assms by (simp add: clock_inv_def py_int_nonneg)
  have age: "0 \<le> rtcm_age now m \<and> rtcm_age now m \<le> 65535"
    using assms by (auto simp: rtcm_age_def clock_inv_def py_int_nonneg split: option.splits)
  have flags: "0 \<le> status_flags (bench_sample now m) \<and> status_flags (bench_sample now m) \<le> 3"
    by (simp add: bench_sample_def)
  define b where "b = pack_fields telemetry_fmt
        [uptime_ms (bench_sample now m), latitude_e7 (bench_sample now m), longitude_e7 (bench_sample now m),
         speed_mm_s (bench_sample now m), battery_mv (bench_sample now m),
         last_rtcm_transport_age_ms (bench_sample now m), status_flags (bench_sample now m),
         fix_type (bench_sample now m), satellites (bench_sample now m), 0]"
  have "encode_telemetry (bench_sample now m) = Inr b"
    using up age flags
    by (simp add: encode_telemetry_def struct_pack_def b_def del: pack_fields.simps)
       (simp add: bench_sample_def)
  moreover have "length b \<le> 180" by (simp add: b_def)
  ultimately show ?thesis
    by (auto simp: plain_body_def is_ok_iff simp flip: decode_telemetry_Inr_iff)
qed

lemma offer_at_triple:
  "triple (\<lambda>m. binv now tm m \<and> frame_shape m f) (\<lambda>m. offer f dir (at' m) key m)
     (\<lambda>_. binv now tm) (id_fails now tm)"
proof (rule tripleI)
  fix m m' r
  assume "binv now tm m \<and> frame_shape m f" and "offer f dir (at' m) key m = (m', r)"
  then show "case r of Inl e \<Rightarrow> id_fails now tm e m' | Inr _ \<Rightarrow> binv now tm m'"
    by (rule tripleD [OF offer_triple_then])
qed

lemma telemetry_tick_triple:
  "triple (binv now (c, e, t, s)) (telemetry_tick now p) (\<lambda>_. binv now (c, e, t + p, s))
     (id_fails now (c, e, t, s))"
proof (rule tripleI)
  fix m m' r
  let ?tm = "(c, e, t, s)"
  assume pre: "binv now ?tm m" and run: "telemetry_tick now p m = (m', r)"
  obtain b where b: "encode_telemetry (bench_sample now m) = Inr b" "plain_body TELEMETRY b"
    using bench_sample_body pre by blast
  have ses: "session_ok (mr_robot_session m)" using pre mixed_inv_session by blast
  have "triple (binv now ?tm) (seqA (make_frame TELEMETRY (mr_robot_session m) ROBOT_TO_BASE (Inr b))
       (\<lambda>frame.
       thenA (change (\<lambda>m. m\<lparr>mr_telemetry_offered := Suc (mr_telemetry_offered m)\<rparr>))
       (thenA (\<lambda>m. offer frame ROBOT_TO_BASE (mr_next_telemetry m) None m)
       (change (\<lambda>m. m\<lparr>mr_next_telemetry := mr_next_telemetry m + p\<rparr>)))))
       (\<lambda>_. binv now (c, e, t + p, s)) (id_fails now ?tm)"
  proof (rule triple_seq [OF make_plain_frame [OF refl b(2) ses]], rule triple_then, rule triple_change)
    fix f m
    assume "binv now ?tm m \<and> frame_shape m f"
    then show "binv now ?tm (m\<lparr>mr_telemetry_offered := Suc (mr_telemetry_offered m)\<rparr>) \<and>
        frame_shape (m\<lparr>mr_telemetry_offered := Suc (mr_telemetry_offered m)\<rparr>) f"
      by (simp add: frame_shape_def body_ok_def)
  next
    fix f
    show "triple (\<lambda>m. binv now ?tm m \<and> frame_shape m f)
       (thenA (\<lambda>m. offer f ROBOT_TO_BASE (mr_next_telemetry m) None m)
       (change (\<lambda>m. m\<lparr>mr_next_telemetry := mr_next_telemetry m + p\<rparr>)))
       (\<lambda>_. binv now (c, e, t + p, s)) (id_fails now ?tm)"
      by (rule triple_then [OF offer_at_triple advance_triple]) (simp_all add: timing_def)
  qed
  then show "case r of Inl x \<Rightarrow> id_fails now ?tm x m' | Inr _ \<Rightarrow> binv now (c, e, t + p, s) m'"
    by (rule tripleD) (use pre run b(1) in \<open>simp_all add: telemetry_tick_def\<close>)
qed

text \<open>A new STOP: its key is fresh, so the number of keys is the number of STOPs.\<close>

lemma reset_keeps: "mixed_inv m \<Longrightarrow> mixed_inv (m\<lparr>mr_stop_cache := reset_mock_state (mr_stop_cache m)\<rparr>)"
  by (simp add: mixed_inv_def queue_inv_def frame_ok_def frame_shape_def body_ok_def traffic_counts_def
      stops_inv_def applied_within_def rest_inv_def reset_mock_state_def stop_inv_def high_water_of_def)

lemma new_stop_inv:
  assumes inv: "mixed_inv m" and fresh: "(mr_base_session m, mid) \<notin> fst ` set (mr_stop_created m)"
    and id: "mr_base_id m = mid"
  shows "mixed_inv (m\<lparr>mr_stop_unique := Suc (mr_stop_unique m), mr_stop_attempts := Suc (mr_stop_attempts m),
     mr_stop_created := AList.update (mr_base_session m, mid) due (mr_stop_created m)\<rparr>)" (is "mixed_inv ?m")
proof -
  let ?key = "(mr_base_session m, mid)"
  have st: "stops_inv m" using inv by (simp add: mixed_inv_def)
  let ?keys = "\<lambda>m. {k \<in> fst ` set (mr_stop_created m). snd k \<le> high_water_of (mr_stop_cache m) (mr_base_session m)}"
  have "card (?keys m) \<le> card (?keys ?m)" by (intro card_mono) (auto simp: keys_update)
  then have "applied_within ?m" using st by (simp add: stops_inv_def applied_within_def)
  moreover have "mr_stop_acks ?m \<subseteq> fst ` set (mr_stop_created ?m)"
    using st by (auto simp: stops_inv_def keys_update)
  moreover have "length (mr_stop_created ?m) = mr_stop_unique ?m"
    using st fresh by (simp add: stops_inv_def length_update_key)
  moreover have "distinct_keys (mr_stop_created ?m)" using st by (simp add: stops_inv_def distinct_keys_update)
  moreover have "\<forall>k\<in>fst ` set (mr_stop_created ?m). fst k = mr_base_session ?m \<and> snd k \<le> mr_base_id ?m"
    using st id by (simp add: stops_inv_def keys_update)
  ultimately have "stops_inv ?m" using st by (simp add: stops_inv_def)
  moreover have "body_ok ?m f" if "body_ok m f" for f
    using that unfolding body_ok_def by (simp add: keys_update) blast
  then have "queue_inv ?m"
    using inv by (simp add: mixed_inv_def queue_inv_def frame_ok_def frame_shape_def)
  ultimately show ?thesis using inv by (simp add: mixed_inv_def traffic_counts_def rest_inv_def)
qed

lemma stop_body:
  assumes "session_ok robot"
  shows "\<exists>b. encode_stop \<lparr>target_session = robot, command = STOP_COMMAND, reason = 1\<rparr> = Inr b \<and> length b = 6"
  using assms by (auto simp: encode_stop_def session_ok_def struct_pack_def)

lemma make_stop_frame:
  assumes pre: "binv now tm m" and b: "length b = 6"
    and run: "make_frame STOP_REQUEST (mr_base_session m) BASE_TO_ROBOT (Inr b) m = (m1, r)"
  obtains f where "r = Inr f" and "binv now tm m1"
    and "\<And>due. binv now tm (m1\<lparr>mr_stop_unique := Suc (mr_stop_unique m1), mr_stop_attempts := Suc (mr_stop_attempts m1),
           mr_stop_created := AList.update (frame_key f) due (mr_stop_created m1)\<rparr>)"
    and "\<And>due. frame_shape (m1\<lparr>mr_stop_unique := Suc (mr_stop_unique m1), mr_stop_attempts := Suc (mr_stop_attempts m1),
           mr_stop_created := AList.update (frame_key f) due (mr_stop_created m1)\<rparr>) f"
proof -
  obtain m2 r2 where n: "next_id BASE_TO_ROBOT m = (m2, r2)" by fastforce
  obtain mid where mid: "r2 = Inr mid" "0 < mid" "binv now tm m2" "mr_base_session m2 = mr_base_session m"
      "(mr_base_session m, mid) \<notin> fst ` set (mr_stop_created m2)" "mr_base_id m2 = mid"
    using next_id_inv [OF pre n] by blast
  define f where "f = \<lparr>af_typ = STOP_REQUEST, af_sender_session = mr_base_session m, af_message_id = mid,
      af_source_age_ms = 0, af_body = b\<rparr>"
  have f: "af_typ f = STOP_REQUEST" "af_sender_session f = mr_base_session m" "af_message_id f = mid"
      "af_source_age_ms f = 0" "af_body f = b"
    by (simp_all add: f_def)
  have m1: "m1 = m2" and r: "r = Inr f"
    using run by (simp_all add: make_frame_def seqA_ran(1) [where f = "next_id BASE_TO_ROBOT", OF n [unfolded mid(1)]]
        lift_def f_def)
  have key: "frame_key f = (mr_base_session m2, mid)" by (simp add: frame_key_def f mid(4))
  have "mixed_inv (m1\<lparr>mr_stop_unique := Suc (mr_stop_unique m1), mr_stop_attempts := Suc (mr_stop_attempts m1),
           mr_stop_created := AList.update (frame_key f) due (mr_stop_created m1)\<rparr>)" for due
    unfolding m1 key by (rule new_stop_inv) (use mid in simp_all)
  moreover have "session_ok (mr_base_session m)" using pre mixed_inv_session by blast
  ultimately show ?thesis
    using mid r m1 b f
    by (intro that [of f]) (simp_all add: clock_inv_def timing_def frame_shape_def body_ok_def keys_update session_ok_def)
qed

lemma stop_tick_triple:
  "triple (binv now (c, e, t, Some due)) (stop_tick due)
     (\<lambda>_. binv now (c, e, t, Some (due + fst (snd (snd c))))) (id_fails now (c, e, t, Some due))"
proof (rule tripleI)
  fix m m' r
  let ?tm = "(c, e, t, Some due)"
  assume pre: "binv now ?tm m" and run: "stop_tick due m = (m', r)"
  let ?m = "m\<lparr>mr_stop_cache := reset_mock_state (mr_stop_cache m)\<rparr>"
  have pre': "binv now ?tm ?m" using pre reset_keeps by (simp add: clock_inv_def timing_def)
  have "session_ok (mr_robot_session m)" using pre mixed_inv_session by blast
  then obtain b where b: "encode_stop \<lparr>target_session = mr_robot_session m, command = STOP_COMMAND, reason = 1\<rparr> = Inr b"
      "length b = 6" using stop_body by blast
  obtain m1 r1 where mk: "make_frame STOP_REQUEST (mr_base_session ?m) BASE_TO_ROBOT (Inr b) ?m = (m1, r1)"
    by fastforce
  obtain f where f: "r1 = Inr f" and m1: "binv now ?tm m1"
    and m2: "binv now ?tm (m1\<lparr>mr_stop_unique := Suc (mr_stop_unique m1), mr_stop_attempts := Suc (mr_stop_attempts m1),
           mr_stop_created := AList.update (frame_key f) due (mr_stop_created m1)\<rparr>)"
    and shape: "frame_shape (m1\<lparr>mr_stop_unique := Suc (mr_stop_unique m1), mr_stop_attempts := Suc (mr_stop_attempts m1),
           mr_stop_created := AList.update (frame_key f) due (mr_stop_created m1)\<rparr>) f"
    by (rule make_stop_frame [OF pre' b(2) mk]) blast
  let ?dup = "\<lambda>m. m\<lparr>mr_stop_attempts := Suc (mr_stop_attempts m),
                            mr_stop_duplicate_attempts := Suc (mr_stop_duplicate_attempts m)\<rparr>"
  have dup: "binv now ?tm m \<and> frame_shape m f \<Longrightarrow> binv now ?tm (?dup m) \<and> frame_shape (?dup m) f" for m
    by (simp add: mixed_inv_def queue_inv_def frame_ok_def frame_shape_def body_ok_def traffic_counts_def
      stops_inv_def applied_within_def rest_inv_def clock_inv_def timing_def)
  have dup': "triple (\<lambda>m. binv now ?tm m \<and> frame_shape m f) (change ?dup)
      (\<lambda>_ m. binv now ?tm m \<and> frame_shape m f) (id_fails now ?tm)"
    by (rule triple_change) (rule dup)
  have second: "triple (\<lambda>m. binv now ?tm m \<and> frame_shape m f)
      (\<lambda>m. if mr_stop_unique m mod 2 = 0
           then thenA (change ?dup) (offer f BASE_TO_ROBOT due None) m else (m, Inr ()))
      (\<lambda>_. binv now ?tm) (id_fails now ?tm)"
    using triple_then [OF dup' offer_triple_then, of BASE_TO_ROBOT due None]
    by (auto simp: triple_def)
  have "triple (\<lambda>m. binv now ?tm m \<and> frame_shape m f)
      (thenA (offer f BASE_TO_ROBOT due None)
      (thenA (\<lambda>m. if mr_stop_unique m mod 2 = 0
                  then thenA (change ?dup) (offer f BASE_TO_ROBOT due None) m else (m, Inr ()))
      (change (\<lambda>m. m\<lparr>mr_next_stop := Some (due + mr_stop_interval_s m)\<rparr>))))
      (\<lambda>_. binv now (c, e, t, Some (due + fst (snd (snd c))))) (id_fails now ?tm)"
    by (rule triple_then [OF offer_triple triple_then [OF second advance_triple]]) (auto simp: timing_def)
  then show "case r of Inl x \<Rightarrow> id_fails now ?tm x m' | Inr _ \<Rightarrow> binv now (c, e, t, Some (due + fst (snd (snd c)))) m'"
  proof (rule tripleD)
    show "binv now ?tm (m1\<lparr>mr_stop_unique := Suc (mr_stop_unique m1), mr_stop_attempts := Suc (mr_stop_attempts m1),
           mr_stop_created := AList.update (frame_key f) due (mr_stop_created m1)\<rparr>) \<and>
       frame_shape (m1\<lparr>mr_stop_unique := Suc (mr_stop_unique m1), mr_stop_attempts := Suc (mr_stop_attempts m1),
           mr_stop_created := AList.update (frame_key f) due (mr_stop_created m1)\<rparr>) f"
      using m2 shape by blast
    have mk': "make_frame STOP_REQUEST (mr_base_session m) BASE_TO_ROBOT (Inr b) ?m = (m1, Inr f)"
      using mk f by simp
    show "thenA (offer f BASE_TO_ROBOT due None)
      (thenA (\<lambda>m. if mr_stop_unique m mod 2 = 0
                  then thenA (change ?dup) (offer f BASE_TO_ROBOT due None) m else (m, Inr ()))
      (change (\<lambda>m. m\<lparr>mr_next_stop := Some (due + mr_stop_interval_s m)\<rparr>)))
      (m1\<lparr>mr_stop_unique := Suc (mr_stop_unique m1), mr_stop_attempts := Suc (mr_stop_attempts m1),
           mr_stop_created := AList.update (frame_key f) due (mr_stop_created m1)\<rparr>) = (m', r)"
      using run b(1)
      by (simp add: stop_tick_def Let_def
          seqA_ran(1) [where f = "make_frame STOP_REQUEST (mr_base_session m) BASE_TO_ROBOT (Inr b)", OF mk'])
         (simp add: thenA_def [of "change _"])
  qed
qed

subsection \<open>The schedule ends\<close>

text \<open>How many more times a stream is due before the end.\<close>

definition ticks :: "time \<Rightarrow> real \<Rightarrow> time \<Rightarrow> nat" where
  "ticks duration period next' = (if next' < duration then nat \<lceil>(duration - next') / period\<rceil> else 0)"

lemma ticks_advance:
  assumes "0 < period" and "next' < duration"
  shows "ticks duration period (next' + period) < ticks duration period next'"
proof -
  have "(duration - (next' + period)) / period = (duration - next') / period - 1"
    using assms(1) by (simp add: field_simps)
  moreover have "0 < (duration - next') / period" using assms by simp
  then have "0 < \<lceil>(duration - next') / period\<rceil>" by simp
  ultimately show ?thesis using assms by (simp add: ticks_def)
qed

definition moved :: "time \<Rightarrow> real \<Rightarrow> time \<Rightarrow> time \<Rightarrow> bool" where
  "moved duration period old new \<longleftrightarrow> new = old \<or> ticks duration period new < ticks duration period old"

text \<open>A loop whose body moves one stream forward by its period.\<close>

lemma stream_loop:
  assumes step: "\<And>a. triple (binv now (tm a)) body (\<lambda>_. binv now (tm (a + period))) (id_fails now (tm a))"
    and cond: "\<And>a m. timing m = tm a \<Longrightarrow> cond m = is_due now duration a"
    and inj: "\<And>a b. tm a = tm b \<Longrightarrow> a = b"
    and "0 < period" and "binv now (tm a) m"
  shows "\<exists>m' r. whileA cond body m = Some (m', r) \<and>
    (case r of Inl e \<Rightarrow> e = id_error
     | Inr _ \<Rightarrow> \<exists>b. binv now (tm b) m' \<and> \<not> is_due now duration b \<and> moved duration period a b)"
proof -
  define at' where "at' m = (THE b. timing m = tm b)" for m
  have at': "at' m = b" if "timing m = tm b" for m b
    unfolding at'_def by (rule the_equality) (use that inj in auto)
  let ?P = "\<lambda>m. \<exists>b. binv now (tm b) m \<and> moved duration period a b"
  have "\<exists>m' r. whileA cond body m = Some (m', r) \<and>
     (case r of Inl e \<Rightarrow> e = id_error | Inr _ \<Rightarrow> ?P m' \<and> \<not> cond m')"
  proof (rule whileA_total [where P = ?P and measure' = "\<lambda>m. ticks duration period (at' m)"])
    fix n
    show "triple (\<lambda>m. ?P m \<and> cond m \<and> ticks duration period (at' m) = n) body
        (\<lambda>_ m. ?P m \<and> ticks duration period (at' m) < n) (\<lambda>e _. e = id_error)"
    proof (rule tripleI)
      fix m m' r
      assume "?P m \<and> cond m \<and> ticks duration period (at' m) = n" and run: "body m = (m', r)"
      then obtain b where b: "binv now (tm b) m" "moved duration period a b" and due: "b < duration"
        and n: "n = ticks duration period b"
        using cond at' by (auto simp: is_due_def)
      have "ticks duration period (b + period) < ticks duration period b"
        using ticks_advance assms(4) due by blast
      moreover from this have "moved duration period a (b + period)"
        using b(2) by (auto simp: moved_def)
      ultimately show "case r of Inl e \<Rightarrow> e = id_error
          | Inr _ \<Rightarrow> ?P m' \<and> ticks duration period (at' m') < n"
        using tripleD [OF step b(1) run] at' n by (auto split: sum.splits)
    qed
  next
    show "?P m" using assms(5) by (auto simp: moved_def)
  qed
  then show ?thesis using cond by (fastforce split: sum.splits)
qed

text \<open>A configuration: profile, duration, STOP interval and epoch rate.\<close>

type_synonym config = "string \<times> time \<times> time \<times> real"

fun epoch_period :: "config \<Rightarrow> real" where
  "epoch_period (profile, duration, stop_interval, hz) = (if profile = ''nominal'' then 1 / hz else 10)"

fun telemetry_every :: "config \<Rightarrow> real" where
  "telemetry_every (profile, duration, stop_interval, hz) = (if profile = ''nominal'' then 5 / 10 else 2)"

fun config_ok :: "config \<Rightarrow> time option \<Rightarrow> bool" where
  "config_ok (profile, duration, stop_interval, hz) s \<longleftrightarrow>
     (profile = ''nominal'' \<longrightarrow> 0 < hz) \<and> (s \<noteq> None \<longrightarrow> 0 < stop_interval)"

lemma periods_positive: "config_ok c s \<Longrightarrow> 0 < epoch_period c \<and> 0 < telemetry_every c"
  by (cases c) auto

definition duration_of :: "config \<Rightarrow> time" where
  "duration_of c = fst (snd c)"

definition stop_interval_of :: "config \<Rightarrow> time" where
  "stop_interval_of c = fst (snd (snd c))"

text \<open>What the schedule leaves: nothing due, and every stream where it was or further on.\<close>

fun stop_settled :: "time \<Rightarrow> config \<Rightarrow> time option \<Rightarrow> time option \<Rightarrow> bool" where
  "stop_settled now c None s' = (s' = None)"
| "stop_settled now c (Some a) s' =
     (\<exists>b. s' = Some b \<and> \<not> is_due now (duration_of c) b \<and> moved (duration_of c) (stop_interval_of c) a b)"

lemma timing_fields:
  assumes "timing m = (c, e, t, s)"
  shows "mr_duration_s m = duration_of c" "mr_next_epoch m = e" "mr_next_telemetry m = t" "mr_next_stop m = s"
    "mr_stop_interval_s m = stop_interval_of c" "telemetry_period m = telemetry_every c"
    "mr_profile m = fst c" "mr_rtcm_hz m = snd (snd (snd c))"
  using assms by (auto simp: timing_def duration_of_def stop_interval_of_def telemetry_period_def)

lemma epochs_loop:
  assumes "config_ok c s" and pre: "binv now (c, e, t, s) m"
  shows "\<exists>m' r. schedule_epochs now m = Some (m', r) \<and>
    (case r of Inl x \<Rightarrow> x = id_error
     | Inr _ \<Rightarrow> \<exists>e'. binv now (c, e', t, s) m' \<and> \<not> is_due now (duration_of c) e' \<and>
         moved (duration_of c) (epoch_period c) e e')"
proof -
  have cond: "epoch_due now m = is_due now (duration_of c) a" if "timing m = (c, a, t, s)" for a m
    using timing_fields [OF that] by (simp add: epoch_due_def)
  note f = timing_fields [OF conjunct2 [OF conjunct2 [OF pre]]]
  show ?thesis
  proof (cases "fst c = ''nominal''")
    case True
    then have hz: "0 < snd (snd (snd c))" and p: "epoch_period c = 1 / snd (snd (snd c))"
      using assms(1) by (cases c; auto)+
    have "schedule_epochs now m = whileA (epoch_due now) (nominal_epoch (epoch_period c)) m"
      using True hz p f by (simp add: schedule_epochs_def)
    then show ?thesis
      using stream_loop [where tm = "\<lambda>a. (c, a, t, s)" and period = "epoch_period c" and cond = "epoch_due now", OF nominal_epoch_triple cond _ _ pre]
        periods_positive [OF assms(1)] by simp
  next
    case False
    then have p: "epoch_period c = 10" by (cases c) auto
    have "schedule_epochs now m = whileA (epoch_due now) low_duty_epoch m"
      using False f by (simp add: schedule_epochs_def)
    then show ?thesis
      using stream_loop [where tm = "\<lambda>a. (c, a, t, s)" and cond = "epoch_due now", OF low_duty_epoch_triple cond _ _ pre]
      unfolding p by simp
  qed
qed

lemma stops_loop:
  assumes "config_ok c s" and pre: "binv now (c, e, t, s) m"
  shows "\<exists>m' r. whileA (stop_due now) stop_loop_body m = Some (m', r) \<and>
    (case r of Inl x \<Rightarrow> x = id_error
     | Inr _ \<Rightarrow> \<exists>s'. binv now (c, e, t, s') m' \<and> stop_settled now c s s')"
proof (cases s)
  case None
  then have "\<not> stop_due now m" using pre timing_fields [of m c e t s] by (simp add: stop_due_def)
  then show ?thesis using pre None by (subst whileA.simps) auto
next
  case (Some a)
  have body: "triple (binv now (c, e, t, Some b)) stop_loop_body
     (\<lambda>_. binv now (c, e, t, Some (b + stop_interval_of c))) (id_fails now (c, e, t, Some b))" for b
  proof (rule tripleI)
    fix m m' r
    assume "binv now (c, e, t, Some b) m" and "stop_loop_body m = (m', r)"
    then show "case r of Inl x \<Rightarrow> id_fails now (c, e, t, Some b) x m'
        | Inr _ \<Rightarrow> binv now (c, e, t, Some (b + stop_interval_of c)) m'"
      using timing_fields [of m c e t "Some b"]
      by (intro tripleD [OF stop_tick_triple [of now c e t b, folded stop_interval_of_def]])
         (simp_all add: stop_loop_body_def)
  qed
  have cond: "stop_due now m = is_due now (duration_of c) b" if "timing m = (c, e, t, Some b)" for b m
    using timing_fields [OF that] by (simp add: stop_due_def)
  have "0 < stop_interval_of c" using assms(1) Some by (cases c) (auto simp: stop_interval_of_def)
  then show ?thesis
    using stream_loop [where tm = "\<lambda>b. (c, e, t, Some b)" and cond = "stop_due now", OF body cond _ _ pre [unfolded Some]] Some
    by (fastforce split: sum.splits)
qed

lemma schedule_total:
  assumes ok: "config_ok c s" and pre: "binv now (c, e, t, s) m"
  shows "\<exists>m' r. schedule_due now m = Some (m', r) \<and>
    (case r of Inl x \<Rightarrow> x = id_error
     | Inr _ \<Rightarrow> \<exists>e' t' s'. binv now (c, e', t', s') m' \<and> \<not> is_due now (duration_of c) e' \<and>
         \<not> is_due now (duration_of c) t' \<and> moved (duration_of c) (epoch_period c) e e' \<and>
         moved (duration_of c) (telemetry_every c) t t' \<and> stop_settled now c s s')"
proof -
  obtain m1 r1 where l1: "schedule_epochs now m = Some (m1, r1)"
    and c1: "case r1 of Inl x \<Rightarrow> x = id_error
     | Inr _ \<Rightarrow> \<exists>e'. binv now (c, e', t, s) m1 \<and> \<not> is_due now (duration_of c) e' \<and>
         moved (duration_of c) (epoch_period c) e e'"
    using epochs_loop [OF ok pre] by blast
  show ?thesis
  proof (cases r1)
    case (Inl x)
    then show ?thesis using l1 c1 by (auto simp: schedule_due_def thenO_def)
  next
    case (Inr u)
    then obtain e' where e': "binv now (c, e', t, s) m1" "\<not> is_due now (duration_of c) e'"
        "moved (duration_of c) (epoch_period c) e e'" using c1 by auto
    have cond: "telemetry_due now m = is_due now (duration_of c) a" if "timing m = (c, e', a, s)" for a m
      using timing_fields [OF that] by (simp add: telemetry_due_def)
    obtain m2 r2 where l2: "whileA (telemetry_due now) (telemetry_tick now (telemetry_every c)) m1 = Some (m2, r2)"
      and c2: "case r2 of Inl x \<Rightarrow> x = id_error
        | Inr _ \<Rightarrow> \<exists>t'. binv now (c, e', t', s) m2 \<and> \<not> is_due now (duration_of c) t' \<and>
            moved (duration_of c) (telemetry_every c) t t'"
      using stream_loop [where tm = "\<lambda>a. (c, e', a, s)" and period = "telemetry_every c" and cond = "telemetry_due now", OF telemetry_tick_triple cond _ _ e'(1)]
        periods_positive [OF ok] by auto
    have per: "telemetry_period m1 = telemetry_every c" using timing_fields(6) [of m1] e'(1) by auto
    show ?thesis
    proof (cases r2)
      case (Inl x)
      then show ?thesis using l1 l2 c2 Inr per by (auto simp: schedule_due_def thenO_def)
    next
      case Inr2: (Inr u2)
      then obtain t' where t': "binv now (c, e', t', s) m2" "\<not> is_due now (duration_of c) t'"
          "moved (duration_of c) (telemetry_every c) t t'" using c2 by auto
      have "schedule_due now m = whileA (stop_due now) stop_loop_body m2"
        using l1 l2 Inr Inr2 per by (simp add: schedule_due_def thenO_def)
      then show ?thesis using stops_loop [OF ok t'(1)] e' t' by (fastforce split: sum.splits)
    qed
  qed
qed

subsection \<open>Deliveries keep the invariant\<close>

lemma ra_errors_caught: "e \<in> ra_errors \<Longrightarrow> caught e"
  by (auto simp: ra_errors_def caught_def)

lemma stop_answer:
  assumes "stop_inv c" and "af_typ f = STOP_REQUEST"
  shows "\<exists>d. snd (stop_apply f c) = Inr d \<and> 0 \<le> sd_result d \<and> sd_result d \<le> 6 \<and>
    sd_state d \<in> {STATE_RUNNING, STATE_STOPPED}"
proof (cases "stop_accepted f c")
  case True
  then show ?thesis by (simp add: stop_apply_accepted)
next
  case False
  have st: "sc_state c \<in> {STATE_RUNNING, STATE_STOPPED}"
    and stored: "map_of (sc_cache c) k = Some (b, res, state) \<Longrightarrow>
      res \<in> stop_results \<and> state \<in> {STATE_RUNNING, STATE_STOPPED}" for k b res state
    using assms(1) map_of_SomeD [of "sc_cache c" k "(b, res, state)"] by (auto simp: stop_inv_def)
  from stop_apply_refused [OF False] assms(2) st stored [of "frame_key f" "af_body f"]
  show ?thesis by (elim disjE) (auto simp: stop_results_def split: sum.splits)
qed

lemma stop_apply_session:
  "sc_local_session (fst (stop_apply f c)) = sc_local_session c"
proof (cases "stop_accepted f c")
  case False
  then show ?thesis using stop_apply_refused [OF False] by auto
qed (simp add: stop_apply_accepted)

lemma stop_apply_within:
  assumes key: "frame_key f \<in> K" and base: "af_sender_session f = base" and "finite K"
    and count: "sc_apply_count c \<le> card {k \<in> K. snd k \<le> high_water_of c base}"
  shows "sc_apply_count (fst (stop_apply f c)) \<le>
    card {k \<in> K. snd k \<le> high_water_of (fst (stop_apply f c)) base}"
proof (cases "stop_accepted f c")
  case True
  then have hw: "high_water_of c base < af_message_id f"
    "high_water_of (fst (stop_apply f c)) base = af_message_id f"
    using base by (simp_all add: stop_accepted_def stop_apply_accepted high_water_fresh)
  let ?old = "{k \<in> K. snd k \<le> high_water_of c base}"
  have "insert (frame_key f) ?old \<subseteq> {k \<in> K. snd k \<le> af_message_id f}"
    using key hw by (auto simp: frame_key_def)
  then have "card (insert (frame_key f) ?old) \<le> card {k \<in> K. snd k \<le> af_message_id f}"
    using assms(3) by (intro card_mono) auto
  moreover have "frame_key f \<notin> ?old" using hw by (simp add: frame_key_def)
  ultimately have "Suc (card ?old) \<le> card {k \<in> K. snd k \<le> af_message_id f}"
    using assms(3) by simp
  then show ?thesis using count True hw by (simp add: stop_apply_accepted)
next
  case False
  have "high_water_of (fst (stop_apply f c)) base = high_water_of c base"
    "sc_apply_count (fst (stop_apply f c)) = sc_apply_count c"
    using stop_apply_refused [OF False] by (auto simp: high_water_of_def)
  then show ?thesis using count by simp
qed

lemma stop_delivered_inv:
  assumes inv: "mixed_inv m" and key: "frame_key f \<in> fst ` set (mr_stop_created m)"
  shows "mixed_inv (m\<lparr>mr_stop_cache := fst (stop_apply f (mr_stop_cache m))\<rparr>)" (is "mixed_inv ?m")
proof -
  have st: "stops_inv m" using inv by (simp add: mixed_inv_def)
  have base: "af_sender_session f = mr_base_session m"
    using st key unfolding stops_inv_def by (metis frame_key_def fst_conv)
  have "applied_within ?m"
    using st stop_apply_within [OF key base] by (simp add: stops_inv_def applied_within_def)
  then have "stops_inv ?m"
    using st by (simp add: stops_inv_def stop_apply_inv stop_apply_session)
  then show ?thesis
    using inv by (simp add: mixed_inv_def queue_inv_def frame_ok_def frame_shape_def body_ok_def
        traffic_counts_def rest_inv_def)
qed

definition app_fails where
  "app_fails now tm e m \<longleftrightarrow> binv now tm m \<and> caught e"

lemma id_error_caught: "caught id_error"
  by (simp add: caught_def id_error_def)

lemma deliver_stop_triple:
  "triple (\<lambda>m. binv now tm m \<and> frame_ok m f \<and> af_typ f = STOP_REQUEST) (deliver_stop f now)
     (\<lambda>_. binv now tm) (app_fails now tm)"
proof (rule tripleI)
  fix m m' r
  assume pre: "binv now tm m \<and> frame_ok m f \<and> af_typ f = STOP_REQUEST"
    and run: "deliver_stop f now m = (m', r)"
  then have "body_ok m f" "af_typ f = STOP_REQUEST" by (simp_all add: frame_ok_def frame_shape_def)
  then have key: "frame_key f \<in> fst ` set (mr_stop_created m)" by (simp add: body_ok_def)
  have c: "stop_inv (mr_stop_cache m)" using pre by (simp add: mixed_inv_def stops_inv_def)
  obtain d where d: "snd (stop_apply f (mr_stop_cache m)) = Inr d" "0 \<le> sd_result d" "sd_result d \<le> 6"
      "sd_state d \<in> {STATE_RUNNING, STATE_STOPPED}"
    using stop_answer [OF c] pre by blast
  obtain c' where a: "stop_apply f (mr_stop_cache m) = (c', Inr d)"
    using d(1) by (metis surjective_pairing)
  let ?m = "m\<lparr>mr_stop_cache := c'\<rparr>"
  have m: "binv now tm ?m"
    using stop_delivered_inv [OF _ key] pre a by (simp add: clock_inv_def timing_def)
  let ?ack = "\<lparr>request_session = af_sender_session f, request_id = af_message_id f,
      ack_result = sd_result d, ack_state = sd_state d\<rparr>"
  have "encode_ack ?ack = Inr (be 4 (af_sender_session f) @ be 4 (af_message_id f) @
      be 1 (sd_result d) @ be 1 (sd_state d))"
    using d pre by (auto simp: encode_ack_def struct_pack_def frame_ok_def frame_shape_def)
  then obtain b where b: "encode_ack ?ack = Inr b" "length b = 10" by simp
  then have plain: "plain_body COMMAND_ACK b" by (simp add: plain_body_def is_ok_iff decode_ack_Inr_iff) blast
  have ses: "session_ok (mr_robot_session m)" using pre mixed_inv_session by blast
  have "case r of Inl e \<Rightarrow> id_fails now tm e m' | Inr _ \<Rightarrow> binv now tm m'"
    by (rule tripleD [OF offer_plain [OF refl plain ses] m, where s' = m' and r = r and dir1 = ROBOT_TO_BASE and dir'1 = ROBOT_TO_BASE and c1 = now and key1 = None])
       (use run a b(1) in \<open>simp add: deliver_stop_def\<close>)
  then show "case r of Inl e \<Rightarrow> app_fails now tm e m' | Inr _ \<Rightarrow> binv now tm m'"
    by (auto simp: app_fails_def id_error_caught split: sum.splits)
qed

lemma ack_inv:
  assumes inv: "mixed_inv m" and key: "key \<in> fst ` set (mr_stop_created m)" "key \<notin> mr_stop_acks m"
  shows "mixed_inv (m\<lparr>mr_stop_acks := insert key (mr_stop_acks m),
     mr_stop_latencies_ms := mr_stop_latencies_ms m @ [x]\<rparr>)" (is "mixed_inv ?m")
proof -
  have st: "stops_inv m" using inv by (simp add: mixed_inv_def)
  then have "finite (mr_stop_acks m)"
    unfolding stops_inv_def by (meson finite_imageI finite_set finite_subset)
  then have "stops_inv ?m" using st key by (simp add: stops_inv_def applied_within_def)
  then show ?thesis
    using inv by (simp add: mixed_inv_def queue_inv_def frame_ok_def frame_shape_def body_ok_def
        traffic_counts_def rest_inv_def)
qed

lemma deliver_ack_triple:
  "triple (\<lambda>m. binv now tm m \<and> frame_ok m f \<and> af_typ f = COMMAND_ACK) (deliver_ack f now)
     (\<lambda>_. binv now tm) (app_fails now tm)"
proof (rule tripleI)
  fix m m' r
  assume pre: "binv now tm m \<and> frame_ok m f \<and> af_typ f = COMMAND_ACK"
    and run: "deliver_ack f now m = (m', r)"
  then have "body_ok m f" "af_typ f = COMMAND_ACK" by (simp_all add: frame_ok_def frame_shape_def)
  then obtain ack where ack: "decode_ack (af_body f) = Inr ack" by (auto simp: body_ok_def is_ok_iff)
  let ?key = "(request_session ack, request_id ack)"
  have r: "r = Inr ()" using run ack by (simp add: deliver_ack_def change_def)
  have "mixed_inv m' \<and> clock_inv now m' \<and> timing m' = timing m"
  proof (cases "map_of (mr_stop_created m) ?key = None \<or> ?key \<in> mr_stop_acks m")
    case True
    then have "m' = m" using run ack by (auto simp: deliver_ack_def change_def Let_def split: option.splits)
    then show ?thesis using pre by simp
  next
    case False
    then obtain created where "map_of (mr_stop_created m) ?key = Some created"
      by (cases "map_of (mr_stop_created m) ?key") auto
    then have "m' = m\<lparr>mr_stop_acks := insert ?key (mr_stop_acks m),
        mr_stop_latencies_ms := mr_stop_latencies_ms m @ [(now - created) * 1000]\<rparr>"
      using run ack False by (simp add: deliver_ack_def change_def Let_def)
    then show ?thesis
      using ack_inv [of m ?key] pre False lookup_in_keys [of "mr_stop_created m" ?key]
      by (simp add: clock_inv_def timing_def)
  qed
  then show "case r of Inl e \<Rightarrow> app_fails now tm e m' | Inr _ \<Rightarrow> binv now tm m'"
    using pre r by simp
qed

lemma mixed_inv_rtcm [simp]:
  "mixed_inv (m\<lparr>mr_rtcm_completed := n\<rparr>) = mixed_inv m"
  "mixed_inv (m\<lparr>mr_rtcm_completed_types := d\<rparr>) = mixed_inv m"
  "mixed_inv (m\<lparr>mr_epoch_completed_types := d'\<rparr>) = mixed_inv m"
  "mixed_inv (m\<lparr>mr_last_rtcm_complete_at := t\<rparr>) = mixed_inv m"
  "mixed_inv (m\<lparr>mr_telemetry_delivered := n\<rparr>) = mixed_inv m"
  "mixed_inv (m\<lparr>mr_telemetry_ages_ms := xs\<rparr>) = mixed_inv m"
  "mixed_inv (m\<lparr>mr_rssi := xs\<rparr>) = mixed_inv m"
  "mixed_inv (m\<lparr>mr_snr := xs\<rparr>) = mixed_inv m"
  "mixed_inv (m\<lparr>mr_errors := es\<rparr>) = mixed_inv m"
  "mixed_inv (m\<lparr>mr_next_status := u\<rparr>) = mixed_inv m"
  by (simp_all add: mixed_inv_def queue_inv_def frame_ok_def frame_shape_def body_ok_def traffic_counts_def
      stops_inv_def applied_within_def rest_inv_def)

lemma mixed_inv_reassembler: "mixed_inv m \<Longrightarrow> ra_inv r \<Longrightarrow> mixed_inv (m\<lparr>mr_reassembler := r\<rparr>)"
  by (simp add: mixed_inv_def queue_inv_def frame_ok_def frame_shape_def body_ok_def traffic_counts_def
      stops_inv_def applied_within_def rest_inv_def)

text \<open>What else of the runner the schedule and the invariant do not see.\<close>

lemma timing_rtcm [simp]:
  "timing (m\<lparr>mr_rtcm_completed := n\<rparr>) = timing m"
  "timing (m\<lparr>mr_rtcm_completed_types := d\<rparr>) = timing m"
  "timing (m\<lparr>mr_epoch_completed_types := d'\<rparr>) = timing m"
  "timing (m\<lparr>mr_last_rtcm_complete_at := t\<rparr>) = timing m"
  "timing (m\<lparr>mr_telemetry_delivered := n\<rparr>) = timing m"
  "timing (m\<lparr>mr_telemetry_ages_ms := xs\<rparr>) = timing m"
  "timing (m\<lparr>mr_rssi := xs\<rparr>) = timing m"
  "timing (m\<lparr>mr_snr := xs\<rparr>) = timing m"
  "timing (m\<lparr>mr_errors := es\<rparr>) = timing m"
  "timing (m\<lparr>mr_next_status := u\<rparr>) = timing m"
  "timing (m\<lparr>mr_reassembler := r\<rparr>) = timing m"
  "timing (m\<lparr>mr_scheduler := sched\<rparr>) = timing m"
  "timing (m\<lparr>mr_traffic := tra\<rparr>) = timing m"
  by (simp_all add: timing_def)

lemma deliver_rtcm_triple:
  "triple (\<lambda>m. binv now tm m \<and> frame_ok m f \<and> af_typ f = RTCM_FRAGMENT) (deliver_rtcm f now)
     (\<lambda>_. binv now tm) (app_fails now tm)"
proof (rule tripleI)
  fix m m' r
  assume pre: "binv now tm m \<and> frame_ok m f \<and> af_typ f = RTCM_FRAGMENT"
    and run: "deliver_rtcm f now m = (m', r)"
  then have "body_ok m f" "af_typ f = RTCM_FRAGMENT" by (simp_all add: frame_ok_def frame_shape_def)
  then have key: "frame_key f \<in> fst ` set (mr_rtcm_meta m)" by (simp add: body_ok_def)
  obtain ra res where a: "ra_add now f (mr_reassembler m) = (ra, res)" by fastforce
  have ra: "ra_inv ra" and res: "ra_result_ok (af_sender_session f, af_message_id f) ra res"
    using ra_add_ok [of "mr_reassembler m" now f] pre a by (simp_all add: mixed_inv_def rest_inv_def)
  let ?m = "m\<lparr>mr_reassembler := ra\<rparr>"
  have m: "binv now tm ?m" using pre mixed_inv_reassembler ra by (simp add: clock_inv_def)
  show "case r of Inl e \<Rightarrow> app_fails now tm e m' | Inr _ \<Rightarrow> binv now tm m'"
  proof (cases "\<exists>raw. res = Inr (Some raw)")
    case False
    then show ?thesis
      using run a m res ra_errors_caught
      by (auto simp: deliver_rtcm_def ra_result_ok_def app_fails_def lift_def change_def
          split: sum.splits option.splits)
  next
    case True
    then obtain raw where raw: "res = Inr (Some raw)" "valid_rtcm3 raw"
      using res by (auto simp: ra_result_ok_def)
    obtain ty where ty: "rtcm_type raw = Inr ty" using rtcm_type_valid [OF raw(2)] .
    obtain v where v: "map_of (mr_rtcm_meta m) (frame_key f) = Some v"
      using key lookup_in_keys [of "mr_rtcm_meta m" "frame_key f"] by auto
    obtain epoch ty' obs where v': "v = (epoch, ty', obs)" by (cases v) blast
    have "r = Inr ()" "mixed_inv m'" "timing m' = tm" "mr_last_rtcm_complete_at m' = Some now"
      using run a raw(1) ty v v' m
      by (auto simp: deliver_rtcm_def thenA_def Let_def change_def lift_def seqA_def
          simp del: seqA_lift seqA_change)
    then show ?thesis using m by (simp add: clock_inv_def)
  qed
qed

text \<open>A frame that has been sent is counted as delivered.\<close>

definition unreturned :: "string \<Rightarrow> mixed \<Rightarrow> bool" where
  "unreturned kind m \<longleftrightarrow>
     (case mr_traffic m kind of None \<Rightarrow> True | Some tr \<Rightarrow> tr_delivered tr < tr_sent tr)"

lemma delivered_inv:
  assumes "mixed_inv m" and "unreturned kind m"
  shows "mixed_inv (bump kind (\<lambda>tr. tr\<lparr>tr_delivered := Suc (tr_delivered tr)\<rparr>) m)" (is "mixed_inv ?m")
proof -
  have "traffic_counts k ?m" for k
    using assms by (auto simp: mixed_inv_def traffic_counts_def counts_ok_def unreturned_def bump_def
        dest: spec [of _ k] split: option.splits)
  then show ?thesis
    using assms(1) by (simp add: mixed_inv_def queue_inv_def frame_ok_def frame_shape_def body_ok_def
        stops_inv_def applied_within_def rest_inv_def bump_def)
qed

lemma bump_keeps [simp]:
  "clock_inv now (bump kind f m) = clock_inv now m" "timing (bump kind f m) = timing m"
  "frame_ok (bump kind f m) fr = frame_ok m fr"
  by (simp_all add: bump_def clock_inv_def frame_ok_def frame_shape_def body_ok_def)

lemma deliver_triple:
  "triple (\<lambda>m. binv now tm m \<and> frame_ok m f \<and> (\<forall>kind. KIND_BY_TYPE (af_typ f) = Some kind \<longrightarrow> unreturned kind m))
     (deliver item f now) (\<lambda>_. binv now tm) (app_fails now tm)"
proof (rule tripleI)
  fix m m' r
  assume pre: "binv now tm m \<and> frame_ok m f \<and> (\<forall>kind. KIND_BY_TYPE (af_typ f) = Some kind \<longrightarrow> unreturned kind m)"
    and run: "deliver item f now m = (m', r)"
  have body: "body_ok m f" using pre by (simp add: frame_ok_def frame_shape_def)
  obtain kind where kind: "KIND_BY_TYPE (af_typ f) = Some kind" using body_ok_types(2) [OF body] by blast
  let ?m = "bump kind (\<lambda>tr. tr\<lparr>tr_delivered := Suc (tr_delivered tr)\<rparr>) m"
  have m: "binv now tm ?m \<and> frame_ok ?m f" using pre delivered_inv kind by simp
  from body consider "af_typ f = APP_HELLO" "is_ok (decode_hello (af_body f))"
    | "af_typ f = TELEMETRY" "is_ok (decode_telemetry (af_body f))"
    | "af_typ f = COMMAND_ACK" | "af_typ f = STOP_REQUEST" | "af_typ f = RTCM_FRAGMENT"
    unfolding body_ok_def by blast
  then show "case r of Inl e \<Rightarrow> app_fails now tm e m' | Inr _ \<Rightarrow> binv now tm m'"
  proof cases
    case 1
    then show ?thesis using run kind m by (auto simp: deliver_def is_ok_iff change_def)
  next
    case 2
    then show ?thesis using run kind m
      by (auto simp: deliver_def is_ok_iff change_def clock_inv_def)
  next
    case 3
    then show ?thesis using run kind m
      by (intro tripleD [OF deliver_ack_triple, where s = ?m]) (simp_all add: deliver_def)
  next
    case 4
    then show ?thesis using run kind m
      by (intro tripleD [OF deliver_stop_triple, where s = ?m]) (simp_all add: deliver_def)
  next
    case 5
    then show ?thesis using run kind m
      by (intro tripleD [OF deliver_rtcm_triple, where s = ?m]) (simp_all add: deliver_def)
  qed
qed

subsection \<open>One turn of the main loop\<close>

definition bench_inv :: "config \<Rightarrow> bench \<Rightarrow> bool" where
  "bench_inv c b \<longleftrightarrow>
     (\<exists>e t s. config_ok c s \<and> binv (st_clock (snd b)) (c, e, t, s) (fst b))"

lemma airtime_positive: "0 \<le> lora_airtime_s n"
  by (simp add: lora_airtime_s_def Let_def)

lemma transmit_ok:
  assumes "frame_ok m f"
  obtains t' where "transmit f t = (t', Inr (f, - 55, 85 / 10))" and "st_clock t + 1 / 1000 \<le> st_clock t'"
proof -
  obtain wire where "app_encode f = Inr wire" "app_decode wire = Inr f"
    using shape_encode(1) [of m f] assms by (auto simp: frame_ok_def)
  then show ?thesis
    using that airtime_positive [of "length wire"] by (simp add: transmit_def Let_def)
qed

lemma clock_inv_later: "clock_inv now m \<Longrightarrow> now \<le> now' \<Longrightarrow> clock_inv now' m"
  by (auto simp: clock_inv_def split: option.splits)

lemma idle_clock: "st_clock (idle_until target t) = max (st_clock t) target"
  by (simp add: idle_until_def)

lemma clock_inv_scheduler [simp]: "clock_inv now (m\<lparr>mr_scheduler := sched\<rparr>) = clock_inv now m"
  by (simp add: clock_inv_def)

lemma pop_inv_mixed:
  assumes "mixed_inv m" and "pop now (mr_scheduler m) = (sched, r)"
  obtains item_option where "r = Inr item_option" and "mixed_inv (m\<lparr>mr_scheduler := sched\<rparr>)"
    and "\<And>item. item_option = Some item \<Longrightarrow> frame_ok m (wi_frame item) \<and>
      (\<forall>kind. queued kind sched + (if of_kind kind item then 1 else 0) \<le> queued kind (mr_scheduler m))"
proof -
  have q: "queue_inv m" using assms(1) by (simp add: mixed_inv_def)
  obtain item_option where r: "r = Inr item_option"
    using pop_counts(3) [OF queue_known [OF q], of now] assms(2) by (auto simp: is_ok_iff)
  have sub: "mset (case item_option of Some item \<Rightarrow> [item] | None \<Rightarrow> []) + mset (sh_items sched) \<subseteq>#
      mset (sh_items (mr_scheduler m))"
    using pop_subset [of now "mr_scheduler m"] assms(2) r by (auto split: option.splits)
  then have part: "mset (sh_items sched) \<subseteq># mset (sh_items (mr_scheduler m))"
    by (cases item_option) (auto dest: mset_subset_eq_insertD subset_mset.less_imp_le)
  have fewer: "queued kind sched \<le> queued kind (mr_scheduler m)" for kind
    using size_filter_mset_mono [OF part, of "of_kind kind"] by (simp add: queued_def)
  have "queue_inv (m\<lparr>mr_scheduler := sched\<rparr>)"
    using q pop_inv [of "mr_scheduler m" now] pop_limit [of now "mr_scheduler m"] assms(2)
      set_mset_mono [OF part]
    by (auto simp: queue_inv_def frame_ok_def frame_shape_def body_ok_def)
  moreover have "traffic_counts k (m\<lparr>mr_scheduler := sched\<rparr>)" for k
    using assms(1) fewer [of k]
    by (auto simp: mixed_inv_def traffic_counts_def counts_ok_def dest: spec [of _ k] split: option.splits)
  ultimately have "mixed_inv (m\<lparr>mr_scheduler := sched\<rparr>)"
    using assms(1) by (simp add: mixed_inv_def stops_inv_def applied_within_def rest_inv_def)
  moreover have "frame_ok m (wi_frame item) \<and>
      (\<forall>kind. queued kind sched + (if of_kind kind item then 1 else 0) \<le> queued kind (mr_scheduler m))"
    if "item_option = Some item" for item
  proof -
    have "item \<in># mset (sh_items (mr_scheduler m))"
      using sub that by (simp add: insert_subset_eq_iff)
    moreover have "queued kind sched + (if of_kind kind item then 1 else 0) \<le> queued kind (mr_scheduler m)" for kind
      using size_filter_mset_mono [OF sub, of "of_kind kind"] that by (auto simp: queued_def split: if_splits)
    ultimately show ?thesis using q by (simp add: queue_inv_def)
  qed
  ultimately show ?thesis using that r by blast
qed

lemma sent_inv:
  assumes inv: "mixed_inv m" and sched: "mixed_inv (m\<lparr>mr_scheduler := sched\<rparr>)"
    and q: "\<forall>k. queued k sched + (if of_kind k item then 1 else 0) \<le> queued k (mr_scheduler m)"
    and kind: "KIND_BY_TYPE (wi_typ item) = Some kind"
  shows "mixed_inv (bump kind (\<lambda>tr. tr\<lparr>tr_sent := Suc (tr_sent tr)\<rparr>) (m\<lparr>mr_scheduler := sched\<rparr>))" (is "mixed_inv ?m")
    and "unreturned kind (bump kind (\<lambda>tr. tr\<lparr>tr_sent := Suc (tr_sent tr)\<rparr>) (m\<lparr>mr_scheduler := sched\<rparr>))"
proof -
  have "of_kind kind item" using kind by (simp add: of_kind_def)
  then have less: "Suc (queued kind sched) \<le> queued kind (mr_scheduler m)" using q by (auto dest: spec [of _ kind])
  have old: "traffic_counts k m" "traffic_counts k (m\<lparr>mr_scheduler := sched\<rparr>)" for k
    using inv sched by (simp_all add: mixed_inv_def)
  have "traffic_counts k ?m" for k
    using old [of k] less
    by (auto simp: traffic_counts_def counts_ok_def bump_def split: option.splits)
  then show "mixed_inv ?m"
    using sched by (simp add: mixed_inv_def queue_inv_def frame_ok_def frame_shape_def body_ok_def
        stops_inv_def applied_within_def rest_inv_def bump_def)
  show "unreturned kind ?m"
    using old(1) [of kind] by (auto simp: traffic_counts_def counts_ok_def unreturned_def bump_def split: option.splits)
qed

lemma status_due_inv: "bench_inv c b \<Longrightarrow> bench_inv c (status_due b) \<and> st_clock (snd (status_due b)) = st_clock (snd b)"
  by (cases b) (auto simp: bench_inv_def status_due_def clock_inv_def split: option.splits)

lemma status_due_timing: "timing (fst (status_due b)) = timing (fst b)"
  by (cases b) (auto simp: status_due_def split: option.splits)

lemma record_radio_keeps [simp]:
  "mixed_inv (record_radio r s m) = mixed_inv m" "clock_inv now (record_radio r s m) = clock_inv now m"
  "timing (record_radio r s m) = timing m" "frame_ok (record_radio r s m) f = frame_ok m f"
  "unreturned kind (record_radio r s m) = unreturned kind m"
  by (simp_all add: record_radio_def clock_inv_def frame_ok_def frame_shape_def body_ok_def unreturned_def)

lemma send_item_inv:
  assumes inv: "mixed_inv m0" and sched: "mixed_inv (m0\<lparr>mr_scheduler := sched\<rparr>)"
    and q: "\<forall>k. queued k sched + (if of_kind k item then 1 else 0) \<le> queued k (mr_scheduler m0)"
    and ok: "frame_ok m0 (wi_frame item)" and pre: "binv (st_clock t) (c, e, tt, s) m0" and cfg: "config_ok c s"
  obtains b where "send_item item (m0\<lparr>mr_scheduler := sched\<rparr>, t) = Continue b" and "bench_inv c b"
    and "st_clock t + 1 / 1000 \<le> st_clock (snd b)"
proof -
  let ?f = "(wi_frame item)\<lparr>af_source_age_ms := source_age (st_clock t) item\<rparr>"
  let ?tm = "(c, e, tt, s)"
  obtain kind where kind: "KIND_BY_TYPE (wi_typ item) = Some kind"
    using ok body_ok_types(2) by (auto simp: frame_ok_def frame_shape_def)
  let ?m1 = "bump kind (\<lambda>tr. tr\<lparr>tr_sent := Suc (tr_sent tr)\<rparr>) (m0\<lparr>mr_scheduler := sched\<rparr>)"
  note m1 = sent_inv [OF inv sched q kind]
  have f: "frame_ok ?m1 ?f"
    using frame_ok_age [OF ok, of "source_age (st_clock t) item"] source_age_bounds
    by (simp add: frame_ok_def frame_shape_def body_ok_def bump_def)
  then obtain t' where tr: "transmit ?f t = (t', Inr (?f, - 55, 85 / 10))"
    and clock: "st_clock t + 1 / 1000 \<le> st_clock t'" by (rule transmit_ok)
  let ?m2 = "record_radio (- 55) (85 / 10) ?m1"
  have "clock_inv (st_clock t') m0" using pre clock clock_inv_later by force
  then have m2: "binv (st_clock t') ?tm ?m2 \<and> frame_ok ?m2 ?f \<and>
      (\<forall>kind. KIND_BY_TYPE (af_typ ?f) = Some kind \<longrightarrow> unreturned kind ?m2)"
    using m1 f pre kind by simp
  obtain m3 r where d: "deliver item ?f (st_clock t') ?m2 = (m3, r)" by fastforce
  have post: "case r of Inl x \<Rightarrow> app_fails (st_clock t') ?tm x m3 | Inr _ \<Rightarrow> binv (st_clock t') ?tm m3"
    by (rule tripleD [OF deliver_triple m2 d])
  have ex: "exchange item ?f (?m1, t) = ((m3, t'), r)" using d tr by (simp add: exchange_def)
  let ?m4 = "case r of Inl x \<Rightarrow> add_error (Caught x) m3 | Inr _ \<Rightarrow> m3"
  have "binv (st_clock t') ?tm ?m4"
    using post by (auto simp: app_fails_def add_error_def clock_inv_def split: sum.splits)
  then have "bench_inv c (?m4, t')" using cfg by (auto simp: bench_inv_def)
  moreover have "send_item item (m0\<lparr>mr_scheduler := sched\<rparr>, t) = Continue (status_due (?m4, t'))"
    using post ex kind by (auto simp: send_item_def Let_def app_fails_def split: sum.splits)
  ultimately show ?thesis
    using that status_due_inv [of c "(?m4, t')"] clock by auto
qed

subsection \<open>The main loop ends\<close>

fun remaining :: "config \<Rightarrow> time \<Rightarrow> time \<Rightarrow> time option \<Rightarrow> nat" where
  "remaining c e t s =
     ticks (duration_of c) (epoch_period c) e + ticks (duration_of c) (telemetry_every c) t +
     (case s of None \<Rightarrow> 0 | Some a \<Rightarrow> ticks (duration_of c) (stop_interval_of c) a)"

fun quiet :: "time \<Rightarrow> config \<Rightarrow> time \<Rightarrow> time \<Rightarrow> time option \<Rightarrow> nat" where
  "quiet now c e t s =
     (if now < duration_of c \<and> \<not> is_due now (duration_of c) e \<and> \<not> is_due now (duration_of c) t \<and>
         (case s of None \<Rightarrow> True | Some a \<Rightarrow> \<not> is_due now (duration_of c) a) then 1 else 0)"

definition turns_left :: "bench \<Rightarrow> nat" where
  "turns_left b =
     (case timing (fst b) of (c, e, t, s) \<Rightarrow> 2 * remaining c e t s + quiet (st_clock (snd b)) c e t s)"

text \<open>Milliseconds to the drain deadline.\<close>

definition time_left :: "config \<Rightarrow> bench \<Rightarrow> nat" where
  "time_left c b = nat (\<lfloor>(duration_of c + 2 - st_clock (snd b)) * 1000\<rfloor> + 1)"

lemma time_left_mono: "st_clock (snd b) \<le> st_clock (snd b') \<Longrightarrow> time_left c b' \<le> time_left c b"
  unfolding time_left_def by (intro nat_mono add_right_mono floor_mono) simp

lemma time_left_less:
  assumes "st_clock (snd b) + 1 / 1000 \<le> st_clock (snd b')" and "st_clock (snd b) \<le> duration_of c + 2"
  shows "time_left c b' < time_left c b"
proof -
  let ?x = "(duration_of c + 2 - st_clock (snd b)) * 1000"
  have "(duration_of c + 2 - st_clock (snd b')) * 1000 \<le> ?x - 1" using assms(1) by simp
  then have "\<lfloor>(duration_of c + 2 - st_clock (snd b')) * 1000\<rfloor> \<le> \<lfloor>?x - 1\<rfloor>" by (rule floor_mono)
  also have "\<dots> = \<lfloor>?x\<rfloor> - 1" by (rule floor_diff_one)
  finally have "\<lfloor>(duration_of c + 2 - st_clock (snd b')) * 1000\<rfloor> + 1 \<le> \<lfloor>?x\<rfloor>" by simp
  moreover have "0 \<le> \<lfloor>?x\<rfloor>" using assms(2) by simp
  ultimately show ?thesis unfolding time_left_def by linarith
qed

lemma moved_ticks: "moved d p a b \<Longrightarrow> ticks d p b \<le> ticks d p a"
  by (auto simp: moved_def)

lemma moved_due: "moved d p a b \<Longrightarrow> is_due now d a \<Longrightarrow> \<not> is_due now d b \<Longrightarrow> ticks d p b < ticks d p a"
  by (auto simp: moved_def)

lemma settled_ticks:
  assumes "moved (duration_of c) (epoch_period c) e e'" "\<not> is_due now (duration_of c) e'"
    and "moved (duration_of c) (telemetry_every c) t t'" "\<not> is_due now (duration_of c) t'"
    and "stop_settled now c s s'" and "now < duration_of c"
  shows "quiet now c e' t' s' = 1"
    and "2 * remaining c e' t' s' + 1 \<le> 2 * remaining c e t s + quiet now c e t s"
proof -
  have s: "(s = None \<and> s' = None) \<or> (\<exists>a b. s = Some a \<and> s' = Some b \<and> \<not> is_due now (duration_of c) b \<and>
      moved (duration_of c) (stop_interval_of c) a b)"
    using assms(5) by (cases s) auto
  then show "quiet now c e' t' s' = 1" using assms by auto
  from s show "2 * remaining c e' t' s' + 1 \<le> 2 * remaining c e t s + quiet now c e t s"
    using assms(6) moved_ticks [OF assms(1)] moved_ticks [OF assms(3)]
      moved_due [OF assms(1) _ assms(2)] moved_due [OF assms(3) _ assms(4)]
    by (elim disjE conjE exE) (auto dest: moved_ticks moved_due split: option.splits)
qed

lemma fold_min: "fold min ts (t :: real) \<in> insert t (set ts)"
  by (induction ts arbitrary: t) (auto simp: min_def)

text \<open>Idling until the next due time makes something due, or reaches the end.\<close>

lemma idle_not_quiet:
  assumes "timing m = (c, e, t, s)" and "next_due m \<le> now"
  shows "quiet now c e t s = 0"
proof -
  let ?all = "[e, t] @ (case s of None \<Rightarrow> [] | Some a \<Rightarrow> [a])"
  let ?due = "filter (\<lambda>x. x < duration_of c) ?all"
  have nd: "next_due m = (case ?due of [] \<Rightarrow> duration_of c | x # xs \<Rightarrow> fold min xs x)"
    unfolding next_due_def Let_def timing_fields(1-4) [OF assms(1)] ..
  show ?thesis
  proof (cases ?due)
    case Nil
    then show ?thesis using nd assms(2) by simp
  next
    case (Cons x xs)
    then have "next_due m \<in> set ?due" using nd fold_min [of xs x] by simp
    then have "next_due m \<in> set ?all" "next_due m < duration_of c"
      by (simp_all only: set_filter mem_Collect_eq)
    then show ?thesis using assms(2) by (auto simp: is_due_def split: option.splits)
  qed
qed

lemma serve_ok:
  assumes inv: "config_ok c s" "binv (st_clock t) (c, e, tt, s) m"
  shows "case serve (m, t) of
      Raised x \<Rightarrow> False
    | Finished b \<Rightarrow> bench_inv c b
    | Continue b \<Rightarrow> bench_inv c b \<and> st_clock t \<le> st_clock (snd b) \<and>
        (time_left c b < time_left c (m, t) \<or>
         st_clock t < duration_of c \<and> turns_left b = 2 * remaining c e tt s)"
proof -
  let ?now = "st_clock t"
  obtain sched r where p: "pop ?now (mr_scheduler m) = (sched, r)" by fastforce
  obtain item_option where r: "r = Inr item_option" and sched: "mixed_inv (m\<lparr>mr_scheduler := sched\<rparr>)"
    and item: "\<And>item. item_option = Some item \<Longrightarrow> frame_ok m (wi_frame item) \<and>
      (\<forall>kind. queued kind sched + (if of_kind kind item then 1 else 0) \<le> queued kind (mr_scheduler m))"
    using pop_inv_mixed [OF _ p] inv(2) by blast
  let ?m = "m\<lparr>mr_scheduler := sched\<rparr>"
  have D: "mr_duration_s m = duration_of c" using timing_fields(1) inv(2) by blast
  have m: "binv ?now (c, e, tt, s) ?m" using sched inv(2) by simp
  show ?thesis
  proof (cases item_option)
    case None
    show ?thesis
    proof (cases "?now \<ge> duration_of c")
      case True
      then show ?thesis using p r None m inv(1) D
        by (auto simp: serve_def bench_inv_def)
    next
      case False
      let ?b = "(?m, idle_until (next_due ?m) t)"
      have step: "serve (m, t) = Continue ?b"
        using p r None False D by (simp add: serve_def Let_def)
      have later: "?now \<le> st_clock (snd ?b)" by (simp add: idle_clock)
      have "quiet (st_clock (snd ?b)) c e tt s = 0"
        by (rule idle_not_quiet [of ?m]) (use m in \<open>simp_all add: idle_clock\<close>)
      then have "turns_left ?b = 2 * remaining c e tt s" using m by (simp add: turns_left_def)
      moreover have "bench_inv c ?b"
        using m inv(1) clock_inv_later [OF _ later, of ?m] by (auto simp: bench_inv_def)
      ultimately show ?thesis using step later False by simp
    qed
  next
    case (Some it)
    show ?thesis
    proof (cases "?now > duration_of c + 2")
      case True
      have "binv ?now (c, e, tt, s) (add_error DrainDeadline ?m)"
        using m by (simp add: add_error_def clock_inv_def)
      then show ?thesis using p r Some True D inv(1)
        by (auto simp: serve_def Let_def bench_inv_def)
    next
      case False
      have q: "\<forall>k. queued k sched + (if of_kind k it then 1 else 0) \<le> queued k (mr_scheduler m)"
        and ok: "frame_ok m (wi_frame it)" using item [OF Some] by blast+
      obtain b where "send_item it (?m, t) = Continue b" "bench_inv c b" "?now + 1 / 1000 \<le> st_clock (snd b)"
        using send_item_inv [OF _ sched q ok inv(2) inv(1)] inv(2) by blast
      then show ?thesis
        using p r Some False D time_left_less [of "(m, t)" b c] by (simp add: serve_def Let_def)
    qed
  qed
qed

lemma loop_step_ok:
  assumes "bench_inv c b"
  shows "\<exists>out. loop_step b = Some out \<and>
    (case out of
       Raised x \<Rightarrow> x = id_error
     | Finished b' \<Rightarrow> bench_inv c b'
     | Continue b' \<Rightarrow> bench_inv c b' \<and> (b', b) \<in> measures [time_left c, turns_left])"
proof -
  obtain m t where b: "b = (m, t)" by fastforce
  obtain e tt s where cfg: "config_ok c s" and inv: "binv (st_clock t) (c, e, tt, s) m"
    using assms by (auto simp: bench_inv_def b)
  let ?now = "st_clock t"
  have D: "mr_duration_s m = duration_of c" using timing_fields(1) inv by blast
  have turns: "turns_left b = 2 * remaining c e tt s + quiet ?now c e tt s"
    using inv by (simp add: turns_left_def b)
  show ?thesis
  proof (cases "?now < duration_of c")
    case True
    obtain m' r where sch: "schedule_due ?now m = Some (m', r)"
      and res: "case r of Inl x \<Rightarrow> x = id_error
       | Inr _ \<Rightarrow> \<exists>e' t' s'. binv ?now (c, e', t', s') m' \<and> \<not> is_due ?now (duration_of c) e' \<and>
           \<not> is_due ?now (duration_of c) t' \<and> moved (duration_of c) (epoch_period c) e e' \<and>
           moved (duration_of c) (telemetry_every c) tt t' \<and> stop_settled ?now c s s'"
      using schedule_total [OF cfg inv] by blast
    show ?thesis
    proof (cases r)
      case (Inl x)
      then show ?thesis using sch res True D by (simp add: loop_step_def b)
    next
      case (Inr u)
      then obtain e' t' s' where m': "binv ?now (c, e', t', s') m'" and d: "\<not> is_due ?now (duration_of c) e'"
          "\<not> is_due ?now (duration_of c) t'" "moved (duration_of c) (epoch_period c) e e'"
          "moved (duration_of c) (telemetry_every c) tt t'" "stop_settled ?now c s s'"
        using res by auto
      have "config_ok c s'" using cfg d(5) by (cases c; cases s) auto
      note sv = serve_ok [OF this m']
      have step: "loop_step b = Some (serve (m', t))" using sch Inr True D by (simp add: loop_step_def b)
      have less: "2 * remaining c e' t' s' < turns_left b"
        using settled_ticks(2) [OF d(3,1,4,2,5) True] turns by linarith
      have tl: "time_left c (m', t) = time_left c b" by (simp add: time_left_def b)
      show ?thesis
      proof (cases "serve (m', t)")
        case (Continue b')
        then have "bench_inv c b'" "?now \<le> st_clock (snd b')"
          and or: "time_left c b' < time_left c b \<or> turns_left b' < turns_left b"
          using sv less tl by auto
        moreover have "time_left c b' \<le> time_left c b" using \<open>?now \<le> st_clock (snd b')\<close> by (intro time_left_mono) (simp add: b)
        ultimately show ?thesis using step Continue by (auto simp: le_less)
      qed (use sv step in auto)
    qed
  next
    case False
    note sv = serve_ok [OF cfg inv]
    show ?thesis
    proof (cases "sh_items (mr_scheduler m) = []")
      case True
      then show ?thesis using False D assms by (simp add: loop_step_def b)
    next
      case ne: False
      have step: "loop_step b = Some (serve (m, t))" using False ne D by (simp add: loop_step_def b)
      show ?thesis
      proof (cases "serve (m, t)")
        case (Continue b')
        then show ?thesis using step sv False by (auto simp: b)
      qed (use sv step in auto)
    qed
  qed
qed

lemma run_loop_total:
  "bench_inv c b \<Longrightarrow> \<exists>r. run_loop b = Some r \<and> (case r of Inl x \<Rightarrow> x = id_error | Inr b' \<Rightarrow> bench_inv c b')"
proof (induction b rule: wf_induct_rule [OF wf_measures [of "[time_left c, turns_left]"]])
  case (1 b)
  obtain out where "loop_step b = Some out" and "case out of
       Raised x \<Rightarrow> x = id_error
     | Finished b' \<Rightarrow> bench_inv c b'
     | Continue b' \<Rightarrow> bench_inv c b' \<and> (b', b) \<in> measures [time_left c, turns_left]"
    using loop_step_ok [OF 1(2)] by blast
  then show ?case
    using 1(1) by (subst run_loop.simps) (auto split: outcome.splits)
qed

subsection \<open>Percentiles\<close>

lemma filter_sort_length: "length (filter P (sort xs)) = length (filter P (xs :: real list))"
  by (metis filter_sort length_sort)

lemma sorted_rank:
  assumes "sorted xs" and "i < length xs"
  shows "Suc i \<le> length (filter (\<lambda>v. v \<le> xs ! i) xs)" and "length (filter (\<lambda>v. v < xs ! i) xs) \<le> i"
proof -
  have split: "length (filter P xs) = length (filter P (take (Suc i) xs)) + length (filter P (drop (Suc i) xs))"
    "length (filter P xs) = length (filter P (take i xs)) + length (filter P (drop i xs))" for P
    by (metis append_take_drop_id filter_append length_append)+
  have "v \<le> xs ! i" if "v \<in> set (take (Suc i) xs)" for v
    using that assms by (auto simp: in_set_conv_nth sorted_nth_mono)
  then have "filter (\<lambda>v. v \<le> xs ! i) (take (Suc i) xs) = take (Suc i) xs" by simp
  then show "Suc i \<le> length (filter (\<lambda>v. v \<le> xs ! i) xs)"
    using split(1) [of "\<lambda>v. v \<le> xs ! i"] assms(2) by simp
  have "\<not> v < xs ! i" if "v \<in> set (drop i xs)" for v
    using that assms by (auto simp: in_set_conv_nth not_less sorted_nth_mono)
  then have "filter (\<lambda>v. v < xs ! i) (drop i xs) = []" by (simp add: filter_empty_conv)
  then have "length (filter (\<lambda>v. v < xs ! i) xs) = length (filter (\<lambda>v. v < xs ! i) (take i xs))"
    using split(2) [of "\<lambda>v. v < xs ! i"] by simp
  also have "\<dots> \<le> length (take i xs)" by (rule length_filter_le)
  finally show "length (filter (\<lambda>v. v < xs ! i) xs) \<le> i" by simp
qed

lemma percentile_rank:
  assumes "values' \<noteq> []" and "0 < q" and "q \<le> 1"
  shows "\<exists>x. percentile values' q = Inr (Some x) \<and> x \<in> set values' \<and>
    q * real (length values') \<le> real (length (filter (\<lambda>v. v \<le> x) values')) \<and>
    real (length (filter (\<lambda>v. v < x) values')) < q * real (length values')"
proof -
  let ?n = "length values'" let ?xs = "sort values'"
  define k where "k = nat (\<lceil>real ?n * q\<rceil> - 1)"
  have n: "0 < ?n" using assms(1) by simp
  then have pos: "0 < real ?n * q" using assms(2) by simp
  have "real ?n * q \<le> real ?n" using assms by (simp add: mult_left_le)
  then have le: "\<lceil>real ?n * q\<rceil> \<le> int ?n" by linarith
  have ge: "1 \<le> \<lceil>real ?n * q\<rceil>" using pos by linarith
  have k: "int k = \<lceil>real ?n * q\<rceil> - 1" using ge by (simp add: k_def)
  have kn: "k < ?n" using k le by linarith
  let ?x = "?xs ! k"
  have "min (int (length ?xs) - 1) (\<lceil>real (length ?xs) * q\<rceil> - 1) = int k" using k le by simp
  then have "percentile values' q = Inr (Some ?x)"
    unfolding percentile_def Let_def using assms(1) kn by (simp add: py_index_def)
  moreover have "?x \<in> set values'" using nth_mem [of k ?xs] kn by simp
  moreover note r = sorted_rank [of ?xs k]
  have "real ?n * q \<le> real (Suc k)" using k le_of_int_ceiling [of "real ?n * q"] by linarith
  then have "q * real ?n \<le> real (length (filter (\<lambda>v. v \<le> ?x) values'))"
    using r(1) kn filter_sort_length [of "\<lambda>v. v \<le> ?x" values'] by (simp add: mult.commute)
  moreover have "real k < real ?n * q" using k ceiling_correct [of "real ?n * q"] by linarith
  then have "real (length (filter (\<lambda>v. v < ?x) values')) < q * real ?n"
    using r(2) kn filter_sort_length [of "\<lambda>v. v < ?x" values'] by (simp add: mult.commute)
  ultimately show ?thesis by blast
qed

lemma report_of_total:
  "\<exists>rep. report_of m airtime_s times_ms errors = Inr rep \<and> rep_pass rep = (passed m \<and> errors = 0)"
proof -
  have "\<exists>y. percentile xs (95 / 100) = Inr y" for xs
    using percentile_rank [of xs "95 / 100"] by (cases "xs = []") (auto simp: percentile_def)
  then obtain f where "percentile xs (95 / 100) = Inr (f xs)" for xs by metis
  then have f: "percentile xs (19 / 20) = Inr (f xs)" for xs by simp
  show ?thesis by (simp add: report_of_def f)
qed

lemma report_total: "\<exists>rep. report b = Inr rep \<and> rep_pass rep = passed (fst b)"
  using report_of_total [of "fst b" "st_estimated_airtime_s (snd b)" "st_transaction_times_ms (snd b)" 0]
  by (cases b) (simp add: report_def)

subsection \<open>Whole runs\<close>

definition fair_hz :: "string \<Rightarrow> real \<Rightarrow> bool" where
  "fair_hz profile hz \<longleftrightarrow> profile \<noteq> ''nominal'' \<or> 0 < hz"

lemma new_mixed_inv:
  assumes "new_mixed profile duration status stop hz base robot = Inr m" and "session_ok base"
    and "fair_hz profile hz"
  shows "\<exists>c. bench_inv c (m, new_transport) \<and> duration_of c = duration"
proof -
  let ?hz = "if profile = ''nominal'' then hz else 1 / 10"
  let ?s = "if stop > 0 then Some stop else None"
  have c: "config_ok (profile, duration, stop, ?hz) ?s" using assms(3) by (simp add: fair_hz_def)
  obtain cache where cache: "new_stop_cache robot 2000 = Inr cache"
    using assms(1) by (auto simp: new_mixed_def bindR_Inr_iff)
  then have robot: "session_ok robot" "sc_local_session cache = robot" "sc_apply_count cache = 0"
    by (auto simp: new_stop_cache_def session_ok_def split: if_splits)
  have "timing m = ((profile, duration, stop, ?hz), 0, 0, ?s)"
    using assms(1) cache by (auto simp: new_mixed_def timing_def)
  moreover have "queue_inv m"
    using assms(1) cache sh_inv_new by (auto simp: new_mixed_def queue_inv_def) (simp_all add: new_scheduler_def)
  moreover have "traffic_counts k m" for k
    using assms(1) cache
    by (auto simp: new_mixed_def traffic_counts_def counts_ok_def queued_def new_scheduler_def empty_traffic_def
        kinds_def split: if_splits)
  moreover have "stops_inv m" "rest_inv m" "clock_inv 0 m"
    using assms(1,2) cache robot new_stop_cache_inv [OF cache] new_reassembler_inv
    by (auto simp: new_mixed_def stops_inv_def applied_within_def rest_inv_def clock_inv_def)
  ultimately have "bench_inv (profile, duration, stop, ?hz) (m, new_transport)"
    using c unfolding bench_inv_def mixed_inv_def by (simp add: new_transport_def)
  then show ?thesis by (auto simp: duration_of_def)
qed

lemma run_bench_total:
  assumes "bench_inv c b"
  shows "\<exists>r. run_bench b = Some r \<and> (case r of Inl x \<Rightarrow> x = id_error | Inr b' \<Rightarrow> bench_inv c b')"
proof -
  obtain m t where b: "b = (m, t)" by fastforce
  obtain e tt s where cfg: "config_ok c s" and inv: "binv (st_clock t) (c, e, tt, s) m"
    using assms by (auto simp: bench_inv_def b)
  obtain m1 r1 where h: "offer_hello (st_clock t) m = (m1, r1)" by fastforce
  have post: "case r1 of Inl x \<Rightarrow> id_fails (st_clock t) (c, e, tt, s) x m1 | Inr _ \<Rightarrow> binv (st_clock t) (c, e, tt, s) m1"
    by (rule tripleD [OF offer_hello_triple inv h])
  show ?thesis
  proof (cases r1)
    case (Inl x)
    then show ?thesis using post h by (simp add: run_bench_def b)
  next
    case (Inr u)
    then have "bench_inv c (m1, t)" using post cfg by (auto simp: bench_inv_def)
    then obtain r where r: "run_loop (m1, t) = Some r" "case r of Inl x \<Rightarrow> x = id_error | Inr b' \<Rightarrow> bench_inv c b'"
      using run_loop_total by blast
    have last': "bench_inv c (m'\<lparr>mr_reassembler := fst (ra_expire now (mr_reassembler m'))\<rparr>, t')"
      if "bench_inv c (m', t')" for m' t' now
      using that mixed_inv_reassembler [of m'] ra_expire_inv [of "mr_reassembler m'" now]
      by (auto simp: bench_inv_def clock_inv_def mixed_inv_def rest_inv_def)
    show ?thesis
      using h Inr r last' by (cases r) (auto simp: run_bench_def b)
  qed
qed

subsection \<open>Properties\<close>

definition sample_bench :: mixed where
  "sample_bench = projr (new_mixed ''nominal'' 10 0 3 1 7 9)"

lemma sample_bench_new:
  "new_mixed ''nominal'' 10 0 3 1 7 9 = Inr sample_bench" "session_ok 7" "fair_hz ''nominal'' 1"
  by (simp_all add: sample_bench_def new_mixed_def new_stop_cache_def session_ok_def fair_hz_def)

text \<open>
  Property C25. The bench terminates: for every profile, duration, intervals and (positive) epoch
  rate the simulated run, its nested scheduling loops included, comes to an end, with a report or
  with the one exception that can escape it, a message ID beyond 32 bits.
\<close>

theorem mixed_run_terminates:
  assumes "new_mixed profile duration status stop hz base robot = Inr m" and "session_ok base"
    and "fair_hz profile hz"
  shows "\<exists>r. run_mixed m = Some r \<and>
    (case r of Inl x \<Rightarrow> x = ApplicationError ''message id out of range'' | Inr rep \<Rightarrow> rep_duration_s rep = duration)"
proof -
  obtain c where c: "bench_inv c (m, new_transport)" "duration_of c = duration" using new_mixed_inv [OF assms] by blast
  obtain r where r: "run_bench (m, new_transport) = Some r" "case r of Inl x \<Rightarrow> x = id_error | Inr b' \<Rightarrow> bench_inv c b'"
    using run_bench_total [OF c(1)] by blast
  show ?thesis
  proof (cases r)
    case (Inl x)
    then show ?thesis using r by (simp add: run_mixed_def id_error_def)
  next
    case (Inr b)
    then obtain rep where "report b = Inr rep" using report_total by blast
    moreover from this have "rep_duration_s rep = mr_duration_s (fst b)"
      by (auto simp: report_def report_of_def bindR_Inr_iff split: prod.splits)
    moreover have "mr_duration_s (fst b) = duration"
    proof -
      obtain e tt s where "timing (fst b) = (c, e, tt, s)" using Inr r(2) by (auto simp: bench_inv_def)
      then show ?thesis using timing_fields(1) c(2) by blast
    qed
    ultimately show ?thesis using r Inr by (simp add: run_mixed_def)
  qed
qed

theorem mixed_run_terminates_witness:
  "\<exists>r. run_mixed sample_bench = Some r \<and>
    (case r of Inl x \<Rightarrow> x = ApplicationError ''message id out of range'' | Inr rep \<Rightarrow> rep_duration_s rep = 10)"
  by (rule mixed_run_terminates [OF sample_bench_new])

lemma run_bench_ends:
  assumes "new_mixed profile duration status stop hz base robot = Inr m0" and "session_ok base"
    and "fair_hz profile hz"
  obtains x where "run_bench (m0, new_transport) = Some (Inl x)" and "x = id_error"
    | m t where "run_bench (m0, new_transport) = Some (Inr (m, t))" and "mixed_inv m"
proof -
  obtain c where "bench_inv c (m0, new_transport)" using new_mixed_inv [OF assms] by blast
  then obtain r where r: "run_bench (m0, new_transport) = Some r"
      "case r of Inl x \<Rightarrow> x = id_error | Inr b' \<Rightarrow> bench_inv c b'"
    using run_bench_total by blast
  show thesis
  proof (cases r)
    case (Inl x)
    then show thesis using r that(1) by auto
  next
    case (Inr b)
    then show thesis using r that(2) by (cases b) (auto simp: bench_inv_def)
  qed
qed

text \<open>
  Property C36. What a run leaves behind is well typed and balanced: every frame still queued
  encodes, decodes to itself and has a known type, so no lookup of a priority or a kind can fail;
  and of each kind of traffic no more was delivered than sent, and no more sent, waiting or refused
  than offered.
\<close>

theorem mixed_run_well_formed:
  assumes "new_mixed profile duration status stop hz base robot = Inr m0" and "session_ok base"
    and "fair_hz profile hz"
  shows "case run_bench (m0, new_transport) of
      None \<Rightarrow> False
    | Some (Inl x) \<Rightarrow> x = ApplicationError ''message id out of range''
    | Some (Inr (m, t)) \<Rightarrow>
        (\<forall>item\<in>set (sh_items (mr_scheduler m)). PRIORITY (wi_typ item) \<noteq> None \<and>
          (\<exists>raw. app_encode (wi_frame item) = Inr raw \<and> app_decode raw = Inr (wi_frame item))) \<and>
        (\<forall>kind\<in>kinds. \<exists>tr. mr_traffic m kind = Some tr \<and> tr_delivered tr \<le> tr_sent tr \<and>
          tr_sent tr + queued kind (mr_scheduler m) + tr_dropped tr \<le> tr_offered tr)"
proof (cases rule: run_bench_ends [OF assms])
  case (1 x)
  then show ?thesis by (simp add: id_error_def)
next
  case (2 m t)
  have "\<exists>raw. app_encode (wi_frame item) = Inr raw \<and> app_decode raw = Inr (wi_frame item)"
    and "PRIORITY (wi_typ item) \<noteq> None" if "item \<in> set (sh_items (mr_scheduler m))" for item
  proof -
    have ok: "frame_ok m (wi_frame item)" using 2(2) that by (simp add: mixed_inv_def queue_inv_def)
    then have "frame_shape m (wi_frame item)" by (simp add: frame_ok_def)
    then show "\<exists>raw. app_encode (wi_frame item) = Inr raw \<and> app_decode raw = Inr (wi_frame item)"
      using shape_encode(1) ok by blast
    show "PRIORITY (wi_typ item) \<noteq> None"
      using ok body_ok_types(1) by (simp only: frame_ok_def frame_shape_def) blast
  qed
  moreover have "\<exists>tr. mr_traffic m kind = Some tr \<and> tr_delivered tr \<le> tr_sent tr \<and>
      tr_sent tr + queued kind (mr_scheduler m) + tr_dropped tr \<le> tr_offered tr" if "kind \<in> kinds" for kind
  proof -
    have "traffic_counts kind m" using 2(2) by (simp add: mixed_inv_def)
    then show ?thesis using that by (simp add: traffic_counts_def counts_ok_def split: option.splits)
  qed
  ultimately show ?thesis using 2(1) by simp
qed

theorem mixed_run_well_formed_witness:
  "run_bench (sample_bench, new_transport) \<noteq> None"
  using mixed_run_well_formed [OF sample_bench_new] by (auto split: option.splits)

text \<open>The accounts of the STOPs in any state of a run.\<close>

lemma stops_sound:
  assumes "mixed_inv m"
  shows "card (fst ` set (mr_stop_created m)) = mr_stop_unique m"
    and "mr_stop_acks m \<subseteq> fst ` set (mr_stop_created m)"
    and "card (mr_stop_acks m) \<le> mr_stop_unique m"
    and "length (mr_stop_latencies_ms m) = card (mr_stop_acks m)"
    and "sc_apply_count (mr_stop_cache m) \<le> mr_stop_unique m"
    and "passed m \<Longrightarrow> mr_stop_acks m = fst ` set (mr_stop_created m)"
proof -
  let ?keys = "fst ` set (mr_stop_created m)"
  have st: "stops_inv m" using assms by (simp add: mixed_inv_def)
  then show card: "card ?keys = mr_stop_unique m"
    using distinct_keys_card by (metis stops_inv_def)
  show sub: "mr_stop_acks m \<subseteq> ?keys" using st unfolding stops_inv_def by blast
  show "length (mr_stop_latencies_ms m) = card (mr_stop_acks m)" using st unfolding stops_inv_def by blast
  have "card (mr_stop_acks m) \<le> card ?keys" using sub by (intro card_mono) auto
  then show "card (mr_stop_acks m) \<le> mr_stop_unique m" using card by simp
  have "card {k \<in> ?keys. snd k \<le> high_water_of (mr_stop_cache m) (mr_base_session m)} \<le> card ?keys"
    by (intro card_mono) auto
  then show "sc_apply_count (mr_stop_cache m) \<le> mr_stop_unique m"
    using st card by (simp add: stops_inv_def applied_within_def)
  show "mr_stop_acks m = ?keys" if "passed m"
  proof (rule card_subset_eq [OF _ sub])
    show "card (mr_stop_acks m) = card ?keys" using that card by (simp add: passed_def)
  qed simp
qed

text \<open>
  Property C26. The verdict on STOPs is sound: every STOP of a run has its own key, only keys of
  STOPs are acknowledged, no more STOPs are applied than were made, there is one latency per
  acknowledged STOP; and a run that passes had no error, acknowledged every STOP and applied every
  one.
\<close>

theorem mixed_stop_verdict:
  assumes "new_mixed profile duration status stop hz base robot = Inr m0" and "session_ok base"
    and "fair_hz profile hz"
  shows "case run_bench (m0, new_transport) of
      Some (Inr (m, t)) \<Rightarrow>
        (let keys = fst ` set (mr_stop_created m)
         in card keys = mr_stop_unique m \<and> mr_stop_acks m \<subseteq> keys \<and>
            length (mr_stop_latencies_ms m) = card (mr_stop_acks m) \<and>
            sc_apply_count (mr_stop_cache m) \<le> card keys \<and>
            (if passed m then mr_errors m = [] \<and> mr_stop_acks m = keys \<and>
               sc_apply_count (mr_stop_cache m) = card keys else True))
    | _ \<Rightarrow> True"
proof (cases rule: run_bench_ends [OF assms])
  case (2 m t)
  then have inv: "mixed_inv m" by simp
  note v = stops_sound [OF inv]
  have "mr_errors m = [] \<and> sc_apply_count (mr_stop_cache m) = mr_stop_unique m" if "passed m"
    using that by (simp add: passed_def)
  then show ?thesis
    unfolding 2(1) option.case sum.case prod.case Let_def if_bool_eq_conj v(1)
    using v(2,4,5,6) by blast
qed simp

theorem mixed_stop_verdict_witness:
  "case run_bench (sample_bench, new_transport) of
      Some (Inr (m, t)) \<Rightarrow> mr_stop_acks m \<subseteq> fst ` set (mr_stop_created m) | _ \<Rightarrow> True"
  using mixed_stop_verdict [OF sample_bench_new] by (auto simp: Let_def split: option.splits sum.splits)

text \<open>
  \<open>percentile\<close> is the nearest-rank percentile: an element of the list with at least the
  given fraction of the values at or below it and less than that fraction below it.
\<close>

theorem percentile_nearest_rank:
  assumes "values' \<noteq> []" and "0 < q" and "q \<le> 1"
  shows "\<exists>x. percentile values' q = Inr (Some x) \<and> x \<in> set values' \<and>
    q * real (length values') \<le> real (length (filter (\<lambda>v. v \<le> x) values')) \<and>
    real (length (filter (\<lambda>v. v < x) values')) < q * real (length values')"
  by (rule percentile_rank [OF assms])

theorem percentile_nearest_rank_witness:
  "\<exists>x. percentile [3, 1, 2] (1 / 2) = Inr (Some x) \<and> x \<in> set [3, 1, 2 :: real]"
  using percentile_nearest_rank [of "[3, 1, 2]" "1 / 2"] by auto

end
