(* ===== verification/Mixed_Faults.thy ===== *)
theory Mixed_Faults
  imports Reassembler
begin

text \<open>
  The bench's fault test (\<open>run_fault_test\<close> of \<open>tools/lora_usb/mixed_bench.py\<close>): fragments out of
  order and duplicated, missing, conflicting, and a frame with a wrong checksum. The test is a
  program without input; the theorem shows that the model of the code passes it.
\<close>

subsection \<open>The code\<close>

record fault_report =
  ft_pass :: bool
  ft_reordered_complete :: bool
  ft_duplicate_ignored :: bool
  ft_missing_fragment_timed_out :: bool
  ft_conflict_detected :: bool
  ft_crc_detected :: bool
  ft_next_frame_recovered :: bool

text \<open>
  A loop of \<open>add\<close> calls at one time; \<open>keep\<close> says which results the code
  remembers.
\<close>

fun add_pieces :: "(bytes option \<Rightarrow> bytes option \<Rightarrow> bytes option) \<Rightarrow> time \<Rightarrow> app_frame list \<Rightarrow>
    reassembler \<times> bytes option \<Rightarrow> (reassembler \<times> bytes option) result" where
  "add_pieces keep now [] acc = Inr acc"
| "add_pieces keep now (f # fs) (r, got) =
     (case ra_add now f r of
        (r', Inl e) \<Rightarrow> Inl e
      | (r', Inr candidate) \<Rightarrow> add_pieces keep now fs (r', keep got candidate))"

definition keep_found :: "bytes option \<Rightarrow> bytes option \<Rightarrow> bytes option" where
  "keep_found got candidate = (if candidate \<noteq> None then candidate else got)"

definition keep_last :: "bytes option \<Rightarrow> bytes option \<Rightarrow> bytes option" where
  "keep_last got candidate = candidate"

definition flip_last :: "bytes \<Rightarrow> bytes" where
  "flip_last bs = bs[length bs - 1 := last bs XOR 1]"

text \<open>\<open>try: ... except ApplicationError\<close>: whether the call raised one; others go on.\<close>

definition detects :: "'a result \<Rightarrow> bool result" where
  "detects r = (case r of Inl (ApplicationError _) \<Rightarrow> Inr True | Inl e \<Rightarrow> Inl e | Inr _ \<Rightarrow> Inr False)"

definition conflict_part :: "app_frame \<Rightarrow> (reassembler \<times> bool) result" where
  "conflict_part piece =
     (case ra_add 0 piece new_reassembler of
        (r, Inl e) \<Rightarrow> Inl e
      | (r, Inr _) \<Rightarrow>
          (let (r', res) = ra_add (1 / 10) (piece\<lparr>af_body := flip_last (af_body piece)\<rparr>) r
           in bindR (detects res) (\<lambda>found. Inr (r', found))))"

definition missing_part :: "app_frame \<Rightarrow> nat result" where
  "missing_part piece =
     (case ra_add 0 piece new_reassembler of
        (r, Inl e) \<Rightarrow> Inl e
      | (r, Inr _) \<Rightarrow> Inr (snd (ra_expire (6 / 10) r)))"

definition crc_part :: "bool result" where
  "crc_part =
     bindR (app_encode \<lparr>af_typ = TELEMETRY, af_sender_session = 1, af_message_id = 9,
              af_source_age_ms = 0, af_body = replicate 24 0\<rparr>)
       (\<lambda>encoded. detects (app_decode (flip_last encoded)))"

definition run_fault_test :: "fault_report result" where
  "run_fault_test =
     bindR (synthetic_rtcm 1077 446 1) (\<lambda>raw.
     bindR (fragment raw 1 1 0) (\<lambda>pieces.
     bindR (add_pieces keep_found (1 / 10) [pieces ! 2, pieces ! 0, pieces ! 0, pieces ! 1]
              (new_reassembler, None)) (\<lambda>(reordered, got).
     bindR (missing_part (pieces ! 0)) (\<lambda>timeouts.
     bindR (conflict_part (pieces ! 0)) (\<lambda>(conflicting, conflict_found).
     bindR crc_part (\<lambda>crc_found.
     bindR (synthetic_rtcm 1087 226 2) (\<lambda>next_raw.
     bindR (fragment next_raw 1 2 0) (\<lambda>next_pieces.
     bindR (add_pieces keep_last (2 / 10) next_pieces (conflicting, None)) (\<lambda>(_, recovered).
       let duplicates = (ra_duplicate_count reordered = 1)
       in Inr \<lparr>ft_pass = (got = Some raw \<and> duplicates \<and> timeouts = 1 \<and> conflict_found \<and> crc_found \<and>
                  recovered = Some next_raw),
               ft_reordered_complete = (got = Some raw), ft_duplicate_ignored = duplicates,
               ft_missing_fragment_timed_out = (timeouts = 1), ft_conflict_detected = conflict_found,
               ft_crc_detected = crc_found, ft_next_frame_recovered = (recovered = Some next_raw)\<rparr>)))))))))"

subsection \<open>The steps of the test\<close>

lemma ra_add_fragment:
  assumes v: "valid_rtcm3 raw" "rtcm_type raw = Inr t" and i: "i < fragment_count (length raw)"
    and d: "length d = length (fragment_data raw i)" and calm: "ra_expire now r = (r, 0)"
    and free: "(ses, mid) \<notin> fst ` set (ra_blocked_until r)"
  shows "ra_add now ((fragment_frame t raw ses mid 0 i)\<lparr>af_body :=
      take 6 (af_body (fragment_frame t raw ses mid 0 i)) @ d\<rparr>) r =
    add_part (ses, mid) t (int (length raw)) (int i) (int (fragment_count (length raw))) d
      (open_assembly (ses, mid) now t (int (length raw)) (int (fragment_count (length raw))) r)"
proof -
  let ?f = "fragment_frame t raw ses mid 0 i"
  have six: "length (take 6 (af_body ?f)) = 6" by simp
  have "\<not> bad_shape (int (length raw)) (int i) (int (fragment_count (length raw))) d"
    using fragment_shape_ok [OF v(1) i] d by (simp add: bad_shape_def)
  then show ?thesis
    using fragment_frame_unpack [OF v i, of ses mid 0] calm free six by (simp add: ra_add_def Let_def)
qed

lemma fragment_frame_split:
  "(fragment_frame t raw ses mid 0 i)\<lparr>af_body := take 6 (af_body (fragment_frame t raw ses mid 0 i)) @
      fragment_data raw i\<rparr> = fragment_frame t raw ses mid 0 i"
  using append_take_drop_id [of 6 "af_body (fragment_frame t raw ses mid 0 i)"] by simp

lemmas ra_add_piece = ra_add_fragment [where d = "fragment_data raw i" for raw i, OF _ _ _ refl,
    unfolded fragment_frame_split]

text \<open>A young state has nothing to expire.\<close>

lemma expire_calm:
  assumes "\<forall>(k, a)\<in>set (ra_items r). now - as_started_at a < 6 / 10"
    and "\<forall>(k, u)\<in>set (ra_blocked_until r). now < u"
  shows "ra_expire now r = (r, 0)"
proof -
  have "expired_keys now (ra_items r) = []"
    using assms(1) by (auto simp: expired_keys_def filter_empty_conv)
  moreover have "filter (\<lambda>(key, until). \<not> now \<ge> until) (ra_blocked_until r) = ra_blocked_until r"
    using assms(2) by (auto simp: filter_id_conv)
  ultimately show ?thesis by (simp add: ra_expire_def)
qed

lemma flip_bit: "(b :: byte) XOR 1 \<noteq> b"
proof
  assume "b XOR 1 = b"
  then have "b XOR (b XOR 1) = 0" by simp
  then show False by (simp flip: xor.assoc)
qed

definition assembly_of :: "time \<Rightarrow> int \<Rightarrow> bytes \<Rightarrow> nat list \<Rightarrow> assembly" where
  "assembly_of start t raw is =
     \<lparr>as_started_at = start, as_rtcm_type = t, as_total_length = int (length raw),
      as_fragment_count = int (fragment_count (length raw)),
      as_parts = map (\<lambda>i. (int i, fragment_data raw i)) is\<rparr>"

definition holding :: "msg_key \<Rightarrow> assembly \<Rightarrow> nat \<Rightarrow> reassembler" where
  "holding key a duplicates = new_reassembler\<lparr>ra_items := [(key, a)], ra_duplicate_count := duplicates\<rparr>"

lemma holding_calm: "now - as_started_at a < 6 / 10 \<Longrightarrow> ra_expire now (holding key a n) = (holding key a n, 0)"
  by (rule expire_calm) (simp_all add: holding_def new_reassembler_def)

lemma new_calm: "ra_expire now new_reassembler = (new_reassembler, 0)"
  by (rule expire_calm) (simp_all add: new_reassembler_def)

lemma update_absent: "k \<notin> fst ` set d \<Longrightarrow> AList.update k v d = d @ [(k, v)]"
  by (induction d) auto

text \<open>The first piece of a message, a further one that leaves it incomplete, and a duplicate.\<close>

lemma first_piece:
  assumes v: "valid_rtcm3 raw" "rtcm_type raw = Inr t" and i: "i < fragment_count (length raw)"
    and n: "1 < fragment_count (length raw)"
  shows "ra_add now (fragment_frame t raw ses mid 0 i) new_reassembler =
    (holding (ses, mid) (assembly_of now t raw [i]) 0, Inr None)"
  using ra_add_piece [OF v i new_calm] n
  by (simp add: new_reassembler_def open_assembly_def add_part_def holding_def assembly_of_def Let_def)

lemma further_piece:
  assumes v: "valid_rtcm3 raw" "rtcm_type raw = Inr t" and i: "i < fragment_count (length raw)"
    and new: "i \<notin> set is" and n: "Suc (length is) < fragment_count (length raw)"
    and young: "now - start < 6 / 10"
  shows "ra_add now (fragment_frame t raw ses mid 0 i) (holding (ses, mid) (assembly_of start t raw is) dup) =
    (holding (ses, mid) (assembly_of start t raw (is @ [i])) dup, Inr None)"
proof -
  have calm: "ra_expire now (holding (ses, mid) (assembly_of start t raw is) dup) =
      (holding (ses, mid) (assembly_of start t raw is) dup, 0)"
    by (rule holding_calm) (use young in \<open>simp add: assembly_of_def\<close>)
  have absent: "int i \<notin> fst ` set (map (\<lambda>i. (int i, fragment_data raw i)) is)" using new by auto
  then have "map_of (map (\<lambda>i. (int i, fragment_data raw i)) is) (int i) = None"
    by (simp only: map_of_eq_None_iff not_False_eq_True)
  then show ?thesis
    using ra_add_piece [OF v i calm] n update_absent [OF absent]
    by (simp add: holding_def new_reassembler_def open_assembly_def add_part_def assembly_of_def Let_def)
qed

lemma map_of_parts: "i \<in> set is \<Longrightarrow> map_of (map (\<lambda>i. (int i, fragment_data raw i)) is) (int i) = Some (fragment_data raw i)"
  by (induction "is") auto

lemma duplicate_piece:
  assumes v: "valid_rtcm3 raw" "rtcm_type raw = Inr t" and i: "i < fragment_count (length raw)"
    and old: "i \<in> set is" and young: "now - start < 6 / 10"
  shows "ra_add now (fragment_frame t raw ses mid 0 i) (holding (ses, mid) (assembly_of start t raw is) dup) =
    (holding (ses, mid) (assembly_of start t raw is) (Suc dup), Inr None)"
proof -
  have calm: "ra_expire now (holding (ses, mid) (assembly_of start t raw is) dup) =
      (holding (ses, mid) (assembly_of start t raw is) dup, 0)"
    by (rule holding_calm) (use young in \<open>simp add: assembly_of_def\<close>)
  show ?thesis
    using ra_add_piece [OF v i calm] map_of_parts [OF old, of raw]
    by (simp add: holding_def new_reassembler_def open_assembly_def add_part_def assembly_of_def)
qed

text \<open>The last piece completes the frame.\<close>

lemma last_piece:
  assumes v: "valid_rtcm3 raw" "rtcm_type raw = Inr t" and i: "i < fragment_count (length raw)"
    and new: "i \<notin> set is" and all: "set (is @ [i]) = {0..<fragment_count (length raw)}"
    and d: "distinct is" and young: "now - start < 6 / 10"
  shows "\<exists>r. ra_add now (fragment_frame t raw ses mid 0 i) (holding (ses, mid) (assembly_of start t raw is) dup) =
    (r, Inr (Some raw)) \<and> ra_duplicate_count r = dup"
proof -
  let ?n = "fragment_count (length raw)" let ?js = "is @ [i]"
  have b: "6 \<le> length raw" "length raw \<le> 1029" using valid_rtcm3_length [OF v(1)] by auto
  have calm: "ra_expire now (holding (ses, mid) (assembly_of start t raw is) dup) =
      (holding (ses, mid) (assembly_of start t raw is) dup, 0)"
    by (rule holding_calm) (use young in \<open>simp add: assembly_of_def\<close>)
  have absent: "int i \<notin> fst ` set (map (\<lambda>i. (int i, fragment_data raw i)) is)" using new by auto
  then have none: "map_of (map (\<lambda>i. (int i, fragment_data raw i)) is) (int i) = None"
    by (simp only: map_of_eq_None_iff not_False_eq_True)
  have len: "length ?js = ?n"
    using distinct_card [of ?js] d new all by (simp only: distinct_append) simp
  have range: "[0..int ?n - 1] = map int [0..<?n]" by (rule nth_equalityI) auto
  have "mapR (\<lambda>j. case map_of (map (\<lambda>i. (int i, fragment_data raw i)) ?js) j of None \<Rightarrow> Inl KeyError | Some d \<Rightarrow> Inr d)
      [0..int ?n - 1] = Inr (map (\<lambda>j. fragment_data raw (nat j)) [0..int ?n - 1])"
  proof (rule mapR_Inr)
    fix j
    assume "j \<in> set [0..int ?n - 1]"
    then have "0 \<le> j" "j < int ?n" by auto
    then have k: "nat j \<in> set ?js" "int (nat j) = j" unfolding all by simp_all
    from map_of_parts [OF k(1), of raw] show "(case map_of (map (\<lambda>i. (int i, fragment_data raw i)) ?js) j of None \<Rightarrow> Inl KeyError | Some d \<Rightarrow> Inr d) =
        Inr (fragment_data raw (nat j))"
      by (simp only: k(2) option.case)
  qed
  moreover have "concat (map (\<lambda>j. fragment_data raw (nat j)) [0..int ?n - 1]) = raw"
    using concat_all_fragment_data [OF b] by (simp add: range comp_def)
  ultimately have join: "join_parts (assembly_of start t raw ?js) = Inr raw"
    by (simp add: join_parts_def assembly_of_def)
  show ?thesis
    using ra_add_piece [OF v i calm] none update_absent [OF absent] len join v
    by (simp add: holding_def new_reassembler_def open_assembly_def add_part_def assembly_of_def Let_def
        ra_close_def ra_block_def)
qed

subsection \<open>The parts of the test\<close>

lemma three_pieces:
  assumes "length (raw :: bytes) = 446"
  shows "fragment_count (length raw) = 3"
  by (simp add: assms fragment_count_def)

lemma reordered_part:
  assumes v: "valid_rtcm3 raw" "rtcm_type raw = Inr t" and len: "length raw = 446"
  defines "f \<equiv> fragment_frame t raw 1 1 0"
  shows "\<exists>r. add_pieces keep_found (1 / 10) [f 2, f 0, f 0, f 1] (new_reassembler, None) = Inr (r, Some raw) \<and>
    ra_duplicate_count r = 1"
proof -
  note n = three_pieces [OF len]
  have s1: "ra_add (1 / 10) (f 2) new_reassembler = (holding (1, 1) (assembly_of (1 / 10) t raw [2]) 0, Inr None)"
    unfolding f_def by (rule first_piece [OF v]) (simp_all add: n)
  have s2: "ra_add (1 / 10) (f 0) (holding (1, 1) (assembly_of (1 / 10) t raw [2]) 0) =
      (holding (1, 1) (assembly_of (1 / 10) t raw [2, 0]) 0, Inr None)"
    using further_piece [OF v, of 0 "[2]" "1 / 10" "1 / 10" 1 1 0] by (simp add: n f_def)
  have s3: "ra_add (1 / 10) (f 0) (holding (1, 1) (assembly_of (1 / 10) t raw [2, 0]) 0) =
      (holding (1, 1) (assembly_of (1 / 10) t raw [2, 0]) 1, Inr None)"
    using duplicate_piece [OF v, of 0 "[2, 0]" "1 / 10" "1 / 10" 1 1 0] by (simp add: n f_def)
  have "set ([2, 0] @ [1]) = {0..<3 :: nat}" by auto
  then obtain r where s4: "ra_add (1 / 10) (f 1) (holding (1, 1) (assembly_of (1 / 10) t raw [2, 0]) 1) =
      (r, Inr (Some raw))" "ra_duplicate_count r = 1"
    using last_piece [OF v, of 1 "[2, 0]" "1 / 10" "1 / 10" 1 1 1] by (auto simp: n f_def)
  show ?thesis using s4 by (intro exI [of _ r]) (simp add: s1 s2 s3 keep_found_def)
qed

lemma first_of_three:
  assumes v: "valid_rtcm3 raw" "rtcm_type raw = Inr t" and len: "length raw = 446"
  shows "ra_add 0 (fragment_frame t raw 1 1 0 0) new_reassembler =
    (holding (1, 1) (assembly_of 0 t raw [0]) 0, Inr None)"
  by (rule first_piece [OF v]) (simp_all add: three_pieces [OF len])

lemma missing_part_found:
  assumes v: "valid_rtcm3 raw" "rtcm_type raw = Inr t" and len: "length raw = 446"
  shows "missing_part (fragment_frame t raw 1 1 0 0) = Inr 1"
  by (simp add: missing_part_def first_of_three [OF assms] ra_expire_def expired_keys_def holding_def assembly_of_def Let_def)

lemma flip_last_snoc: "flip_last (bs @ [b]) = bs @ [b XOR 1]"
  by (simp add: flip_last_def list_update_append)

lemma flip_last_body:
  assumes "bs \<noteq> []"
  shows "flip_last (hd' @ bs) = hd' @ flip_last bs"
  using assms by (cases bs rule: rev_cases) (simp_all add: flip_last_snoc flip: append_assoc)

lemma conflict_part_found:
  assumes v: "valid_rtcm3 raw" "rtcm_type raw = Inr t" and len: "length raw = 446"
  shows "conflict_part (fragment_frame t raw 1 1 0 0) =
    Inr (conflict (1, 1) (assembly_of 0 t raw [0]) (holding (1, 1) (assembly_of 0 t raw [0]) 0), True)"
proof -
  let ?f = "fragment_frame t raw 1 1 0 0" let ?d = "fragment_data raw 0"
  let ?h = "holding (1, 1) (assembly_of 0 t raw [0]) 0"
  have d: "length ?d = 174" by (simp add: length_fragment_data len)
  then have ne: "?d \<noteq> []" by auto
  have "flip_last (af_body ?f) = flip_last (take 6 (af_body ?f) @ ?d)"
    using append_take_drop_id [of 6 "af_body ?f"] by simp
  then have flip: "flip_last (af_body ?f) = take 6 (af_body ?f) @ flip_last ?d"
    using flip_last_body [OF ne] by simp
  have "flip_last ?d ! 173 = last ?d XOR 1" using d by (simp add: flip_last_def)
  moreover have "?d ! 173 = last ?d" using ne d by (simp add: last_conv_nth)
  ultimately have neq: "flip_last ?d \<noteq> ?d" using flip_bit [of "last ?d"] by metis
  have calm: "ra_expire (1 / 10) ?h = (?h, 0)" by (rule holding_calm) (simp add: assembly_of_def)
  have "ra_add (1 / 10) (?f\<lparr>af_body := flip_last (af_body ?f)\<rparr>) ?h =
      (conflict (1, 1) (assembly_of 0 t raw [0]) ?h, Inl (ApplicationError ''RTCM fragment data conflict''))"
    unfolding flip using ra_add_fragment [OF v _ _ calm, of 0 "flip_last ?d" 1 1] neq
    by (simp add: three_pieces [OF len] flip_last_def)
       (simp add: holding_def new_reassembler_def open_assembly_def add_part_def assembly_of_def
          three_pieces [OF len, unfolded len] len)
  then show ?thesis
    by (simp add: conflict_part_def first_of_three [OF assms] detects_def)
qed

lemma crc_part_found: "crc_part = Inr True"
proof -
  obtain raw where enc: "app_encode \<lparr>af_typ = TELEMETRY, af_sender_session = 1, af_message_id = 9,
              af_source_age_ms = 0, af_body = replicate 24 0\<rparr> = Inr raw"
    and len: "length raw = 44" and dec: "app_decode raw = Inr \<lparr>af_typ = TELEMETRY, af_sender_session = 1,
              af_message_id = 9, af_source_age_ms = 0, af_body = replicate 24 0\<rparr>"
    using app_encode_ok [of "\<lparr>af_typ = TELEMETRY, af_sender_session = 1, af_message_id = 9,
              af_source_age_ms = 0, af_body = replicate 24 0\<rparr>"] by auto
  have "raw ! 43 = last raw" using len last_conv_nth [of raw] by force
  then have "last raw XOR 1 \<noteq> raw ! 43" using flip_bit [of "last raw"] by simp
  then have "\<not> sealed 2 crc16 (flip_last raw)"
    using sealed_crc16_change [OF app_decode_Inr_imp(12) [OF dec], of 43] len by (simp add: flip_last_def)
  then have "app_decode (flip_last raw) \<noteq> Inr g" for g using app_decode_Inr_imp(12) by blast
  then obtain e where "app_decode (flip_last raw) = Inl (ApplicationError e)" using app_decode_cases by blast
  then show ?thesis by (simp add: crc_part_def enc detects_def)
qed

text \<open>After the conflict the reassembler takes the next message as a new one.\<close>

lemma after_conflict:
  "conflict key a (holding key a 0) =
     new_reassembler\<lparr>ra_blocked_until := [(key, as_started_at a + 1)], ra_conflict_count := 1\<rparr>"
  by (simp add: conflict_def holding_def ra_close_def ra_block_def new_reassembler_def move_to_end_def
      trim_oldest_drop)

lemma two_pieces_after:
  assumes v: "valid_rtcm3 raw" "rtcm_type raw = Inr t" and len: "length raw = 226"
    and r: "r = new_reassembler\<lparr>ra_blocked_until := [((1, 1), 1)], ra_conflict_count := 1\<rparr>"
  shows "\<exists>r'. add_pieces keep_last (2 / 10) [fragment_frame t raw 1 2 0 0, fragment_frame t raw 1 2 0 1] (r, None) =
    Inr (r', Some raw)"
proof -
  have n: "fragment_count (length raw) = 2" by (simp add: len fragment_count_def)
  have b: "6 \<le> length raw" "length raw \<le> 1029" using len by simp_all
  let ?r1 = "r\<lparr>ra_items := [((1, 2), assembly_of (2 / 10) t raw [0])]\<rparr>"
  have calm: "ra_expire (2 / 10) r = (r, 0)" "ra_expire (2 / 10) ?r1 = (?r1, 0)"
    by (rule expire_calm; simp add: r new_reassembler_def assembly_of_def)+
  have s1: "ra_add (2 / 10) (fragment_frame t raw 1 2 0 0) r = (?r1, Inr None)"
    using ra_add_piece [OF v _ calm(1), of 0 1 2] n
    by (simp add: r new_reassembler_def open_assembly_def add_part_def assembly_of_def)
  have whole: "fragment_data raw 0 @ fragment_data raw 1 = raw"
    using concat_all_fragment_data [OF b] n by (simp add: numeral_2_eq_2)
  have "[0..1] = [0, 1 :: int]" by (simp add: upto_rec1)
  then have join: "join_parts (assembly_of (2 / 10) t raw [0, 1]) = Inr raw"
    using n whole by (simp add: join_parts_def assembly_of_def)
  have s2: "snd (ra_add (2 / 10) (fragment_frame t raw 1 2 0 1) ?r1) = Inr (Some raw)"
    using ra_add_piece [OF v _ calm(2), of 1 1 2] n join v
    by (simp add: r new_reassembler_def open_assembly_def add_part_def assembly_of_def Let_def)
  then show ?thesis
    using s1 by (cases "ra_add (2 / 10) (fragment_frame t raw 1 2 0 1) ?r1") (simp add: keep_last_def)
qed

subsection \<open>Properties\<close>

text \<open>
  The bench's fault test passes: reordered fragments are put together, the duplicate is counted and
  ignored, the incomplete message times out at 600 ms, conflicting data and a wrong checksum are
  detected, and the message after the conflict is recovered.
\<close>

lemma fault_report:
  "run_fault_test = Inr \<lparr>ft_pass = True, ft_reordered_complete = True, ft_duplicate_ignored = True,
     ft_missing_fragment_timed_out = True, ft_conflict_detected = True, ft_crc_detected = True,
     ft_next_frame_recovered = True\<rparr>"
proof -
  obtain raw where raw: "synthetic_rtcm 1077 446 1 = Inr raw" "valid_rtcm3 raw" "length raw = 446"
      "rtcm_type raw = Inr 1077"
    using synthetic_valid [of 446 1077 1] by auto
  obtain nxt where nxt: "synthetic_rtcm 1087 226 2 = Inr nxt" "valid_rtcm3 nxt" "length nxt = 226"
      "rtcm_type nxt = Inr 1087"
    using synthetic_valid [of 226 1087 2] by auto
  let ?f = "fragment_frame 1077 raw 1 1 0" and ?g = "fragment_frame 1087 nxt 1 2 0"
  have pieces: "fragment raw 1 1 0 = Inr [?f 0, ?f 1, ?f 2]"
    using fragment_eq [OF raw(2,4)] three_pieces [OF raw(3)] by (simp add: numeral_3_eq_3 numeral_2_eq_2)
  have next_pieces: "fragment nxt 1 2 0 = Inr [?g 0, ?g 1]"
    using fragment_eq [OF nxt(2,4)] by (simp add: nxt(3) fragment_count_def numeral_2_eq_2)
  obtain r where r: "add_pieces keep_found (1 / 10) [?f 2, ?f 0, ?f 0, ?f 1] (new_reassembler, None) = Inr (r, Some raw)"
      "ra_duplicate_count r = 1"
    using reordered_part [OF raw(2,4,3)] by blast
  define c where "c = conflict (1, 1) (assembly_of 0 1077 raw [0]) (holding (1, 1) (assembly_of 0 1077 raw [0]) 0)"
  have "c = new_reassembler\<lparr>ra_blocked_until := [((1, 1), 1)], ra_conflict_count := 1\<rparr>"
    by (simp add: c_def after_conflict) (simp add: assembly_of_def)
  then obtain r' where r': "add_pieces keep_last (2 / 10) [?g 0, ?g 1] (c, None) = Inr (r', Some nxt)"
    using two_pieces_after [OF nxt(2,4,3)] by blast
  show ?thesis
    unfolding run_fault_test_def raw(1) nxt(1) bindR_simps pieces next_pieces
    using r r' missing_part_found [OF raw(2,4,3)] conflict_part_found [OF raw(2,4,3), folded c_def]
    by (simp add: crc_part_found del: add_pieces.simps)
qed

end
