(* ===== verification/Rtcm_Tool.thy ===== *)
theory Rtcm_Tool
  imports Rtcm_Parser "HOL-Library.Sublist"
begin

text \<open>
  The RTCM recorder, inspector, comparer and replayer (\<open>host/mowgli_lora/rtcm_tool.py\<close>): the MLR1
  recording format, the statistics of a recording, the comparison of two frame streams and the
  replay. The lemmas show that recordings read back as written, what the comparison's verdict
  means and what a replay writes.
\<close>

subsection \<open>Recordings\<close>

abbreviation (input) RECORDING_MAGIC :: bytes where "RECORDING_MAGIC \<equiv> [77, 76, 82, 49]"

text \<open>
  \<open>_records\<close> is a generator: the records it yields, and how it ends. What a reader does with the
  first records it does even when a later one is truncated.
\<close>

function read_records :: "bytes \<Rightarrow> (int \<times> bytes) list \<times> unit result" where
  "read_records source =
     (let header = take 10 source
      in if header = [] then ([], Inr ())
         else if length header \<noteq> 10 then ([], Inl (ValueExc ''truncated recording header''))
         else case struct_unpack [U 8, U 2] header of
           Inr [timestamp_ns, len] \<Rightarrow>
             (let raw = take (nat len) (drop 10 source)
              in if length raw \<noteq> nat len then ([], Inl (ValueExc ''truncated recording frame''))
                 else (let (rest, end') = read_records (drop (10 + nat len) source)
                       in ((timestamp_ns, raw) # rest, end')))
         | Inr _ \<Rightarrow> ([], Inl StructError)
         | Inl e \<Rightarrow> ([], Inl e))"
  by pat_completeness auto

termination
  by (relation "measure length") auto

declare read_records.simps [simp del]

definition records :: "bytes \<Rightarrow> (int \<times> bytes) list \<times> unit result" where
  "records file =
     (if take 4 file \<noteq> RECORDING_MAGIC then ([], Inl (ValueExc ''not a Mowgli LoRa RTCM recording''))
      else read_records (drop 4 file))"

text \<open>\<open>list(_records(path))\<close>.\<close>

definition all_records :: "bytes \<Rightarrow> (int \<times> bytes) list result" where
  "all_records file = (case records file of (rs, Inl e) \<Rightarrow> Inl e | (rs, Inr _) \<Rightarrow> Inr rs)"

text \<open>A parser over the chunks of a stream, each with the time at which it was read.\<close>

fun parse_chunks :: "rtcm_parser \<Rightarrow> (time \<times> bytes) list \<Rightarrow> rtcm_parser \<times> rtcm_frame list" where
  "parse_chunks p [] = (p, [])"
| "parse_chunks p ((now, chunk) # cs) =
     (let (p', fs) = rtcm_feed now p chunk; (p'', gs) = parse_chunks p' cs in (p'', fs @ gs))"

definition record_entry :: "int \<Rightarrow> bytes \<Rightarrow> bytes result" where
  "record_entry timestamp_ns raw =
     bindR (struct_pack [U 8, U 2] [timestamp_ns, int (length raw)]) (\<lambda>header. Inr (header @ raw))"

text \<open>
  \<open>main_record\<close>: \<open>clock\<close> gives the results of its calls of
  \<open>time_ns\<close>.
\<close>

definition main_record :: "(nat \<Rightarrow> int) \<Rightarrow> (time \<times> bytes) list \<Rightarrow> bytes result" where
  "main_record clock chunks =
     (let frames = snd (parse_chunks new_rtcm_parser chunks)
      in bindR (mapR (\<lambda>(i, f). record_entry (clock i) (rf_raw f)) (enumerate 0 frames))
           (\<lambda>entries. Inr (RECORDING_MAGIC @ concat entries)))"

subsection \<open>Inspection\<close>

record inspection =
  in_frames :: nat
  in_bytes :: nat
  in_message_types :: "(int \<times> nat) list"
  in_average_frame_size :: real
  in_max_frame_size :: nat
  in_crc_failures :: nat
  in_timing_available :: bool
  in_duration_seconds :: "real option"
  in_average_bytes_per_second :: "real option"
  in_peak_bytes_per_second :: "nat option"

fun inspect_loop :: "time \<Rightarrow> rtcm_parser \<Rightarrow> (int option \<times> bytes) list \<Rightarrow>
    rtcm_parser \<times> (int option \<times> rtcm_frame) list" where
  "inspect_loop now p [] = (p, [])"
| "inspect_loop now p ((timestamp, raw) # rs) =
     (let (p', fs) = rtcm_feed now p raw; (p'', gs) = inspect_loop now p' rs
      in (p'', map (\<lambda>f. (timestamp, f)) fs @ gs))"

definition add_bucket :: "int \<Rightarrow> int \<times> nat \<Rightarrow> (int \<times> nat) list \<Rightarrow> (int \<times> nat) list" where
  "add_bucket origin sample buckets =
     (let key = (fst sample - origin) div 1000000000
      in AList.update key ((case map_of buckets key of None \<Rightarrow> 0 | Some n \<Rightarrow> n) + snd sample) buckets)"

definition max_nat :: "nat list \<Rightarrow> nat" where
  "max_nat xs = fold max xs 0"

text \<open>\<open>now\<close> is the time the parser stamps frames with; the result does not show it.\<close>

definition inspect_records :: "time \<Rightarrow> (int option \<times> bytes) list \<Rightarrow> inspection" where
  "inspect_records now rs =
     (let (parser, found) = inspect_loop now new_rtcm_parser rs;
          sizes = map (\<lambda>(_, f). length (rf_raw f)) found;
          types = fold (\<lambda>(_, f). count_type (rf_message_type f)) found [];
          timed = List.map_filter (\<lambda>(ts, f). map_option (\<lambda>t. (t, length (rf_raw f))) ts) found;
          timestamps = map fst timed;
          timing = (timestamps \<noteq> []);
          duration = (if length timestamps > 1
                      then (real_of_int (last timestamps - hd timestamps)) / 1000000000 else 0);
          (average_rate, peak_rate) =
            (if timing \<and> duration > 0
             then (Some (real (sum_list sizes) / duration),
                   Some (max_nat (map snd (fold (add_bucket (hd timestamps)) timed []))))
             else if timing then (Some 0, Some (sum_list sizes)) else (None, None))
      in \<lparr>in_frames = length sizes, in_bytes = sum_list sizes,
          in_message_types = sort_key fst types,
          in_average_frame_size = (if sizes \<noteq> [] then real (sum_list sizes) / real (length sizes) else 0),
          in_max_frame_size = max_nat sizes, in_crc_failures = rp_crc_failures parser,
          in_timing_available = timing,
          in_duration_seconds = (if timing then Some duration else None),
          in_average_bytes_per_second = average_rate, in_peak_bytes_per_second = peak_rate\<rparr>)"

subsection \<open>Comparison\<close>

text \<open>
  \<open>difflib.SequenceMatcher\<close> without junk: the longest block common to both lists, the earliest in
  the first and then the earliest in the second; and the blocks found to its left and right.
\<close>

fun common_prefix :: "'a list \<Rightarrow> 'a list \<Rightarrow> nat" where
  "common_prefix (x # xs) (y # ys) = (if x = y then Suc (common_prefix xs ys) else 0)"
| "common_prefix _ _ = 0"

definition candidates :: "'a list \<Rightarrow> 'a list \<Rightarrow> (nat \<times> nat \<times> nat) list" where
  "candidates a b =
     concat (map (\<lambda>i. map (\<lambda>j. (i, j, common_prefix (drop i a) (drop j b))) [0..<length b]) [0..<length a])"

definition longer :: "nat \<times> nat \<times> nat \<Rightarrow> nat \<times> nat \<times> nat \<Rightarrow> nat \<times> nat \<times> nat" where
  "longer candidate best = (if snd (snd candidate) > snd (snd best) then candidate else best)"

definition longest_match :: "'a list \<Rightarrow> 'a list \<Rightarrow> nat \<times> nat \<times> nat" where
  "longest_match a b = fold longer (candidates a b) (0, 0, 0)"

lemma fold_longer:
  "fold longer cs best = c \<Longrightarrow> c = best \<or> c \<in> set cs \<and> snd (snd c) > 0"
  "snd (snd best) \<le> snd (snd (fold longer cs best))"
  "\<forall>d\<in>set cs. snd (snd d) \<le> snd (snd (fold longer cs best))"
proof -
  show "snd (snd best) \<le> snd (snd (fold longer cs best))" for best
    by (induction cs arbitrary: best) (auto simp: longer_def intro: order_trans less_imp_le split: if_splits)
  show "fold longer cs best = c \<Longrightarrow> c = best \<or> c \<in> set cs \<and> snd (snd c) > 0"
    by (induction cs arbitrary: best) (fastforce simp: longer_def split: if_splits)+
  show "\<forall>d\<in>set cs. snd (snd d) \<le> snd (snd (fold longer cs best))"
  proof (induction cs arbitrary: best)
    case (Cons c cs)
    have mono: "snd (snd b) \<le> snd (snd (fold longer cs b))" for b
      by (induction cs arbitrary: b) (auto simp: longer_def intro: order_trans less_imp_le split: if_splits)
    have "snd (snd c) \<le> snd (snd (longer c best))" by (simp add: longer_def)
    then show ?case using Cons mono [of "longer c best"] by auto
  qed simp
qed

lemma common_prefix_take: "common_prefix a b = k \<Longrightarrow> take k a = take k b \<and> k \<le> length a \<and> k \<le> length b"
  by (induction a b arbitrary: k rule: common_prefix.induct) (auto split: if_splits)

lemma longest_match_block:
  assumes "longest_match a b = (i, j, k)"
  shows "take k (drop i a) = take k (drop j b)" "i + k \<le> length a" "j + k \<le> length b"
proof -
  have "(i, j, k) = (0, 0, 0) \<or> (i, j, k) \<in> set (candidates a b)"
    using fold_longer(1) assms unfolding longest_match_def by blast
  then have "take k (drop i a) = take k (drop j b) \<and> i + k \<le> length a \<and> j + k \<le> length b"
  proof
    assume "(i, j, k) \<in> set (candidates a b)"
    then have "i < length a" "j < length b" "k = common_prefix (drop i a) (drop j b)"
      by (auto simp: candidates_def)
    then show ?thesis using common_prefix_take [of "drop i a" "drop j b" k] by auto
  qed simp
  then show "take k (drop i a) = take k (drop j b)" "i + k \<le> length a" "j + k \<le> length b" by blast+
qed

function matched :: "'a list \<Rightarrow> 'a list \<Rightarrow> nat" where
  "matched a b =
     (case longest_match a b of (i, j, k) \<Rightarrow>
        if k = 0 then 0
        else k + (if 0 < i \<and> 0 < j then matched (take i a) (take j b) else 0) +
             (if i + k < length a \<and> j + k < length b then matched (drop (i + k) a) (drop (j + k) b) else 0))"
  by pat_completeness auto

termination
  by (relation "measure (\<lambda>(a, b). length a)") (auto dest: longest_match_block(2) [OF sym])

declare matched.simps [simp del]

record comparison =
  cmp_source_frames :: nat
  cmp_received_frames :: nat
  cmp_matched_in_order :: nat
  cmp_missing :: int
  cmp_unexpected :: int
  cmp_delivery_ratio :: real
  cmp_exact :: bool

definition compare_frames :: "bytes list \<Rightarrow> bytes list \<Rightarrow> comparison" where
  "compare_frames source received =
     (let m = matched source received
      in \<lparr>cmp_source_frames = length source, cmp_received_frames = length received,
          cmp_matched_in_order = m, cmp_missing = int (length source) - int m,
          cmp_unexpected = int (length received) - int m,
          cmp_delivery_ratio = (if source \<noteq> [] then real m / real (length source) else 1),
          cmp_exact = (source = received)\<rparr>)"

definition load_frames :: "time \<Rightarrow> bytes \<Rightarrow> bool \<Rightarrow> (bytes list \<times> nat) result" where
  "load_frames now file recording =
     (if recording then bindR (all_records file) (\<lambda>rs. Inr (map snd rs, 0))
      else (let (p, fs) = rtcm_feed now new_rtcm_parser file
            in Inr (map rf_raw fs, rp_crc_failures p)))"

text \<open>\<open>main_compare\<close>: the report, and whether it ends with exit status 2.\<close>

definition main_compare :: "time \<Rightarrow> bytes \<Rightarrow> bytes \<Rightarrow> bool \<Rightarrow> bool \<Rightarrow> (comparison \<times> bool) result" where
  "main_compare now source received source_recording received_recording =
     bindR (load_frames now source source_recording) (\<lambda>(sent, sent_failures).
     bindR (load_frames now received received_recording) (\<lambda>(got, got_failures).
       let report = compare_frames sent got
       in Inr (report, sent_failures \<noteq> 0 \<or> got_failures \<noteq> 0 \<or> \<not> cmp_exact report)))"

definition main_inspect :: "time \<Rightarrow> bytes \<Rightarrow> bool \<Rightarrow> inspection result" where
  "main_inspect now file recording =
     bindR (if recording then bindR (all_records file) (\<lambda>rs. Inr (map (\<lambda>(t, raw). (Some t, raw)) rs))
            else Inr [(None, file)])
       (\<lambda>rs. Inr (inspect_records now rs))"

subsection \<open>Replay\<close>

text \<open>What a replay does: it sleeps for some seconds, or writes a frame and flushes.\<close>

datatype replay_action = Sleep real | Write bytes

fun replay_loop :: "real \<Rightarrow> int \<Rightarrow> int option \<Rightarrow> int \<Rightarrow> (int \<times> bytes) list \<Rightarrow> replay_action list" where
  "replay_loop speed drop_every previous index [] = []"
| "replay_loop speed drop_every previous index ((timestamp, raw) # rs) =
     (case previous of None \<Rightarrow> []
      | Some p \<Rightarrow> [Sleep (real_of_int (max 0 (timestamp - p)) / 1000000000 / speed)]) @
     (if drop_every = 0 \<or> index mod drop_every \<noteq> 0 then [Write raw] else []) @
     replay_loop speed drop_every (Some timestamp) (index + 1) rs"

text \<open>\<open>main_replay\<close>; \<open>speed\<close> is None where the argument is not finite.\<close>

definition main_replay :: "bytes \<Rightarrow> real option \<Rightarrow> int \<Rightarrow> replay_action list \<times> unit result" where
  "main_replay file speed drop_every =
     (case speed of
        None \<Rightarrow> ([], Inl (SystemExit ''--speed must be finite and positive''))
      | Some s \<Rightarrow>
          if s \<le> 0 then ([], Inl (SystemExit ''--speed must be finite and positive''))
          else if drop_every < 0 then ([], Inl (SystemExit ''--drop-every must be non-negative''))
          else (let (rs, end') = records file in (replay_loop s drop_every None 1 rs, end')))"

subsection \<open>Recordings read back\<close>

lemma read_record_entry:
  assumes "record_entry t raw = Inr bs"
  shows "read_records (bs @ bs') = (let (rest, end') = read_records bs' in ((t, raw) # rest, end'))"
proof -
  obtain header where h: "struct_pack [U 8, U 2] [t, int (length raw)] = Inr header" and bs: "bs = header @ raw"
    using assms by (auto simp: record_entry_def bindR_Inr_iff)
  have len: "length header = 10" using struct_pack_length [OF h] by simp
  have u: "struct_unpack [U 8, U 2] header = Inr [t, int (length raw)]" using h by (rule struct_unpack_pack)
  show ?thesis
    using len u by (subst read_records.simps) (auto simp: bs Let_def)
qed

lemma read_records_Nil: "read_records [] = ([], Inr ())"
  by (subst read_records.simps) simp

lemma read_records_entries:
  "mapR (\<lambda>(t, raw). record_entry t raw) es = Inr entries \<Longrightarrow> read_records (concat entries) = (es, Inr ())"
proof (induction es arbitrary: entries)
  case (Cons e es)
  obtain t raw where e: "e = (t, raw)" by fastforce
  obtain bs rest where bs: "record_entry t raw = Inr bs" and rest: "mapR (\<lambda>(t, raw). record_entry t raw) es = Inr rest"
    and entries: "entries = bs # rest"
    using Cons.prems by (auto simp: e bindR_Inr_iff)
  then show ?case using Cons.IH [OF rest] read_record_entry [OF bs] by (simp add: e)
qed (simp add: read_records_Nil)

lemma enumerate_entries:
  "mapR (\<lambda>(i, f). record_entry (clock i) (rf_raw f)) (enumerate n fs) = Inr entries \<Longrightarrow>
   mapR (\<lambda>(t, raw). record_entry t raw) (map (\<lambda>(i, f). (clock i, rf_raw f)) (enumerate n fs)) = Inr entries"
  by (induction fs arbitrary: n entries) (auto simp: bindR_Inr_iff)

lemma recording_reads_back:
  assumes "main_record clock chunks = Inr file"
  shows "records file = (map (\<lambda>(i, f). (clock i, rf_raw f)) (enumerate 0 (snd (parse_chunks new_rtcm_parser chunks))), Inr ())"
proof -
  obtain entries where e: "mapR (\<lambda>(i, f). record_entry (clock i) (rf_raw f))
      (enumerate 0 (snd (parse_chunks new_rtcm_parser chunks))) = Inr entries"
    and fl: "file = RECORDING_MAGIC @ concat entries"
    using assms by (auto simp: main_record_def bindR_Inr_iff Let_def)
  show ?thesis using read_records_entries [OF enumerate_entries [OF e]] by (simp add: records_def fl)
qed

lemma parse_chunks_valid: "f \<in> set (snd (parse_chunks p cs)) \<Longrightarrow> valid_rtcm3 (rf_raw f)"
proof (induction p cs rule: parse_chunks.induct)
  case (2 p now chunk cs)
  then show ?case
    by (auto simp: split_beta rtcm_feed_scan as_frame_def intro: scan_good_valid)
qed simp

text \<open>The recorder does not fail while the clock fits 64 bits: every frame is at most 1029 bytes.\<close>

lemma main_record_ok:
  assumes "\<And>i. 0 \<le> clock i \<and> clock i < 2 ^ 64"
  shows "\<exists>file. main_record clock chunks = Inr file"
proof -
  have "\<exists>bs. record_entry (clock i) (rf_raw f) = Inr bs \<and> True"
    if "f \<in> set (snd (parse_chunks new_rtcm_parser chunks))" for i f
  proof -
    have "length (rf_raw f) \<le> 1029" using valid_rtcm3_length [OF parse_chunks_valid [OF that]] by simp
    then have "pack_ok [U 8, U 2] [clock i, int (length (rf_raw f))]" using assms [of i] by simp
    then show ?thesis by (simp add: record_entry_def struct_pack_def)
  qed
  then have "\<exists>entries. mapR (\<lambda>(i, f). record_entry (clock i) (rf_raw f))
      (enumerate 0 (snd (parse_chunks new_rtcm_parser chunks))) = Inr entries"
    using mapR_ok [of "enumerate 0 (snd (parse_chunks new_rtcm_parser chunks))"
        "\<lambda>(i, f). record_entry (clock i) (rf_raw f)" "\<lambda>_. True"]
    by (fastforce simp: in_set_enumerate_eq)
  then show ?thesis by (auto simp: main_record_def Let_def)
qed

subsection \<open>What the comparison means\<close>

lemma matched_subseq: "\<exists>c. subseq c a \<and> subseq c b \<and> length c = matched a b"
proof (induction a b rule: matched.induct)
  case (1 a b)
  obtain i j k where m: "longest_match a b = (i, j, k)" by (cases "longest_match a b") auto
  note block = longest_match_block [OF m]
  show ?case
  proof (cases "k = 0")
    case True
    then have "matched a b = 0" using m by (subst matched.simps) simp
    then show ?thesis by (intro exI [of _ "[]"]) simp
  next
    case False
    note ih = 1 [OF m [symmetric] refl False]
    obtain l where l: "subseq l (take i a)" "subseq l (take j b)"
      "length l = (if 0 < i \<and> 0 < j then matched (take i a) (take j b) else 0)"
    proof (cases "0 < i \<and> 0 < j")
      case True
      then show ?thesis using ih(1) that by auto
    next
      case False
      then show ?thesis using that [of "[]"] by auto
    qed
    obtain r where r: "subseq r (drop (i + k) a)" "subseq r (drop (j + k) b)"
      "length r = (if i + k < length a \<and> j + k < length b then matched (drop (i + k) a) (drop (j + k) b) else 0)"
    proof (cases "i + k < length a \<and> j + k < length b")
      case True
      then show ?thesis using ih(2) that by auto
    next
      case False
      then show ?thesis using that [of "[]"] by auto
    qed
    have parts: "a = take i a @ take k (drop i a) @ drop (i + k) a" "b = take j b @ take k (drop j b) @ drop (j + k) b"
      by (metis append_take_drop_id drop_drop add.commute)+
    let ?c = "l @ take k (drop i a) @ r"
    have "subseq ?c a" by (subst (2) parts(1)) (intro list_emb_append_mono l r subseq_order.refl)
    moreover have "subseq ?c b"
      by (subst parts(2)) (use block(1) in \<open>auto intro!: list_emb_append_mono l r subseq_order.refl\<close>)
    moreover have "length ?c = matched a b"
      using m False l(3) r(3) block(2) by (subst matched.simps) (simp add: min_absorb2)
    ultimately show ?thesis by blast
  qed
qed

lemma matched_le: "matched a b \<le> length a" "matched a b \<le> length b"
proof -
  obtain c where "subseq c a" "subseq c b" "length c = matched a b" using matched_subseq by blast
  then show "matched a b \<le> length a" "matched a b \<le> length b"
    using list_emb_length by force+
qed

lemma common_prefix_self: "common_prefix a a = length a"
  by (induction a) auto

lemma matched_self: "matched a a = length a"
proof (cases "a = []")
  case True
  then show ?thesis by (subst matched.simps) (simp add: longest_match_def candidates_def)
next
  case False
  obtain i j k where m: "longest_match a a = (i, j, k)" by (cases "longest_match a a") auto
  have "(0, 0, length a) \<in> set (candidates a a)"
    using False common_prefix_self [of a] by (force simp: candidates_def)
  then have "length a \<le> k" using fold_longer(3) [of "candidates a a" "(0, 0, 0)"] m
    by (fastforce simp: longest_match_def)
  moreover note longest_match_block [OF m]
  ultimately have "k = length a" "i = 0" "j = 0" by auto
  then show ?thesis using m False by (subst matched.simps) simp
qed

lemma matched_all: "matched a b = length a \<Longrightarrow> matched a b = length b \<Longrightarrow> a = b"
  using matched_subseq [of a b] by (metis subseq_same_length)

subsection \<open>What a replay writes\<close>

text \<open>
  A replay writes the frames in order, all of them when nothing is to be dropped and otherwise all
  but every n-th, and never sleeps for a negative time.
\<close>

definition writes :: "replay_action list \<Rightarrow> bytes list" where
  "writes as = List.map_filter (\<lambda>a. case a of Write raw \<Rightarrow> Some raw | Sleep _ \<Rightarrow> None) as"

lemma writes_simps [simp]:
  "writes [] = []" "writes (Write raw # as) = raw # writes as" "writes (Sleep t # as) = writes as"
  by (simp_all add: writes_def map_filter_simps)

lemma replay_writes:
  "writes (replay_loop speed drop_every previous index rs) =
     map (\<lambda>i. snd (rs ! i)) (filter (\<lambda>i. drop_every = 0 \<or> (index + int i) mod drop_every \<noteq> 0) [0..<length rs])"
proof (induction speed drop_every previous index rs rule: replay_loop.induct)
  case (2 speed drop_every previous index timestamp raw rs)
  have shift: "[0..<Suc (length rs)] = 0 # map Suc [0..<length rs]"
    by (simp add: upt_conv_Cons map_Suc_upt del: upt_Suc)
  have "map (\<lambda>i. snd (((timestamp, raw) # rs) ! i))
      (filter (\<lambda>i. drop_every = 0 \<or> (index + int i) mod drop_every \<noteq> 0) [0..<Suc (length rs)]) =
    (if drop_every = 0 \<or> index mod drop_every \<noteq> 0 then [raw] else []) @
      writes (replay_loop speed drop_every (Some timestamp) (index + 1) rs)"
    unfolding shift 2 by (simp add: filter_map comp_def ac_simps del: upt_Suc)
  then show ?case by (simp split: option.splits)
qed simp

lemma replay_sleeps:
  "0 < speed \<Longrightarrow> Sleep t \<in> set (replay_loop speed drop_every previous index rs) \<Longrightarrow> 0 \<le> t"
  by (induction speed drop_every previous index rs rule: replay_loop.induct)
     (auto split: option.splits if_splits)

subsection \<open>Properties\<close>

text \<open>
  Property C37. Recordings round trip: whatever arrives on standard input and however it is cut into
  chunks, while the clock fits 64 bits the recorder succeeds, and its file reads back, without an
  error, as the parser's frames in order, each whole, valid and with the time at which it was
  written.
\<close>

theorem recording_roundtrip:
  assumes "\<And>i. 0 \<le> clock i \<and> clock i < 2 ^ 64"
  shows "\<exists>file. main_record clock chunks = Inr file \<and>
    (let frames = snd (parse_chunks new_rtcm_parser chunks)
     in all_records file = Inr (map (\<lambda>(i, f). (clock i, rf_raw f)) (enumerate 0 frames)) \<and>
        list_all (\<lambda>f. valid_rtcm3 (rf_raw f)) frames)"
proof -
  obtain fl where f: "main_record clock chunks = Inr fl" using main_record_ok [of clock, OF assms] by blast
  then show ?thesis
    using recording_reads_back [OF f] parse_chunks_valid by (auto simp: all_records_def list_all_iff)
qed

theorem recording_roundtrip_witness:
  "\<exists>file. main_record (\<lambda>i. 5) [(0, [211, 0, 2, 62]), (1, [208, 164, 224, 0])] = Inr file"
proof -
  have "\<And>i :: nat. 0 \<le> (5 :: int) \<and> (5 :: int) < 2 ^ 64" by simp
  from recording_roundtrip [where clock = "\<lambda>i. 5", OF this] show ?thesis by blast
qed

text \<open>
  The comparison's verdict is exact: the matched frames are a common subsequence of
  both streams, so no count is negative and the ratio is at most one; and nothing is missing and
  nothing unexpected exactly when the streams are equal frame by frame.
\<close>

theorem comparison_exact:
  "(\<exists>c. subseq c source \<and> subseq c received \<and> length c = cmp_matched_in_order (compare_frames source received)) \<and>
   0 \<le> cmp_missing (compare_frames source received) \<and> 0 \<le> cmp_unexpected (compare_frames source received) \<and>
   0 \<le> cmp_delivery_ratio (compare_frames source received) \<and> cmp_delivery_ratio (compare_frames source received) \<le> 1 \<and>
   (cmp_exact (compare_frames source received) \<longleftrightarrow>
      cmp_missing (compare_frames source received) = 0 \<and> cmp_unexpected (compare_frames source received) = 0)"
proof -
  note le = matched_le [of source received]
  have "matched source received = length source \<and> matched source received = length received \<longleftrightarrow> source = received"
    using matched_all matched_self by metis
  then show ?thesis
    using le matched_subseq [of source received] by (auto simp: compare_frames_def Let_def)
qed

end
