(* ===== verification/Ros_Reader.thy ===== *)
theory Ros_Reader
  imports Rtcm_Parser "HOL-Library.Sublist"
begin

text \<open>
  The TCP reader behind the ROS 2 adapter (\<open>host/mowgli_lora/mowgli_ros.py\<close>): \<open>RtcmTcpReader\<close>, a
  bounded queue of frames filled by a thread that reconnects, emptied by \<open>take\<close> from the ROS timer.
  The thread and the timer are two programs whose steps interleave: every \<open>get_nowait\<close> and every
  \<open>put_nowait\<close> of either is a step of its own, and so is every update of a counter, so that the other
  may act between any two of them. What is one step is what the queue's lock makes one, and one
  \<open>+= 1\<close>, in which the interpreter has no call and no backward jump, the places where it may
  switch threads.
\<close>

subsection \<open>The reader and its queue\<close>

record ros_reader =
  rr_queue_size :: int
  rr_frames :: "rtcm_frame list"
  rr_frames_received :: nat
  rr_frames_dropped :: nat
  rr_connect_failures :: nat

definition new_ros_reader :: "int \<Rightarrow> ros_reader" where
  "new_ros_reader queue_size =
     \<lparr>rr_queue_size = queue_size, rr_frames = [], rr_frames_received = 0, rr_frames_dropped = 0,
      rr_connect_failures = 0\<rparr>"

text \<open>\<open>Queue.put_nowait\<close> on a queue with a maximal size, none when it is not positive.\<close>

definition queue_full :: "ros_reader \<Rightarrow> bool" where
  "queue_full r \<longleftrightarrow> 0 < rr_queue_size r \<and> rr_queue_size r \<le> int (length (rr_frames r))"

definition put_nowait :: "rtcm_frame \<Rightarrow> ros_reader \<Rightarrow> ros_reader option" where
  "put_nowait f r = (if queue_full r then None else Some (r\<lparr>rr_frames := rr_frames r @ [f]\<rparr>))"

text \<open>\<open>Queue.get_nowait\<close>; nothing when the queue is empty.\<close>

definition get_nowait :: "ros_reader \<Rightarrow> (rtcm_frame \<times> ros_reader) option" where
  "get_nowait r = (case rr_frames r of [] \<Rightarrow> None | f # fs \<Rightarrow> Some (f, r\<lparr>rr_frames := fs\<rparr>))"

definition count_dropped :: "ros_reader \<Rightarrow> ros_reader" where
  "count_dropped r = r\<lparr>rr_frames_dropped := Suc (rr_frames_dropped r)\<rparr>"

abbreviation (input) RTCM_TRANSPORT_TTL :: time where "RTCM_TRANSPORT_TTL \<equiv> 1"

text \<open>The message for ROS, with the fields of \<open>universal_gnss_ros2/RtcmFrame\<close>.\<close>

record ros_message =
  rm_stamp :: time
  rm_message_type :: int
  rm_data :: bytes

definition populate_rtcm_message :: "rtcm_frame \<Rightarrow> time \<Rightarrow> ros_message" where
  "populate_rtcm_message f stamp = \<lparr>rm_stamp = stamp, rm_message_type = rf_message_type f, rm_data = rf_raw f\<rparr>"

subsection \<open>Where the thread and the timer are\<close>

text \<open>
  The thread: before its outer loop's test (or waiting to reconnect); in \<open>_drop_queued_frames\<close>, at a
  \<open>get_nowait\<close> or about to count one, and what comes after that; in \<open>create_connection\<close>; with the
  frames of the last chunk it has still to queue, at the first \<open>put_nowait\<close> of \<open>_put_fresh\<close> (at the
  inner loop's test when there are none); when that found the queue full, about to make room, to count
  the frame that made it, to put again; about to count the frame that it has put; in \<open>recv\<close>; ended.
\<close>

datatype after_drop = ToConnect | ToWait | ToEnd

datatype thread_at =
    Waiting | Dropping after_drop | DropCount after_drop | Connecting
  | Queueing rtcm_parser "rtcm_frame list"
  | MakeRoom rtcm_parser rtcm_frame "rtcm_frame list"
  | CountRoom rtcm_parser rtcm_frame "rtcm_frame list"
  | PutAgain rtcm_parser rtcm_frame "rtcm_frame list"
  | CountReceived rtcm_parser "rtcm_frame list"
  | Receiving rtcm_parser | Ended

text \<open>
  The timer callback: not running; in \<open>take\<close>, with the rounds left, the time it read and the output so
  far, at \<open>get_nowait\<close> or about to count a stale frame; publishing the frames that \<open>take\<close> returned.
\<close>

datatype timer_at =
    Idle | Taking nat time "rtcm_frame list" | CountStale nat time "rtcm_frame list"
  | Publishing "rtcm_frame list"

text \<open>
  Ghosts: the frames parsed on the current connection; those that \<open>take\<close> got for its output since that
  connection was made; all those ever, with the time of their \<open>take\<close>; the numbers of frames put, of
  frames removed that go nowhere, and of times that \<open>_put_fresh\<close> found nothing to remove.
\<close>

record ros_state =
  rs_reader :: ros_reader
  rs_thread :: thread_at
  rs_timer :: timer_at
  rs_stop :: bool
  rs_published :: nat
  rs_messages :: "ros_message list"
  rg_connection :: "rtcm_frame list"
  rg_taken :: "rtcm_frame list"
  rg_kept :: "(time \<times> rtcm_frame) list"
  rg_put :: nat
  rg_discarded :: nat
  rg_phantom :: nat

definition new_ros :: "int \<Rightarrow> ros_state" where
  "new_ros queue_size =
     \<lparr>rs_reader = new_ros_reader queue_size, rs_thread = Waiting, rs_timer = Idle, rs_stop = False,
      rs_published = 0, rs_messages = [], rg_connection = [], rg_taken = [], rg_kept = [], rg_put = 0,
      rg_discarded = 0, rg_phantom = 0\<rparr>"

subsection \<open>The thread\<close>

text \<open>
  What happens to the thread: its test of the stop event, a connection made or refused, a chunk (empty
  at the end of the stream), a receive that times out or fails; its next action on the queue or a
  counter needs nothing from outside. A step that does not fit where the thread is does nothing.
\<close>

datatype thread_event =
  Test | Connect | Refuse | Chunk time bytes | RecvTimeout | RecvError | Proceed

definition thread_to :: "thread_at \<Rightarrow> ros_state \<Rightarrow> ros_state" where
  "thread_to t s = s\<lparr>rs_thread := t\<rparr>"

fun after_dropping :: "after_drop \<Rightarrow> thread_at" where
  "after_dropping ToConnect = Connecting"
| "after_dropping ToWait = Waiting"
| "after_dropping ToEnd = Ended"

text \<open>One round of \<open>_drop_queued_frames\<close>, up to the counter.\<close>

definition drop_queued :: "after_drop \<Rightarrow> ros_state \<Rightarrow> ros_state" where
  "drop_queued k s =
     (case get_nowait (rs_reader s) of
        None \<Rightarrow> thread_to (after_dropping k) s
      | Some (f, r) \<Rightarrow> thread_to (DropCount k) (s\<lparr>rs_reader := r, rg_discarded := Suc (rg_discarded s)\<rparr>))"

definition count_drop :: "thread_at \<Rightarrow> ros_state \<Rightarrow> ros_state" where
  "count_drop t s = thread_to t (s\<lparr>rs_reader := count_dropped (rs_reader s)\<rparr>)"

text \<open>
  \<open>_put_fresh\<close>: the first \<open>put_nowait\<close>, the removal of the oldest frame, the second \<open>put_nowait\<close>, whose
  \<open>Full\<close> nothing catches.
\<close>

definition put_first :: "rtcm_parser \<Rightarrow> rtcm_frame \<Rightarrow> rtcm_frame list \<Rightarrow> ros_state \<Rightarrow> ros_state" where
  "put_first p f fs s =
     (case put_nowait f (rs_reader s) of
        None \<Rightarrow> thread_to (MakeRoom p f fs) s
      | Some r \<Rightarrow> thread_to (CountReceived p fs) (s\<lparr>rs_reader := r, rg_put := Suc (rg_put s)\<rparr>))"

definition make_room :: "rtcm_parser \<Rightarrow> rtcm_frame \<Rightarrow> rtcm_frame list \<Rightarrow> ros_state \<Rightarrow> ros_state" where
  "make_room p f fs s =
     thread_to (CountRoom p f fs)
       (case get_nowait (rs_reader s) of
          None \<Rightarrow> s\<lparr>rg_phantom := Suc (rg_phantom s)\<rparr>
        | Some (g, r) \<Rightarrow> s\<lparr>rs_reader := r, rg_discarded := Suc (rg_discarded s)\<rparr>)"

definition put_again :: "rtcm_parser \<Rightarrow> rtcm_frame \<Rightarrow> rtcm_frame list \<Rightarrow> ros_state \<Rightarrow> ros_state" where
  "put_again p f fs s =
     (case put_nowait f (rs_reader s) of
        None \<Rightarrow> thread_to (Dropping ToEnd) s
      | Some r \<Rightarrow> thread_to (CountReceived p fs) (s\<lparr>rs_reader := r, rg_put := Suc (rg_put s)\<rparr>))"

definition count_received :: "rtcm_parser \<Rightarrow> rtcm_frame list \<Rightarrow> ros_state \<Rightarrow> ros_state" where
  "count_received p fs s =
     thread_to (Queueing p fs)
       (s\<lparr>rs_reader := (rs_reader s)\<lparr>rr_frames_received := Suc (rr_frames_received (rs_reader s))\<rparr>\<rparr>)"

text \<open>The connection: made, refused or lost by an \<open>OSError\<close>, a chunk received.\<close>

definition begin_session :: "ros_state \<Rightarrow> ros_state" where
  "begin_session s = s\<lparr>rs_thread := Queueing new_rtcm_parser [], rg_connection := [], rg_taken := []\<rparr>"

definition connect_failed :: "ros_state \<Rightarrow> ros_state" where
  "connect_failed s = thread_to (Dropping ToWait)
     (s\<lparr>rs_reader := (rs_reader s)\<lparr>rr_connect_failures := Suc (rr_connect_failures (rs_reader s))\<rparr>\<rparr>)"

definition receive_chunk :: "time \<Rightarrow> bytes \<Rightarrow> rtcm_parser \<Rightarrow> ros_state \<Rightarrow> ros_state" where
  "receive_chunk now chunk p s =
     (if chunk = [] then thread_to (Dropping ToWait) s
      else (let (p', fs) = rtcm_feed now p chunk
            in thread_to (Queueing p' fs) (s\<lparr>rg_connection := rg_connection s @ fs\<rparr>)))"

fun thread_step :: "thread_at \<Rightarrow> thread_event \<Rightarrow> ros_state \<Rightarrow> ros_state" where
  "thread_step Waiting Test s = thread_to (if rs_stop s then Ended else Dropping ToConnect) s"
| "thread_step (Dropping k) Proceed s = drop_queued k s"
| "thread_step (DropCount k) Proceed s = count_drop (Dropping k) s"
| "thread_step Connecting Connect s = begin_session s"
| "thread_step Connecting Refuse s = connect_failed s"
| "thread_step (Queueing p []) Test s =
     thread_to (if rs_stop s then Dropping ToWait else Receiving p) s"
| "thread_step (Queueing p (f # fs)) Proceed s = put_first p f fs s"
| "thread_step (MakeRoom p f fs) Proceed s = make_room p f fs s"
| "thread_step (CountRoom p f fs) Proceed s = count_drop (PutAgain p f fs) s"
| "thread_step (PutAgain p f fs) Proceed s = put_again p f fs s"
| "thread_step (CountReceived p fs) Proceed s = count_received p fs s"
| "thread_step (Receiving p) (Chunk now chunk) s = receive_chunk now chunk p s"
| "thread_step (Receiving p) RecvTimeout s = thread_to (Queueing p []) s"
| "thread_step (Receiving p) RecvError s = connect_failed s"
| "thread_step _ _ s = s"

subsection \<open>The timer\<close>

text \<open>One round of \<open>take\<close>, up to the counter, and one round of \<open>publish_pending\<close>.\<close>

definition take_round :: "nat \<Rightarrow> time \<Rightarrow> rtcm_frame list \<Rightarrow> ros_state \<Rightarrow> ros_state" where
  "take_round limit now out s =
     (case get_nowait (rs_reader s) of
        None \<Rightarrow> s\<lparr>rs_timer := Publishing out\<rparr>
      | Some (f, r) \<Rightarrow>
          (if now - rf_received_at f \<ge> RTCM_TRANSPORT_TTL
           then s\<lparr>rs_reader := r, rs_timer := CountStale limit now out, rg_discarded := Suc (rg_discarded s)\<rparr>
           else s\<lparr>rs_reader := r, rs_timer := Taking limit now (out @ [f]),
                  rg_taken := rg_taken s @ [f], rg_kept := rg_kept s @ [(now, f)]\<rparr>))"

definition publish_next :: "time \<Rightarrow> rtcm_frame \<Rightarrow> rtcm_frame list \<Rightarrow> ros_state \<Rightarrow> ros_state" where
  "publish_next stamp f fs s =
     s\<lparr>rs_timer := Publishing fs, rs_messages := rs_messages s @ [populate_rtcm_message f stamp],
       rs_published := Suc (rs_published s)\<rparr>"

text \<open>The callback is called, with the time that \<open>take\<close> reads, or goes on, with the time of the node.\<close>

datatype timer_event = Fire time | Continue time

fun timer_step :: "timer_at \<Rightarrow> timer_event \<Rightarrow> ros_state \<Rightarrow> ros_state" where
  "timer_step Idle (Fire now) s = s\<lparr>rs_timer := Taking 64 now []\<rparr>"
| "timer_step (Taking 0 now out) (Continue _) s = s\<lparr>rs_timer := Publishing out\<rparr>"
| "timer_step (Taking (Suc limit) now out) (Continue _) s = take_round limit now out s"
| "timer_step (CountStale limit now out) (Continue _) s =
     s\<lparr>rs_timer := Taking limit now out, rs_reader := count_dropped (rs_reader s)\<rparr>"
| "timer_step (Publishing []) (Continue _) s = s\<lparr>rs_timer := Idle\<rparr>"
| "timer_step (Publishing (f # fs)) (Continue stamp) s = publish_next stamp f fs s"
| "timer_step _ _ s = s"

datatype ros_event = OfThread thread_event | OfTimer timer_event | CloseReader

fun ros_step :: "ros_state \<Rightarrow> ros_event \<Rightarrow> ros_state" where
  "ros_step s (OfThread e) = thread_step (rs_thread s) e s"
| "ros_step s (OfTimer e) = timer_step (rs_timer s) e s"
| "ros_step s CloseReader = s\<lparr>rs_stop := True\<rparr>"

subsection \<open>The program around the reader\<close>

text \<open>
  \<open>main\<close>, its arguments parsed. \<open>installed\<close>: the ROS packages can be imported. While the node spins, the
  timer and the thread do what \<open>es\<close> says; the \<open>finally\<close> clause closes the reader and waits for its
  thread, which takes the steps \<open>closing\<close> meanwhile, and logs the counters.
\<close>

record bridge_summary =
  br_received :: nat
  br_published :: nat
  br_dropped :: nat

definition start_bridge :: "int \<Rightarrow> bool \<Rightarrow> ros_state result" where
  "start_bridge port installed =
     (if \<not> (1 \<le> port \<and> port \<le> 65535) then Inl (SystemExit ''port must be in range 1..65535'')
      else if \<not> installed then Inl (SystemExit ''source the Mowgli ROS 2 environment'')
      else Inr (new_ros 128))"

definition bridge_counts :: "ros_state \<Rightarrow> bridge_summary" where
  "bridge_counts s =
     \<lparr>br_received = rr_frames_received (rs_reader s), br_published = rs_published s,
      br_dropped = rr_frames_dropped (rs_reader s)\<rparr>"

definition ros_main :: "int \<Rightarrow> bool \<Rightarrow> ros_event list \<Rightarrow> thread_event list \<Rightarrow> (ros_state \<times> bridge_summary) result" where
  "ros_main port installed es closing =
     bindR (start_bridge port installed) (\<lambda>s.
       let s = run ros_step (ros_step (run ros_step s es) CloseReader) (map OfThread closing)
       in Inr (s, bridge_counts s))"

subsection \<open>The invariant\<close>

text \<open>
  What was taken since the connection was made, what is queued and what the thread has still to queue
  is a subsequence of what the connection brought; between connections nothing is queued. The frames
  that \<open>take\<close> kept are what was published and what the timer holds, in order. Every frame put was kept,
  discarded, or is queued; the two counters follow these numbers, but for what is about to be counted,
  and for the times that there was nothing to remove. The thread ends only after \<open>close\<close>.
\<close>

definition within_size :: "ros_reader \<Rightarrow> bool" where
  "within_size r \<longleftrightarrow> (if 0 < rr_queue_size r then int (length (rr_frames r)) \<le> rr_queue_size r else True)"

fun pending_of :: "thread_at \<Rightarrow> rtcm_frame list" where
  "pending_of (Queueing p fs) = fs"
| "pending_of (MakeRoom p f fs) = f # fs"
| "pending_of (CountRoom p f fs) = f # fs"
| "pending_of (PutAgain p f fs) = f # fs"
| "pending_of (CountReceived p fs) = fs"
| "pending_of _ = []"

fun no_queue :: "thread_at \<Rightarrow> bool" where
  "no_queue Waiting = True"
| "no_queue Connecting = True"
| "no_queue Ended = True"
| "no_queue _ = False"

fun has_room :: "thread_at \<Rightarrow> bool" where
  "has_room (CountRoom p f fs) = True"
| "has_room (PutAgain p f fs) = True"
| "has_room _ = False"

fun in_hand :: "timer_at \<Rightarrow> rtcm_frame list" where
  "in_hand Idle = []"
| "in_hand (Taking limit now out) = out"
| "in_hand (CountStale limit now out) = out"
| "in_hand (Publishing out) = out"

fun uncounted_put :: "thread_at \<Rightarrow> nat" where
  "uncounted_put (CountReceived p fs) = 1"
| "uncounted_put _ = 0"

fun uncounted_drop :: "thread_at \<Rightarrow> nat" where
  "uncounted_drop (DropCount k) = 1"
| "uncounted_drop (CountRoom p f fs) = 1"
| "uncounted_drop _ = 0"

fun uncounted_stale :: "timer_at \<Rightarrow> nat" where
  "uncounted_stale (CountStale limit now out) = 1"
| "uncounted_stale _ = 0"

definition message_content :: "ros_message \<Rightarrow> int \<times> bytes" where
  "message_content m = (rm_message_type m, rm_data m)"

definition frame_content :: "rtcm_frame \<Rightarrow> int \<times> bytes" where
  "frame_content f = (rf_message_type f, rf_raw f)"

definition queue_inv :: "ros_state \<Rightarrow> bool" where
  "queue_inv s \<longleftrightarrow>
     within_size (rs_reader s) \<and>
     (no_queue (rs_thread s) \<longrightarrow> rr_frames (rs_reader s) = []) \<and>
     (has_room (rs_thread s) \<longrightarrow> \<not> queue_full (rs_reader s)) \<and>
     rs_thread s \<noteq> Dropping ToEnd \<and> rs_thread s \<noteq> DropCount ToEnd \<and>
     (rs_thread s = Ended \<longrightarrow> rs_stop s) \<and>
     subseq (rg_taken s @ rr_frames (rs_reader s) @ pending_of (rs_thread s)) (rg_connection s) \<and>
     list_all (\<lambda>f. valid_rtcm3 (rf_raw f)) (rg_connection s)"

definition kept_inv :: "ros_state \<Rightarrow> bool" where
  "kept_inv s \<longleftrightarrow>
     list_all (\<lambda>(now, f). now - rf_received_at f < 1 \<and> valid_rtcm3 (rf_raw f)) (rg_kept s) \<and>
     rs_published s = length (rs_messages s) \<and>
     map message_content (rs_messages s) @ map frame_content (in_hand (rs_timer s)) =
       map (frame_content \<circ> snd) (rg_kept s)"

definition count_inv :: "ros_state \<Rightarrow> bool" where
  "count_inv s \<longleftrightarrow>
     rr_frames_received (rs_reader s) + uncounted_put (rs_thread s) = rg_put s \<and>
     rg_put s = length (rg_kept s) + rg_discarded s + length (rr_frames (rs_reader s)) \<and>
     rr_frames_dropped (rs_reader s) + uncounted_drop (rs_thread s) + uncounted_stale (rs_timer s) =
       rg_discarded s + rg_phantom s"

definition ros_inv :: "ros_state \<Rightarrow> bool" where
  "ros_inv s \<longleftrightarrow> queue_inv s \<and> kept_inv s \<and> count_inv s"

lemmas inv_defs = queue_inv_def kept_inv_def count_inv_def within_size_def
lemmas thread_defs = thread_to_def drop_queued_def count_drop_def count_dropped_def put_first_def make_room_def
  put_again_def count_received_def begin_session_def connect_failed_def receive_chunk_def get_nowait_def
  put_nowait_def

lemma ros_inv_new: "ros_inv (new_ros n)"
  by (simp add: ros_inv_def inv_defs new_ros_def new_ros_reader_def)

lemma subseq_prefix_only: "subseq (a @ b) c \<Longrightarrow> subseq a c"
  by (rule subseq_order.order_trans [of a "a @ b"]) (simp_all add: list_emb_prefix)

lemma subseq_skip: "subseq (a @ skipped @ b) c \<Longrightarrow> subseq (a @ b) c"
  by (rule subseq_order.order_trans [of _ "a @ skipped @ b"]) (simp_all only: subseq_append' list_emb_append2 subseq_order.refl)

lemma subseq_skip_one: "subseq (a @ f # b) c \<Longrightarrow> subseq (a @ b) c"
  using subseq_skip [of a "[f]" b c] by simp

lemma fed_valid: "list_all (\<lambda>f. valid_rtcm3 (rf_raw f)) (snd (rtcm_feed now p chunk))"
  using scan_good_valid by (auto simp: rtcm_feed_scan list_all_iff as_frame_def)

text \<open>Each action of the thread keeps the queue in order.\<close>

lemma drop_queued_queue:
  "queue_inv s \<Longrightarrow> rs_thread s = Dropping k \<Longrightarrow> queue_inv (drop_queued k s)"
  by (cases k) (auto simp: inv_defs thread_defs intro: subseq_skip_one split: list.splits)

lemma count_drop_queue:
  assumes "queue_inv s" and "pending_of t = pending_of (rs_thread s)" and "no_queue t \<longrightarrow> no_queue (rs_thread s)"
    and "has_room t \<longrightarrow> has_room (rs_thread s)" and "t \<noteq> Dropping ToEnd" "t \<noteq> DropCount ToEnd" "t \<noteq> Ended"
  shows "queue_inv (count_drop t s)"
  using assms by (simp add: inv_defs thread_defs queue_full_def)

lemma put_first_queue:
  "queue_inv s \<Longrightarrow> rs_thread s = Queueing p (f # fs) \<Longrightarrow> queue_inv (put_first p f fs s)"
  by (auto simp: inv_defs thread_defs queue_full_def split: if_splits)

lemma make_room_queue:
  assumes "queue_inv s" and "rs_thread s = MakeRoom p f fs"
  shows "queue_inv (make_room p f fs s)"
proof (cases "rr_frames (rs_reader s)")
  case (Cons g gs)
  then show ?thesis
    using assms subseq_skip_one [of "rg_taken s" g "gs @ f # fs" "rg_connection s"]
    by (auto simp: inv_defs thread_defs queue_full_def split: if_splits)
qed (use assms in \<open>auto simp: inv_defs thread_defs queue_full_def\<close>)

lemma put_again_queue:
  "queue_inv s \<Longrightarrow> rs_thread s = PutAgain p f fs \<Longrightarrow> queue_inv (put_again p f fs s)"
  by (auto simp: inv_defs thread_defs queue_full_def split: if_splits)

lemma receive_chunk_queue:
  assumes "queue_inv s" and "rs_thread s = Receiving p"
  shows "queue_inv (receive_chunk now chunk p s)"
proof (cases "chunk = []")
  case False
  obtain p' fs where f: "rtcm_feed now p chunk = (p', fs)" by (rule prod.exhaust)
  have "subseq ((rg_taken s @ rr_frames (rs_reader s)) @ fs) (rg_connection s @ fs)"
    using assms by (intro list_emb_append_mono) (simp_all add: inv_defs)
  then show ?thesis
    using assms False f fed_valid [of now p chunk] by (simp add: inv_defs thread_defs)
qed (use assms in \<open>simp add: inv_defs thread_defs\<close>)

lemma thread_step_queue:
  "queue_inv s \<Longrightarrow> rs_thread s = t \<Longrightarrow> queue_inv (thread_step t e s)"
proof (induction t e s rule: thread_step.induct)
  case (1 s)
  then show ?case by (auto simp: inv_defs thread_to_def)
next
  case (3 k s)
  then have "k \<noteq> ToEnd" by (auto simp: queue_inv_def)
  with 3 show ?case by (simp add: count_drop_queue)
next
  case (6 p s)
  then show ?case by (auto simp: inv_defs thread_to_def)
qed (auto simp: drop_queued_queue put_first_queue make_room_queue put_again_queue receive_chunk_queue
    intro!: count_drop_queue, auto simp: inv_defs thread_defs)

lemma timer_step_queue:
  "queue_inv s \<Longrightarrow> rs_timer s = t \<Longrightarrow> queue_inv (timer_step t e s)"
  by (induction t e s rule: timer_step.induct)
    (auto simp: inv_defs take_round_def publish_next_def count_dropped_def get_nowait_def queue_full_def
      intro: subseq_skip_one split: list.splits)

text \<open>What was kept, and the counters.\<close>

lemma thread_step_kept: "kept_inv s \<Longrightarrow> kept_inv (thread_step t e s)"
  by (induction t e s rule: thread_step.induct)
    (auto simp: kept_inv_def thread_defs split: list.splits prod.splits)

lemma timer_step_kept:
  assumes "queue_inv s" and "kept_inv s" and "rs_timer s = t"
  shows "kept_inv (timer_step t e s)"
proof -
  have "valid_rtcm3 (rf_raw f)" if "f \<in> set (rr_frames (rs_reader s))" for f
    using assms(1) that list_emb_set [of "(=)" _ "rg_connection s" f] by (fastforce simp: queue_inv_def list_all_iff)
  with assms(2,3) show ?thesis
    by (induction t e s rule: timer_step.induct)
      (auto simp: kept_inv_def take_round_def publish_next_def get_nowait_def message_content_def
        frame_content_def populate_rtcm_message_def split: list.splits)
qed

lemma thread_step_count:
  "count_inv s \<Longrightarrow> rs_thread s = t \<Longrightarrow> count_inv (thread_step t e s)"
proof (induction t e s rule: thread_step.induct)
  case (2 k s)
  then show ?case by (cases k) (auto simp: count_inv_def thread_defs split: list.splits)
qed (auto simp: count_inv_def thread_defs split: list.splits prod.splits)

lemma timer_step_count:
  "count_inv s \<Longrightarrow> rs_timer s = t \<Longrightarrow> count_inv (timer_step t e s)"
  by (induction t e s rule: timer_step.induct)
    (auto simp: count_inv_def take_round_def publish_next_def count_dropped_def get_nowait_def split: list.splits)

lemma ros_step_inv: "ros_inv s \<Longrightarrow> ros_inv (ros_step s e)"
proof (cases e)
  case CloseReader
  then show "ros_inv s \<Longrightarrow> ?thesis" by (simp add: ros_inv_def inv_defs)
qed (auto simp: ros_inv_def thread_step_queue thread_step_kept thread_step_count timer_step_queue
    timer_step_kept timer_step_count)

interpretation ros: machine ros_step ros_inv
  using ros_step_inv by unfold_locales blast

lemma thread_step_size: "rr_queue_size (rs_reader (thread_step t e s)) = rr_queue_size (rs_reader s)"
  by (induction t e s rule: thread_step.induct) (auto simp: thread_defs split: list.splits prod.splits)

lemma timer_step_size: "rr_queue_size (rs_reader (timer_step t e s)) = rr_queue_size (rs_reader s)"
  by (induction t e s rule: timer_step.induct)
    (auto simp: take_round_def publish_next_def count_dropped_def get_nowait_def split: list.splits)

lemma ros_step_size: "rr_queue_size (rs_reader (ros_step s e)) = rr_queue_size (rs_reader s)"
  by (cases e) (simp_all add: thread_step_size timer_step_size)

interpretation ros_size: machine ros_step "\<lambda>s. rr_queue_size (rs_reader s) = n"
  by unfold_locales (simp add: ros_step_size)

subsection \<open>What the reader guarantees\<close>

text \<open>
  A connection that brings two frames to a queue for one, where the timer takes the first frame just
  after the thread has found the queue full.
\<close>

abbreviation sample_frame :: bytes where
  "sample_frame \<equiv> [211, 0, 2, 62, 208, 164, 224, 0]"

definition sample_race :: "ros_event list" where
  "sample_race =
     map OfThread [Test, Proceed, Connect, Test, Chunk 1 (sample_frame @ sample_frame), Proceed, Proceed, Proceed] @
     map OfTimer [Fire (3 / 2), Continue 2] @
     map OfThread [Proceed, Proceed, Proceed, Proceed] @ map OfTimer [Continue 2, Continue 2, Continue 2, Continue 2]"

lemma sample_chunk:
  "snd (rtcm_feed 1 new_rtcm_parser (sample_frame @ sample_frame)) = [as_frame 1 sample_frame, as_frame 1 sample_frame]"
proof -
  have "list_all valid_rtcm3 [sample_frame, sample_frame]"
    by (simp add: rtcm_vector)
  from scan_clean [OF this] show ?thesis
    by (simp add: rtcm_feed_scan) (simp add: new_rtcm_parser_def)
qed

text \<open>Both frames are published and none is removed, yet the code counts a dropped frame.\<close>

lemma sample_race_counts:
  "let s = run ros_step (new_ros 1) sample_race
   in map rm_data (rs_messages s) = [sample_frame, sample_frame] \<and> rr_frames_received (rs_reader s) = 2 \<and>
      rr_frames_dropped (rs_reader s) = 1 \<and> rg_discarded s = 0 \<and> rg_phantom s = 1"
proof -
  obtain p where p: "rtcm_feed 1 new_rtcm_parser (sample_frame @ sample_frame) =
      (p, [as_frame 1 sample_frame, as_frame 1 sample_frame])"
    using sample_chunk by (metis surjective_pairing)
  show ?thesis
    using p
    by (simp add: sample_race_def new_ros_def new_ros_reader_def thread_defs queue_full_def take_round_def
        publish_next_def populate_rtcm_message_def as_frame_def Let_def eval_nat_numeral)
qed

text \<open>Property C38. For every interleaving of the reader's thread, the ROS timer and \<open>close\<close>, step by step
  (every \<open>get_nowait\<close>, every \<open>put_nowait\<close> and every update of a counter is a step), from a new reader
  with a queue of some positive size: the queue never exceeds that size, and the second \<open>put_nowait\<close> of
  \<open>_put_fresh\<close> never finds it full; what \<open>take\<close> keeps is younger than a second at the time that it
  read and a valid frame; what has been published is what \<open>take\<close> kept, each frame once and in order, but
  for what the callback still holds; what \<open>take\<close> kept since the last connection was made, what is queued
  and what the thread has still to queue are, in order, among the frames of that connection, so that none
  of the queued ones is of an earlier connection, and nothing is queued while the thread connects or waits
  to; every frame received was kept, was discarded or is queued; the dropped frames counted are the frames
  discarded, but for the two that the thread and the timer may be about to count, and for once more
  whenever the thread found the queue full and, a step later, empty; and the thread ends only after
  \<open>close\<close>.\<close>

theorem ros_reader_fresh:
  assumes "0 < n"
  shows "let s = run ros_step (new_ros n) es; r = rs_reader s
   in int (length (rr_frames r)) \<le> n \<and> rs_thread s \<noteq> Dropping ToEnd \<and>
      list_all (\<lambda>(now, f). now - rf_received_at f < 1 \<and> valid_rtcm3 (rf_raw f)) (rg_kept s) \<and>
      map message_content (rs_messages s) @ map frame_content (in_hand (rs_timer s)) =
        map (frame_content \<circ> snd) (rg_kept s) \<and>
      rs_published s = length (rs_messages s) \<and>
      subseq (rg_taken s @ rr_frames r @ pending_of (rs_thread s)) (rg_connection s) \<and>
      (rr_frames r = [] \<or> \<not> no_queue (rs_thread s)) \<and>
      rr_frames_received r + uncounted_put (rs_thread s) =
        length (rg_kept s) + rg_discarded s + length (rr_frames r) \<and>
      rr_frames_dropped r + uncounted_drop (rs_thread s) + uncounted_stale (rs_timer s) =
        rg_discarded s + rg_phantom s \<and>
      (rs_thread s \<noteq> Ended \<or> rs_stop s)"
proof -
  define s where "s = run ros_step (new_ros n) es"
  have inv: "ros_inv s"
    unfolding s_def by (rule ros.run_inv) (rule ros_inv_new)
  have size: "rr_queue_size (rs_reader s) = n"
    unfolding s_def by (rule ros_size.run_inv) (simp add: new_ros_def new_ros_reader_def)
  show ?thesis
    using inv size assms by (auto simp: ros_inv_def inv_defs Let_def simp flip: s_def)
qed

lemma ros_reader_fresh_witness:
  "let s = run ros_step (new_ros 1) sample_race; r = rs_reader s
   in map rm_data (rs_messages s) = [sample_frame, sample_frame] \<and> int (length (rr_frames r)) \<le> 1 \<and>
      list_all (\<lambda>(now, f). now - rf_received_at f < 1 \<and> valid_rtcm3 (rf_raw f)) (rg_kept s) \<and>
      2 + uncounted_put (rs_thread s) = length (rg_kept s) + length (rr_frames r)"
  using ros_reader_fresh [of 1 sample_race] sample_race_counts by (simp add: Let_def)

end
