(* ===== verification/Service_Config.thy ===== *)
theory Service_Config
  imports Prelude "HOL-Library.Sublist"
begin

text \<open>
  The configuration of the services (\<open>host/mowgli_lora/config.py\<close>) and the part of the services'
  start-up that reads it (\<open>service.py\<close>). The document is the value that \<open>yaml.safe_load\<close> returns;
  YAML itself is not modelled. Texts are ASCII. How Python reads a float from a text and how it
  prints a value that is not a text are arguments. The theorems show what \<open>load\<close> accepts, that it
  accepts all of it unchanged, and that the services find in it everything they look up.
\<close>

subsection \<open>Values and conversions\<close>

text \<open>What \<open>safe_load\<close> can return. Dates are true, hashable, and neither numbers nor texts.\<close>

datatype py_float = Finite real | Infinity bool | NaN

datatype yaml =
    YNull | YBool bool | YInt int | YFloat py_float | YStr string | YBytes string | YDate
  | YList "yaml list" | YSet "yaml list" | YMap "(yaml \<times> yaml) list"

type_synonym mapping_value = "(yaml \<times> yaml) list"

record text_conversions =
  float_of_text :: "string \<Rightarrow> py_float option"
  text_of_other :: "yaml \<Rightarrow> string"

fun truth :: "yaml \<Rightarrow> bool" where
  "truth YNull = False"
| "truth (YBool b) = b"
| "truth (YInt n) = (n \<noteq> 0)"
| "truth (YFloat x) = (x \<noteq> Finite 0)"
| "truth (YStr s) = (s \<noteq> [])"
| "truth (YBytes s) = (s \<noteq> [])"
| "truth YDate = True"
| "truth (YList xs) = (xs \<noteq> [])"
| "truth (YSet xs) = (xs \<noteq> [])"
| "truth (YMap m) = (m \<noteq> [])"

fun hashable :: "yaml \<Rightarrow> bool" where
  "hashable (YList xs) = False"
| "hashable (YSet xs) = False"
| "hashable (YMap m) = False"
| "hashable _ = True"

definition get :: "string \<Rightarrow> mapping_value \<Rightarrow> yaml" where
  "get k m = (case map_of m (YStr k) of None \<Rightarrow> YNull | Some v \<Rightarrow> v)"

definition get_or :: "string \<Rightarrow> yaml \<Rightarrow> mapping_value \<Rightarrow> yaml" where
  "get_or k other m = (case map_of m (YStr k) of None \<Rightarrow> other | Some v \<Rightarrow> v)"

text \<open>\<open>value in {...}\<close> for a set of texts.\<close>

definition in_texts :: "yaml \<Rightarrow> string list \<Rightarrow> bool result" where
  "in_texts v names =
     (if hashable v then Inr (v \<in> YStr ` set names) else Inl (TypeExc ''unhashable type''))"

text \<open>\<open>int(text)\<close>: spaces around, a sign, digits with single underscores between them.\<close>

definition is_space :: "char \<Rightarrow> bool" where
  "is_space c \<longleftrightarrow> of_char c \<in> {9, 10, 11, 12, 13, 28, 29, 30, 31, 32 :: nat}"

definition strip :: "string \<Rightarrow> string" where
  "strip s = rev (dropWhile is_space (rev (dropWhile is_space s)))"

definition is_digit :: "char \<Rightarrow> bool" where
  "is_digit c \<longleftrightarrow> 48 \<le> (of_char c :: nat) \<and> (of_char c :: nat) \<le> 57"

fun read_digits :: "bool \<Rightarrow> int \<Rightarrow> string \<Rightarrow> int option" where
  "read_digits needed acc [] = (if needed then None else Some acc)"
| "read_digits needed acc (c # cs) =
     (if is_digit c then read_digits False (acc * 10 + (of_char c - 48)) cs
      else if c = CHR ''_'' \<and> \<not> needed then read_digits True acc cs else None)"

definition int_of_text :: "string \<Rightarrow> int option" where
  "int_of_text s =
     (let t = strip s
      in if length (filter is_digit t) > 4300 then None
         else case t of
                [] \<Rightarrow> None
              | c # cs \<Rightarrow>
                  (if c = CHR ''-'' then map_option uminus (read_digits True 0 cs)
                   else if c = CHR ''+'' then read_digits True 0 cs else read_digits True 0 t))"

definition value_error :: "string \<Rightarrow> 'a option \<Rightarrow> 'a result" where
  "value_error what r = (case r of None \<Rightarrow> Inl (ValueExc what) | Some x \<Rightarrow> Inr x)"

fun to_int :: "yaml \<Rightarrow> int result" where
  "to_int (YInt n) = Inr n"
| "to_int (YBool b) = Inr (if b then 1 else 0)"
| "to_int (YFloat (Finite x)) = Inr (py_int x)"
| "to_int (YFloat (Infinity s)) = Inl OverflowExc"
| "to_int (YFloat NaN) = Inl (ValueExc ''cannot convert float NaN to integer'')"
| "to_int (YStr s) = value_error ''invalid literal for int()'' (int_of_text s)"
| "to_int (YBytes s) = value_error ''invalid literal for int()'' (int_of_text s)"
| "to_int _ = Inl (TypeExc ''int() argument must be a string or a real number'')"

text \<open>The least integer that rounds to no double is \<open>2 ^ 1024 - 2 ^ 970\<close>.\<close>

fun to_float :: "text_conversions \<Rightarrow> yaml \<Rightarrow> py_float result" where
  "to_float tc (YInt n) =
     (if \<bar>n\<bar> \<ge> 2 ^ 1024 - 2 ^ 970 then Inl OverflowExc else Inr (Finite (real_of_int n)))"
| "to_float tc (YBool b) = Inr (Finite (if b then 1 else 0))"
| "to_float tc (YFloat x) = Inr x"
| "to_float tc (YStr s) = value_error ''could not convert string to float'' (float_of_text tc s)"
| "to_float tc (YBytes s) = value_error ''could not convert string to float'' (float_of_text tc s)"
| "to_float tc _ = Inl (TypeExc ''float() argument must be a string or a real number'')"

fun to_text :: "text_conversions \<Rightarrow> yaml \<Rightarrow> string" where
  "to_text tc (YStr s) = s"
| "to_text tc v = text_of_other tc v"

definition upper_char :: "char \<Rightarrow> char" where
  "upper_char c =
     (if 97 \<le> (of_char c :: nat) \<and> (of_char c :: nat) \<le> 122 then char_of (of_char c - 32 :: nat) else c)"

subsection \<open>The configuration\<close>

record modem_config =
  mc_device :: string
  mc_baudrate :: int
  mc_reconnect_seconds :: time

record service_config =
  cf_role :: string
  cf_modem :: modem_config
  cf_metrics_bind :: string
  cf_metrics_port :: int
  cf_logging_level :: string
  cf_rtcm_input :: mapping_value
  cf_rtcm_output :: mapping_value

text \<open>The messages of the exceptions name the key; the model keeps the name.\<close>

fun as_mapping :: "yaml \<Rightarrow> string \<Rightarrow> mapping_value result" where
  "as_mapping (YMap m) name = Inr m"
| "as_mapping _ name = Inl (TypeExc name)"

text \<open>\<open>except (TypeError, ValueError)\<close> around \<open>int\<close>.\<close>

definition int_or_refuse :: "yaml \<Rightarrow> string \<Rightarrow> int result" where
  "int_or_refuse v name =
     (case to_int v of
        Inr n \<Rightarrow> Inr n
      | Inl (TypeExc _) \<Rightarrow> Inl (ValueExc name)
      | Inl (ValueExc _) \<Rightarrow> Inl (ValueExc name)
      | Inl e \<Rightarrow> Inl e)"

definition as_port :: "yaml \<Rightarrow> string \<Rightarrow> int result" where
  "as_port v name =
     bindR (int_or_refuse v name) (\<lambda>port.
       if 1 \<le> port \<and> port \<le> 65535 then Inr port else Inl (ValueExc name))"

definition positive_int :: "yaml \<Rightarrow> string \<Rightarrow> int result" where
  "positive_int v name =
     bindR (int_or_refuse v name) (\<lambda>n. if n \<le> 0 then Inl (ValueExc name) else Inr n)"

text \<open>\<open>isinstance(value, str)\<close> and not empty.\<close>

fun nonempty_text :: "yaml \<Rightarrow> bool" where
  "nonempty_text (YStr s) = (s \<noteq> [])"
| "nonempty_text _ = False"

definition rtcm_source :: "mapping_value \<Rightarrow> mapping_value result" where
  "rtcm_source source =
     bindR (in_texts (get ''type'' source) [''stdin'', ''tcp'', ''serial'']) (\<lambda>known.
       if \<not> known then Inl (ValueExc ''rtcm.input.type'')
       else if get ''type'' source = YStr ''tcp''
       then (if \<not> nonempty_text (get ''host'' source) then Inl (ValueExc ''rtcm.input.host'')
             else bindR (as_port (get ''port'' source) ''rtcm.input.port'')
                    (\<lambda>port. Inr (AList.update (YStr ''port'') (YInt port) source)))
       else if get ''type'' source = YStr ''serial''
       then (if \<not> nonempty_text (get ''device'' source) then Inl (ValueExc ''rtcm.input.device'')
             else case map_of source (YStr ''baudrate'') of
                    None \<Rightarrow> Inl (ValueExc ''rtcm.input.baudrate'')
                  | Some v \<Rightarrow> bindR (positive_int v ''rtcm.input.baudrate'')
                                (\<lambda>b. Inr (AList.update (YStr ''baudrate'') (YInt b) source)))
       else Inr source)"

definition rtcm_sink :: "mapping_value \<Rightarrow> mapping_value result" where
  "rtcm_sink output =
     (if get ''type'' output \<noteq> YStr ''tcp'' then Inl (ValueExc ''rtcm.output.type'')
      else if \<not> nonempty_text (get ''bind'' output) then Inl (ValueExc ''rtcm.output.bind'')
      else bindR (as_port (get ''port'' output) ''rtcm.output.port'')
             (\<lambda>port. Inr (AList.update (YStr ''port'') (YInt port) output)))"

definition rtcm_config :: "string \<Rightarrow> mapping_value \<Rightarrow> (mapping_value \<times> mapping_value) result" where
  "rtcm_config role rtcm =
     (if role = ''base''
      then bindR (as_mapping (get ''input'' rtcm) ''rtcm.input'')
             (\<lambda>source. bindR (rtcm_source source) (\<lambda>source. Inr (source, [])))
      else bindR (as_mapping (get ''output'' rtcm) ''rtcm.output'')
             (\<lambda>output. bindR (rtcm_sink output) (\<lambda>output. Inr ([], output))))"

definition LOGGING_LEVELS :: "string list" where
  "LOGGING_LEVELS = [''CRITICAL'', ''ERROR'', ''WARNING'', ''INFO'', ''DEBUG'']"

definition DEVICE_PREFIX :: string where
  "DEVICE_PREFIX = ''/dev/serial/by-id/''"

fun stable_device :: "yaml \<Rightarrow> string result" where
  "stable_device (YStr s) =
     (if prefix DEVICE_PREFIX s then Inr s else Inl (ValueExc ''modem.device''))"
| "stable_device _ = Inl (ValueExc ''modem.device'')"

text \<open>\<open>not math.isfinite(x) or not 0 <= x <= 60\<close>.\<close>

fun reconnect_time :: "py_float \<Rightarrow> time result" where
  "reconnect_time (Finite x) =
     (if 0 \<le> x \<and> x \<le> 60 then Inr x else Inl (ValueExc ''reconnect_seconds''))"
| "reconnect_time _ = Inl (ValueExc ''reconnect_seconds'')"

text \<open>\<open>value or {}\<close>.\<close>

definition or_empty :: "yaml \<Rightarrow> yaml" where
  "or_empty v = (if truth v then v else YMap [])"

text \<open>The role is a text once it is known to be one of the two.\<close>

definition as_role :: "yaml \<Rightarrow> string result" where
  "as_role v =
     bindR (in_texts v [''base'', ''robot'']) (\<lambda>known.
       if \<not> known then Inl (ValueExc ''role'')
       else Inr (if v = YStr ''base'' then ''base'' else ''robot''))"

definition load :: "text_conversions \<Rightarrow> yaml \<Rightarrow> service_config result" where
  "load tc document =
     bindR (as_mapping (or_empty document) ''configuration root'') (\<lambda>data.
     bindR (as_role (get ''role'' data)) (\<lambda>role.
     bindR (as_mapping (get ''modem'' data) ''modem'') (\<lambda>modem.
     bindR (stable_device (get ''device'' modem)) (\<lambda>device.
     bindR (as_mapping (or_empty (get ''metrics'' data)) ''metrics'') (\<lambda>metrics.
     bindR (as_mapping (get ''rtcm'' data) ''rtcm'') (\<lambda>rtcm.
     bindR (as_mapping (or_empty (get ''logging'' data)) ''logging'') (\<lambda>logging.
     bindR (positive_int (get_or ''baudrate'' (YInt 115200) modem) ''modem.baudrate'') (\<lambda>baudrate.
     bindR (to_float tc (get_or ''reconnect_seconds'' (YFloat (Finite 1)) modem)) (\<lambda>reconnect.
     bindR (as_port (get_or ''port'' (YInt 9608) metrics) ''metrics.port'') (\<lambda>port.
     let level = map upper_char (to_text tc (get_or ''level'' (YStr ''INFO'') logging))
     in bindR (reconnect_time reconnect) (\<lambda>reconnect_seconds.
        if level \<notin> set LOGGING_LEVELS then Inl (ValueExc ''logging.level'')
        else bindR (rtcm_config role rtcm) (\<lambda>(rtcm_input, rtcm_output). Inr
          \<lparr>cf_role = role,
           cf_modem = \<lparr>mc_device = device, mc_baudrate = baudrate,
                       mc_reconnect_seconds = reconnect_seconds\<rparr>,
           cf_metrics_bind = to_text tc (get_or ''bind'' (YStr ''127.0.0.1'') metrics),
           cf_metrics_port = port, cf_logging_level = level,
           cf_rtcm_input = rtcm_input, cf_rtcm_output = rtcm_output\<rparr>))))))))))))"

text \<open>
  The reading and parsing before that, \<open>yaml.safe_load(Path(path).read_text())\<close>: it gives a document
  or raises an exception of the file system, of the decoding or of the parser (\<open>yaml.YAMLError\<close>), of
  any type \<open>'e\<close>, which \<open>load\<close> lets through.
\<close>

definition load_file :: "text_conversions \<Rightarrow> 'e + yaml \<Rightarrow> ('e + py_exc) + service_config" where
  "load_file tc parsed =
     (case parsed of
        Inl e \<Rightarrow> Inl (Inl e)
      | Inr document \<Rightarrow> (case load tc document of Inl e \<Rightarrow> Inl (Inr e) | Inr c \<Rightarrow> Inr c))"

subsection \<open>What the services look up\<close>

text \<open>\<open>_open_input_source\<close> up to the opening itself: what it opens.\<close>

datatype input_endpoint = Stdin | TcpInput string int | SerialInput string int

definition item :: "string \<Rightarrow> mapping_value \<Rightarrow> yaml result" where
  "item k m = (case map_of m (YStr k) of None \<Rightarrow> Inl KeyError | Some v \<Rightarrow> Inr v)"

definition input_endpoint_of :: "text_conversions \<Rightarrow> mapping_value \<Rightarrow> input_endpoint result" where
  "input_endpoint_of tc config =
     (let kind = get_or ''type'' (YStr ''stdin'') config
      in if kind = YStr ''stdin'' then Inr Stdin
         else if kind = YStr ''tcp''
         then bindR (item ''host'' config) (\<lambda>host. bindR (item ''port'' config) (\<lambda>port.
              bindR (to_int port) (\<lambda>n. Inr (TcpInput (to_text tc host) n))))
         else if kind = YStr ''serial''
         then bindR (item ''device'' config) (\<lambda>device.
              bindR (to_int (get_or ''baudrate'' (YInt 115200) config))
                (\<lambda>n. Inr (SerialInput (to_text tc device) n)))
         else Inl (ValueExc ''rtcm.input.type must be stdin, tcp, or serial''))"

text \<open>\<open>_run_robot\<close> up to the socket: the address it binds.\<close>

definition output_endpoint_of :: "text_conversions \<Rightarrow> mapping_value \<Rightarrow> (string \<times> int) result" where
  "output_endpoint_of tc output =
     (if get_or ''type'' (YStr ''tcp'') output \<noteq> YStr ''tcp''
      then Inl (ValueExc ''only rtcm.output.type=tcp is currently supported'')
      else bindR (item ''port'' output) (\<lambda>port. bindR (to_int port) (\<lambda>n.
           Inr (to_text tc (get_or ''bind'' (YStr ''127.0.0.1'') output), n))))"

text \<open>\<open>_main\<close>: the configuration must be for the role the program was started in.\<close>

definition start_config :: "text_conversions \<Rightarrow> string \<Rightarrow> yaml \<Rightarrow> service_config result" where
  "start_config tc role document =
     bindR (load tc document) (\<lambda>config.
       if cf_role config \<noteq> role then Inl (SystemExit ''config role'') else Inr config)"


subsection \<open>What a loaded configuration is\<close>

definition valid_port :: "int \<Rightarrow> bool" where
  "valid_port p \<longleftrightarrow> 1 \<le> p \<and> p \<le> 65535"

definition valid_source :: "mapping_value \<Rightarrow> bool" where
  "valid_source m \<longleftrightarrow>
     get ''type'' m = YStr ''stdin'' \<or>
     get ''type'' m = YStr ''tcp'' \<and> nonempty_text (get ''host'' m) \<and>
       (\<exists>p. map_of m (YStr ''port'') = Some (YInt p) \<and> valid_port p) \<or>
     get ''type'' m = YStr ''serial'' \<and> nonempty_text (get ''device'' m) \<and>
       (\<exists>b. map_of m (YStr ''baudrate'') = Some (YInt b) \<and> 0 < b)"

definition valid_sink :: "mapping_value \<Rightarrow> bool" where
  "valid_sink m \<longleftrightarrow>
     get ''type'' m = YStr ''tcp'' \<and> nonempty_text (get ''bind'' m) \<and>
     (\<exists>p. map_of m (YStr ''port'') = Some (YInt p) \<and> valid_port p)"

definition valid_config :: "service_config \<Rightarrow> bool" where
  "valid_config c \<longleftrightarrow>
     prefix DEVICE_PREFIX (mc_device (cf_modem c)) \<and> 0 < mc_baudrate (cf_modem c) \<and>
     0 \<le> mc_reconnect_seconds (cf_modem c) \<and> mc_reconnect_seconds (cf_modem c) \<le> 60 \<and>
     valid_port (cf_metrics_port c) \<and> cf_logging_level c \<in> set LOGGING_LEVELS \<and>
     (cf_role c = ''base'' \<and> valid_source (cf_rtcm_input c) \<and> cf_rtcm_output c = [] \<or>
      cf_role c = ''robot'' \<and> cf_rtcm_input c = [] \<and> valid_sink (cf_rtcm_output c))"

text \<open>The exceptions of a refusal. \<open>OverflowError\<close> is the one the code does not mean to raise.\<close>

definition refusal :: "py_exc \<Rightarrow> bool" where
  "refusal e = (case e of TypeExc _ \<Rightarrow> True | ValueExc _ \<Rightarrow> True | OverflowExc \<Rightarrow> True | _ \<Rightarrow> False)"

lemma refusal_simps [simp]: "refusal (TypeExc s)" "refusal (ValueExc s)" "refusal OverflowExc"
  by (simp_all add: refusal_def)

text \<open>A result that is refused properly or has a property; it composes along \<open>bindR\<close>.\<close>

definition checked :: "('a \<Rightarrow> bool) \<Rightarrow> 'a result \<Rightarrow> bool" where
  "checked P r = (case r of Inl e \<Rightarrow> refusal e | Inr x \<Rightarrow> P x)"

lemma checked_simps [simp]: "checked P (Inl e) = refusal e" "checked P (Inr x) = P x"
  by (simp_all add: checked_def)

lemma checked_bind: "checked P r \<Longrightarrow> (\<And>x. P x \<Longrightarrow> checked Q (f x)) \<Longrightarrow> checked Q (bindR r f)"
  by (cases r) auto

lemma checked_mapping: "checked (\<lambda>_. True) (as_mapping v name)"
  by (cases v) auto

lemma checked_texts: "checked (\<lambda>b. b \<longleftrightarrow> v \<in> YStr ` set names) (in_texts v names)"
  by (simp add: in_texts_def)

lemma checked_role: "checked (\<lambda>r. r = ''base'' \<or> r = ''robot'') (as_role v)"
  unfolding as_role_def by (rule checked_bind [OF checked_texts]) auto

lemma checked_value_error: "checked (\<lambda>_. True) (value_error what r)"
  by (simp add: value_error_def split: option.splits)

lemma checked_to_int: "checked (\<lambda>_. True) (to_int v)"
  by (induction v rule: to_int.induct) (auto simp: checked_value_error)

lemma checked_int: "checked (\<lambda>_. True) (int_or_refuse v name)"
  using checked_to_int [of v]
  by (auto simp: int_or_refuse_def refusal_def split: sum.splits py_exc.splits)

lemma checked_float: "checked (\<lambda>_. True) (to_float tc v)"
  by (induction tc v rule: to_float.induct) (auto simp: checked_value_error)

lemma checked_port: "checked valid_port (as_port v name)"
  unfolding as_port_def by (rule checked_bind [OF checked_int]) (simp add: valid_port_def)

lemma checked_positive: "checked (\<lambda>n. 0 < n) (positive_int v name)"
  unfolding positive_int_def by (rule checked_bind [OF checked_int]) simp

lemma checked_device: "checked (prefix DEVICE_PREFIX) (stable_device v)"
  by (cases v) auto

lemma checked_reconnect: "checked (\<lambda>t. 0 \<le> t \<and> t \<le> 60) (reconnect_time x)"
  by (cases x) auto

lemma get_update: "get k (AList.update (YStr j) v m) = (if k = j then v else get k m)"
  by (auto simp: get_def update_conv' split: option.splits)

lemma checked_source: "checked valid_source (rtcm_source m)"
  unfolding rtcm_source_def
proof (rule checked_bind [OF checked_texts])
  fix known
  assume known: "known \<longleftrightarrow> get ''type'' m \<in> YStr ` set [''stdin'', ''tcp'', ''serial'']"
  have "checked valid_source (bindR (as_port v name)
      (\<lambda>port. Inr (AList.update (YStr ''port'') (YInt port) m)))"
    if "get ''type'' m = YStr ''tcp''" "nonempty_text (get ''host'' m)" for v name
    by (rule checked_bind [OF checked_port]) (use that in \<open>simp add: valid_source_def get_update update_conv'\<close>)
  moreover have "checked valid_source (bindR (positive_int v name)
      (\<lambda>b. Inr (AList.update (YStr ''baudrate'') (YInt b) m)))"
    if "get ''type'' m = YStr ''serial''" "nonempty_text (get ''device'' m)" for v name
    by (rule checked_bind [OF checked_positive]) (use that in \<open>simp add: valid_source_def get_update update_conv'\<close>)
  ultimately show "checked valid_source (if \<not> known then Inl (ValueExc ''rtcm.input.type'')
       else if get ''type'' m = YStr ''tcp''
       then (if \<not> nonempty_text (get ''host'' m) then Inl (ValueExc ''rtcm.input.host'')
             else bindR (as_port (get ''port'' m) ''rtcm.input.port'')
                    (\<lambda>port. Inr (AList.update (YStr ''port'') (YInt port) m)))
       else if get ''type'' m = YStr ''serial''
       then (if \<not> nonempty_text (get ''device'' m) then Inl (ValueExc ''rtcm.input.device'')
             else case map_of m (YStr ''baudrate'') of
                    None \<Rightarrow> Inl (ValueExc ''rtcm.input.baudrate'')
                  | Some v \<Rightarrow> bindR (positive_int v ''rtcm.input.baudrate'')
                                (\<lambda>b. Inr (AList.update (YStr ''baudrate'') (YInt b) m)))
       else Inr m)"
    using known by (auto simp: valid_source_def split: option.splits)
qed

lemma checked_sink: "checked valid_sink (rtcm_sink m)"
proof -
  have "checked valid_sink (bindR (as_port v name)
      (\<lambda>port. Inr (AList.update (YStr ''port'') (YInt port) m)))"
    if "get ''type'' m = YStr ''tcp''" "nonempty_text (get ''bind'' m)" for v name
    by (rule checked_bind [OF checked_port]) (use that in \<open>simp add: valid_sink_def get_update update_conv'\<close>)
  then show ?thesis by (simp add: rtcm_sink_def)
qed

lemma checked_rtcm:
  "checked (\<lambda>(i, out). role = ''base'' \<and> valid_source i \<and> out = [] \<or>
      role \<noteq> ''base'' \<and> i = [] \<and> valid_sink out) (rtcm_config role m)"
  unfolding rtcm_config_def
  by (cases "role = ''base''")
    (auto intro!: checked_bind [OF checked_mapping] checked_bind [OF checked_source] checked_bind [OF checked_sink])

lemma checked_load: "checked valid_config (load tc document)"
  unfolding load_def Let_def
proof (intro checked_bind [OF checked_mapping] checked_bind [OF checked_role]
    checked_bind [OF checked_device] checked_bind [OF checked_positive] checked_bind [OF checked_float]
    checked_bind [OF checked_port] checked_bind [OF checked_reconnect])
qed (auto intro!: checked_bind [OF checked_rtcm] simp: valid_config_def)


lemma load_valid: "load tc document = Inr c \<Longrightarrow> valid_config c"
  using checked_load [of tc document] by simp

text \<open>Where a service connects to or listens.\<close>

definition endpoint_ok :: "input_endpoint \<Rightarrow> bool" where
  "endpoint_ok e =
     (case e of
        Stdin \<Rightarrow> True
      | TcpInput host port \<Rightarrow> host \<noteq> [] \<and> valid_port port
      | SerialInput device baudrate \<Rightarrow> device \<noteq> [] \<and> 0 < baudrate)"

lemma nonempty_get:
  "nonempty_text (get k m) \<Longrightarrow> \<exists>s. map_of m (YStr k) = Some (YStr s) \<and> s \<noteq> []"
  by (cases "map_of m (YStr k)"; cases "get k m") (auto simp: get_def)

lemma get_text: "get k m = YStr s \<longleftrightarrow> map_of m (YStr k) = Some (YStr s)"
  by (auto simp: get_def split: option.splits)

lemma source_endpoint:
  "valid_source m \<Longrightarrow> \<exists>e. input_endpoint_of tc m = Inr e \<and> endpoint_ok e"
  by (auto simp: valid_source_def input_endpoint_of_def get_or_def get_text item_def endpoint_ok_def
      dest!: nonempty_get)

lemma sink_endpoint:
  "valid_sink m \<Longrightarrow> \<exists>host port. output_endpoint_of tc m = Inr (host, port) \<and> host \<noteq> [] \<and> valid_port port"
  by (auto simp: valid_sink_def output_endpoint_of_def get_or_def get_text item_def dest!: nonempty_get)

text \<open>
  Property C27. Whatever the configuration file holds, \<open>load\<close> does one of three things: it lets the
  exception through that reading or parsing the file raises; or it refuses the parsed document with a
  TypeError, ValueError or OverflowError; or it returns a configuration within every bound (stable
  device path, positive baud rate, reconnect time of 0 to 60 s, port of 1 to 65535, known log
  level, the sections of its role and no others) in which the service of its role finds the endpoint
  it is to open, so that no look-up or conversion of the start-up raises.
\<close>

theorem config_sound:
  "case load_file tc parsed of
     Inl (Inl e) \<Rightarrow> parsed = Inl e
   | Inl (Inr e) \<Rightarrow> refusal e \<and> (\<exists>document. parsed = Inr document)
   | Inr c \<Rightarrow> valid_config c \<and>
       (\<exists>document. parsed = Inr document \<and> start_config tc (cf_role c) document = Inr c) \<and>
       (if cf_role c = ''base''
        then \<exists>e. input_endpoint_of tc (cf_rtcm_input c) = Inr e \<and> endpoint_ok e
        else cf_role c = ''robot'' \<and> (\<exists>host port. output_endpoint_of tc (cf_rtcm_output c) = Inr (host, port) \<and>
               host \<noteq> [] \<and> valid_port port))"
proof (cases parsed)
  case (Inr document)
  show ?thesis
  proof (cases "load tc document")
    case (Inl e)
    with Inr show ?thesis using checked_load [of tc document] by (simp add: load_file_def)
  next
    case c: (Inr c)
    then have "valid_config c" by (rule load_valid)
    with Inr c source_endpoint sink_endpoint show ?thesis
      by (cases "cf_role c = ''base''") (auto simp: valid_config_def start_config_def load_file_def)
  qed
qed (simp add: load_file_def)

text \<open>The document of a configuration, with every key written out.\<close>

definition document_of :: "service_config \<Rightarrow> yaml" where
  "document_of c =
     YMap [(YStr ''role'', YStr (cf_role c)),
       (YStr ''modem'', YMap [(YStr ''device'', YStr (mc_device (cf_modem c))),
          (YStr ''baudrate'', YInt (mc_baudrate (cf_modem c))),
          (YStr ''reconnect_seconds'', YFloat (Finite (mc_reconnect_seconds (cf_modem c))))]),
       (YStr ''rtcm'', YMap [(if cf_role c = ''base'' then (YStr ''input'', YMap (cf_rtcm_input c))
                              else (YStr ''output'', YMap (cf_rtcm_output c)))]),
       (YStr ''metrics'', YMap [(YStr ''bind'', YStr (cf_metrics_bind c)),
          (YStr ''port'', YInt (cf_metrics_port c))]),
       (YStr ''logging'', YMap [(YStr ''level'', YStr (cf_logging_level c))])]"

lemma update_same: "map_of m k = Some v \<Longrightarrow> AList.update k v m = m"
  by (induction m) (auto split: if_splits)

lemma as_port_valid: "valid_port p \<Longrightarrow> as_port (YInt p) name = Inr p"
  by (simp add: as_port_def int_or_refuse_def valid_port_def)

lemma rtcm_source_valid: "valid_source m \<Longrightarrow> rtcm_source m = Inr m"
  by (auto simp: valid_source_def rtcm_source_def in_texts_def as_port_valid update_same
      positive_int_def int_or_refuse_def) (simp_all add: get_def as_port_valid update_same)

lemma rtcm_sink_valid: "valid_sink m \<Longrightarrow> rtcm_sink m = Inr m"
  by (auto simp: valid_sink_def rtcm_sink_def) (simp add: get_def as_port_valid update_same)

lemma upper_level: "level \<in> set LOGGING_LEVELS \<Longrightarrow> map upper_char level = level"
  by (auto simp: LOGGING_LEVELS_def upper_char_def)

text \<open>
  Property C28. Every configuration within the bounds can be written: \<open>load\<close> returns the
  document of a valid configuration exactly as that configuration, so checking and normalising
  change nothing that is valid, and a configuration that was loaded loads again as itself.
\<close>

theorem config_roundtrip:
  assumes "valid_config c"
  shows "load tc (document_of c) = Inr c"
proof -
  have "rtcm_config (cf_role c) [if cf_role c = ''base'' then (YStr ''input'', YMap (cf_rtcm_input c))
      else (YStr ''output'', YMap (cf_rtcm_output c))] = Inr (cf_rtcm_input c, cf_rtcm_output c)"
    using assms
    by (auto simp: valid_config_def rtcm_config_def get_def rtcm_source_valid rtcm_sink_valid)
  moreover have "as_role (YStr (cf_role c)) = Inr (cf_role c)"
    using assms by (auto simp: valid_config_def as_role_def in_texts_def)
  ultimately show ?thesis
    using assms
    by (simp add: load_def document_of_def or_empty_def get_def get_or_def valid_config_def
        positive_int_def int_or_refuse_def as_port_valid upper_level)
qed

definition sample_config :: service_config where
  "sample_config =
     \<lparr>cf_role = ''base'',
      cf_modem = \<lparr>mc_device = ''/dev/serial/by-id/usb-modem'', mc_baudrate = 115200,
                  mc_reconnect_seconds = 1\<rparr>,
      cf_metrics_bind = ''127.0.0.1'', cf_metrics_port = 9608, cf_logging_level = ''INFO'',
      cf_rtcm_input = [(YStr ''type'', YStr ''tcp''), (YStr ''host'', YStr ''caster''),
                       (YStr ''port'', YInt 2101)],
      cf_rtcm_output = []\<rparr>"

lemma config_roundtrip_witness:
  "load \<lparr>float_of_text = (\<lambda>_. None), text_of_other = (\<lambda>_. [])\<rparr> (document_of sample_config) =
     Inr sample_config"
  by (rule config_roundtrip)
    (simp add: valid_config_def sample_config_def DEVICE_PREFIX_def valid_port_def LOGGING_LEVELS_def
      valid_source_def get_def)

text \<open>An infinite port is not refused like other values that are no integers.\<close>

lemma infinite_port_escapes: "as_port (YFloat (Infinity True)) name = Inl OverflowExc"
  by (simp add: as_port_def int_or_refuse_def)

end
