(* ===== verification/Modem_Client.thy ===== *)
theory Modem_Client
  imports Statements Stream_Decoder "HOL-Library.Multiset" "HOL-Library.Sublist"
begin

text \<open>
  The synchronous modem client of the benches (\<open>tools/lora_usb/client.py\<close>): \<open>ModemClient\<close>. What the
  serial port reads and accepts and what the clock shows are functions of the number of the
  interaction; the session that the constructor draws is an argument. \<open>session_events\<close> and
  \<open>last_completed\<close>, which nothing reads, are left out. The theorems show that every request ends,
  that its answer is the answer to it, and that the client loses and invents no frame.
\<close>

subsection \<open>The client and its port\<close>

record client_world =
  cw_read :: "nat \<Rightarrow> bytes result"
  cw_write :: "nat \<Rightarrow> unit result"
  cw_clock :: "nat \<Rightarrow> time"

text \<open>Ghosts: the bytes written, the frames accepted into the inbox and those handed out.\<close>

record modem_client =
  mcl_session :: int
  mcl_sequence :: int
  mcl_decoder :: stream_decoder
  mcl_inbox :: "usb_frame list"
  mcl_info :: "bytes option"
  mcl_usb_bytes_read :: nat
  mcl_frames_decoded :: nat
  mcl_wrong_session :: nat
  mcl_radio_rx_events :: nat
  mcl_radio_rx_matched :: nat
  mcl_responses :: nat
  mcl_reads :: nat
  mcl_writes :: nat
  mcl_clocks :: nat
  mg_written :: "bytes list"
  mg_accepted :: "usb_frame list"
  mg_taken :: "usb_frame list"

type_synonym 'a client_act = "(modem_client, 'a) act"
type_synonym 'a client_call = "modem_client \<Rightarrow> (modem_client \<times> 'a result) option"

definition read_port :: "client_world \<Rightarrow> bytes client_act" where
  "read_port w m = (m\<lparr>mcl_reads := Suc (mcl_reads m)\<rparr>, cw_read w (mcl_reads m))"

definition write_port :: "client_world \<Rightarrow> bytes \<Rightarrow> unit client_act" where
  "write_port w data m =
     (m\<lparr>mcl_writes := Suc (mcl_writes m), mg_written := mg_written m @ [data]\<rparr>, cw_write w (mcl_writes m))"

definition read_clock :: "client_world \<Rightarrow> time client_act" where
  "read_clock w m = (m\<lparr>mcl_clocks := Suc (mcl_clocks m)\<rparr>, Inr (cw_clock w (mcl_clocks m)))"

text \<open>The constructor, once the port is open; it writes a delimiter.\<close>

definition new_modem_client :: "client_world \<Rightarrow> int \<Rightarrow> modem_client \<times> unit result" where
  "new_modem_client w session =
     write_port w [0]
       \<lparr>mcl_session = session, mcl_sequence = 0, mcl_decoder = new_stream_decoder, mcl_inbox = [],
        mcl_info = None, mcl_usb_bytes_read = 0, mcl_frames_decoded = 0, mcl_wrong_session = 0,
        mcl_radio_rx_events = 0, mcl_radio_rx_matched = 0, mcl_responses = 0, mcl_reads = 0,
        mcl_writes = 0, mcl_clocks = 0, mg_written = [], mg_accepted = [], mg_taken = []\<rparr>"

definition next_sequence_number :: "int client_act" where
  "next_sequence_number m =
     (let m' = m\<lparr>mcl_sequence := mcl_sequence m + 1\<rparr>
      in (m', if mcl_sequence m' = 0xFFFFFFFF then Inl (ModemError ''sequence exhausted'')
              else Inr (mcl_sequence m')))"

definition accept_frame :: "usb_frame \<Rightarrow> modem_client \<Rightarrow> modem_client" where
  "accept_frame f m0 =
     (let m = m0\<lparr>mcl_frames_decoded := Suc (mcl_frames_decoded m0)\<rparr>
      in if uf_session f \<noteq> mcl_session m
         then m\<lparr>mcl_wrong_session := Suc (mcl_wrong_session m)\<rparr>
         else (let m' = m\<lparr>mcl_inbox := mcl_inbox m @ [f], mg_accepted := mg_accepted m @ [f]\<rparr>
               in if uf_msg_type f = RADIO_RX
                  then m'\<lparr>mcl_radio_rx_events := Suc (mcl_radio_rx_events m')\<rparr>
                  else m'\<lparr>mcl_responses := Suc (mcl_responses m')\<rparr>))"

definition poll :: "client_world \<Rightarrow> usb_frame list client_act" where
  "poll w =
     seqA (read_port w) (\<lambda>data m.
       (let (d, frames) = feed (mcl_decoder m) data;
            m' = fold accept_frame frames
                   (m\<lparr>mcl_usb_bytes_read := mcl_usb_bytes_read m + length data, mcl_decoder := d\<rparr>)
        in (m', Inr (mcl_inbox m'))))"

subsection \<open>Requests\<close>

text \<open>The first frame of the inbox that answers the request, and the inbox without it.\<close>

datatype answer = Reply usb_frame "usb_frame list" | Refused bytes | NoAnswer

fun keep_before :: "usb_frame \<Rightarrow> answer \<Rightarrow> answer" where
  "keep_before f (Reply g gs) = Reply g (f # gs)"
| "keep_before f r = r"

fun find_answer :: "int \<Rightarrow> int \<Rightarrow> usb_frame list \<Rightarrow> answer" where
  "find_answer msg_type sqn [] = NoAnswer"
| "find_answer msg_type sqn (f # fs) =
     (if uf_msg_type f = msg_type \<and> uf_sequence f = sqn then Reply f fs
      else if uf_msg_type f = USB_ERROR \<and> uf_sequence f = sqn then Refused (uf_payload f)
      else keep_before f (find_answer msg_type sqn fs))"

definition hex_digit :: "nat \<Rightarrow> char" where
  "hex_digit n = char_of (if n < 10 then 48 + n else 87 + n)"

definition hex :: "bytes \<Rightarrow> string" where
  "hex bs = concat (map (\<lambda>b. [hex_digit (unat b div 16), hex_digit (unat b mod 16)]) bs)"

definition take_answer :: "usb_frame \<Rightarrow> usb_frame list \<Rightarrow> modem_client \<Rightarrow> modem_client" where
  "take_answer f rest m = m\<lparr>mcl_inbox := rest, mg_taken := mg_taken m @ [f]\<rparr>"

partial_function (option) wait_response ::
  "client_world \<Rightarrow> int \<Rightarrow> int \<Rightarrow> time \<Rightarrow> modem_client \<Rightarrow> (modem_client \<times> usb_frame result) option" where
  "wait_response w msg_type sqn deadline m0 =
     (case read_clock w m0 of
        (m1, Inl e) \<Rightarrow> Some (m1, Inl e)
      | (m1, Inr now) \<Rightarrow>
          if now < deadline
          then (case poll w m1 of
                  (m2, Inl e) \<Rightarrow> Some (m2, Inl e)
                | (m2, Inr inbox) \<Rightarrow>
                    (case find_answer msg_type sqn inbox of
                       Reply f rest \<Rightarrow> Some (take_answer f rest m2, Inr f)
                     | Refused payload \<Rightarrow> Some (m2, Inl (ModemError (hex payload)))
                     | NoAnswer \<Rightarrow> wait_response w msg_type sqn deadline m2))
          else Some (m1, Inl TimeoutExc))"

text \<open>
  Every request numbers itself, writes a frame and waits; \<open>send\<close> reads the clock before it writes,
  the others after.
\<close>

definition post :: "client_world \<Rightarrow> int \<Rightarrow> int \<Rightarrow> bytes \<Rightarrow> unit client_act" where
  "post w msg_type sqn payload m =
     seqA (lift (encode_frame msg_type (mcl_session m) sqn payload)) (write_port w) m"

definition ask :: "client_world \<Rightarrow> int \<Rightarrow> int \<Rightarrow> time \<Rightarrow> usb_frame client_call" where
  "ask w msg_type reply_type deadline m =
     thenO (Some (next_sequence_number m)) (\<lambda>sqn m.
     thenO (Some (post w msg_type sqn [] m)) (\<lambda>_ m.
     thenO (Some (read_clock w m)) (\<lambda>now. wait_response w reply_type sqn (now + deadline))))"

definition client_hello :: "client_world \<Rightarrow> time \<Rightarrow> usb_frame client_call" where
  "client_hello w deadline m =
     thenO (ask w USB_HELLO USB_INFO deadline m)
       (\<lambda>frame m. Some (m\<lparr>mcl_info := Some (uf_payload frame)\<rparr>, Inr frame))"

definition client_send :: "client_world \<Rightarrow> bytes \<Rightarrow> time \<Rightarrow> (usb_frame \<times> time) client_call" where
  "client_send w payload deadline m =
     thenO (Some (next_sequence_number m)) (\<lambda>sqn m.
     thenO (Some (read_clock w m)) (\<lambda>started m.
     thenO (Some (post w RADIO_SEND sqn payload m)) (\<lambda>_ m.
     thenO (wait_response w RADIO_TX_RESULT sqn (started + deadline) m) (\<lambda>frame m.
     thenO (Some (read_clock w m)) (\<lambda>now m. Some (m, Inr (frame, now - started)))))))"

definition get_link_status :: "client_world \<Rightarrow> time \<Rightarrow> usb_frame client_call" where
  "get_link_status w = ask w GET_LINK_STATUS LINK_STATUS"

definition get_diagnostics :: "client_world \<Rightarrow> time \<Rightarrow> usb_frame client_call" where
  "get_diagnostics w = ask w GET_DIAGNOSTICS DIAGNOSTICS"

subsection \<open>Radio events\<close>

definition is_radio_rx :: "usb_frame \<Rightarrow> bool" where
  "is_radio_rx f \<longleftrightarrow> uf_msg_type f = RADIO_RX"

definition take_events :: "modem_client \<Rightarrow> modem_client \<times> usb_frame list result" where
  "take_events m =
     (let events = filter is_radio_rx (mcl_inbox m)
      in (m\<lparr>mcl_inbox := filter (\<lambda>f. \<not> is_radio_rx f) (mcl_inbox m), mg_taken := mg_taken m @ events\<rparr>,
          Inr events))"

definition client_events :: "client_world \<Rightarrow> usb_frame list client_act" where
  "client_events w = seqA (poll w) (\<lambda>_. take_events)"

text \<open>The predicate is the caller's and may raise; it is asked about radio events only.\<close>

fun find_event :: "(usb_frame \<Rightarrow> bool result) \<Rightarrow> usb_frame list \<Rightarrow> (usb_frame \<times> usb_frame list) option result" where
  "find_event wanted [] = Inr None"
| "find_event wanted (f # fs) =
     bindR (if is_radio_rx f then wanted f else Inr False) (\<lambda>found.
       if found then Inr (Some (f, fs))
       else bindR (find_event wanted fs) (\<lambda>r. Inr (map_option (\<lambda>(g, gs). (g, f # gs)) r)))"

definition take_radio_event ::
  "client_world \<Rightarrow> (usb_frame \<Rightarrow> bool result) \<Rightarrow> usb_frame option client_act" where
  "take_radio_event w wanted =
     seqA (poll w) (\<lambda>inbox.
     seqA (lift (find_event wanted inbox)) (\<lambda>found m.
       (case found of
          None \<Rightarrow> (m, Inr None)
        | Some (f, rest) \<Rightarrow>
            (take_answer f rest (m\<lparr>mcl_radio_rx_matched := Suc (mcl_radio_rx_matched m)\<rparr>), Inr (Some f)))))"


subsection \<open>What a caller can do\<close>

datatype request = Hello | Send bytes | LinkStatus | Diagnostics

fun request_code :: "request \<Rightarrow> int" where
  "request_code Hello = USB_HELLO"
| "request_code (Send payload) = RADIO_SEND"
| "request_code LinkStatus = GET_LINK_STATUS"
| "request_code Diagnostics = GET_DIAGNOSTICS"

fun reply_code :: "request \<Rightarrow> int" where
  "reply_code Hello = USB_INFO"
| "reply_code (Send payload) = RADIO_TX_RESULT"
| "reply_code LinkStatus = LINK_STATUS"
| "reply_code Diagnostics = DIAGNOSTICS"

fun request_payload :: "request \<Rightarrow> bytes" where
  "request_payload (Send payload) = payload"
| "request_payload _ = []"

fun do_request :: "client_world \<Rightarrow> request \<Rightarrow> time \<Rightarrow> usb_frame client_call" where
  "do_request w Hello deadline m = client_hello w deadline m"
| "do_request w (Send payload) deadline m =
     thenO (client_send w payload deadline m) (\<lambda>(frame, _) m. Some (m, Inr frame))"
| "do_request w LinkStatus deadline m = get_link_status w deadline m"
| "do_request w Diagnostics deadline m = get_diagnostics w deadline m"

datatype client_op = Request request time | Poll | Events | TakeEvent "usb_frame \<Rightarrow> bool result"

text \<open>The client after an operation; a request that never ended would leave it as it was.\<close>

definition after_call :: "modem_client \<Rightarrow> (modem_client \<times> 'a result) option \<Rightarrow> modem_client" where
  "after_call m r = (case r of None \<Rightarrow> m | Some (m', _) \<Rightarrow> m')"

fun client_step :: "client_world \<Rightarrow> modem_client \<Rightarrow> client_op \<Rightarrow> modem_client" where
  "client_step w m (Request q deadline) = after_call m (do_request w q deadline m)"
| "client_step w m Poll = fst (poll w m)"
| "client_step w m Events = fst (client_events w m)"
| "client_step w m (TakeEvent wanted) = fst (take_radio_event w wanted m)"

subsection \<open>The invariant\<close>

definition ticking :: "client_world \<Rightarrow> bool" where
  "ticking w \<longleftrightarrow> passes (cw_clock w)"

definition client_inv :: "modem_client \<Rightarrow> bool" where
  "client_inv m \<longleftrightarrow>
     (\<forall>f\<in>set (mg_accepted m). uf_session f = mcl_session m) \<and>
     mset (mcl_inbox m) + mset (mg_taken m) = mset (mg_accepted m) \<and>
     subseq (mcl_inbox m) (mg_accepted m) \<and>
     mcl_frames_decoded m = mcl_wrong_session m + length (mg_accepted m) \<and>
     mcl_radio_rx_events m = length (filter is_radio_rx (mg_accepted m)) \<and>
     mcl_radio_rx_events m + mcl_responses m = length (mg_accepted m)"

text \<open>What only a request changes.\<close>

definition quiet :: "modem_client \<Rightarrow> modem_client \<Rightarrow> bool" where
  "quiet m m' \<longleftrightarrow>
     mcl_session m' = mcl_session m \<and> mcl_sequence m' = mcl_sequence m \<and>
     mg_written m' = mg_written m \<and> mcl_clocks m' = mcl_clocks m"

lemma client_inv_changes [simp]:
  "client_inv (m\<lparr>mcl_reads := i\<rparr>) = client_inv m"
  "client_inv (m\<lparr>mcl_writes := i, mg_written := ws\<rparr>) = client_inv m"
  "client_inv (m\<lparr>mcl_clocks := i\<rparr>) = client_inv m"
  "client_inv (m\<lparr>mcl_sequence := n\<rparr>) = client_inv m"
  "client_inv (m\<lparr>mcl_usb_bytes_read := i, mcl_decoder := d\<rparr>) = client_inv m"
  "client_inv (m\<lparr>mcl_radio_rx_matched := i\<rparr>) = client_inv m"
  "client_inv (m\<lparr>mcl_info := x\<rparr>) = client_inv m"
  by (simp_all add: client_inv_def)

lemma accept_frame_inv: "client_inv m \<Longrightarrow> client_inv (accept_frame f m)"
  by (auto simp: client_inv_def accept_frame_def Let_def is_radio_rx_def intro: list_emb_append_mono)

lemma accept_frame_quiet [simp]:
  "mcl_session (accept_frame f m) = mcl_session m"
  "mcl_sequence (accept_frame f m) = mcl_sequence m"
  "mg_written (accept_frame f m) = mg_written m"
  "mcl_clocks (accept_frame f m) = mcl_clocks m"
  "mg_taken (accept_frame f m) = mg_taken m"
  by (simp_all add: accept_frame_def Let_def)

lemma accept_frames:
  "client_inv m \<Longrightarrow> client_inv (fold accept_frame fs m)"
  "quiet m (fold accept_frame fs m)"
  "mg_taken (fold accept_frame fs m) = mg_taken m"
  by (induction fs arbitrary: m) (auto simp: accept_frame_inv quiet_def)

lemma poll_effect:
  assumes "client_inv m"
  obtains m' r where "poll w m = (m', r)" "client_inv m'" "quiet m m'" "mg_taken m' = mg_taken m"
    "case r of Inl e \<Rightarrow> cw_read w (mcl_reads m) = Inl e | Inr inbox \<Rightarrow> inbox = mcl_inbox m'"
proof (cases "cw_read w (mcl_reads m)")
  case (Inl e)
  then show ?thesis
    using assms by (intro that [of "m\<lparr>mcl_reads := Suc (mcl_reads m)\<rparr>" "Inl e"])
      (simp_all add: poll_def seqA_def read_port_def quiet_def)
next
  case (Inr data)
  obtain d fs where f: "feed (mcl_decoder m) data = (d, fs)" by fastforce
  let ?m = "m\<lparr>mcl_reads := Suc (mcl_reads m), mcl_usb_bytes_read := mcl_usb_bytes_read m + length data,
    mcl_decoder := d\<rparr>"
  have "client_inv ?m"
    using assms by (simp add: client_inv_def)
  then show ?thesis
    using Inr f accept_frames [where m = ?m and fs = fs]
    by (intro that [of "fold accept_frame fs ?m" "Inr (mcl_inbox (fold accept_frame fs ?m))"])
      (simp_all add: poll_def seqA_def read_port_def quiet_def Let_def)
qed

lemma find_answer_Reply:
  "find_answer ty sqn fs = Reply f rest \<Longrightarrow>
     uf_msg_type f = ty \<and> uf_sequence f = sqn \<and> mset fs = add_mset f (mset rest) \<and> subseq rest fs"
proof (induction ty sqn fs arbitrary: rest rule: find_answer.induct)
  case (2 ty sqn g gs)
  show ?case
  proof (cases "find_answer ty sqn gs")
    case (Reply h hs)
    then show ?thesis using 2 by (auto split: if_splits)
  qed (use 2(2) in \<open>auto split: if_splits\<close>)
qed simp

lemma client_inv_take:
  assumes "client_inv m" and "mset (mcl_inbox m) = add_mset f (mset rest)" and "subseq rest (mcl_inbox m)"
  shows "client_inv (take_answer f rest m) \<and> uf_session f = mcl_session m"
proof -
  have "f \<in># mset (mg_accepted m)"
    using assms(1,2) unfolding client_inv_def by (metis add_mset_add_single union_iff union_single_eq_member)
  then show ?thesis
    using assms by (auto simp: client_inv_def take_answer_def intro: subseq_order.order_trans)
qed


subsection \<open>Requests end, with their own answer\<close>

definition request_ok :: "modem_client \<Rightarrow> modem_client \<Rightarrow> bool" where
  "request_ok m m' \<longleftrightarrow>
     client_inv m' \<and> mcl_session m' = mcl_session m \<and> mcl_sequence m' = mcl_sequence m \<and>
     mg_written m' = mg_written m"

definition wait_error :: "client_world \<Rightarrow> py_exc \<Rightarrow> bool" where
  "wait_error w e \<longleftrightarrow> e = TimeoutExc \<or> (\<exists>s. e = ModemError s) \<or> (\<exists>n. cw_read w n = Inl e)"

lemma wait_response_ends:
  assumes "ticking w" and "client_inv m"
  shows "\<exists>m' r. wait_response w ty sqn deadline m = Some (m', r) \<and> request_ok m m' \<and>
    (case r of
       Inl e \<Rightarrow> wait_error w e \<and> mg_taken m' = mg_taken m
     | Inr f \<Rightarrow> uf_msg_type f = ty \<and> uf_sequence f = sqn \<and> uf_session f = mcl_session m \<and>
                mg_taken m' = mg_taken m @ [f])"
  using assms(2)
proof (induction "readings_left (cw_clock w) deadline (mcl_clocks m)" arbitrary: m rule: less_induct)
  case less
  let ?m1 = "m\<lparr>mcl_clocks := Suc (mcl_clocks m)\<rparr>"
  show ?case
  proof (cases "cw_clock w (mcl_clocks m) < deadline")
    case False
    then show ?thesis
      using less.prems
      by (subst wait_response.simps) (simp add: read_clock_def request_ok_def wait_error_def)
  next
    case True
    obtain m2 r where p: "poll w ?m1 = (m2, r)" "client_inv m2" "quiet ?m1 m2" "mg_taken m2 = mg_taken ?m1"
      "case r of Inl e \<Rightarrow> cw_read w (mcl_reads ?m1) = Inl e | Inr inbox \<Rightarrow> inbox = mcl_inbox m2"
      using poll_effect [of ?m1 w] less.prems by auto
    show ?thesis
    proof (cases r)
      case (Inl e)
      then show ?thesis
        using True p by (subst wait_response.simps)
          (auto simp: read_clock_def request_ok_def quiet_def wait_error_def)
    next
      case inbox: (Inr inbox)
      show ?thesis
      proof (cases "find_answer ty sqn inbox")
        case (Reply f rest)
        then show ?thesis
          using True p inbox find_answer_Reply [OF Reply] client_inv_take [of m2 f rest]
          by (subst wait_response.simps)
            (auto simp: read_clock_def request_ok_def quiet_def take_answer_def)
      next
        case (Refused pl)
        then show ?thesis
          using True p inbox by (subst wait_response.simps)
            (auto simp: read_clock_def request_ok_def quiet_def wait_error_def)
      next
        case NoAnswer
        have "readings_left (cw_clock w) deadline (mcl_clocks m2) < readings_left (cw_clock w) deadline (mcl_clocks m)"
          using readings_less [of "cw_clock w" "mcl_clocks m" deadline "mcl_clocks m2"] True assms(1) p(3) by (simp add: ticking_def quiet_def)
        from less.hyps [OF this p(2)] obtain m' q where
          "wait_response w ty sqn deadline m2 = Some (m', q)" "request_ok m2 m'"
          "case q of Inl e \<Rightarrow> wait_error w e \<and> mg_taken m' = mg_taken m2
           | Inr f \<Rightarrow> uf_msg_type f = ty \<and> uf_sequence f = sqn \<and> uf_session f = mcl_session m2 \<and>
                      mg_taken m' = mg_taken m2 @ [f]"
          by blast
        then show ?thesis
          using True p inbox NoAnswer by (subst wait_response.simps)
            (auto simp: read_clock_def request_ok_def quiet_def split: sum.splits)
      qed
    qed
  qed
qed

text \<open>What a request leaves: its number is used, and what it got is the answer to it or an error.\<close>

definition request_error :: "client_world \<Rightarrow> py_exc \<Rightarrow> bool" where
  "request_error w e \<longleftrightarrow>
     wait_error w e \<or> (\<exists>s. e = ProtocolError s) \<or> e = StructError \<or> (\<exists>n. cw_write w n = Inl e)"

definition answered :: "client_world \<Rightarrow> request \<Rightarrow> modem_client \<Rightarrow> modem_client \<times> usb_frame result \<Rightarrow> bool" where
  "answered w q m result' \<longleftrightarrow>
     (case result' of (m', r) \<Rightarrow>
        client_inv m' \<and> mcl_session m' = mcl_session m \<and> mcl_sequence m' = mcl_sequence m + 1 \<and>
        (case r of
           Inl e \<Rightarrow> request_error w e \<and> mg_taken m' = mg_taken m
         | Inr f \<Rightarrow>
             uf_msg_type f = reply_code q \<and> uf_sequence f = mcl_sequence m' \<and>
             uf_session f = mcl_session m \<and> mg_taken m' = mg_taken m @ [f] \<and>
             (\<exists>raw. encode_frame (request_code q) (mcl_session m) (mcl_sequence m') (request_payload q) = Inr raw \<and>
                mg_written m' = mg_written m @ [raw])))"

lemma usb_body_error: "usb_body ty ses sqn pl = Inl e \<Longrightarrow> e = StructError"
  by (auto simp: usb_body_def bindR_def struct_pack_def split: sum.splits if_splits)

lemma encode_frame_error:
  "encode_frame ty ses sqn pl = Inl e \<Longrightarrow> e = StructError \<or> (\<exists>s. e = ProtocolError s)"
  by (auto simp: encode_frame_def bindR_def struct_pack_def dest: usb_body_error split: sum.splits if_splits)

lemma post_effect:
  obtains e where "post w ty sqn pl m = (m, Inl e)" "e = StructError \<or> (\<exists>s. e = ProtocolError s)"
  | raw r where "encode_frame ty (mcl_session m) sqn pl = Inr raw"
      "post w ty sqn pl m =
         (m\<lparr>mcl_writes := Suc (mcl_writes m), mg_written := mg_written m @ [raw]\<rparr>, r)"
      "r = cw_write w (mcl_writes m)"
proof (cases "encode_frame ty (mcl_session m) sqn pl")
  case (Inl e)
  then show ?thesis using that(1) encode_frame_error [OF Inl] by (simp add: post_def seqA_def lift_def)
next
  case (Inr raw)
  then show ?thesis using that(2) by (simp add: post_def seqA_def lift_def write_port_def)
qed


lemma answered_error:
  "client_inv m' \<Longrightarrow> mcl_session m' = mcl_session m \<Longrightarrow> mcl_sequence m' = mcl_sequence m + 1 \<Longrightarrow>
   mg_taken m' = mg_taken m \<Longrightarrow> request_error w e \<Longrightarrow> answered w q m (m', Inl e)"
  by (simp add: answered_def)

lemma wait_answered:
  assumes "ticking w" and "client_inv m1" and "mcl_session m1 = mcl_session m"
    and "mcl_sequence m1 = mcl_sequence m + 1" and "mg_taken m1 = mg_taken m"
    and "encode_frame (request_code q) (mcl_session m) (mcl_sequence m1) (request_payload q) = Inr raw"
    and "mg_written m1 = mg_written m @ [raw]"
  shows "\<exists>m' r. wait_response w (reply_code q) (mcl_sequence m1) deadline m1 = Some (m', r) \<and>
    answered w q m (m', r)"
proof -
  obtain m' r where w: "wait_response w (reply_code q) (mcl_sequence m1) deadline m1 = Some (m', r)"
    "request_ok m1 m'"
    "case r of Inl e \<Rightarrow> wait_error w e \<and> mg_taken m' = mg_taken m1
     | Inr f \<Rightarrow> uf_msg_type f = reply_code q \<and> uf_sequence f = mcl_sequence m1 \<and>
                uf_session f = mcl_session m1 \<and> mg_taken m' = mg_taken m1 @ [f]"
    using wait_response_ends [OF assms(1,2), of "reply_code q" "mcl_sequence m1" deadline] by blast
  have "answered w q m (m', r)"
    using w(2,3) assms(3-)
    by (cases r) (simp_all add: answered_def request_ok_def request_error_def)
  then show ?thesis using w(1) by blast
qed

lemma number_effect:
  obtains "next_sequence_number m = (m\<lparr>mcl_sequence := mcl_sequence m + 1\<rparr>, Inl (ModemError ''sequence exhausted''))"
  | "next_sequence_number m = (m\<lparr>mcl_sequence := mcl_sequence m + 1\<rparr>, Inr (mcl_sequence m + 1))"
  by (cases "mcl_sequence m + 1 = 0xFFFFFFFF") (auto simp: next_sequence_number_def Let_def)

lemma same_clocks: "\<exists>i. (m :: modem_client) = m\<lparr>mcl_clocks := i\<rparr>"
  by (rule exI [of _ "mcl_clocks m"]) simp

text \<open>A request from its number on; what follows the write may read the clock, and waits.\<close>

lemma post_answered:
  assumes "ticking w" and "client_inv m" and "mcl_session m1 = mcl_session m"
    and "mcl_sequence m1 = mcl_sequence m + 1" and "mg_taken m1 = mg_taken m"
    and "mg_written m1 = mg_written m" and "client_inv m1"
    and f: "\<And>m2. \<exists>deadline m3. f () m2 = wait_response w (reply_code q) (mcl_sequence m1) deadline m3 \<and>
      (\<exists>i. m3 = m2\<lparr>mcl_clocks := i\<rparr>)"
  shows "\<exists>m' r. thenO (Some (post w (request_code q) (mcl_sequence m1) (request_payload q) m1)) f = Some (m', r) \<and>
    answered w q m (m', r)"
proof (cases rule: post_effect [of w "request_code q" "mcl_sequence m1" "request_payload q" m1])
  case (1 e)
  then show ?thesis
    using assms by (auto intro!: answered_error simp: request_error_def)
next
  case (2 raw r)
  let ?m2 = "m1\<lparr>mcl_writes := Suc (mcl_writes m1), mg_written := mg_written m1 @ [raw]\<rparr>"
  show ?thesis
  proof (cases r)
    case (Inl e)
    then have "request_error w e" using 2(3) unfolding request_error_def by metis
    then have "answered w q m (?m2, Inl e)"
      using assms by (intro answered_error) (simp_all add: client_inv_def)
    then show ?thesis using 2(2) Inl by simp
  next
    case (Inr u)
    obtain deadline i where d: "f () ?m2 = wait_response w (reply_code q) (mcl_sequence m1) deadline (?m2\<lparr>mcl_clocks := i\<rparr>)"
      using f [of ?m2] by blast
    have "\<exists>m' r. wait_response w (reply_code q) (mcl_sequence (?m2\<lparr>mcl_clocks := i\<rparr>)) deadline
        (?m2\<lparr>mcl_clocks := i\<rparr>) = Some (m', r) \<and> answered w q m (m', r)"
      using assms 2 by (intro wait_answered [OF assms(1)]) simp_all
    then show ?thesis using 2(2) Inr d by simp
  qed
qed

lemma ask_answered:
  assumes "ticking w" and "client_inv m" and "request_payload q = []"
  shows "\<exists>m' r. ask w (request_code q) (reply_code q) deadline m = Some (m', r) \<and> answered w q m (m', r)"
proof (cases rule: number_effect [of m])
  case 1
  then show ?thesis
    using assms by (auto simp: ask_def request_error_def wait_error_def intro!: answered_error)
next
  case 2
  let ?m1 = "m\<lparr>mcl_sequence := mcl_sequence m + 1\<rparr>"
  have "\<exists>m' r. thenO (Some (post w (request_code q) (mcl_sequence ?m1) (request_payload q) ?m1))
      (\<lambda>_ m. thenO (Some (read_clock w m)) (\<lambda>now. wait_response w (reply_code q) (mcl_sequence ?m1) (now + deadline)))
      = Some (m', r) \<and> answered w q m (m', r)"
    using assms by (intro post_answered [OF assms(1,2)]) (auto simp: read_clock_def)
  then show ?thesis using 2 assms(3) by (simp add: ask_def)
qed

lemma send_answered:
  assumes "ticking w" and "client_inv m"
  shows "\<exists>m' r. do_request w (Send payload) deadline m = Some (m', r) \<and> answered w (Send payload) m (m', r)"
proof (cases rule: number_effect [of m])
  case 1
  then show ?thesis
    using assms by (auto simp: client_send_def request_error_def wait_error_def intro!: answered_error)
next
  case 2
  let ?m1 = "m\<lparr>mcl_sequence := mcl_sequence m + 1, mcl_clocks := Suc (mcl_clocks m)\<rparr>"
  have inv: "client_inv ?m1"
    using assms(2) by (simp add: client_inv_def)
  have "\<exists>m' r. thenO (Some (post w RADIO_SEND (mcl_sequence ?m1) payload ?m1))
      (\<lambda>_. wait_response w RADIO_TX_RESULT (mcl_sequence ?m1) (cw_clock w (mcl_clocks m) + deadline))
      = Some (m', r) \<and> answered w (Send payload) m (m', r)"
  proof -
    have "\<exists>d m3. wait_response w (reply_code (Send payload)) (mcl_sequence ?m1)
        (cw_clock w (mcl_clocks m) + deadline) m2 =
        wait_response w (reply_code (Send payload)) (mcl_sequence ?m1) d m3 \<and>
        (\<exists>i. m3 = m2\<lparr>mcl_clocks := i\<rparr>)" for m2
      using same_clocks [of m2] by blast
    from post_answered [OF assms _ _ _ _ inv this] show ?thesis by simp
  qed
  then obtain m' r where r: "thenO (Some (post w RADIO_SEND (mcl_sequence ?m1) payload ?m1))
      (\<lambda>_. wait_response w RADIO_TX_RESULT (mcl_sequence ?m1) (cw_clock w (mcl_clocks m) + deadline))
      = Some (m', r)" "answered w (Send payload) m (m', r)"
    by blast
  have "do_request w (Send payload) deadline m =
      thenO (Some (m', r)) (\<lambda>f s. Some (s\<lparr>mcl_clocks := Suc (mcl_clocks s)\<rparr>, Inr f))"
    using 2 unfolding r(1) [symmetric] by (simp add: client_send_def read_clock_def thenO_assoc)
  then show ?thesis
    using r(2) by (cases r) (auto simp: answered_def)
qed

lemma request_answered:
  assumes "ticking w" and "client_inv m"
  shows "\<exists>m' r. do_request w q deadline m = Some (m', r) \<and> answered w q m (m', r)"
proof (cases q)
  case Hello
  obtain m' r where r: "ask w USB_HELLO USB_INFO deadline m = Some (m', r)" "answered w Hello m (m', r)"
    using ask_answered [OF assms, of Hello deadline] by auto
  then show ?thesis
    using Hello by (cases r) (auto simp: client_hello_def answered_def)
next
  case (Send payload)
  then show ?thesis using send_answered [OF assms] by simp
next
  case LinkStatus
  then show ?thesis using ask_answered [OF assms, of LinkStatus deadline] by (simp add: get_link_status_def)
next
  case Diagnostics
  then show ?thesis using ask_answered [OF assms, of Diagnostics deadline] by (simp add: get_diagnostics_def)
qed

subsection \<open>No frame is lost or invented\<close>

lemma find_event_found:
  "find_event wanted fs = Inr (Some (f, rest)) \<Longrightarrow>
     is_radio_rx f \<and> wanted f = Inr True \<and> mset fs = add_mset f (mset rest) \<and> subseq rest fs"
proof (induction wanted fs arbitrary: rest rule: find_event.induct)
  case (2 wanted g gs)
  from 2(2) obtain found where found: "(if is_radio_rx g then wanted g else Inr False) = Inr found"
    by (cases "if is_radio_rx g then wanted g else Inr False") (simp_all del: bindR_if)
  show ?case
  proof (cases found)
    case True
    then show ?thesis using 2(2) found by (cases "is_radio_rx g") auto
  next
    case False
    then have "bindR (find_event wanted gs) (\<lambda>r. Inr (map_option (\<lambda>(h, hs). (h, g # hs)) r)) = Inr (Some (f, rest))"
      using 2(2) found by (simp del: bindR_if)
    then obtain hs where "find_event wanted gs = Inr (Some (f, hs))" "rest = g # hs"
      by (auto simp: bindR_Inr_iff)
    then show ?thesis using 2(1) [OF False, of hs] by simp
  qed
qed simp

lemma take_events_inv: "client_inv m \<Longrightarrow> client_inv (fst (take_events m))"
proof -
  assume inv: "client_inv m"
  have "mset (filter (\<lambda>f. \<not> is_radio_rx f) xs) + mset (filter is_radio_rx xs) = mset xs" for xs
    by (induction xs) simp_all
  note split = this [of "mcl_inbox m"]
  have "mset (filter (\<lambda>f. \<not> is_radio_rx f) (mcl_inbox m)) +
      (mset (mg_taken m) + mset (filter is_radio_rx (mcl_inbox m))) =
      mset (filter (\<lambda>f. \<not> is_radio_rx f) (mcl_inbox m)) + mset (filter is_radio_rx (mcl_inbox m)) + mset (mg_taken m)"
    by (simp only: ac_simps)
  then have "mset (filter (\<lambda>f. \<not> is_radio_rx f) (mcl_inbox m)) +
      (mset (mg_taken m) + mset (filter is_radio_rx (mcl_inbox m))) = mset (mg_accepted m)"
    using inv by (simp only: split client_inv_def)
  then show ?thesis
    using inv subseq_order.order_trans [OF subseq_filter_left, of "mcl_inbox m" "mg_accepted m"]
    by (simp add: client_inv_def take_events_def Let_def)
qed

lemma poll_inv: "client_inv m \<Longrightarrow> client_inv (fst (poll w m))"
  by (rule poll_effect [of m w]) auto

lemma client_events_inv: "client_inv m \<Longrightarrow> client_inv (fst (client_events w m))"
  by (rule poll_effect [of m w])
    (auto simp: client_events_def seqA_def take_events_inv split: sum.splits)

lemma take_radio_event_inv:
  assumes "client_inv m"
  shows "client_inv (fst (take_radio_event w wanted m))"
proof -
  obtain m' r where p: "poll w m = (m', r)" "client_inv m'"
    "case r of Inl e \<Rightarrow> cw_read w (mcl_reads m) = Inl e | Inr inbox \<Rightarrow> inbox = mcl_inbox m'"
    using poll_effect [OF assms] by metis
  show ?thesis
  proof (cases r)
    case (Inr inbox)
    have "client_inv (take_answer f rest (m'\<lparr>mcl_radio_rx_matched := i\<rparr>))"
      if "find_event wanted inbox = Inr (Some (f, rest))" for f rest i
      using find_event_found [OF that] p(2,3) Inr client_inv_take [of "m'\<lparr>mcl_radio_rx_matched := i\<rparr>" f rest]
      by simp
    then show ?thesis
      using p Inr by (auto simp: take_radio_event_def seqA_def lift_def split: sum.splits option.splits)
  qed (use p in \<open>simp add: take_radio_event_def seqA_def\<close>)
qed

lemma client_step_inv:
  assumes "ticking w" and "client_inv m"
  shows "client_inv (client_step w m c)"
proof (cases c)
  case (Request q deadline)
  then show ?thesis
    using request_answered [OF assms, of q deadline] by (auto simp: after_call_def answered_def)
qed (use assms in \<open>simp_all add: poll_inv client_events_inv take_radio_event_inv\<close>)

lemma client_send_ends:
  assumes "ticking w" and "client_inv m"
  shows "\<exists>m' r. client_send w payload deadline m = Some (m', r) \<and> client_inv m'"
proof -
  obtain m' r where "do_request w (Send payload) deadline m = Some (m', r)" "client_inv m'"
    using request_answered [OF assms, of "Send payload" deadline] by (auto simp: answered_def)
  then show ?thesis
    by (cases "client_send w payload deadline m") (auto simp: thenO_def split: sum.splits)
qed

lemma take_radio_event_wanted:
  assumes "take_radio_event w wanted m = (m', Inr (Some f))"
  shows "is_radio_rx f \<and> wanted f = Inr True"
proof -
  obtain inbox m2 where "poll w m = (m2, Inr inbox)"
    using assms by (auto simp: take_radio_event_def seqA_def split: sum.splits prod.splits)
  then obtain rest where "find_event wanted inbox = Inr (Some (f, rest))"
    using assms by (auto simp: take_radio_event_def seqA_def lift_def split: sum.splits option.splits)
  then show ?thesis using find_event_found by blast
qed

interpretation client: machine "client_step w" "\<lambda>m. ticking w \<and> client_inv m"
  using client_step_inv by unfold_locales blast


subsection \<open>Over a whole life\<close>

text \<open>A client as its constructor leaves it, after any list of operations.\<close>

definition client_after :: "client_world \<Rightarrow> int \<Rightarrow> client_op list \<Rightarrow> modem_client" where
  "client_after w session = run (client_step w) (fst (new_modem_client w session))"

lemma new_modem_client_inv: "client_inv (fst (new_modem_client w session))"
  by (simp add: new_modem_client_def write_port_def client_inv_def)

lemma client_after_inv: "ticking w \<Longrightarrow> client_inv (client_after w session ops)"
  unfolding client_after_def using client.run_inv [of w] new_modem_client_inv by blast

lemma client_step_session:
  assumes "ticking w" and "client_inv m"
  shows "mcl_session (client_step w m c) = mcl_session m \<and> mcl_sequence m \<le> mcl_sequence (client_step w m c)"
proof (cases c)
  case (Request q deadline)
  then show ?thesis
    using request_answered [OF assms, of q deadline] by (auto simp: after_call_def answered_def)
next
  case Poll
  then show ?thesis by (rule_tac poll_effect [OF assms(2), of w]) (auto simp: quiet_def)
next
  case Events
  then show ?thesis
    by (rule_tac poll_effect [OF assms(2), of w])
      (auto simp: client_events_def seqA_def take_events_def quiet_def Let_def split: sum.splits)
next
  case (TakeEvent wanted)
  then show ?thesis
    by (rule_tac poll_effect [OF assms(2), of w])
      (auto simp: take_radio_event_def seqA_def lift_def take_answer_def quiet_def
        split: sum.splits option.splits)
qed

interpretation client_session: monotone_machine "client_step w" "\<lambda>m. ticking w \<and> client_inv m"
    "\<lambda>m m'. mcl_session m' = mcl_session m \<and> mcl_sequence m \<le> mcl_sequence m'"
  using client_step_session by unfold_locales auto

lemma client_after_session: "ticking w \<Longrightarrow> mcl_session (client_after w session ops) = session"
  using client_session.run_rel [of w "fst (new_modem_client w session)" ops] new_modem_client_inv
  by (simp add: client_after_def new_modem_client_def write_port_def)

text \<open>
  Property C19. Every request of the synchronous client ends, whatever the modem sends and however
  little: it uses the next sequence number, and it returns either a frame of the client's session,
  of the type that answers it and with its own number, after the request has been written whole, or
  an error (time-out, the modem's refusal, a refused frame, a failing port) having taken no frame.
\<close>

theorem client_requests_answered:
  assumes "ticking w" and "m = client_after w session ops"
  shows "\<exists>m' r. do_request w q deadline m = Some (m', r) \<and> mcl_sequence m' = mcl_sequence m + 1 \<and>
    (case r of
       Inl e \<Rightarrow> request_error w e \<and> mg_taken m' = mg_taken m
     | Inr f \<Rightarrow>
         uf_msg_type f = reply_code q \<and> uf_sequence f = mcl_sequence m + 1 \<and> uf_session f = session \<and>
         mg_taken m' = mg_taken m @ [f] \<and>
         (\<exists>raw. encode_frame (request_code q) session (mcl_sequence m + 1) (request_payload q) = Inr raw \<and>
            mg_written m' = mg_written m @ [raw]))"
proof -
  have inv: "client_inv m" and session: "mcl_session m = session"
    using assms by (simp_all add: client_after_inv client_after_session)
  obtain m' r where r: "do_request w q deadline m = Some (m', r)" "answered w q m (m', r)"
    using request_answered [OF assms(1) inv] by blast
  then show ?thesis
    using session by (cases r) (auto simp: answered_def)
qed

text \<open>
  Property C39. The synchronous client loses and invents no frame: what is in its inbox and what it
  has handed out together are, each exactly once, the frames of its own session that the decoder
  found, the inbox in the order of arrival, and its counters count them by kind with those of
  foreign sessions.
\<close>

theorem client_keeps_frames:
  assumes "ticking w" and "m = client_after w session ops"
  shows "mset (mcl_inbox m) + mset (mg_taken m) = mset (mg_accepted m) \<and>
    subseq (mcl_inbox m) (mg_accepted m) \<and>
    list_all (\<lambda>f. uf_session f = session) (mg_accepted m) \<and>
    mcl_frames_decoded m = mcl_wrong_session m + length (mcl_inbox m) + length (mg_taken m) \<and>
    mcl_radio_rx_events m = length (filter is_radio_rx (mg_accepted m)) \<and>
    mcl_radio_rx_events m + mcl_responses m = length (mcl_inbox m) + length (mg_taken m)"
proof -
  have inv: "client_inv m" and session: "mcl_session m = session"
    using assms by (simp_all add: client_after_inv client_after_session)
  have "length (mcl_inbox m) + length (mg_taken m) = length (mg_accepted m)"
  proof -
    have "size (mset (mcl_inbox m) + mset (mg_taken m)) = size (mset (mg_accepted m))"
      using inv by (simp only: client_inv_def)
    then show ?thesis by simp
  qed
  then show ?thesis
    using inv session by (simp add: client_inv_def list_all_iff)
qed

text \<open>A modem that answers a HELLO at the second reading, on a clock of a millisecond a tick.\<close>

definition sample_client_world :: client_world where
  "sample_client_world =
     \<lparr>cw_read = (\<lambda>n. if n = 1 then encode_frame USB_INFO 7 1 [1, 2] else Inr []),
      cw_write = (\<lambda>n. Inr ()), cw_clock = (\<lambda>n. real n / 1000)\<rparr>"

lemma sample_client_ticking: "ticking sample_client_world"
  unfolding ticking_def by (rule ticks_pass) (simp add: ticks_def sample_client_world_def field_simps)

lemma client_requests_answered_witness:
  "\<exists>m' r. do_request sample_client_world Hello 2 (client_after sample_client_world 7 []) = Some (m', r) \<and>
     mcl_sequence m' = mcl_sequence (client_after sample_client_world 7 []) + 1"
  using client_requests_answered [OF sample_client_ticking refl, of Hello 2 7 "[]"] by blast

lemma client_keeps_frames_witness:
  "let m = client_after sample_client_world 7 [Poll, Request Hello 2, Events]
   in mset (mcl_inbox m) + mset (mg_taken m) = mset (mg_accepted m)"
  using client_keeps_frames [OF sample_client_ticking refl, of 7 "[Poll, Request Hello 2, Events]"]
  by (simp add: Let_def)

end
