(* ===== verification/Physical_Transport.thy ===== *)
theory Physical_Transport
  imports Modem_Client Mixed_Runner
begin

text \<open>
  The bench's physical transport (\<open>PhysicalTransport\<close> of \<open>tools/lora_usb/mixed_bench.py\<close>): two modem
  clients, what the bench asks of them at the start and the end, a transmission from one to the
  other. The theorems show that a transmission ends, within its time-outs, and
  delivers the frame that was sent, and that the differences of the modems' counters survive their wrap.
\<close>

subsection \<open>The transport\<close>

record physical_world =
  pw_base :: client_world
  pw_robot :: client_world
  pw_clock :: "nat \<Rightarrow> time"

record physical =
  ph_base :: modem_client
  ph_robot :: modem_client
  ph_clocks :: nat
  ph_started :: time
  ph_estimated_airtime_s :: real
  ph_transaction_times_ms :: "real list"
  ph_application_frames_decoded :: nat
  ph_info :: "info \<times> info"
  ph_status_start :: "int list \<times> int list"
  ph_diagnostics_start :: "int list \<times> int list"

type_synonym pair_state = "modem_client \<times> modem_client"

definition on_base :: "'a client_call \<Rightarrow> pair_state \<Rightarrow> (pair_state \<times> 'a result) option" where
  "on_base f s = map_option (\<lambda>(b, r). ((b, snd s), r)) (f (fst s))"

definition on_robot :: "'a client_call \<Rightarrow> pair_state \<Rightarrow> (pair_state \<times> 'a result) option" where
  "on_robot f s = map_option (\<lambda>(b, r). ((fst s, b), r)) (f (snd s))"

text \<open>\<open>parse(client.get().payload)\<close>.\<close>

definition parsed :: "(bytes \<Rightarrow> 'a result) \<Rightarrow> ('s \<Rightarrow> ('s \<times> usb_frame result) option) \<Rightarrow>
    's \<Rightarrow> ('s \<times> 'a result) option" where
  "parsed parse f s = thenO (f s) (\<lambda>frame s. Some (s, parse (uf_payload frame)))"

definition both_status :: "physical_world \<Rightarrow> pair_state \<Rightarrow> (pair_state \<times> (int list \<times> int list) result) option" where
  "both_status w s =
     thenO (parsed parse_link_status (on_base (get_link_status (pw_base w) 2)) s) (\<lambda>b s.
     thenO (parsed parse_link_status (on_robot (get_link_status (pw_robot w) 2)) s) (\<lambda>r s.
       Some (s, Inr (b, r))))"

definition both_diagnostics :: "physical_world \<Rightarrow> pair_state \<Rightarrow> (pair_state \<times> (int list \<times> int list) result) option" where
  "both_diagnostics w s =
     thenO (parsed parse_diagnostics (on_base (get_diagnostics (pw_base w) 2)) s) (\<lambda>b s.
     thenO (parsed parse_diagnostics (on_robot (get_diagnostics (pw_robot w) 2)) s) (\<lambda>r s.
       Some (s, Inr (b, r))))"

text \<open>The constructor; when it raises it has closed both ports.\<close>

definition greet :: "physical_world \<Rightarrow> pair_state \<Rightarrow> (pair_state \<times> (info \<times> info) result) option" where
  "greet w s =
     thenO (parsed parse_info (on_base (client_hello (pw_base w) 2)) s) (\<lambda>b s.
     thenO (parsed parse_info (on_robot (client_hello (pw_robot w) 2)) s) (\<lambda>r s.
       Some (s, if info_radio_ready b = 0 \<or> info_radio_ready r = 0
                then Inl (RuntimeExc ''one or both modems report radio_ready=0'') else Inr (b, r))))"

definition open_physical :: "physical_world \<Rightarrow> int \<Rightarrow> int \<Rightarrow> physical result option" where
  "open_physical w base_session robot_session =
     (case new_modem_client (pw_base w) base_session of
        (b, Inl e) \<Rightarrow> Some (Inl e)
      | (b, Inr _) \<Rightarrow>
          (case new_modem_client (pw_robot w) robot_session of
             (r, Inl e) \<Rightarrow> Some (Inl e)
           | (r, Inr _) \<Rightarrow>
               map_option (\<lambda>((b, r), res). bindR res (\<lambda>(info, status, diagnostics). Inr
                   \<lparr>ph_base = b, ph_robot = r, ph_clocks = 1, ph_started = pw_clock w 0,
                    ph_estimated_airtime_s = 0, ph_transaction_times_ms = [],
                    ph_application_frames_decoded = 0, ph_info = info, ph_status_start = status,
                    ph_diagnostics_start = diagnostics\<rparr>))
                 (thenO (greet w (b, r)) (\<lambda>info s.
                  thenO (both_status w s) (\<lambda>status s.
                  thenO (both_diagnostics w s) (\<lambda>diagnostics s.
                    Some (s, Inr (info, status, diagnostics))))))))"

definition physical_clock :: "physical_world \<Rightarrow> (physical, time) act" where
  "physical_clock w p = (p\<lparr>ph_clocks := Suc (ph_clocks p)\<rparr>, Inr (pw_clock w (ph_clocks p)))"

definition physical_now :: "physical_world \<Rightarrow> (physical, time) act" where
  "physical_now w = seqA (physical_clock w) (\<lambda>t p. (p, Inr (t - ph_started p)))"

text \<open>\<open>idle_until\<close>: the time it sleeps, if it does.\<close>

definition physical_idle :: "physical_world \<Rightarrow> time \<Rightarrow> (physical, time option) act" where
  "physical_idle w target =
     seqA (physical_now w) (\<lambda>now p.
       (p, Inr (if target - now > 0 then Some (min (target - now) (1 / 100)) else None)))"

subsection \<open>A transmission\<close>

definition sender_call :: "physical_world \<Rightarrow> direction \<Rightarrow> (client_world \<Rightarrow> 'a client_call) \<Rightarrow>
    physical \<Rightarrow> (physical \<times> 'a result) option" where
  "sender_call w dir f p =
     (case dir of
        BASE_TO_ROBOT \<Rightarrow> map_option (\<lambda>(c, r). (p\<lparr>ph_base := c\<rparr>, r)) (f (pw_base w) (ph_base p))
      | ROBOT_TO_BASE \<Rightarrow> map_option (\<lambda>(c, r). (p\<lparr>ph_robot := c\<rparr>, r)) (f (pw_robot w) (ph_robot p)))"

definition receiver_act :: "physical_world \<Rightarrow> direction \<Rightarrow> (client_world \<Rightarrow> 'a client_act) \<Rightarrow> (physical, 'a) act" where
  "receiver_act w dir f p =
     (case dir of
        BASE_TO_ROBOT \<Rightarrow> (case f (pw_robot w) (ph_robot p) of (c, r) \<Rightarrow> (p\<lparr>ph_robot := c\<rparr>, r))
      | ROBOT_TO_BASE \<Rightarrow> (case f (pw_base w) (ph_base p) of (c, r) \<Rightarrow> (p\<lparr>ph_base := c\<rparr>, r)))"

definition carries :: "bytes \<Rightarrow> usb_frame \<Rightarrow> bool result" where
  "carries wire event = bindR (parse_radio_rx (uf_payload event)) (\<lambda>rx. Inr (rx_payload rx = wire))"

definition finish_transmission :: "physical_world \<Rightarrow> bytes \<Rightarrow> time \<Rightarrow> usb_frame \<Rightarrow>
    (physical, app_frame \<times> real \<times> real) act" where
  "finish_transmission w wire started event =
     seqA (lift (parse_radio_rx (uf_payload event))) (\<lambda>rx.
     seqA (physical_clock w) (\<lambda>now.
     thenA (change (\<lambda>p. p\<lparr>ph_transaction_times_ms := ph_transaction_times_ms p @ [(now - started) * 1000],
         ph_estimated_airtime_s := ph_estimated_airtime_s p + lora_airtime_s (length wire)\<rparr>))
     (seqA (lift (app_decode (rx_payload rx))) (\<lambda>decoded.
     thenA (change (\<lambda>p. p\<lparr>ph_application_frames_decoded := Suc (ph_application_frames_decoded p)\<rparr>))
       (lift (Inr (decoded, rx_rssi rx, rx_snr rx)))))))"

partial_function (option) await_event ::
  "physical_world \<Rightarrow> direction \<Rightarrow> bytes \<Rightarrow> time \<Rightarrow> time \<Rightarrow> physical \<Rightarrow>
   (physical \<times> (app_frame \<times> real \<times> real) result) option" where
  "await_event w dir wire started deadline p0 =
     (case physical_clock w p0 of
        (p1, Inl e) \<Rightarrow> Some (p1, Inl e)
      | (p1, Inr now) \<Rightarrow>
          if now < deadline
          then (case receiver_act w dir (\<lambda>cw. take_radio_event cw (carries wire)) p1 of
                  (p2, Inl e) \<Rightarrow> Some (p2, Inl e)
                | (p2, Inr (Some event)) \<Rightarrow> Some (finish_transmission w wire started event p2)
                | (p2, Inr None) \<Rightarrow> await_event w dir wire started deadline p2)
          else Some (p1, Inl TimeoutExc))"

definition physical_transmit :: "physical_world \<Rightarrow> direction \<Rightarrow> app_frame \<Rightarrow> physical \<Rightarrow>
    (physical \<times> (app_frame \<times> real \<times> real) result) option" where
  "physical_transmit w dir frame p =
     thenO (Some (p, app_encode frame)) (\<lambda>wire p.
     thenO (Some (physical_clock w p)) (\<lambda>started p.
     thenO (sender_call w dir (\<lambda>cw. client_send cw wire 2) p) (\<lambda>_ p.
     thenO (Some (physical_clock w p)) (\<lambda>now p.
       await_event w dir wire started (now + 1) p))))"

subsection \<open>Reports\<close>

record device_info =
  di_device_id :: string
  di_boot_id :: int
  di_capabilities :: int
  di_max_air_payload :: int
  di_radio_ready :: int
  di_profile_id :: int
  di_uptime_ms :: int

text \<open>\<open>bytes.hex(":")\<close>.\<close>

fun hex_colons :: "bytes \<Rightarrow> string" where
  "hex_colons [] = []"
| "hex_colons [b] = hex [b]"
| "hex_colons (b # bs) = hex [b] @ '':'' @ hex_colons bs"

definition info_dict :: "info \<Rightarrow> device_info" where
  "info_dict i =
     \<lparr>di_device_id = hex_colons (device_id i), di_boot_id = info_boot_id i,
      di_capabilities = capabilities i, di_max_air_payload = max_air_payload i,
      di_radio_ready = info_radio_ready i, di_profile_id = profile_id i, di_uptime_ms = info_uptime_ms i\<rparr>"

definition STATUS_NAMES :: "string list" where
  "STATUS_NAMES = [''boot_id'', ''uptime_ms'', ''radio_state'', ''tx_ok'', ''rx_ok'', ''rx_bad'',
     ''usb_bad'', ''radio_errors'', ''usb_event_drops'']"

text \<open>\<open>zip(..., strict=True)\<close>.\<close>

definition status_dict :: "int list \<Rightarrow> (string \<times> int) list result" where
  "status_dict status =
     (if length status = length STATUS_NAMES then Inr (zip STATUS_NAMES status)
      else Inl (ValueExc ''zip() argument lengths''))"

definition difference :: "int list \<Rightarrow> int list \<Rightarrow> int \<Rightarrow> int result" where
  "difference before after i =
     bindR (py_index after i) (\<lambda>a. bindR (py_index before i) (\<lambda>b. Inr (a - b)))"

definition status_delta :: "int list \<Rightarrow> int list \<Rightarrow> (string \<times> int) list result" where
  "status_delta before after =
     mapR (\<lambda>(i, name). bindR (difference before after i) (\<lambda>d. Inr (name, d)))
       (zip [3, 4, 5, 6, 7, 8] (drop 3 STATUS_NAMES))"

definition COUNTER_NAMES :: "string list" where
  "COUNTER_NAMES = [''usb_frames'', ''usb_accepted'', ''send_accepted'', ''radio_tx_started'',
     ''radio_tx_completed'', ''radio_rx_received'', ''rx_event_queued'', ''rx_event_written'',
     ''usb_event_dropped'']"

definition diagnostics_delta :: "int list \<Rightarrow> int list \<Rightarrow> (string \<times> int) list result" where
  "diagnostics_delta before after =
     bindR (mapR (\<lambda>(i, name). bindR (difference before after i) (\<lambda>d. Inr (name, d mod 2 ^ 32)))
              (zip [0..8] COUNTER_NAMES)) (\<lambda>deltas.
     bindR (py_index before 9) (\<lambda>start. bindR (py_index after 9) (\<lambda>end'.
       Inr (deltas @ [(''usb_queue_depth_start'', start), (''usb_queue_depth_end'', end')]))))"


record physical_report =
  pr_device_info :: "device_info \<times> device_info"
  pr_status_start :: "(string \<times> int) list \<times> (string \<times> int) list"
  pr_status_end :: "(string \<times> int) list \<times> (string \<times> int) list"
  pr_status_delta :: "(string \<times> int) list \<times> (string \<times> int) list"
  pr_diagnostics_delta :: "(string \<times> int) list \<times> (string \<times> int) list"
  pr_host_counters :: "(string \<times> nat) list \<times> (string \<times> nat) list"
  pr_application_frames_decoded :: nat

definition host_counters :: "modem_client \<Rightarrow> (string \<times> nat) list" where
  "host_counters m =
     [(''usb_bytes_read'', mcl_usb_bytes_read m), (''frames_decoded'', mcl_frames_decoded m),
      (''wrong_session'', mcl_wrong_session m), (''radio_rx_events'', mcl_radio_rx_events m),
      (''radio_rx_events_matched'', mcl_radio_rx_matched m), (''responses'', mcl_responses m)]"

text \<open>A dictionary over the keys base and robot.\<close>

definition both_sides :: "'a result \<Rightarrow> 'b result \<Rightarrow> ('a \<times> 'b) result" where
  "both_sides r r' = bindR r (\<lambda>x. bindR r' (\<lambda>y. Inr (x, y)))"

definition finish_report :: "physical_world \<Rightarrow> physical \<Rightarrow> (physical \<times> physical_report result) option" where
  "finish_report w p =
     map_option (\<lambda>((b, r), res). (p\<lparr>ph_base := b, ph_robot := r\<rparr>, res))
       (thenO (both_status w (ph_base p, ph_robot p)) (\<lambda>(base_end, robot_end) s.
        thenO (both_diagnostics w s) (\<lambda>(base_diag, robot_diag) s.
          let (base_start, robot_start) = ph_status_start p;
              (base_diag_start, robot_diag_start) = ph_diagnostics_start p
          in Some (s,
            bindR (both_sides (status_dict base_start) (status_dict robot_start)) (\<lambda>starts.
            bindR (both_sides (status_dict base_end) (status_dict robot_end)) (\<lambda>ends.
            bindR (both_sides (status_delta base_start base_end) (status_delta robot_start robot_end)) (\<lambda>deltas.
            bindR (both_sides (diagnostics_delta base_diag_start base_diag)
                     (diagnostics_delta robot_diag_start robot_diag)) (\<lambda>diagnostics. Inr
              \<lparr>pr_device_info = (info_dict (fst (ph_info p)), info_dict (snd (ph_info p))),
               pr_status_start = starts, pr_status_end = ends, pr_status_delta = deltas,
               pr_diagnostics_delta = diagnostics,
               pr_host_counters = (host_counters (fst s), host_counters (snd s)),
               pr_application_frames_decoded = ph_application_frames_decoded p\<rparr>))))))))"

text \<open>\<open>MixedRunner.report\<close> sums the errors that the modems counted.\<close>

definition delta_of :: "string \<Rightarrow> (string \<times> int) list \<Rightarrow> int" where
  "delta_of name deltas = (case map_of deltas name of None \<Rightarrow> 0 | Some d \<Rightarrow> d)"

definition modem_errors :: "(string \<times> int) list list \<Rightarrow> int" where
  "modem_errors sides =
     sum_list (map (\<lambda>delta. delta_of ''rx_bad'' delta + delta_of ''usb_bad'' delta +
       delta_of ''radio_errors'' delta + delta_of ''usb_event_drops'' delta) sides)"

subsection \<open>A transmission delivers what was sent\<close>

definition physical_inv :: "physical \<Rightarrow> bool" where
  "physical_inv p \<longleftrightarrow> client_inv (ph_base p) \<and> client_inv (ph_robot p)"

definition physical_ticking :: "physical_world \<Rightarrow> bool" where
  "physical_ticking w \<longleftrightarrow> ticking (pw_base w) \<and> ticking (pw_robot w) \<and> passes (pw_clock w)"

text \<open>What a transmission that succeeded has done.\<close>

definition delivered :: "app_frame \<Rightarrow> bytes \<Rightarrow> physical \<Rightarrow> physical \<Rightarrow> app_frame \<Rightarrow> bool" where
  "delivered frame wire p p' received \<longleftrightarrow>
     received = frame \<and>
     ph_application_frames_decoded p' = Suc (ph_application_frames_decoded p) \<and>
     length (ph_transaction_times_ms p') = Suc (length (ph_transaction_times_ms p)) \<and>
     ph_estimated_airtime_s p' = ph_estimated_airtime_s p + lora_airtime_s (length wire)"

text \<open>What the clients' operations leave of the transport.\<close>

definition same_report :: "physical \<Rightarrow> physical \<Rightarrow> bool" where
  "same_report p p' \<longleftrightarrow>
     ph_application_frames_decoded p' = ph_application_frames_decoded p \<and>
     ph_transaction_times_ms p' = ph_transaction_times_ms p \<and>
     ph_estimated_airtime_s p' = ph_estimated_airtime_s p \<and> ph_started p' = ph_started p"

text \<open>What every operation keeps: the clients' invariants and the start of the clock.\<close>

definition goes_on :: "physical \<Rightarrow> physical \<Rightarrow> bool" where
  "goes_on p p' \<longleftrightarrow> physical_inv p' \<and> ph_started p' = ph_started p \<and> ph_clocks p \<le> ph_clocks p'"

lemma receiver_effect:
  assumes "physical_inv p"
  obtains p' r where "receiver_act w dir (\<lambda>cw. take_radio_event cw wanted) p = (p', r)"
    "physical_inv p'" "same_report p p'" "ph_clocks p' = ph_clocks p"
    "case r of Inr (Some f) \<Rightarrow> wanted f = Inr True | _ \<Rightarrow> True"
proof (cases dir)
  case BASE_TO_ROBOT
  obtain c r where "take_radio_event (pw_robot w) wanted (ph_robot p) = (c, r)" by fastforce
  then show ?thesis
    using BASE_TO_ROBOT assms take_radio_event_inv [of "ph_robot p" "pw_robot w" wanted]
      take_radio_event_wanted [of "pw_robot w" wanted "ph_robot p" c]
    by (intro that [of "p\<lparr>ph_robot := c\<rparr>" r])
      (auto simp: receiver_act_def physical_inv_def same_report_def split: sum.splits option.splits)
next
  case ROBOT_TO_BASE
  obtain c r where "take_radio_event (pw_base w) wanted (ph_base p) = (c, r)" by fastforce
  then show ?thesis
    using ROBOT_TO_BASE assms take_radio_event_inv [of "ph_base p" "pw_base w" wanted]
      take_radio_event_wanted [of "pw_base w" wanted "ph_base p" c]
    by (intro that [of "p\<lparr>ph_base := c\<rparr>" r])
      (auto simp: receiver_act_def physical_inv_def same_report_def split: sum.splits option.splits)
qed

lemma sender_effect:
  assumes "physical_ticking w" and "physical_inv p"
  obtains p' r where "sender_call w dir (\<lambda>cw. client_send cw wire 2) p = Some (p', r)"
    "physical_inv p'" "same_report p p'" "ph_clocks p' = ph_clocks p"
proof (cases dir)
  case BASE_TO_ROBOT
  obtain c r where "client_send (pw_base w) wire 2 (ph_base p) = Some (c, r)" "client_inv c"
    using client_send_ends assms unfolding physical_ticking_def physical_inv_def by blast
  then show ?thesis
    using BASE_TO_ROBOT assms by (intro that [of "p\<lparr>ph_base := c\<rparr>" r])
      (auto simp: sender_call_def physical_inv_def same_report_def)
next
  case ROBOT_TO_BASE
  obtain c r where "client_send (pw_robot w) wire 2 (ph_robot p) = Some (c, r)" "client_inv c"
    using client_send_ends assms unfolding physical_ticking_def physical_inv_def by blast
  then show ?thesis
    using ROBOT_TO_BASE assms by (intro that [of "p\<lparr>ph_robot := c\<rparr>" r])
      (auto simp: sender_call_def physical_inv_def same_report_def)
qed

lemma finish_delivers:
  assumes "app_encode frame = Inr wire" and "carries wire event = Inr True" and "physical_inv p"
  shows "\<exists>p' rssi snr. finish_transmission w wire started event p = (p', Inr (frame, rssi, snr)) \<and>
    goes_on p p' \<and> delivered frame wire p p' frame"
proof -
  obtain rx where "parse_radio_rx (uf_payload event) = Inr rx" "rx_payload rx = wire"
    using assms(2) by (auto simp: carries_def bindR_Inr_iff)
  moreover have "app_decode wire = Inr frame"
    using assms(1) by (rule app_codec.dec_enc)
  ultimately show ?thesis
    using assms(3)
    by (simp add: finish_transmission_def physical_clock_def seqA_def thenA_def change_def lift_def
        physical_inv_def delivered_def goes_on_def)
qed

lemma await_event_ends:
  assumes "passes (pw_clock w)" and "app_encode frame = Inr wire" and "physical_inv p"
  shows "\<exists>p' r. await_event w dir wire started deadline p = Some (p', r) \<and> goes_on p p' \<and>
    (case r of Inl e \<Rightarrow> True | Inr (received, _) \<Rightarrow> delivered frame wire p p' received)"
  using assms(3)
proof (induction "readings_left (pw_clock w) deadline (ph_clocks p)" arbitrary: p rule: less_induct)
  case less
  let ?p1 = "p\<lparr>ph_clocks := Suc (ph_clocks p)\<rparr>"
  show ?case
  proof (cases "pw_clock w (ph_clocks p) < deadline")
    case False
    then show ?thesis
      using less.prems by (subst await_event.simps) (simp add: physical_clock_def physical_inv_def goes_on_def)
  next
    case True
    have "physical_inv ?p1" using less.prems by (simp add: physical_inv_def)
    then obtain p2 r where e: "receiver_act w dir (\<lambda>cw. take_radio_event cw (carries wire)) ?p1 = (p2, r)"
      "physical_inv p2" "same_report ?p1 p2" "ph_clocks p2 = ph_clocks ?p1"
      "case r of Inr (Some f) \<Rightarrow> carries wire f = Inr True | _ \<Rightarrow> True"
      by (rule receiver_effect)
    note unfold = await_event.simps [of w dir wire started deadline p] physical_clock_def
    show ?thesis
    proof (cases r)
      case (Inl x)
      then show ?thesis using True e by (simp add: unfold goes_on_def same_report_def)
    next
      case found: (Inr found)
      show ?thesis
      proof (cases found)
        case (Some event)
        then obtain p' rssi snr where
          "finish_transmission w wire started event p2 = (p', Inr (frame, rssi, snr))"
          "goes_on p2 p'" "delivered frame wire p2 p' frame"
          using finish_delivers [OF assms(2) _ e(2)] e(5) found by fastforce
        then show ?thesis
          using True e found Some by (simp add: unfold delivered_def same_report_def goes_on_def)
      next
        case None
        have "readings_left (pw_clock w) deadline (ph_clocks p2) < readings_left (pw_clock w) deadline (ph_clocks p)"
          using readings_less [of "pw_clock w" "ph_clocks p" deadline "ph_clocks p2"] assms(1) True e(4) by simp
        from less.hyps [OF this e(2)] obtain p' q where
          a: "await_event w dir wire started deadline p2 = Some (p', q)" "goes_on p2 p'"
            "case q of Inl e \<Rightarrow> True | Inr (received, _) \<Rightarrow> delivered frame wire p2 p' received"
          by blast
        have "await_event w dir wire started deadline p = Some (p', q)"
          using True e(1) found None a(1) by (simp add: unfold)
        then show ?thesis
          using a e(3,4) by (cases q) (auto simp: delivered_def same_report_def goes_on_def)
      qed
    qed
  qed
qed

lemma physical_transmit_ends:
  assumes "physical_ticking w" and "physical_inv p"
  shows "\<exists>p' r. physical_transmit w dir frame p = Some (p', r) \<and> goes_on p p' \<and>
    (case r of
       Inl e \<Rightarrow> True
     | Inr (received, rssi, snr) \<Rightarrow> \<exists>wire. app_encode frame = Inr wire \<and> delivered frame wire p p' received)"
proof (cases "app_encode frame")
  case (Inl e)
  then show ?thesis using assms by (simp add: physical_transmit_def goes_on_def)
next
  case (Inr wire)
  let ?p1 = "p\<lparr>ph_clocks := Suc (ph_clocks p)\<rparr>"
  have "physical_inv ?p1" using assms by (simp add: physical_inv_def)
  then obtain p2 r where s: "sender_call w dir (\<lambda>cw. client_send cw wire 2) ?p1 = Some (p2, r)"
    "physical_inv p2" "same_report ?p1 p2" "ph_clocks p2 = ph_clocks ?p1"
    using sender_effect assms(1) by metis
  show ?thesis
  proof (cases r)
    case (Inl e)
    then show ?thesis using s Inr by (simp add: physical_transmit_def physical_clock_def goes_on_def same_report_def)
  next
    case sent: (Inr sent)
    let ?p3 = "p2\<lparr>ph_clocks := Suc (ph_clocks p2)\<rparr>"
    obtain p' q where a: "await_event w dir wire (pw_clock w (ph_clocks p))
        (pw_clock w (ph_clocks p2) + 1) ?p3 = Some (p', q)" "goes_on ?p3 p'"
      "case q of Inl e \<Rightarrow> True | Inr (received, _) \<Rightarrow> delivered frame wire ?p3 p' received"
    proof -
      have "passes (pw_clock w)" "physical_inv ?p3"
        using assms(1) s(2) by (simp_all add: physical_ticking_def physical_inv_def)
      from await_event_ends [OF this(1) Inr this(2)] that show ?thesis by blast
    qed
    have "physical_transmit w dir frame p = Some (p', q)"
      using s(1) sent Inr a(1) by (simp add: physical_transmit_def physical_clock_def)
    then show ?thesis
      using a(2,3) s(3,4) Inr by (cases q) (auto simp: delivered_def same_report_def goes_on_def)
  qed
qed

text \<open>
  The time-outs: every reading of the clock in a wait, but the last, is before the deadline. The
  sender waits at its own clock, and then the transport at its.
\<close>

lemma poll_clocks: "mcl_clocks (fst (poll w m)) = mcl_clocks m"
proof -
  have "mcl_clocks (fold accept_frame fs m) = mcl_clocks m" for fs m
    using accept_frames(2) [of m fs] by (simp add: quiet_def)
  then show ?thesis
    by (simp add: poll_def seqA_def read_port_def Let_def split: prod.splits sum.splits)
qed

definition in_time :: "(nat \<Rightarrow> time) \<Rightarrow> time \<Rightarrow> nat \<Rightarrow> nat \<Rightarrow> bool" where
  "in_time clock deadline first next' \<longleftrightarrow> (\<forall>i. first \<le> i \<and> Suc i < next' \<longrightarrow> clock i < deadline)"

lemma in_time_more:
  "in_time clock deadline (Suc n) k \<Longrightarrow> clock n < deadline \<Longrightarrow> in_time clock deadline n k"
  unfolding in_time_def by (metis Suc_leI le_neq_implies_less)

lemma wait_response_times:
  assumes "wait_response w msg_type sqn deadline m = Some y"
  shows "mcl_clocks m < mcl_clocks (fst y) \<and>
      in_time (cw_clock w) deadline (mcl_clocks m) (if is_ok (snd y) then Suc (mcl_clocks (fst y)) else mcl_clocks (fst y))"
proof (rule wait_response.raw_induct [where P = "\<lambda>w msg_type sqn deadline m y.
    mcl_clocks m < mcl_clocks (fst y) \<and>
      in_time (cw_clock w) deadline (mcl_clocks m) (if is_ok (snd y) then Suc (mcl_clocks (fst y)) else mcl_clocks (fst y))", OF _ assms])
  fix rec w msg_type sqn deadline m0 y
  assume ih: "\<And>w msg_type sqn deadline m y. rec w msg_type sqn deadline m = Some y \<Longrightarrow>
      mcl_clocks m < mcl_clocks (fst y) \<and>
      in_time (cw_clock w) deadline (mcl_clocks m) (if is_ok (snd y) then Suc (mcl_clocks (fst y)) else mcl_clocks (fst y))"
    and eq: "(case read_clock w m0 of
        (m1, Inl e) \<Rightarrow> Some (m1, Inl e)
      | (m1, Inr now) \<Rightarrow>
          if now < deadline
          then (case poll w m1 of
                  (m2, Inl e) \<Rightarrow> Some (m2, Inl e)
                | (m2, Inr inbox) \<Rightarrow>
                    (case find_answer msg_type sqn inbox of
                       Reply f rest \<Rightarrow> Some (take_answer f rest m2, Inr f)
                     | Refused payload \<Rightarrow> Some (m2, Inl (ModemError (hex payload)))
                     | NoAnswer \<Rightarrow> rec w msg_type sqn deadline m2))
          else Some (m1, Inl TimeoutExc)) = Some y"
  let ?m1 = "m0\<lparr>mcl_clocks := Suc (mcl_clocks m0)\<rparr>"
  obtain m2 r where p: "poll w ?m1 = (m2, r)" by (rule prod.exhaust)
  have c: "mcl_clocks m2 = Suc (mcl_clocks m0)" using poll_clocks [of w ?m1] p by simp
  have one: "in_time (cw_clock w) deadline (mcl_clocks m0) (Suc (mcl_clocks m0))" by (simp add: in_time_def)
  have two: "in_time (cw_clock w) deadline (mcl_clocks m0) (Suc (Suc (mcl_clocks m0)))"
    if "cw_clock w (mcl_clocks m0) < deadline"
    using that by (auto simp: in_time_def less_Suc_eq)
  show "mcl_clocks m0 < mcl_clocks (fst y) \<and>
      in_time (cw_clock w) deadline (mcl_clocks m0) (if is_ok (snd y) then Suc (mcl_clocks (fst y)) else mcl_clocks (fst y))"
  proof (cases "cw_clock w (mcl_clocks m0) < deadline")
    case True
    have rest: "mcl_clocks m0 < mcl_clocks (fst y) \<and>
      in_time (cw_clock w) deadline (mcl_clocks m0) (if is_ok (snd y) then Suc (mcl_clocks (fst y)) else mcl_clocks (fst y))"
      if "rec w msg_type sqn deadline m2 = Some y"
      using ih [OF that] True in_time_more [of "cw_clock w" deadline "mcl_clocks m0"] c by (auto split: if_splits)
    show ?thesis
      using eq True p c one two [OF True] rest by (auto simp: read_clock_def take_answer_def split: sum.splits answer.splits)
  qed (use eq one in \<open>auto simp: read_clock_def\<close>)
qed

lemma client_send_times:
  assumes "client_send w payload deadline m = Some (m', r)"
  shows "in_time (cw_clock w) (cw_clock w (mcl_clocks m) + deadline) (Suc (mcl_clocks m)) (mcl_clocks m')"
proof -
  let ?d = "cw_clock w (mcl_clocks m) + deadline"
  obtain m1 sqn where n: "next_sequence_number m = (m1, sqn)" "mcl_clocks m1 = mcl_clocks m"
    by (auto simp: next_sequence_number_def Let_def)
  show ?thesis
  proof (cases sqn)
    case (Inl e)
    with assms n show ?thesis by (simp add: client_send_def in_time_def)
  next
    case (Inr k)
    let ?m2 = "m1\<lparr>mcl_clocks := Suc (mcl_clocks m1)\<rparr>"
    obtain m3 q where p: "post w RADIO_SEND k payload ?m2 = (m3, q)" by (rule prod.exhaust)
    have c3: "mcl_clocks m3 = Suc (mcl_clocks m)"
      using p n(2) by (auto simp: post_def seqA_def lift_def write_port_def split: sum.splits)
    have call: "(case q of Inl e \<Rightarrow> (m', r) = (m3, Inl e)
       | Inr _ \<Rightarrow> \<exists>y. wait_response w RADIO_TX_RESULT k ?d m3 = Some y \<and>
           mcl_clocks m' \<in> {mcl_clocks (fst y), Suc (mcl_clocks (fst y))} \<and>
           (mcl_clocks m' = Suc (mcl_clocks (fst y)) \<longrightarrow> is_ok (snd y)))"
      using assms n Inr p
      by (auto simp: client_send_def read_clock_def thenO_def is_ok_iff split: sum.splits option.splits prod.splits)
    show ?thesis
    proof (cases q)
      case (Inl e)
      then show ?thesis using call c3 by (simp add: in_time_def)
    next
      case (Inr u)
      then obtain y where y: "wait_response w RADIO_TX_RESULT k ?d m3 = Some y"
        "mcl_clocks m' \<in> {mcl_clocks (fst y), Suc (mcl_clocks (fst y))}"
        "mcl_clocks m' = Suc (mcl_clocks (fst y)) \<longrightarrow> is_ok (snd y)"
        using call by auto
      then show ?thesis
        using wait_response_times [OF y(1)] c3 by (auto simp: in_time_def split: if_splits)
    qed
  qed
qed

lemma finish_clocks:
  "ph_clocks (fst (finish_transmission w wire started event p)) \<le> Suc (ph_clocks p)"
  "ph_clocks p \<le> ph_clocks (fst (finish_transmission w wire started event p))"
  by (simp_all add: finish_transmission_def physical_clock_def seqA_def thenA_def change_def lift_def split: sum.splits)

lemma await_event_times:
  assumes "await_event w dir wire started deadline p = Some y"
  shows "in_time (pw_clock w) deadline (ph_clocks p) (ph_clocks (fst y))"
proof (rule await_event.raw_induct [where P = "\<lambda>w dir wire started deadline p y.
    in_time (pw_clock w) deadline (ph_clocks p) (ph_clocks (fst y))", OF _ assms])
  fix rec dir wire started deadline p0 y
  fix w :: physical_world
  assume ih: "\<And>w dir wire started deadline p y. rec w dir wire started deadline p = Some y \<Longrightarrow>
      in_time (pw_clock w) deadline (ph_clocks p) (ph_clocks (fst y))"
    and eq: "(case physical_clock w p0 of
        (p1, Inl e) \<Rightarrow> Some (p1, Inl e)
      | (p1, Inr now) \<Rightarrow>
          if now < deadline
          then (case receiver_act w dir (\<lambda>cw. take_radio_event cw (carries wire)) p1 of
                  (p2, Inl e) \<Rightarrow> Some (p2, Inl e)
                | (p2, Inr None) \<Rightarrow> rec w dir wire started deadline p2
                | (p2, Inr (Some event)) \<Rightarrow> Some (finish_transmission w wire started event p2))
          else Some (p1, Inl TimeoutExc)) = Some y"
  let ?p1 = "p0\<lparr>ph_clocks := Suc (ph_clocks p0)\<rparr>"
  obtain p2 r where a: "receiver_act w dir (\<lambda>cw. take_radio_event cw (carries wire)) ?p1 = (p2, r)"
    by (rule prod.exhaust)
  have c: "ph_clocks p2 = Suc (ph_clocks p0)"
    using a by (auto simp: receiver_act_def split: direction.splits prod.splits)
  have one: "in_time (pw_clock w) deadline (ph_clocks p0) (Suc (ph_clocks p0))" by (simp add: in_time_def)
  show "in_time (pw_clock w) deadline (ph_clocks p0) (ph_clocks (fst y))"
  proof (cases "pw_clock w (ph_clocks p0) < deadline")
    case False
    then show ?thesis using eq one by (auto simp: physical_clock_def)
  next
    case True
    have two: "in_time (pw_clock w) deadline (ph_clocks p0) k" if "k \<le> Suc (Suc (ph_clocks p0))" for k
    proof (unfold in_time_def, intro allI impI)
      fix i
      assume "ph_clocks p0 \<le> i \<and> Suc i < k"
      with that have "i = ph_clocks p0" by linarith
      with True show "pw_clock w i < deadline" by simp
    qed
    have "in_time (pw_clock w) deadline (ph_clocks p0) (ph_clocks (fst y))"
      if "rec w dir wire started deadline p2 = Some y"
      using ih [OF that] True c in_time_more [of "pw_clock w" deadline "ph_clocks p0" "ph_clocks (fst y)"] by auto
    then show ?thesis
      using eq True a c two finish_clocks [where p = p2]
      by (auto simp: physical_clock_def split: sum.splits option.splits)
  qed
qed

text \<open>The two clients of a transmission.\<close>

definition sender_of :: "direction \<Rightarrow> physical \<Rightarrow> modem_client" where
  "sender_of dir p = (if dir = BASE_TO_ROBOT then ph_base p else ph_robot p)"

definition sender_clock :: "direction \<Rightarrow> physical_world \<Rightarrow> nat \<Rightarrow> time" where
  "sender_clock dir w = cw_clock (if dir = BASE_TO_ROBOT then pw_base w else pw_robot w)"

lemma sender_of_clocks [simp]: "sender_of dir (p\<lparr>ph_clocks := n\<rparr>) = sender_of dir p"
  by (simp add: sender_of_def)

lemma await_event_sender:
  assumes "await_event w dir wire started deadline p = Some y"
  shows "sender_of dir (fst y) = sender_of dir p"
proof (rule await_event.raw_induct [where P = "\<lambda>w dir wire started deadline p y.
    sender_of dir (fst y) = sender_of dir p", OF _ assms])
  fix rec dir wire started deadline p0 y
  fix w :: physical_world
  assume ih: "\<And>w dir wire started deadline p y. rec w dir wire started deadline p = Some y \<Longrightarrow>
      sender_of dir (fst y) = sender_of dir p"
    and eq: "(case physical_clock w p0 of
        (p1, Inl e) \<Rightarrow> Some (p1, Inl e)
      | (p1, Inr now) \<Rightarrow>
          if now < deadline
          then (case receiver_act w dir (\<lambda>cw. take_radio_event cw (carries wire)) p1 of
                  (p2, Inl e) \<Rightarrow> Some (p2, Inl e)
                | (p2, Inr None) \<Rightarrow> rec w dir wire started deadline p2
                | (p2, Inr (Some event)) \<Rightarrow> Some (finish_transmission w wire started event p2))
          else Some (p1, Inl TimeoutExc)) = Some y"
  let ?p1 = "p0\<lparr>ph_clocks := Suc (ph_clocks p0)\<rparr>"
  obtain p2 r where a: "receiver_act w dir (\<lambda>cw. take_radio_event cw (carries wire)) ?p1 = (p2, r)"
    by (rule prod.exhaust)
  have c: "sender_of dir p2 = sender_of dir p0"
    using a by (auto simp: receiver_act_def sender_of_def split: direction.splits prod.splits)
  have f: "sender_of dir (fst (finish_transmission w wire started event p2)) = sender_of dir p2" for event
    by (simp add: finish_transmission_def physical_clock_def seqA_def thenA_def change_def lift_def sender_of_def
        split: sum.splits)
  have "sender_of dir (fst y) = sender_of dir p0" if "rec w dir wire started deadline p2 = Some y"
    using ih [OF that] c by simp
  then show "sender_of dir (fst y) = sender_of dir p0"
    using eq a c f by (auto simp: physical_clock_def split: if_splits sum.splits option.splits)
qed

lemma physical_transmit_times:
  assumes "physical_transmit w dir frame p = Some (p', r)"
  shows "in_time (sender_clock dir w) (sender_clock dir w (mcl_clocks (sender_of dir p)) + 2)
      (Suc (mcl_clocks (sender_of dir p))) (mcl_clocks (sender_of dir p')) \<and>
    in_time (pw_clock w) (pw_clock w (Suc (ph_clocks p)) + 1) (Suc (Suc (ph_clocks p))) (ph_clocks p')"
proof (cases "app_encode frame")
  case (Inl e)
  then show ?thesis using assms by (auto simp: physical_transmit_def in_time_def)
next
  case (Inr wire)
  let ?p1 = "p\<lparr>ph_clocks := Suc (ph_clocks p)\<rparr>"
  obtain p2 q where s: "sender_call w dir (\<lambda>cw. client_send cw wire 2) ?p1 = Some (p2, q)"
    using assms Inr by (cases "sender_call w dir (\<lambda>cw. client_send cw wire 2) ?p1")
      (auto simp: physical_transmit_def physical_clock_def)
  have c2: "ph_clocks p2 = Suc (ph_clocks p)"
    using s by (auto simp: sender_call_def split: direction.splits)
  have t2: "in_time (sender_clock dir w) (sender_clock dir w (mcl_clocks (sender_of dir p)) + 2)
      (Suc (mcl_clocks (sender_of dir p))) (mcl_clocks (sender_of dir p2))"
    using s client_send_times by (cases dir) (auto simp: sender_call_def sender_of_def sender_clock_def)
  show ?thesis
  proof (cases q)
    case (Inl e)
    then have "p' = p2" using assms \<open>app_encode frame = Inr wire\<close> s
      by (simp add: physical_transmit_def physical_clock_def)
    then show ?thesis using t2 c2 by (simp add: in_time_def)
  next
    case (Inr u)
    let ?p3 = "p2\<lparr>ph_clocks := Suc (ph_clocks p2)\<rparr>"
    have "await_event w dir wire (pw_clock w (ph_clocks p)) (pw_clock w (Suc (ph_clocks p)) + 1) ?p3 = Some (p', r)"
      using assms \<open>app_encode frame = Inr wire\<close> s Inr c2 by (simp add: physical_transmit_def physical_clock_def)
    from await_event_times [OF this] await_event_sender [OF this] t2 c2 show ?thesis
      by simp
  qed
qed

text \<open>
  Property C20. A physical transmission always ends, within its time-outs, whatever the modems and
  the radio do. The sender waits for its modem's answer 2 s at most: every reading of its clock
  after the first, but the last, is less than 2 s after the first. Then the transport waits 1 s at most
  for the frame to come out of the other modem: every reading of its clock in that wait, but the
  last, is less than 1 s after the wait began. When the transmission succeeds, what it
  returns as received is the frame that was sent, field by field, with one more frame decoded, one
  more transaction time and the frame's airtime in the report.
\<close>

theorem physical_transmission:
  assumes "physical_ticking w" and "physical_inv p"
    and "sends = sender_clock dir w" and "sent_at = mcl_clocks (sender_of dir p)"
    and "waits = pw_clock w" and "waited_from = Suc (ph_clocks p)"
  shows "\<exists>p' r. physical_transmit w dir frame p = Some (p', r) \<and> physical_inv p' \<and>
    (\<forall>i. sent_at < i \<and> Suc i < mcl_clocks (sender_of dir p') \<longrightarrow> sends i < sends sent_at + 2) \<and>
    (\<forall>i. waited_from < i \<and> Suc i < ph_clocks p' \<longrightarrow> waits i < waits waited_from + 1) \<and>
    (case r of
       Inl e \<Rightarrow> True
     | Inr (received, rssi, snr) \<Rightarrow> \<exists>wire. app_encode frame = Inr wire \<and> delivered frame wire p p' received)"
proof -
  obtain p' r where t: "physical_transmit w dir frame p = Some (p', r)" "goes_on p p'"
    "case r of Inl e \<Rightarrow> True
     | Inr (received, rssi, snr) \<Rightarrow> \<exists>wire. app_encode frame = Inr wire \<and> delivered frame wire p p' received"
    using physical_transmit_ends [OF assms(1,2), of dir frame] by blast
  with physical_transmit_times [OF t(1)] assms(3-6) show ?thesis
    by (auto simp: goes_on_def in_time_def Suc_le_eq)
qed

definition sample_physical_world :: physical_world where
  "sample_physical_world =
     \<lparr>pw_base = sample_client_world, pw_robot = sample_client_world, pw_clock = (\<lambda>n. real n / 1000)\<rparr>"

definition sample_info :: info where
  "sample_info =
     \<lparr>device_id = [1, 2, 3, 4, 5, 6], info_boot_id = 1, capabilities = 0, max_air_payload = 200,
      info_radio_ready = 1, profile_id = 1, info_uptime_ms = 0\<rparr>"

definition sample_physical :: physical where
  "sample_physical =
     \<lparr>ph_base = fst (new_modem_client sample_client_world 7),
      ph_robot = fst (new_modem_client sample_client_world 8), ph_clocks = 0, ph_started = 0,
      ph_estimated_airtime_s = 0, ph_transaction_times_ms = [], ph_application_frames_decoded = 0,
      ph_info = (sample_info, sample_info), ph_status_start = ([], []), ph_diagnostics_start = ([], [])\<rparr>"

text \<open>
  Before a transmission that succeeds: the answer of the one modem and the event of the other are in
  the inboxes of the clients.
\<close>

definition sample_sent :: app_frame where
  "sample_sent = \<lparr>af_typ = TELEMETRY, af_sender_session = 1, af_message_id = 9, af_source_age_ms = 0, af_body = [1, 2]\<rparr>"

definition sample_wire :: bytes where
  "sample_wire = (case app_encode sample_sent of Inl e \<Rightarrow> [] | Inr wire \<Rightarrow> wire)"

definition sample_sending :: physical where
  "sample_sending = sample_physical
     \<lparr>ph_base := accept_frame \<lparr>uf_msg_type = RADIO_TX_RESULT, uf_session = 7, uf_sequence = 1, uf_payload = replicate 12 0\<rparr>
        (ph_base sample_physical),
      ph_robot := accept_frame \<lparr>uf_msg_type = RADIO_RX, uf_session = 8, uf_sequence = 0,
        uf_payload = replicate 16 0 @ sample_wire\<rparr> (ph_robot sample_physical)\<rparr>"

lemma sample_encoded: "app_encode sample_sent = Inr sample_wire" "app_decode sample_wire = Inr sample_sent"
    "length sample_wire = 22"
proof -
  have "\<exists>bs. app_encode sample_sent = Inr bs \<and> length bs = 22 \<and> app_decode bs = Inr sample_sent"
    using app_encode_ok [of sample_sent] by (simp add: sample_sent_def)
  then show "app_encode sample_sent = Inr sample_wire" "app_decode sample_wire = Inr sample_sent"
    "length sample_wire = 22" by (auto simp: sample_wire_def)
qed

lemma sample_event: "parse_radio_rx (replicate 16 0 @ wire) =
    Inr \<lparr>rx_sender = 0, rx_air = 0, rx_rssi = 0, rx_snr = 0, rx_uptime = 0, rx_payload = wire\<rparr>"
  by (simp add: parse_radio_rx_def struct_unpack_from_def struct_unpack_def unbe_def unbe_signed_def numeral_eq_Suc)

lemma sample_post: "\<exists>raw. encode_frame RADIO_SEND 7 1 sample_wire = Inr raw"
  by (auto simp: encode_frame_Inr_iff usb_body_Inr_iff sample_encoded)

lemma sample_client: "fst (new_modem_client cw n) =
    \<lparr>mcl_session = n, mcl_sequence = 0, mcl_decoder = new_stream_decoder, mcl_inbox = [], mcl_info = None,
     mcl_usb_bytes_read = 0, mcl_frames_decoded = 0, mcl_wrong_session = 0, mcl_radio_rx_events = 0,
     mcl_radio_rx_matched = 0, mcl_responses = 0, mcl_reads = 0, mcl_writes = 1, mcl_clocks = 0,
     mg_written = [[0]], mg_accepted = [], mg_taken = []\<rparr>"
  by (simp add: new_modem_client_def write_port_def)

lemma sample_success: "\<exists>p'. physical_transmit sample_physical_world BASE_TO_ROBOT sample_sent sample_sending =
    Some (p', Inr (sample_sent, 0, 0))"
proof -
  obtain raw where "encode_frame RADIO_SEND 7 1 sample_wire = Inr raw" using sample_post by blast
  note sent = client_send_def next_sequence_number_def Let_def read_clock_def post_def seqA_def lift_def this
    write_port_def wait_response.simps [of _ _ _ "_ :: real"] poll_def read_port_def sample_client_world_def
  show ?thesis
    by (simp add: physical_transmit_def sample_encoded physical_clock_def sender_call_def sample_sending_def
        sample_physical_def sample_client sample_physical_world_def accept_frame_def sent take_answer_def
        await_event.simps [of _ _ _ "_ :: real"] receiver_act_def take_radio_event_def is_radio_rx_def carries_def
        sample_event finish_transmission_def thenA_def change_def)
qed

lemma physical_transmission_witness:
  "\<exists>p' received rssi snr. physical_transmit sample_physical_world BASE_TO_ROBOT sample_sent sample_sending =
       Some (p', Inr (received, rssi, snr)) \<and>
     received = sample_sent \<and> ph_application_frames_decoded p' = 1 \<and>
     (\<forall>i. 1 < i \<and> Suc i < ph_clocks p' \<longrightarrow> pw_clock sample_physical_world i < pw_clock sample_physical_world 1 + 1)"
proof -
  have t: "physical_ticking sample_physical_world"
    using sample_client_ticking ticks_pass [of "\<lambda>n. real n / 1000"]
    by (simp add: physical_ticking_def sample_physical_world_def ticks_def field_simps)
  have i: "physical_inv sample_sending"
    by (simp add: physical_inv_def sample_sending_def sample_physical_def new_modem_client_inv accept_frame_inv)
  have c: "ph_clocks sample_sending = 0" "ph_application_frames_decoded sample_sending = 0"
    by (simp_all add: sample_sending_def sample_physical_def)
  from physical_transmission [OF t i refl refl refl refl, of BASE_TO_ROBOT sample_sent] sample_success
  show ?thesis by (auto simp: c delivered_def)
qed

text \<open>
  Property C40. The differences of the modems' diagnostic counters survive the wrap of the 32-bit
  counters: whatever a counter showed at the start, when it has advanced by less than \<open>2 ^ 32\<close> the
  report shows by how much.
\<close>

theorem diagnostics_survive_wrap:
  assumes "length before = 10" and "length advance = 9"
    and "list_all (\<lambda>k. 0 \<le> k \<and> k < 2 ^ 32) advance"
    and "after = map (\<lambda>(b, k). (b + k) mod 2 ^ 32) (zip before advance) @ [depth]"
  shows "diagnostics_delta before after =
    Inr (zip COUNTER_NAMES advance @
         [(''usb_queue_depth_start'', last before), (''usb_queue_depth_end'', depth)])"
proof -
  have wrap: "((b + k) mod 2 ^ 32 - b) mod 2 ^ 32 = k" if "0 \<le> k" "k < 2 ^ 32" for b k :: int
  proof -
    have "((b + k) mod 2 ^ 32 - b) mod 2 ^ 32 = (b + k - b) mod 2 ^ 32"
      by (rule mod_diff_left_eq)
    then show ?thesis using that by simp
  qed
  obtain b0 b1 b2 b3 b4 b5 b6 b7 b8 b9 where b: "before = [b0, b1, b2, b3, b4, b5, b6, b7, b8, b9]"
    using assms(1) by (auto simp: numeral_eq_Suc length_Suc_conv)
  obtain k0 k1 k2 k3 k4 k5 k6 k7 k8 where k: "advance = [k0, k1, k2, k3, k4, k5, k6, k7, k8]"
    using assms(2) by (auto simp: numeral_eq_Suc length_Suc_conv)
  have "[0..8] = [0, 1, 2, 3, 4, 5, 6, 7, 8 :: int]"
    by (simp add: upto.simps)
  then show ?thesis
    using assms(3) b k wrap assms(4)
    by (simp add: diagnostics_delta_def difference_def COUNTER_NAMES_def py_index_def)
qed

lemma diagnostics_survive_wrap_witness:
  "diagnostics_delta [4294967290, 1, 2, 3, 4, 5, 6, 7, 8, 2] [4, 1, 2, 3, 4, 5, 6, 7, 8, 3] =
   Inr (zip COUNTER_NAMES [10, 0, 0, 0, 0, 0, 0, 0, 0] @
        [(''usb_queue_depth_start'', 2), (''usb_queue_depth_end'', 3)])"
  using diagnostics_survive_wrap [of "[4294967290, 1, 2, 3, 4, 5, 6, 7, 8, 2]" "[10, 0, 0, 0, 0, 0, 0, 0, 0]"
      "[4, 1, 2, 3, 4, 5, 6, 7, 8, 3]" 3]
  by simp

end
