(* ===== verification/End_To_End.thy ===== *)
theory End_To_End
  imports Base_Service Robot_Service
begin

text \<open>
  The path of a correction from the base's source to the robot's TCP clients, across the two
  services (\<open>host/mowgli_lora/service.py\<close>): what \<open>BaseService.step\<close> gives to the modem for a frame,
  and what steps of \<open>RobotService\<close> publish when the radio delivers such payloads in any order, some
  twice, some not at all, among others it cannot use.
\<close>

subsection \<open>What the radio carries\<close>

text \<open>The payload of fragment \<open>i\<close> of a frame, as the base encodes it when it has the given age.\<close>

definition base_payload :: "bytes \<Rightarrow> msg_key \<Rightarrow> int \<Rightarrow> nat \<Rightarrow> bytes result" where
  "base_payload raw key age i =
     bindR (fragment raw (fst key) (snd key) 0) (\<lambda>fs. app_encode ((fs ! i)\<lparr>af_source_age_ms := age\<rparr>))"

text \<open>A message key within the 32 bits of its two fields.\<close>

definition key_ok :: "msg_key \<Rightarrow> bool" where
  "key_ok key \<longleftrightarrow> 0 < fst key \<and> fst key < 2 ^ 32 \<and> 0 < snd key \<and> snd key < 2 ^ 32"

text \<open>What reaches the robot: a payload of the base, one it cannot use, or the end of a step.\<close>

datatype radio_event = FromBase time msg_key nat int | Noise time bytes | StepEnd time

fun event_time :: "radio_event \<Rightarrow> time" where
  "event_time (FromBase t key i age) = t"
| "event_time (Noise t payload) = t"
| "event_time (StepEnd t) = t"

definition unusable :: "bytes \<Rightarrow> bool" where
  "unusable payload =
     (case app_decode payload of Inl e \<Rightarrow> True | Inr f \<Rightarrow> af_typ f \<noteq> RTCM_FRAGMENT)"

fun event_ok :: "(msg_key \<Rightarrow> bytes) \<Rightarrow> msg_key set \<Rightarrow> radio_event \<Rightarrow> bool" where
  "event_ok raws ks (FromBase t key i age) =
     (key \<in> ks \<and> i < fragment_count (length (raws key)) \<and> 0 \<le> age \<and> age < RTCM_TRANSPORT_TTL_MS)"
| "event_ok raws ks (Noise t payload) = unusable payload"
| "event_ok raws ks (StepEnd t) = True"

subsection \<open>What the robot hears\<close>

text \<open>The time of a step and the payloads that \<open>tick\<close> returns in it.\<close>

definition heard_in_step :: "env \<Rightarrow> robot_service \<Rightarrow> time \<times> bytes list" where
  "heard_in_step w r0 =
     (let (r, now) = robot_clock w r0
      in (now, case snd (modem_tick w True (rs_modem r)) of Inl e \<Rightarrow> [] | Inr payloads \<Rightarrow> payloads))"

text \<open>All of it in a number of steps; \<open>None\<close> marks the end of a step.\<close>

fun heard :: "env \<Rightarrow> net \<Rightarrow> nat \<Rightarrow> robot_service \<Rightarrow> (time \<times> bytes option) list" where
  "heard w wn 0 r = []"
| "heard w wn (Suc n) r =
     (let (now, payloads) = heard_in_step w r
      in map (\<lambda>p. (now, Some p)) payloads @ [(now, None)] @ heard w wn n (fst (robot_step w wn r)))"

fun brings :: "(msg_key \<Rightarrow> bytes) \<Rightarrow> radio_event \<Rightarrow> time \<times> bytes option \<Rightarrow> bool" where
  "brings raws (FromBase t key i age) x =
     (\<exists>payload. base_payload (raws key) key age i = Inr payload \<and> x = (t, Some payload))"
| "brings raws (Noise t payload) x = (x = (t, Some payload))"
| "brings raws (StepEnd t) x = (x = (t, None))"

lemma deliver_reassembler [simp]: "rs_reassembler (fst (deliver w wn raw r)) = rs_reassembler r"
  by (auto simp: deliver_def Let_def robot_clock_def on_output_def split: prod.splits sum.splits)

lemma deliver_ok:
  assumes "\<And>i. \<not> snd (net_accept wn i)"
  shows "snd (deliver w wn raw r) = Inr ()"
proof -
  have "\<exists>d. snd (publish wn t raw x) = Inr d" for t x
    using publish_error [of wn t raw x] assms by (cases "snd (publish wn t raw x)") auto
  then show ?thesis
    by (auto simp: deliver_def Let_def robot_clock_def on_output_def split: prod.splits sum.splits)
      (metis Inl_Inr_False snd_conv)
qed

lemma base_payload_decodes:
  assumes "valid_rtcm3 raw" and "i < fragment_count (length raw)" and "base_payload raw key age i = Inr payload"
  shows "app_decode payload = Inr (fragment_frame (projr (rtcm_type raw)) raw (fst key) (snd key) age i)"
proof -
  obtain t where t: "rtcm_type raw = Inr t" using rtcm_type_valid [OF assms(1)] .
  have "(fragment_frame t raw (fst key) (snd key) 0 i)\<lparr>af_source_age_ms := age\<rparr> =
      fragment_frame t raw (fst key) (snd key) age i"
    by (simp add: fragment_frame_def)
  then have "app_encode (fragment_frame t raw (fst key) (snd key) age i) = Inr payload"
    using assms fragment_eq [OF assms(1) t] by (simp add: base_payload_def)
  then show ?thesis using t by (simp add: app_codec.dec_enc)
qed


text \<open>What \<open>BaseService.step\<close> gives the modem is such a payload, of a frame that is valid and fresh.\<close>

lemma base_sends_payload:
  assumes "base_inv now b" and "bs_in_flight b = None"
    and "bs_in_flight (fst (send_next w now b)) = Some sqn"
  shows "\<exists>raw t i payload. valid_rtcm3 raw \<and> key_ok (bs_session b, bs_message_id b) \<and>
    event_ok (\<lambda>_. raw) {(bs_session b, bs_message_id b)} (FromBase now (bs_session b, bs_message_id b) i (source_age now t)) \<and>
    base_payload raw (bs_session b, bs_message_id b) (source_age now t) i = Inr payload \<and>
    snd (send_air w payload (bs_modem b)) = Inr (Some sqn)"
proof -
  obtain f t rest where frags: "bs_fragments b = (f, t) # rest"
    using assms(2,3) by (auto simp: send_next_def split: list.splits)
  have c: "ready_for_send (bs_modem b)" "source_age now t < 1000"
    using assms(2,3) by (auto simp: send_next_def frags split: if_splits)
  have "0 \<le> source_age now t" using waiting_time [OF assms(1) frags] by (rule source_age_nonneg)
  obtain bs where bs: "app_encode (f\<lparr>af_source_age_ms := source_age now t\<rparr>) = Inr bs"
    using waiting_fragment [OF assms(1) frags c(2)] .
  have "snd (send_air w bs (bs_modem b)) = Inr (Some sqn)"
    using assms(2,3) c bs by (auto simp: send_next_def frags Let_def split: sum.splits option.splits prod.splits)
  have ids: "0 < bs_session b" "bs_session b < 2 ^ 32" "bs_message_id b < 2 ^ 32"
    using assms(1) by (simp_all add: base_inv_def)
  obtain raw fs where f: "0 < bs_message_id b" "valid_rtcm3 raw"
      "fragment raw (bs_session b) (bs_message_id b) 0 = Inr fs" "f \<in> set fs"
    using waiting_fragment_origin [OF assms(1) frags] .
  then obtain k where k: "k < length fs" "f = fs ! k" by (metis in_set_conv_nth)
  obtain ty where "rtcm_type raw = Inr ty" using rtcm_type_valid [OF f(2)] .
  from fragment_eq [OF f(2) this] f(3)
  have "fs = map (fragment_frame ty raw (bs_session b) (bs_message_id b) 0) [0..<fragment_count (length raw)]"
    by simp
  then have "k < fragment_count (length raw)" using k(1) by simp
  then show ?thesis
    using f ids k c \<open>0 \<le> source_age now t\<close> bs \<open>snd (send_air w bs (bs_modem b)) = Inr (Some sqn)\<close>
    by (intro exI [of _ raw] exI [of _ t] exI [of _ k] exI [of _ bs]) (simp add: key_ok_def base_payload_def)
qed


subsection \<open>The robot as the reassembly specification\<close>

lemma robot_payload_fragment:
  assumes "app_decode payload = Inr f" and "af_typ f = RTCM_FRAGMENT"
    and "\<And>i. \<not> snd (net_accept wn i)" and "ra_inv (rs_reassembler r)"
  shows "rs_reassembler (fst (robot_payload w wn now payload r)) = fst (ra_add now f (rs_reassembler r)) \<and>
    snd (robot_payload w wn now payload r) = Inr ()"
proof -
  obtain ra res where a: "ra_add now f (rs_reassembler r) = (ra, res)" by fastforce
  from ra_add_ok [OF assms(4), of now f] a
  have "ra_result_ok (af_sender_session f, af_message_id f) ra res" by simp
  then consider m where "res = Inl (ApplicationError m)" | raw_option where "res = Inr raw_option"
    by (cases res) (auto simp: ra_result_ok_def ra_errors_def)
  then show ?thesis
  proof cases
    case (2 raw_option)
    then show ?thesis
      using assms(1-3) a by (cases raw_option) (simp_all add: robot_payload_def deliver_ok)
  qed (use assms(1,2) a in \<open>simp add: robot_payload_def\<close>)
qed

lemma robot_payload_unusable:
  assumes "unusable payload"
  shows "rs_reassembler (fst (robot_payload w wn now payload r)) = rs_reassembler r \<and>
    snd (robot_payload w wn now payload r) = Inr () \<and> published_frame now payload r = []"
proof (cases "app_decode payload")
  case (Inl e)
  then show ?thesis
    using app_decode_error [OF Inl] by (auto simp: robot_payload_def published_frame_def)
next
  case (Inr f)
  then show ?thesis
    using assms by (simp add: unusable_def robot_payload_def published_frame_def)
qed

fun frag_in_of :: "radio_event \<Rightarrow> frag_in list" where
  "frag_in_of (FromBase t key i age) = [Frag t key i age]"
| "frag_in_of (Noise t payload) = []"
| "frag_in_of (StepEnd t) = [Tick t]"

fun found :: "bytes option result list \<Rightarrow> bytes list" where
  "found [] = []"
| "found (Inr (Some raw) # outs) = raw # found outs"
| "found (out # outs) = found outs"

abbreviation ra_events :: "(msg_key \<Rightarrow> bytes) \<Rightarrow> radio_event list \<Rightarrow> ra_event list" where
  "ra_events raws es \<equiv> map (frag_event raws) (concat (map frag_in_of es))"

lemma ra_outputs_append:
  "ra_outputs r (es @ es') = ra_outputs r es @ ra_outputs (run ra_step r es) es'"
  by (induction r es rule: ra_outputs.induct) simp_all

lemma found_append: "found (outs @ outs') = found outs @ found outs'"
  by (induction outs rule: found.induct) simp_all

text \<open>
  The robot follows the specification: its reassembler is the one fed with the fragments, and what
  it published meanwhile is what that one gave out.
\<close>

definition follows :: "env \<Rightarrow> (nat \<Rightarrow> bytes option) \<Rightarrow> nat \<Rightarrow> bytes list \<Rightarrow> robot_service \<Rightarrow> ra_event list \<Rightarrow>
    robot_service \<times> unit result \<Rightarrow> bool" where
  "follows w base since published r es x \<longleftrightarrow>
     snd x = Inr () \<and> rs_reassembler (fst x) = run ra_step (rs_reassembler r) es \<and>
     robot_inv w base since (published @ found (ra_outputs (rs_reassembler r) es)) (fst x)"

lemma follows_then:
  assumes "follows w base since published r es (r', Inr ())"
    and "follows w base since (published @ found (ra_outputs (rs_reassembler r) es)) r' es' x"
  shows "follows w base since published r (es @ es') x"
  using assms by (simp add: follows_def run_append ra_outputs_append found_append)

definition quiet_network :: "env \<Rightarrow> net \<Rightarrow> (msg_key \<Rightarrow> bytes) \<Rightarrow> msg_key set \<Rightarrow> bool" where
  "quiet_network w wn raws ks \<longleftrightarrow>
     env_ok w \<and> clock_ok w \<and> net_ok wn \<and> (\<forall>i. \<not> snd (net_accept wn i)) \<and> (\<forall>key\<in>ks. valid_rtcm3 (raws key))"

lemma quiet_networkD:
  assumes "quiet_network w wn raws ks"
  shows "env_ok w" and "clock_ok w" and "net_ok wn" and "\<not> snd (net_accept wn i)"
    and "key \<in> ks \<Longrightarrow> valid_rtcm3 (raws key)"
  using assms by (simp_all add: quiet_network_def)

lemma payload_follows:
  assumes "brings raws e (t, Some payload)" and "event_ok raws ks e" and "robot_inv w base since published r"
    and q: "quiet_network w wn raws ks"
  shows "follows w base since published r (ra_events raws [e]) (robot_payload w wn t payload r)"
proof -
  have ra: "ra_inv (rs_reassembler r)" using assms(3) by (simp add: robot_inv_def)
  obtain ps where "robot_inv w base since (published @ ps) (fst (robot_payload w wn t payload r))"
      "ps = published_frame t payload r"
    using robot_payload_inv [OF quiet_networkD(2,3) [OF q] assms(3), of t payload] quiet_networkD(4) [OF q] by blast
  then have inv: "robot_inv w base since (published @ published_frame t payload r) (fst (robot_payload w wn t payload r))"
    by simp
  show ?thesis
  proof (cases e)
    case (FromBase t' key i age)
    with assms(1,2) have p: "base_payload (raws key) key age i = Inr payload" "t' = t"
      and e: "key \<in> ks" "i < fragment_count (length (raws key))" by auto
    have d: "app_decode payload = Inr (fragment_frame (projr (rtcm_type (raws key))) (raws key) (fst key) (snd key) age i)"
      using base_payload_decodes [OF quiet_networkD(5) [OF q e(1)] e(2) p(1)] .
    then have "published_frame t payload r = found (ra_outputs (rs_reassembler r) (ra_events raws [e]))"
      unfolding FromBase p(2)
      by (auto simp: published_frame_def frag_event_def split: sum.split option.split)
    then show ?thesis
      using inv robot_payload_fragment [OF d _ quiet_networkD(4) [OF q] ra, of w t] FromBase p(2)
      by (simp add: follows_def frag_event_def)
  next
    case (Noise t' p')
    with assms(1,2) inv robot_payload_unusable [of payload w wn t r] show ?thesis
      by (simp add: follows_def)
  qed (use assms(1) in simp)
qed

lemma payloads_follow:
  assumes "list_all2 (brings raws) es (map (\<lambda>p. (t, Some p)) payloads)" and "list_all (event_ok raws ks) es"
    and "robot_inv w base since published r"
    and q: "quiet_network w wn raws ks"
  shows "follows w base since published r (ra_events raws es) (robot_payloads w wn t payloads r)"
  using assms(1-3)
proof (induction payloads arbitrary: es published r)
  case Nil
  then show ?case by (simp add: follows_def)
next
  case (Cons p payloads)
  then obtain e es' where es: "es = e # es'" "brings raws e (t, Some p)" "event_ok raws ks e"
      "list_all2 (brings raws) es' (map (\<lambda>p. (t, Some p)) payloads)" "list_all (event_ok raws ks) es'"
    by (auto simp: list_all2_Cons2)
  obtain r' u where r': "robot_payload w wn t p r = (r', u)" by fastforce
  have one: "follows w base since published r (ra_events raws [e]) (r', Inr ())"
    using payload_follows [OF es(2,3) Cons.prems(3) q] r' by (simp add: follows_def)
  then have "robot_inv w base since (published @ found (ra_outputs (rs_reassembler r) (ra_events raws [e]))) r'"
    by (simp add: follows_def)
  from follows_then [OF one Cons.IH [OF es(4,5) this]] show ?case
    using es(1) r' payload_follows [OF es(2,3) Cons.prems(3) q] by (simp add: follows_def)
qed

lemma step_follows:
  assumes "list_all2 (brings raws) es (heard w wn 1 r)" and "list_all (event_ok raws ks) es"
    and "robot_inv w base since published r"
    and q: "quiet_network w wn raws ks"
  shows "follows w base since published r (ra_events raws es) (robot_step w wn r)"
proof -
  obtain r1 now m payloads where c: "robot_clock w r = (r1, now)"
    and m: "modem_tick w True (rs_modem r1) = (m, Inr payloads)"
    and i: "robot_inv w base since published (r1\<lparr>rs_modem := m\<rparr>)"
    and same: "rs_reassembler r1 = rs_reassembler r"
    using robot_tick_inv [OF quiet_networkD(1) [OF q] assms(3)] .
  have "heard w wn 1 r = map (\<lambda>p. (now, Some p)) payloads @ [(now, None)]"
    by (simp add: heard_in_step_def c m)
  with assms(1) obtain es1 e where es: "es = es1 @ [e]"
      "list_all2 (brings raws) es1 (map (\<lambda>p. (now, Some p)) payloads)" "brings raws e (now, None)"
    by (auto simp: list_all2_append2 list_all2_Cons2)
  from es(3) have e: "e = StepEnd now" by (cases e) auto
  obtain r2 u where p: "robot_payloads w wn now payloads (r1\<lparr>rs_modem := m\<rparr>) = (r2, u)" by fastforce
  have "follows w base since published (r1\<lparr>rs_modem := m\<rparr>) (ra_events raws es1) (r2, u)"
    using payloads_follow [OF es(2) _ i q] assms(2) es(1) p by simp
  then have u: "u = Inr ()" and one: "follows w base since published r (ra_events raws es1) (r2, Inr ())"
    using same by (auto simp: follows_def)
  have "raises_ok wn (snd (robot_finish w wn now r2)) \<Longrightarrow> snd (robot_finish w wn now r2) = Inr ()"
    using quiet_networkD(4) [OF q] by (cases "snd (robot_finish w wn now r2)") (auto simp: raises_ok_def)
  then have "follows w base since (published @ found (ra_outputs (rs_reassembler r) (ra_events raws es1))) r2
      (ra_events raws [e]) (robot_finish w wn now r2)"
    using robot_finish_inv [OF quiet_networkD(3) [OF q], of w base since _ r2 now] one e
    by (auto simp: follows_def frag_event_def)
  from follows_then [OF one this] show ?thesis
    using es(1) u by (simp add: robot_step_def c m p)
qed

lemma steps_follow:
  assumes "list_all2 (brings raws) es (heard w wn n r)" and "list_all (event_ok raws ks) es"
    and "robot_inv w base since published r"
    and q: "quiet_network w wn raws ks"
  shows "follows w base since published r (ra_events raws es) (run (robot_turn w wn) r (replicate n ()), Inr ()) \<and>
    (\<forall>k<n. snd (robot_step w wn (run (robot_turn w wn) r (replicate k ()))) = Inr ())"
  using assms(1-3)
proof (induction n arbitrary: es published r)
  case 0
  then show ?case by (simp add: follows_def)
next
  case (Suc n)
  have "heard w wn (Suc n) r = heard w wn 1 r @ heard w wn n (robot_turn w wn r ())"
    by (simp add: case_prod_unfold Let_def robot_turn_def)
  with Suc.prems(1) obtain es1 es2 where es: "es = es1 @ es2" "list_all2 (brings raws) es1 (heard w wn 1 r)"
      "list_all2 (brings raws) es2 (heard w wn n (robot_turn w wn r ()))"
    by (auto simp: list_all2_append2)
  have ok: "list_all (event_ok raws ks) es1" "list_all (event_ok raws ks) es2" using Suc.prems(2) es(1) by simp_all
  obtain u where u: "robot_step w wn r = (robot_turn w wn r (), u)" by (metis robot_turn_def prod.collapse)
  have one: "follows w base since published r (ra_events raws es1) (robot_turn w wn r (), Inr ())" "u = Inr ()"
    using step_follows [OF es(2) ok(1) Suc.prems(3) q] u by (auto simp: follows_def)
  then have "robot_inv w base since (published @ found (ra_outputs (rs_reassembler r) (ra_events raws es1))) (robot_turn w wn r ())"
    by (simp add: follows_def)
  note rest = Suc.IH [OF es(3) ok(2) this]
  have "snd (robot_step w wn (run (robot_turn w wn) r (replicate k ()))) = Inr ()" if "k < Suc n" for k
    using that rest u one(2) by (cases k) auto
  then show ?case using follows_then [OF one(1) rest [THEN conjunct1]] es(1) by simp
qed

text \<open>What the specification gives out: each frame that becomes complete, once.\<close>

definition completed_by :: "(msg_key \<Rightarrow> bytes) \<Rightarrow> (msg_key \<times> nat) list \<Rightarrow> frag_in list \<Rightarrow> msg_key \<Rightarrow> bool" where
  "completed_by raws seen es key \<longleftrightarrow>
     \<not> complete raws seen key \<and>
     (\<forall>i<fragments_of raws key. (key, i) \<in> set seen \<or> (\<exists>t age. Frag t key i age \<in> set es))"

lemma spec_found:
  "\<exists>keys. found (frag_spec raws seen es) = map raws keys \<and> distinct keys \<and> set keys = Collect (completed_by raws seen es)"
proof (induction raws seen es rule: frag_spec.induct)
  case (1 raws seen)
  have "\<not> completed_by raws seen [] key" for key
    using completeI [of raws key seen] by (auto simp: completed_by_def)
  then show ?case by (intro exI [of _ "[]"]) simp
next
  case (2 raws seen t es)
  then show ?case by (simp add: completed_by_def)
next
  case (3 raws seen t key i age es)
  show ?case
  proof (cases "complete raws seen key")
    case True
    then have "completed_by raws seen (Frag t key i age # es) = completed_by raws seen es"
      by (auto simp: completed_by_def fun_eq_iff)
    then show ?thesis using 3(1) [OF True] True by simp
  next
    case False
    let ?seen = "(key, i) # seen"
    obtain keys where keys: "found (frag_spec raws ?seen es) = map raws keys" "distinct keys"
      "set keys = Collect (completed_by raws ?seen es)"
      using 3(2) [OF False refl] by blast
    have same: "completed_by raws ?seen es k = completed_by raws seen (Frag t key i age # es) k"
      if "k \<noteq> key \<or> \<not> complete raws ?seen key" for k
      using that complete_other [of k key raws i seen] False by (auto simp: completed_by_def)
    show ?thesis
    proof (cases "complete raws ?seen key")
      case True
      have "completed_by raws seen (Frag t key i age # es) key"
        using False completeD [OF True] by (auto simp: completed_by_def)
      moreover have "\<not> completed_by raws ?seen es key"
        using True by (simp add: completed_by_def)
      ultimately have "k \<in> set (key # keys) \<longleftrightarrow> completed_by raws seen (Frag t key i age # es) k" for k
        using keys(3) same [of k] by (cases "k = key") simp_all
      then have "set (key # keys) = Collect (completed_by raws seen (Frag t key i age # es))"
        by blast
      moreover have "distinct (key # keys)"
        using keys(2,3) \<open>\<not> completed_by raws ?seen es key\<close> by simp
      ultimately show ?thesis
        using False True keys(1) by (intro exI [of _ "key # keys"]) (simp add: Let_def)
    next
      case inc: False
      then have "completed_by raws ?seen es = completed_by raws seen (Frag t key i age # es)"
        using same by (simp add: fun_eq_iff)
      then show ?thesis using False inc keys by (intro exI [of _ keys]) (simp add: Let_def)
    qed
  qed
qed


subsection \<open>From source to client\<close>

lemma frag_in_ok:
  assumes "list_all (event_ok raws ks) es"
    and "\<forall>e\<in>set es. s \<le> event_time e \<and> event_time e < u"
  shows "\<forall>e\<in>set (concat (map frag_in_of es)). frag_ok raws ks e \<and> s \<le> frag_time e \<and> frag_time e < u"
proof
  fix x
  assume "x \<in> set (concat (map frag_in_of es))"
  then obtain e where e: "e \<in> set es" "x \<in> set (frag_in_of e)" by auto
  then have "event_ok raws ks e" "s \<le> event_time e \<and> event_time e < u"
    using assms by (auto simp: list_all_iff)
  then show "frag_ok raws ks x \<and> s \<le> frag_time x \<and> frag_time x < u"
    using e(2) by (cases e) (auto simp: fragments_of_def)
qed

lemma frag_in_of_mem: "Frag t key i age \<in> set (concat (map frag_in_of es)) \<longleftrightarrow> FromBase t key i age \<in> set es"
proof -
  have "Frag t key i age \<in> set (frag_in_of e) \<longleftrightarrow> e = FromBase t key i age" for e
    by (cases e) auto
  then show ?thesis by auto
qed

lemma completed_by_heard:
  assumes "\<And>key. key \<in> ks \<Longrightarrow> valid_rtcm3 (raws key)" and "list_all (event_ok raws ks) es"
  shows "completed_by raws [] (concat (map frag_in_of es)) key \<longleftrightarrow>
    key \<in> ks \<and> (\<forall>i<fragment_count (length (raws key)). \<exists>t age. FromBase t key i age \<in> set es)"
proof -
  have "key \<in> ks" if c: "completed_by raws [] (concat (map frag_in_of es)) key"
  proof -
    from c obtain i where "i < fragments_of raws key"
      using completeI [of raws key "[]"] unfolding completed_by_def by blast
    then have "(key, i) \<in> set [] \<or> (\<exists>t age. Frag t key i age \<in> set (concat (map frag_in_of es)))"
      using c unfolding completed_by_def by blast
    then obtain t age where "Frag t key i age \<in> set (concat (map frag_in_of es))" by auto
    then have "FromBase t key i age \<in> set es" unfolding frag_in_of_mem .
    then show ?thesis using assms(2) by (auto simp: list_all_iff)
  qed
  moreover have "\<not> complete raws [] key" if "key \<in> ks" using incomplete_Nil assms(1) [OF that] by metis
  ultimately show ?thesis
    by (auto simp: completed_by_def frag_in_of_mem fragments_of_def simp del: set_concat)
qed

text \<open>
  Property C1. Corrections arrive end to end, whole and once, under these conditions. On the base:
  up to eight valid frames, fragmented and encoded under keys (session and message id) within 32
  bits, each fragment with a source age below 1000 ms. On the robot: a state that its invariant
  allows, with a clock that does not go backwards, random numbers in the range asked for, and
  sockets that take no more bytes than they are offered; nothing incomplete in its reassembler, none of the keys refused there already, and room in its list of refusals for all of
  them (the refusals it has and the keys are at most 64 together); and \<open>accept\<close> on its listening
  socket never raises anything but \<open>BlockingIOError\<close>, since any other error of \<open>accept\<close> is caught
  nowhere and would end the service. On the radio: the fragments are delivered within 0.6 s and over
  any number of the robot's steps, in any order, interleaved, repeated or lost, among payloads that
  are corrupt or of another type. Then no step raises, and whatever a client that stays connected
  took and will get has grown by exactly the frames all of whose fragments arrived: byte for byte as
  they were at the base, and each exactly once.
\<close>

theorem corrections_end_to_end:
  assumes "robot_ok w wn r" and "\<And>i. \<not> snd (net_accept wn i)"
    and "ra_items (rs_reassembler r) = []" and "finite ks" and "card ks \<le> MAX_REASSEMBLIES"
    and "fst ` set (ra_blocked_until (rs_reassembler r)) \<inter> ks = {}"
    and "length (ra_blocked_until (rs_reassembler r)) + card ks \<le> MAX_BLOCKED"
    and "\<And>key. key \<in> ks \<Longrightarrow> valid_rtcm3 (raws key)"
    and "list_all2 (brings raws) es (heard w wn n r)" and "list_all (event_ok raws ks) es"
    and "\<forall>e\<in>set es. s \<le> event_time e \<and> event_time e < s + REASSEMBLY_TIMEOUT_S"
  shows "(\<forall>k<n. snd (robot_step w wn (run (robot_turn w wn) r (replicate k ()))) = Inr ()) \<and>
    (\<exists>keys. distinct keys \<and>
       set keys = {key \<in> ks. \<forall>i<fragment_count (length (raws key)). \<exists>t age. FromBase t key i age \<in> set es} \<and>
       (\<forall>c before after. client_stream c (rs_output r) = Some before \<longrightarrow>
          client_stream c (rs_output (run (robot_turn w wn) r (replicate n ()))) = Some after \<longrightarrow>
          after = before @ concat (map raws keys)))"
proof -
  let ?fs = "concat (map frag_in_of es)" and ?ra = "rs_reassembler r"
  let ?base = "\<lambda>c. client_stream c (rs_output r)" and ?r' = "run (robot_turn w wn) r (replicate n ())"
  have q: "quiet_network w wn raws ks" using assms(1,2,8) by (auto simp: robot_ok_def quiet_network_def)
  obtain published where r: "robot_inv w (\<lambda>_. None) 0 published r" using assms(1) by (auto simp: robot_ok_def)
  have ra: "ra_inv ?ra" using r by (simp add: robot_inv_def)
  have "robot_inv w ?base (length published) published r"
    using r to_inv_rebase by (fastforce simp: robot_inv_def)
  note run = steps_follow [OF assms(9,10) this q]
  have "ra_sim raws ks (fst ` set (ra_blocked_until ?ra)) s [] ?ra"
    using ra assms(3,6,8) by (intro new_sim) auto
  moreover have "card (fst ` set (ra_blocked_until ?ra) \<union> ks) = length (ra_blocked_until ?ra) + card ks"
    using assms(4,6) ra_invD(3) [OF ra] by (subst card_Un_disjoint) (auto simp: distinct_keys_card)
  ultimately have spec: "ra_outputs ?ra (ra_events raws es) = frag_spec raws [] ?fs"
    using assms(4,5,7,8) frag_in_ok [OF assms(10,11)] by (intro frag_run_sim) auto
  obtain keys where keys: "found (frag_spec raws [] ?fs) = map raws keys" "distinct keys"
    "set keys = Collect (completed_by raws [] ?fs)"
    using spec_found by blast
  have "robot_inv w ?base (length published) (published @ map raws keys) ?r'"
    using run spec keys(1) by (simp add: follows_def)
  then have "stream_ok ?base (length published) (published @ map raws keys) c after"
    if "client_stream c (rs_output ?r') = Some after" for c after
    using client_streamD [OF _ that] by (auto simp: robot_inv_def)
  then have "\<forall>c before after. client_stream c (rs_output r) = Some before \<longrightarrow>
      client_stream c (rs_output ?r') = Some after \<longrightarrow> after = before @ concat (map raws keys)"
    by (fastforce simp: stream_ok_def)
  moreover have "set keys = {key \<in> ks. \<forall>i<fragment_count (length (raws key)). \<exists>t age. FromBase t key i age \<in> set es}"
    unfolding keys(3) using completed_by_heard [OF assms(8,10)] by auto
  ultimately show ?thesis using run keys(2) by blast
qed

text \<open>
  One client is connected; the radio delivered a fragment that is a whole frame, some noise, and the
  fragment again.
\<close>

definition sample_frame :: bytes where "sample_frame = [211, 0, 2, 62, 208, 164, 224, 0]"

definition sample_payload :: bytes where
  "sample_payload = (case base_payload sample_frame (7, 1) 3 0 of Inl e \<Rightarrow> [] | Inr p \<Rightarrow> p)"

definition sample_robot :: robot_service where
  "sample_robot = new_robot_service (sample_ready\<lparr>md_received := [sample_payload, [1, 2, 3], sample_payload], md_last_radio_rx := 2\<rparr>)
     ((new_tcp_output [])\<lparr>to_clients := [(0, [])], to_next_client := 1, to_taken := [(0, [])]\<rparr>)"

lemma sample_fragments: "fragment_count (length sample_frame) = 1"
  by (simp add: fragment_count_def sample_frame_def)

lemma sample_frame_valid: "valid_rtcm3 sample_frame"
  by (simp add: sample_frame_def rtcm_vector)

lemma sample_payload: "base_payload sample_frame (7, 1) 3 0 = Inr sample_payload"
  "app_decode sample_payload = Inr (fragment_frame (projr (rtcm_type sample_frame)) sample_frame 7 1 3 0)"
proof -
  obtain t where t: "rtcm_type sample_frame = Inr t" using rtcm_type_valid [OF sample_frame_valid] .
  obtain bs where "app_encode (fragment_frame t sample_frame 7 1 3 0) = Inr bs"
    using sample_fragments by (auto intro: fragment_frame_encodes [of 7 1 3 t sample_frame 0] simp: sample_frame_valid t)
  moreover have "(fragment_frame t sample_frame 7 1 0 0)\<lparr>af_source_age_ms := 3\<rparr> = fragment_frame t sample_frame 7 1 3 0"
    by (simp add: fragment_frame_def)
  ultimately show "base_payload sample_frame (7, 1) 3 0 = Inr sample_payload"
    using fragment_eq [OF sample_frame_valid t] sample_fragments by (simp add: base_payload_def sample_payload_def)
  from base_payload_decodes [OF sample_frame_valid _ this] sample_fragments show
    "app_decode sample_payload = Inr (fragment_frame (projr (rtcm_type sample_frame)) sample_frame 7 1 3 0)"
    by simp
qed

lemma sample_tick: "snd (modem_tick sample_env True (called (sample_ready\<lparr>md_received := ps, md_last_radio_rx := 2\<rparr>))) = Inr ps"
  by (simp add: modem_tick_def modem_open_def tick_connected_def sample_ready_def sample_env_def Let_def new_modem_def
      gauge_def called_def expire_timed_out_radio.simps poll_diagnostics_def)

definition sample_events :: "radio_event list" where
  "sample_events = [FromBase 2 (7, 1) 0 3, Noise 2 [1, 2, 3], FromBase 2 (7, 1) 0 3, StepEnd 2]"

lemma sample_clock: "robot_clock sample_env sample_robot = (sample_robot\<lparr>rs_modem := called (rs_modem sample_robot)\<rparr>, 2)"
  by (simp add: robot_clock_def sample_env_def)

lemma sample_heard:
  "heard sample_env sample_net 1 sample_robot =
     [(2, Some sample_payload), (2, Some [1, 2, 3]), (2, Some sample_payload), (2, None)]"
  by (simp add: heard_in_step_def sample_clock) (simp add: sample_robot_def new_robot_service_def sample_tick)

lemma sample_robot_ok: "robot_ok sample_env sample_net sample_robot"
proof -
  have "modem_inv (rs_modem sample_robot)"
    by (simp add: sample_robot_def new_robot_service_def sample_ready_def new_modem_def modem_inv_def gauges_def
        gauge_def called_def sample_env_def)
  moreover have "to_inv (\<lambda>_. None) 0 [] 2 (rs_output sample_robot)"
    by (auto simp: sample_robot_def new_robot_service_def to_inv_def clients_shape_def client_ok_def stream_ok_def
        frames_ok_def new_tcp_output_def distinct_keys_def)
  ultimately have "robot_inv sample_env (\<lambda>_. None) 0 [] sample_robot"
    using new_reassembler_inv by (auto simp: robot_inv_def sample_robot_def new_robot_service_def sample_env_def)
  then show ?thesis
    using sample_env_ok sample_net_ok by (auto simp: robot_ok_def clock_ok_def sample_env_def)
qed

lemma sample_published_stream:
  "client_stream 0 (fst (flush sample_net 2 ((fst (publish sample_net 2 sample_frame
      ((rs_output sample_robot)\<lparr>to_metrics := ms\<rparr>)))\<lparr>to_metrics := ms'\<rparr>))) \<noteq> None"
  by (simp add: sample_robot_def new_robot_service_def Let_def sample_net_def publish_def accept_clients_def
      new_tcp_output_def flush_def client_stream_def publish_client_def flush_client_def client_frames_def is_stale_def
      to_add_def set_frames_def to_called_def to_set_def qo_remaining_def sample_frame_def numeral_eq_Suc)

lemma sample_step: "client_stream 0 (rs_output (fst (robot_step sample_env sample_net sample_robot))) \<noteq> None"
proof -
  let ?f = "fragment_frame (projr (rtcm_type sample_frame)) sample_frame 7 1 3 0"
  have r0: "rs_reassembler sample_robot = new_reassembler" "snd (modem_tick sample_env True (called (rs_modem sample_robot))) =
      Inr [sample_payload, [1, 2, 3], sample_payload]"
    by (simp_all add: sample_robot_def new_robot_service_def sample_tick)
  obtain m where m: "modem_tick sample_env True (called (rs_modem sample_robot)) = (m, Inr [sample_payload, [1, 2, 3], sample_payload])"
    using r0(2) by (metis prod.collapse)
  have noise: "app_decode [1, 2, 3] = Inl (ApplicationError ''application frame size'')" by (simp add: app_decode_def)
  have "ra_sim (\<lambda>_. sample_frame) {(7, 1)} {} 2 [] new_reassembler"
    using new_sim [of new_reassembler "{(7, 1)}" "\<lambda>_. sample_frame" 2] new_reassembler_inv sample_frame_valid
    by (simp add: new_reassembler_def)
  then have "ra_outputs new_reassembler (map (frag_event (\<lambda>_. sample_frame)) [Frag 2 (7, 1) 0 3, Frag 2 (7, 1) 0 3]) =
      frag_spec (\<lambda>_. sample_frame) [] [Frag 2 (7, 1) 0 3, Frag 2 (7, 1) 0 3]"
    by (rule frag_run_sim [rotated 5]) (simp_all add: sample_frame_valid sample_fragments fragments_of_def)
  moreover have "complete (\<lambda>_. sample_frame) [((7, 1), 0)] (7, 1)" "\<not> complete (\<lambda>_. sample_frame) [] (7, 1)"
    by (simp_all add: complete_def fragments_of_def sample_fragments)
  ultimately obtain ra1 ra2 where ra: "ra_add 2 ?f new_reassembler = (ra1, Inr (Some sample_frame))"
      "ra_add 2 ?f ra1 = (ra2, Inl (ApplicationError ''expired or completed RTCM message''))"
    by (auto simp: frag_event_def) (metis prod.collapse)
  let ?r1 = "rs_add ''rtcm_fragments_accepted'' 1
    (sample_robot\<lparr>rs_modem := m, rs_reassembler := ra1\<rparr>)"
  let ?r2 = "fst (deliver sample_env sample_net sample_frame ?r1)"
  have "\<exists>ms. rs_output ?r2 = fst (publish sample_net 2 sample_frame ((rs_output sample_robot)\<lparr>to_metrics := ms\<rparr>))"
    by (simp add: deliver_def Let_def robot_clock_def on_output_def case_prod_unfold sample_env_def split: sum.split) blast
  then obtain ms where out: "rs_output ?r2 = fst (publish sample_net 2 sample_frame ((rs_output sample_robot)\<lparr>to_metrics := ms\<rparr>))"
    by blast
  have r2: "rs_reassembler ?r2 = ra1" "snd (deliver sample_env sample_net sample_frame ?r1) = Inr ()"
    by (simp_all add: deliver_ok sample_net_def)
  then have "deliver sample_env sample_net sample_frame ?r1 = (?r2, Inr ())" by (metis prod.collapse)
  then have p1: "robot_payload sample_env sample_net 2 sample_payload
      (sample_robot\<lparr>rs_modem := m\<rparr>) = (?r2, Inr ())"
    by (simp add: robot_payload_def sample_payload(2) ra(1) r0(1))
  let ?r3 = "rs_add ''rtcm_fragments_rejected'' 1
    ((rs_add ''application_decode_failures'' 1 ?r2)\<lparr>rs_reassembler := ra2\<rparr>)"
  have "robot_payloads sample_env sample_net 2 [sample_payload, [1, 2, 3], sample_payload]
      (sample_robot\<lparr>rs_modem := m\<rparr>) = (?r3, Inr ())"
    using ra(2) r2(1) noise by (simp add: p1) (simp add: robot_payload_def sample_payload(2))
  then have step: "robot_step sample_env sample_net sample_robot = robot_finish sample_env sample_net 2 ?r3"
    by (simp add: robot_step_def sample_clock m)
  have "\<exists>ms'. rs_output (fst (robot_finish sample_env sample_net 2 ?r3)) =
      fst (flush sample_net 2 ((rs_output ?r2)\<lparr>to_metrics := ms'\<rparr>))"
    by (simp add: robot_finish_def Let_def robot_clock_def on_output_def case_prod_unfold sample_env_def split: sum.split)
      blast
  then obtain ms' where finish: "rs_output (fst (robot_finish sample_env sample_net 2 ?r3)) =
      fst (flush sample_net 2 ((rs_output ?r2)\<lparr>to_metrics := ms'\<rparr>))" by blast
  show ?thesis unfolding step finish out by (rule sample_published_stream)
qed

lemma corrections_end_to_end_witness:
  "snd (robot_step sample_env sample_net sample_robot) = Inr () \<and>
   client_stream 0 (rs_output sample_robot) = Some [] \<and>
   client_stream 0 (rs_output (fst (robot_step sample_env sample_net sample_robot))) = Some sample_frame"
proof -
  obtain after where after: "client_stream 0 (rs_output (fst (robot_step sample_env sample_net sample_robot))) = Some after"
    using sample_step by blast
  have before: "client_stream 0 (rs_output sample_robot) = Some []"
    by (simp add: client_stream_def sample_robot_def new_robot_service_def)
  have robot: "rs_reassembler sample_robot = new_reassembler"
    by (simp add: sample_robot_def new_robot_service_def)
  have events: "list_all2 (brings (\<lambda>_. sample_frame)) sample_events (heard sample_env sample_net 1 sample_robot)"
    "list_all (event_ok (\<lambda>_. sample_frame) {(7, 1)}) sample_events"
    "\<forall>e\<in>set sample_events. 2 \<le> event_time e \<and> event_time e < 2 + REASSEMBLY_TIMEOUT_S"
    using sample_payload(1)
    by (simp_all only: sample_heard) (simp_all add: sample_events_def sample_fragments key_ok_def unusable_def app_decode_def)
  have all: "\<forall>i<fragment_count (length sample_frame). \<exists>t age. FromBase t (7, 1) i age \<in> set sample_events"
    by (auto simp: sample_fragments sample_events_def)
  have "(\<forall>k<1. snd (robot_step sample_env sample_net
       (run (robot_turn sample_env sample_net) sample_robot (replicate k ()))) = Inr ()) \<and>
    (\<exists>keys. distinct keys \<and>
       set keys = {key \<in> {(7, 1)}. \<forall>i<fragment_count (length sample_frame). \<exists>t age. FromBase t key i age \<in> set sample_events} \<and>
       (\<forall>c before after. client_stream c (rs_output sample_robot) = Some before \<longrightarrow>
          client_stream c (rs_output (run (robot_turn sample_env sample_net) sample_robot (replicate 1 ()))) = Some after \<longrightarrow>
          after = before @ concat (map (\<lambda>_. sample_frame) keys)))"
    by (rule corrections_end_to_end [OF sample_robot_ok _ _ _ _ _ _ _ events])
      (simp_all add: robot sample_net_def sample_frame_valid, simp_all add: new_reassembler_def)
  note run = this [unfolded robot_turn_def One_nat_def replicate.simps run.simps]
  have "snd (robot_step sample_env sample_net sample_robot) = Inr ()" using run by simp
  moreover have "\<exists>keys. distinct keys \<and>
       set keys = {key \<in> {(7, 1)}. \<forall>i<fragment_count (length sample_frame). \<exists>t age. FromBase t key i age \<in> set sample_events} \<and>
       after = [] @ concat (map (\<lambda>_. sample_frame) keys)"
    using run before after by blast
  ultimately obtain keys where keys: "snd (robot_step sample_env sample_net sample_robot) = Inr ()" "distinct keys"
    "set keys = {key \<in> {(7, 1)}. \<forall>i<fragment_count (length sample_frame). \<exists>t age. FromBase t key i age \<in> set sample_events}"
    "after = concat (map (\<lambda>_. sample_frame) keys)" by auto
  then have "set keys = {(7, 1)}" using all by auto
  then have "length keys = 1" using keys(2) distinct_card [of keys] by simp
  then have "after = sample_frame" using keys(4) by (auto simp: length_Suc_conv)
  then show ?thesis using keys(1) before after by simp
qed

end
