(* ===== verification/Service_Bench.thy ===== *)
theory Service_Bench
  imports Base_Service Robot_Service Rtcm_Tool Statements Service_Config
begin

text \<open>
  The bench of the asynchronous services (\<open>host/mowgli_lora/service_bench.py\<close>): a base and a robot
  service over two modems, fed with synthetic epochs, and the verdict on what the robot published.
  The two modems' ports and clocks are the environments of their transports, the bench's own clock is
  a third function. Printing and writing the report are left out.
\<close>

record service_bench_world =
  sw_base :: env
  sw_robot :: env
  sw_clock :: "nat \<Rightarrow> time"

text \<open>
  \<open>sb_output\<close> is what \<open>CaptureOutput\<close> holds; the \<open>rs_output\<close> of the robot service, which is the TCP
  output, is not used here.
\<close>

record service_bench =
  sb_base :: base_service
  sb_robot :: robot_service
  sb_output :: "bytes list"
  sb_source :: "bytes list"
  sb_next_epoch :: time
  sb_epoch :: int
  sb_clocks :: nat

type_synonym robot_capture = "robot_service \<times> bytes list"

subsection \<open>The robot service with \<open>CaptureOutput\<close>\<close>

definition capture_publish :: "bytes \<Rightarrow> robot_capture \<Rightarrow> robot_capture \<times> nat" where
  "capture_publish raw s = ((fst s, snd s @ [raw]), 1)"

definition capture_deliver :: "bytes \<Rightarrow> (robot_capture, unit) act" where
  "capture_deliver raw s0 =
     (let s = (rs_add ''rtcm_output_bytes'' (real (length raw))
                 (rs_add ''rtcm_frames_delivered'' 1 (rs_add ''rtcm_frames_completed'' 1 (fst s0))), snd s0);
          (s', delivered) = capture_publish raw s
      in ((rs_add ''rtcm_tcp_clients_delivered'' (real delivered) (fst s'), snd s'), Inr ()))"

definition capture_payload :: "time \<Rightarrow> bytes \<Rightarrow> (robot_capture, unit) act" where
  "capture_payload now payload s =
     (case app_decode payload of
        Inl (ApplicationError _) \<Rightarrow> ((rs_add ''application_decode_failures'' 1 (fst s), snd s), Inr ())
      | Inl e \<Rightarrow> (s, Inl e)
      | Inr f \<Rightarrow>
          (if af_typ f \<noteq> RTCM_FRAGMENT
           then ((rs_add ''application_non_rtcm_frames'' 1 (fst s), snd s), Inr ())
           else (let (ra, res) = ra_add now f (rs_reassembler (fst s));
                     r = (fst s)\<lparr>rs_reassembler := ra\<rparr>
                 in case res of
                      Inl (ApplicationError _) \<Rightarrow> ((rs_add ''rtcm_fragments_rejected'' 1 r, snd s), Inr ())
                    | Inl e \<Rightarrow> ((r, snd s), Inl e)
                    | Inr None \<Rightarrow> ((rs_add ''rtcm_fragments_accepted'' 1 r, snd s), Inr ())
                    | Inr (Some raw) \<Rightarrow>
                        capture_deliver raw (rs_add ''rtcm_fragments_accepted'' 1 r, snd s))))"

definition capture_finish :: "time \<Rightarrow> robot_capture \<Rightarrow> robot_capture" where
  "capture_finish now s =
     (let r = (fst s)\<lparr>rs_reassembler := fst (ra_expire now (rs_reassembler (fst s)))\<rparr>
      in (rs_set ''rtcm_reassembly_conflicts'' (real (ra_conflict_count (rs_reassembler r)))
            (rs_set ''rtcm_reassembly_timeouts'' (real (ra_timeout_count (rs_reassembler r))) r), snd s))"

definition capture_step :: "env \<Rightarrow> time \<Rightarrow> (robot_capture, unit) act" where
  "capture_step w now s =
     (case modem_tick w True (rs_modem (fst s)) of
        (m, Inl e) \<Rightarrow> (((fst s)\<lparr>rs_modem := m\<rparr>, snd s), Inl e)
      | (m, Inr payloads) \<Rightarrow>
          thenA (eachA (capture_payload now) payloads) (change (capture_finish now))
            ((fst s)\<lparr>rs_modem := m\<rparr>, snd s))"

subsection \<open>The run\<close>

definition bench_clock :: "service_bench_world \<Rightarrow> (service_bench, time) act" where
  "bench_clock w s = (s\<lparr>sb_clocks := Suc (sb_clocks s)\<rparr>, Inr (sw_clock w (sb_clocks s)))"

definition offer_source :: "time \<Rightarrow> bytes \<Rightarrow> (service_bench, unit) act" where
  "offer_source now raw =
     change (\<lambda>s. s\<lparr>sb_source := sb_source s @ [raw], sb_base := fst (ingest now raw (sb_base s))\<rparr>)"

text \<open>The body of the loop over the epochs that are due.\<close>

definition offer_epoch :: "time \<Rightarrow> real \<Rightarrow> (service_bench, unit) act" where
  "offer_epoch now rtcm_hz =
     thenA (change (\<lambda>s. s\<lparr>sb_epoch := sb_epoch s + 1\<rparr>))
    (seqA (\<lambda>s. (s, synthetic_epoch (sb_epoch s))) (\<lambda>frames.
     thenA (eachA (offer_source now) frames)
    (seqA (lift (if rtcm_hz = 0 then Inl ZeroDivisionError else Inr (1 / rtcm_hz))) (\<lambda>period.
     change (\<lambda>s. s\<lparr>sb_next_epoch := sb_next_epoch s + period\<rparr>)))))"

definition offer_due :: "time \<Rightarrow> time \<Rightarrow> time \<Rightarrow> real \<Rightarrow> service_bench \<Rightarrow> (service_bench \<times> unit result) option" where
  "offer_due now elapsed duration rtcm_hz =
     whileA (\<lambda>s. elapsed < duration \<and> elapsed \<ge> sb_next_epoch s) (offer_epoch now rtcm_hz)"

definition step_services :: "service_bench_world \<Rightarrow> time \<Rightarrow> (service_bench, unit) act" where
  "step_services w now s =
     (case base_step (sw_base w) now (sb_base s) of
        (b, Inl e) \<Rightarrow> (s\<lparr>sb_base := b\<rparr>, Inl e)
      | (b, Inr _) \<Rightarrow>
          (case capture_step (sw_robot w) now (sb_robot s, sb_output s) of
             ((r, output), res) \<Rightarrow> (s\<lparr>sb_base := b, sb_robot := r, sb_output := output\<rparr>, res)))"

partial_function (option) service_loop ::
  "service_bench_world \<Rightarrow> time \<Rightarrow> real \<Rightarrow> time \<Rightarrow> service_bench \<Rightarrow> (service_bench \<times> unit result) option" where
  "service_loop w duration rtcm_hz started s0 =
     (case bench_clock w s0 of
        (s1, Inl e) \<Rightarrow> Some (s1, Inl e)
      | (s1, Inr now) \<Rightarrow>
          (case offer_due now (now - started) duration rtcm_hz s1 of
             None \<Rightarrow> None
           | Some (s2, Inl e) \<Rightarrow> Some (s2, Inl e)
           | Some (s2, Inr _) \<Rightarrow>
               (case step_services w now s2 of
                  (s3, Inl e) \<Rightarrow> Some (s3, Inl e)
                | (s3, Inr _) \<Rightarrow>
                    if now - started \<ge> duration \<and> base_idle (sb_base s3) then Some (s3, Inr ())
                    else if now - started \<ge> duration + 2 then Some (s3, Inr ())
                    else service_loop w duration rtcm_hz started s3)))"

definition new_service_bench :: "service_bench_world \<Rightarrow> service_bench" where
  "new_service_bench w =
     \<lparr>sb_base = new_base_service (new_modem (sw_base w) 1),
      sb_robot = new_robot_service (new_modem (sw_robot w) 1) (new_tcp_output []),
      sb_output = [], sb_source = [], sb_next_epoch = 0, sb_epoch = 0, sb_clocks = 0\<rparr>"

text \<open>The \<open>finally\<close> clause.\<close>

definition close_services :: "service_bench_world \<Rightarrow> service_bench \<Rightarrow> service_bench" where
  "close_services w s =
     s\<lparr>sb_base := (sb_base s)\<lparr>bs_modem := modem_close (sw_base w) (bs_modem (sb_base s))\<rparr>,
       sb_robot := (sb_robot s)\<lparr>rs_modem := modem_close (sw_robot w) (rs_modem (sb_robot s))\<rparr>\<rparr>"

subsection \<open>The report\<close>

definition error_counts :: "metrics \<Rightarrow> metrics \<Rightarrow> (string \<times> real) list" where
  "error_counts base robot =
     [(''base_tx_failed'', metric_get ''rtcm_fragments_tx_failed'' base),
      (''base_tx_uncertain'', metric_get ''rtcm_fragments_tx_uncertain'' base),
      (''base_stale'', metric_get ''rtcm_fragments_dropped_stale'' base +
                       metric_get ''rtcm_frames_dropped_stale'' base),
      (''base_response_timeouts'', metric_get ''usb_response_timeouts'' base),
      (''base_modem_errors'', metric_get ''modem_errors'' base),
      (''robot_rejected'', metric_get ''rtcm_fragments_rejected'' robot),
      (''robot_timeouts'', metric_get ''rtcm_reassembly_timeouts'' robot),
      (''robot_modem_errors'', metric_get ''modem_errors'' robot)]"

record service_report =
  sr_duration_s :: time
  sr_rtcm_hz :: real
  sr_pass :: bool
  sr_comparison :: comparison
  sr_errors :: "(string \<times> real) list"
  sr_base_metrics :: metrics
  sr_robot_metrics :: metrics

definition service_report_of :: "time \<Rightarrow> real \<Rightarrow> service_bench \<Rightarrow> service_report" where
  "service_report_of duration rtcm_hz s =
     (let comparison = compare_frames (sb_source s) (sb_output s);
          base_snapshot = md_metrics (bs_modem (sb_base s));
          robot_snapshot = md_metrics (rs_modem (sb_robot s));
          errors = error_counts base_snapshot robot_snapshot
      in \<lparr>sr_duration_s = duration, sr_rtcm_hz = rtcm_hz,
          sr_pass = (sb_source s \<noteq> [] \<and> cmp_exact comparison \<and> \<not> list_ex (\<lambda>(name, n). n \<noteq> 0) errors),
          sr_comparison = comparison, sr_errors = errors,
          sr_base_metrics = base_snapshot, sr_robot_metrics = robot_snapshot\<rparr>)"

definition run_services :: "service_bench_world \<Rightarrow> time \<Rightarrow> real \<Rightarrow> (service_bench \<times> service_report result) option" where
  "run_services w duration rtcm_hz =
     (case bench_clock w (new_service_bench w) of
        (s, Inl e) \<Rightarrow> Some (close_services w s, Inl e)
      | (s, Inr started) \<Rightarrow>
          map_option (\<lambda>(s, res). (close_services w s,
              case res of Inl e \<Rightarrow> Inl e
                | Inr _ \<Rightarrow> Inr (service_report_of duration rtcm_hz (close_services w s))))
            (service_loop w duration rtcm_hz started s))"

text \<open>\<open>main\<close>: the bounds of the arguments, and the exit code.\<close>

fun in_bound :: "real \<Rightarrow> py_float \<Rightarrow> bool" where
  "in_bound bound (Finite x) = (0 < x \<and> x \<le> bound)"
| "in_bound bound _ = False"

fun the_real :: "py_float \<Rightarrow> real" where
  "the_real (Finite x) = x"
| "the_real _ = 0"

definition service_bench_main :: "service_bench_world \<Rightarrow> py_float \<Rightarrow> py_float \<Rightarrow>
    (service_report option \<times> int result) option" where
  "service_bench_main w duration rtcm_hz =
     (if \<not> in_bound 30 duration
      then Some (None, Inl (SystemExit ''physical service bench duration must be in (0, 30] seconds''))
      else if \<not> in_bound 1 rtcm_hz
      then Some (None, Inl (SystemExit ''physical service bench RTCM rate must be in (0, 1] Hz''))
      else map_option (\<lambda>(s, res).
             (case res of Inl e \<Rightarrow> (None, Inl e)
              | Inr report \<Rightarrow> (Some report, Inr (if sr_pass report then 0 else 2))))
             (run_services w (the_real duration) (the_real rtcm_hz)))"

subsection \<open>The invariant\<close>

definition epoch_frames :: "int \<Rightarrow> bytes list" where
  "epoch_frames e = (case synthetic_epoch e of Inl _ \<Rightarrow> [] | Inr frames \<Rightarrow> frames)"

definition capture_inv :: "robot_capture \<Rightarrow> bool" where
  "capture_inv s \<longleftrightarrow>
     modem_inv (rs_modem (fst s)) \<and> ra_inv (rs_reassembler (fst s)) \<and> list_all valid_rtcm3 (snd s)"

definition source_inv :: "time \<Rightarrow> real \<Rightarrow> service_bench \<Rightarrow> bool" where
  "source_inv duration rtcm_hz s \<longleftrightarrow>
     0 \<le> sb_epoch s \<and> real_of_int (sb_epoch s) < duration * rtcm_hz + 1 \<and>
     sb_source s = concat (map epoch_frames [1..sb_epoch s]) \<and>
     sb_next_epoch s = real_of_int (sb_epoch s) / rtcm_hz"

definition bench_inv :: "time \<Rightarrow> real \<Rightarrow> time \<Rightarrow> service_bench \<Rightarrow> bool" where
  "bench_inv duration rtcm_hz now s \<longleftrightarrow>
     base_inv now (sb_base s) \<and> capture_inv (sb_robot s, sb_output s) \<and> source_inv duration rtcm_hz s"

text \<open>The epochs offered are those that some reading of the clock in the loop has found due.\<close>

definition epoch_due :: "service_bench_world \<Rightarrow> time \<Rightarrow> real \<Rightarrow> nat \<Rightarrow> nat \<Rightarrow> bool" where
  "epoch_due w duration rtcm_hz i k \<longleftrightarrow>
     real k / rtcm_hz \<le> sw_clock w i - sw_clock w 0 \<and> sw_clock w i - sw_clock w 0 < duration"

definition due_inv :: "service_bench_world \<Rightarrow> time \<Rightarrow> real \<Rightarrow> service_bench \<Rightarrow> bool" where
  "due_inv w duration rtcm_hz s \<longleftrightarrow>
     1 \<le> sb_clocks s \<and>
     (\<forall>k. int k < sb_epoch s \<longleftrightarrow> (\<exists>i\<in>{1..<sb_clocks s}. epoch_due w duration rtcm_hz i k))"

lemma due_inv_card:
  assumes "due_inv w duration rtcm_hz s"
  shows "nat (sb_epoch s) = card {k. \<exists>i\<in>{1..<sb_clocks s}. epoch_due w duration rtcm_hz i k}"
proof -
  have "{k. \<exists>i\<in>{1..<sb_clocks s}. epoch_due w duration rtcm_hz i k} = {k. int k < sb_epoch s}"
    using assms by (simp add: due_inv_def)
  also have "\<dots> = {..<nat (sb_epoch s)}" by auto
  finally show ?thesis by simp
qed

lemma capture_payload_inv:
  "triple capture_inv (capture_payload now payload) (\<lambda>_. capture_inv) (\<lambda>_ _. False)"
proof (rule tripleI)
  fix s s' r
  assume s: "capture_inv s" and p: "capture_payload now payload s = (s', r)"
  show "case r of Inl e \<Rightarrow> False | Inr u \<Rightarrow> capture_inv s'"
  proof (cases "app_decode payload")
    case (Inl e)
    then show ?thesis using s p app_decode_error [OF Inl] by (auto simp: capture_payload_def capture_inv_def)
  next
    case (Inr f)
    obtain ra res where a: "ra_add now f (rs_reassembler (fst s)) = (ra, res)" by (rule prod.exhaust)
    have "ra_inv (rs_reassembler (fst s))" using s by (simp add: capture_inv_def)
    from ra_add_ok [OF this, of now f] a have ra: "ra_inv ra"
      "ra_result_ok (af_sender_session f, af_message_id f) ra res" by simp_all
    then show ?thesis
      using s p Inr a
      by (auto simp: capture_payload_def capture_deliver_def capture_publish_def capture_inv_def Let_def ra_result_ok_def
          ra_errors_def split: if_splits sum.splits option.splits)
  qed
qed

lemma capture_finish_inv: "capture_inv s \<Longrightarrow> capture_inv (capture_finish now s)"
  by (simp add: capture_inv_def capture_finish_def Let_def ra_expire_inv)

lemma capture_step_inv:
  assumes "env_ok w"
  shows "triple capture_inv (capture_step w now) (\<lambda>_. capture_inv) (\<lambda>_ _. False)"
proof (rule tripleI)
  fix s s' r
  assume s: "capture_inv s" and p: "capture_step w now s = (s', r)"
  have "modem_inv (rs_modem (fst s))" using s by (simp add: capture_inv_def)
  from modem_tick_step [OF assms this] obtain m payloads where
    m: "modem_tick w True (rs_modem (fst s)) = (m, Inr payloads)" "step_ok w (rs_modem (fst s)) m" by blast
  have "capture_inv ((fst s)\<lparr>rs_modem := m\<rparr>, snd s)" using s m(2) by (simp add: capture_inv_def step_ok_def)
  moreover have "triple capture_inv (thenA (eachA (capture_payload now) payloads) (change (capture_finish now)))
      (\<lambda>_. capture_inv) (\<lambda>_ _. False)"
    by (rule triple_then [OF triple_each [OF capture_payload_inv] triple_change]) (rule capture_finish_inv)
  ultimately show "case r of Inl e \<Rightarrow> False | Inr u \<Rightarrow> capture_inv s'"
    using tripleD p m(1) by (fastforce simp: capture_step_def)
qed

text \<open>Offering an epoch: its frames are ingested and noted, and the next one is due a period later.\<close>

lemma offer_source_frames:
  assumes "base_inv now (sb_base s)"
  shows "\<exists>b. eachA (offer_source now) frames s = (s\<lparr>sb_source := sb_source s @ frames, sb_base := b\<rparr>, Inr ()) \<and>
    base_inv now b"
  using assms
proof (induction frames arbitrary: s)
  case Nil
  then show ?case by (intro exI [of _ "sb_base s"]) (simp add: change_def)
next
  case (Cons raw frames)
  let ?s = "s\<lparr>sb_source := sb_source s @ [raw], sb_base := fst (ingest now raw (sb_base s))\<rparr>"
  have "base_inv now (sb_base ?s)" using Cons.prems ingest_inv by simp
  from Cons.IH [OF this] show ?case by (auto simp: thenA_def offer_source_def)
qed

lemma synthetic_epoch_frames: "synthetic_epoch e = Inr (epoch_frames e)" "epoch_frames e \<noteq> []"
proof -
  obtain fs where "synthetic_epoch e = Inr fs" "length fs = (if e mod 10 = 0 then 6 else 4)"
    using synthetic_frames_valid by blast
  then show "synthetic_epoch e = Inr (epoch_frames e)" "epoch_frames e \<noteq> []"
    by (auto simp: epoch_frames_def split: if_splits)
qed

lemma offer_epoch_effect:
  assumes "base_inv now (sb_base s)" and "0 < rtcm_hz"
  obtains b where "offer_epoch now rtcm_hz s =
      (s\<lparr>sb_epoch := sb_epoch s + 1, sb_source := sb_source s @ epoch_frames (sb_epoch s + 1), sb_base := b,
        sb_next_epoch := sb_next_epoch s + 1 / rtcm_hz\<rparr>, Inr ())" "base_inv now b"
proof -
  obtain b where "eachA (offer_source now) (epoch_frames (sb_epoch s + 1)) (s\<lparr>sb_epoch := sb_epoch s + 1\<rparr>) =
      (s\<lparr>sb_epoch := sb_epoch s + 1, sb_source := sb_source s @ epoch_frames (sb_epoch s + 1), sb_base := b\<rparr>, Inr ())"
    "base_inv now b"
    using offer_source_frames [of now "s\<lparr>sb_epoch := sb_epoch s + 1\<rparr>"] assms(1) by fastforce
  then show ?thesis
    using that [of b] assms(2)
    by (simp add: offer_epoch_def thenA_def seqA_def change_def lift_def synthetic_epoch_frames(1))
qed

lemma source_inv_next:
  assumes "source_inv duration rtcm_hz s" and "0 < rtcm_hz" and "sb_next_epoch s < duration"
  shows "source_inv duration rtcm_hz (s\<lparr>sb_epoch := sb_epoch s + 1,
    sb_source := sb_source s @ epoch_frames (sb_epoch s + 1), sb_base := b,
    sb_next_epoch := sb_next_epoch s + 1 / rtcm_hz\<rparr>)"
proof -
  have "real_of_int (sb_epoch s) < duration * rtcm_hz"
    using assms by (simp add: source_inv_def divide_less_eq)
  moreover have "[1..sb_epoch s + 1] = [1..sb_epoch s] @ [sb_epoch s + 1]"
    using assms(1) upto_split1 [of 1 "sb_epoch s + 1"] upto_rec2 [of 1 "sb_epoch s + 1"] by (simp add: source_inv_def)
  ultimately show ?thesis using assms(1) by (simp add: source_inv_def add_divide_distrib)
qed

lemma offer_due_ends:
  assumes "bench_inv duration rtcm_hz now s" and "0 < rtcm_hz"
  shows "\<exists>s'. offer_due now elapsed duration rtcm_hz s = Some (s', Inr ()) \<and> bench_inv duration rtcm_hz now s' \<and>
    sb_clocks s' = sb_clocks s \<and>
    (\<forall>k. int k < sb_epoch s' \<longleftrightarrow> int k < sb_epoch s \<or> real k / rtcm_hz \<le> elapsed \<and> elapsed < duration)"
proof -
  let ?P = "\<lambda>s'. bench_inv duration rtcm_hz now s' \<and> sb_clocks s' = sb_clocks s \<and> sb_epoch s \<le> sb_epoch s' \<and>
    (\<forall>k. int k < sb_epoch s' \<longrightarrow> int k < sb_epoch s \<or> real k / rtcm_hz \<le> elapsed \<and> elapsed < duration)"
  let ?m = "\<lambda>s'. nat (\<lfloor>(elapsed - sb_next_epoch s') * rtcm_hz\<rfloor> + 1)"
  have "triple (\<lambda>s'. ?P s' \<and> (elapsed < duration \<and> elapsed \<ge> sb_next_epoch s') \<and> ?m s' = n)
      (offer_epoch now rtcm_hz) (\<lambda>_ s'. ?P s' \<and> ?m s' < n) (\<lambda>_ _. False)" for n
  proof (rule tripleI)
    fix s1 s2 r
    assume s1: "?P s1 \<and> (elapsed < duration \<and> elapsed \<ge> sb_next_epoch s1) \<and> ?m s1 = n"
      and o: "offer_epoch now rtcm_hz s1 = (s2, r)"
    obtain b where b: "(s2, r) = (s1\<lparr>sb_epoch := sb_epoch s1 + 1,
        sb_source := sb_source s1 @ epoch_frames (sb_epoch s1 + 1), sb_base := b,
        sb_next_epoch := sb_next_epoch s1 + 1 / rtcm_hz\<rparr>, Inr ())" "base_inv now b"
      using s1 assms(2) o by (metis bench_inv_def offer_epoch_effect)
    have "(elapsed - (sb_next_epoch s1 + 1 / rtcm_hz)) * rtcm_hz = (elapsed - sb_next_epoch s1) * rtcm_hz - 1"
      using assms(2) by (simp add: algebra_simps)
    moreover have "0 \<le> (elapsed - sb_next_epoch s1) * rtcm_hz" using s1 assms(2) by simp
    ultimately have "?m s2 < n" using b(1) s1 by simp linarith
    moreover have "source_inv duration rtcm_hz s2"
      using source_inv_next [of duration rtcm_hz s1 b] s1 b(1) assms(2) by (simp add: bench_inv_def)
    moreover have "real k / rtcm_hz \<le> elapsed \<and> elapsed < duration" if "int k = sb_epoch s1" for k
      using s1 by (simp add: bench_inv_def source_inv_def flip: that)
    then have "int k < sb_epoch s \<or> real k / rtcm_hz \<le> elapsed \<and> elapsed < duration"
      if "int k < sb_epoch s1 + 1" for k
    proof (cases "int k = sb_epoch s1")
      case False
      with that have "int k < sb_epoch s1" by simp
      with s1 show ?thesis by blast
    qed (use calculation in blast)
    ultimately show "case r of Inl e \<Rightarrow> False | Inr u \<Rightarrow> ?P s2 \<and> ?m s2 < n"
      using s1 b by (auto simp: bench_inv_def)
  qed
  from whileA_total [of ?P, OF this, of s] assms(1) obtain s' where
    run: "offer_due now elapsed duration rtcm_hz s = Some (s', Inr ())" and P: "?P s'"
    and stop: "\<not> (elapsed < duration \<and> elapsed \<ge> sb_next_epoch s')"
    by (fastforce simp: offer_due_def split: sum.splits)
  have next_epoch: "sb_next_epoch s' = real_of_int (sb_epoch s') / rtcm_hz"
    using P by (simp add: bench_inv_def source_inv_def)
  have "int k < sb_epoch s'" if "real k / rtcm_hz \<le> elapsed" "elapsed < duration" for k
  proof -
    have "real k / rtcm_hz < real_of_int (sb_epoch s') / rtcm_hz" using stop that next_epoch by linarith
    then have "real k < real_of_int (sb_epoch s')" using assms(2) by (simp add: divide_less_cancel)
    then show ?thesis by linarith
  qed
  with run P show ?thesis by fastforce
qed

text \<open>One reading of the clock and the epochs it finds due.\<close>

lemma offer_due_inv:
  assumes "due_inv w duration rtcm_hz s"
    and "sb_clocks s' = Suc (sb_clocks s)"
    and "\<forall>k. int k < sb_epoch s' \<longleftrightarrow>
      int k < sb_epoch s \<or> epoch_due w duration rtcm_hz (sb_clocks s) k"
  shows "due_inv w duration rtcm_hz s'"
proof -
  have "{1..<Suc (sb_clocks s)} = insert (sb_clocks s) {1..<sb_clocks s}"
    using assms(1) by (auto simp: due_inv_def)
  then show ?thesis using assms by (auto simp: due_inv_def)
qed


lemma step_services_effect:
  assumes "env_ok (sw_base w)" and "env_ok (sw_robot w)" and "bench_inv duration rtcm_hz now s"
  shows "\<exists>s'. step_services w now s = (s', Inr ()) \<and> bench_inv duration rtcm_hz now s' \<and> sb_clocks s' = sb_clocks s \<and>
    sb_epoch s' = sb_epoch s"
proof -
  obtain b where b: "base_step (sw_base w) now (sb_base s) = (b, Inr ())" "base_inv now b"
    using base_step_step [OF assms(1)] assms(3) by (metis bench_inv_def)
  obtain r frames res where c: "capture_step (sw_robot w) now (sb_robot s, sb_output s) = ((r, frames), res)"
    by (metis prod.collapse)
  have "capture_inv (r, frames)" "res = Inr ()"
    using tripleD [OF capture_step_inv [OF assms(2)] _ c] assms(3) by (auto simp: bench_inv_def split: sum.splits)
  then show ?thesis using b c assms(3) by (auto simp: step_services_def bench_inv_def source_inv_def)
qed

text \<open>
  The loop ends: not before the duration is over, and two seconds after it at the latest, or as soon
  as the clock is read then.
\<close>

lemma service_loop_ends:
  assumes "env_ok (sw_base w)" and "env_ok (sw_robot w)" and "passes (sw_clock w)" and "0 < rtcm_hz"
    and started: "started = sw_clock w 0"
  shows "bench_inv duration rtcm_hz (sw_clock w (sb_clocks s)) s \<Longrightarrow> due_inv w duration rtcm_hz s \<Longrightarrow>
    \<exists>s' now. service_loop w duration rtcm_hz started s = Some (s', Inr ()) \<and> bench_inv duration rtcm_hz now s' \<and>
      due_inv w duration rtcm_hz s' \<and> duration \<le> sw_clock w (sb_clocks s' - 1) - started"
proof (induction "readings_left (sw_clock w) (started + duration + 2) (sb_clocks s)" arbitrary: s rule: less_induct)
  case less
  let ?now = "sw_clock w (sb_clocks s)"
  let ?s1 = "s\<lparr>sb_clocks := Suc (sb_clocks s)\<rparr>"
  have "bench_inv duration rtcm_hz ?now ?s1" using less.prems(1) by (simp add: bench_inv_def source_inv_def)
  from offer_due_ends [OF this assms(4), of "?now - started"] obtain s2 where
    s2: "offer_due ?now (?now - started) duration rtcm_hz ?s1 = Some (s2, Inr ())"
      "bench_inv duration rtcm_hz ?now s2" "sb_clocks s2 = Suc (sb_clocks s)"
    and due: "\<forall>k. int k < sb_epoch s2 \<longleftrightarrow> int k < sb_epoch s \<or> epoch_due w duration rtcm_hz (sb_clocks s) k"
    by (auto simp: epoch_due_def started)
  then obtain s3 where s3: "step_services w ?now s2 = (s3, Inr ())" "bench_inv duration rtcm_hz ?now s3"
      "sb_clocks s3 = Suc (sb_clocks s)" "sb_epoch s3 = sb_epoch s2"
    using step_services_effect assms(1,2) by fastforce
  have d3: "due_inv w duration rtcm_hz s3"
    using offer_due_inv [OF less.prems(2) s3(3)] due s3(4) by simp
  have loop: "service_loop w duration rtcm_hz started s =
      (if ?now - started \<ge> duration \<and> base_idle (sb_base s3) then Some (s3, Inr ())
       else if ?now - started \<ge> duration + 2 then Some (s3, Inr ())
       else service_loop w duration rtcm_hz started s3)"
    by (subst service_loop.simps) (simp add: bench_clock_def s2(1) s3(1))
  show ?case
  proof (cases "?now - started \<ge> duration \<and> (base_idle (sb_base s3) \<or> ?now - started \<ge> duration + 2)")
    case True
    then show ?thesis using loop s3(2,3) d3 by auto
  next
    case False
    then have "readings_left (sw_clock w) (started + duration + 2) (sb_clocks s3) <
        readings_left (sw_clock w) (started + duration + 2) (sb_clocks s) \<or> ?now - started \<ge> duration + 2"
      unfolding s3(3) by (cases "?now - started \<ge> duration + 2") (auto intro!: readings_less assms(3))
    moreover have "?now \<le> sw_clock w (sb_clocks s3)"
      using passes_mono [OF assms(3), of "sb_clocks s" "sb_clocks s3"] s3(3) by simp
    then have "bench_inv duration rtcm_hz (sw_clock w (sb_clocks s3)) s3"
      using s3(2) base_inv_later by (auto simp: bench_inv_def)
    ultimately show ?thesis
      using less.hyps [OF _ _ d3] loop False s3(2,3) d3 by (cases "?now - started \<ge> duration + 2") auto
  qed
qed

lemma run_services_ends:
  assumes "env_ok (sw_base w)" and "env_ok (sw_robot w)" and "passes (sw_clock w)" and "0 < rtcm_hz" and "0 < duration"
  obtains s now where "run_services w duration rtcm_hz =
      Some (close_services w s, Inr (service_report_of duration rtcm_hz (close_services w s)))"
    "bench_inv duration rtcm_hz now s" "due_inv w duration rtcm_hz s"
    "duration \<le> sw_clock w (sb_clocks s - 1) - sw_clock w 0"
proof -
  let ?s = "new_service_bench w"
  have pos: "0 < duration * rtcm_hz + 1" using mult_pos_pos [OF assms(5,4)] by linarith
  have "bench_inv duration rtcm_hz now ?s" for now
    using new_base_service_inv [OF assms(1)] new_modem_inv [OF assms(2)] new_reassembler_inv pos
    by (simp add: bench_inv_def new_service_bench_def capture_inv_def source_inv_def new_robot_service_def)
  then have "bench_inv duration rtcm_hz (sw_clock w 1) (?s\<lparr>sb_clocks := 1\<rparr>)"
    by (simp add: bench_inv_def source_inv_def)
  moreover have "due_inv w duration rtcm_hz (?s\<lparr>sb_clocks := 1\<rparr>)"
    by (simp add: due_inv_def new_service_bench_def)
  ultimately obtain s now where "service_loop w duration rtcm_hz (sw_clock w 0) (?s\<lparr>sb_clocks := 1\<rparr>) = Some (s, Inr ())"
      "bench_inv duration rtcm_hz now s" "due_inv w duration rtcm_hz s"
      "duration \<le> sw_clock w (sb_clocks s - 1) - sw_clock w 0"
    using service_loop_ends [OF assms(1-4) refl, of duration "?s\<lparr>sb_clocks := 1\<rparr>"] by auto
  moreover have "sb_clocks ?s = 0" by (simp add: new_service_bench_def)
  ultimately show ?thesis
    by (intro that) (simp_all add: run_services_def bench_clock_def)
qed

text \<open>
  Property C21. The service bench always gives a verdict, and the verdict is honest. With arguments in
  its bounds and a clock that goes on, it ends without an exception, not before the duration is
  over, and exits with 0 or 2. The source it offered is the synthetic epochs 1 to n, exactly as many as
  were due: n is the number of epoch times k / rate, k = 0, 1, ..., that some reading of the
  clock in its loop found reached while the duration was not over. Whatever the robot published is
  valid RTCM3; and the exit code is 0 exactly when there was a source, the robot published exactly its
  frames in order, and no error was counted.
\<close>

theorem service_bench_verdict:
  assumes "env_ok (sw_base w)" and "env_ok (sw_robot w)" and "passes (sw_clock w)"
    and "0 < duration" and "duration \<le> 30" and "0 < rtcm_hz" and "rtcm_hz \<le> 1"
    and "elapsed = (\<lambda>i. sw_clock w i - sw_clock w 0)"
  shows "\<exists>s report. run_services w duration rtcm_hz = Some (s, Inr report) \<and>
    service_bench_main w (Finite duration) (Finite rtcm_hz) =
      Some (Some report, Inr (if 1 \<le> sb_epoch s \<and> sb_output s = sb_source s \<and>
        list_all (\<lambda>(name, n). n = 0) (sr_errors report) then 0 else 2)) \<and>
    sb_source s = concat (map epoch_frames [1..sb_epoch s]) \<and> 0 \<le> sb_epoch s \<and>
    nat (sb_epoch s) = card {k :: nat. \<exists>i\<in>{1..<sb_clocks s}. real k / rtcm_hz \<le> elapsed i \<and> elapsed i < duration} \<and>
    duration \<le> elapsed (sb_clocks s - 1) \<and> list_all valid_rtcm3 (sb_output s)"
proof -
  obtain s now where run: "run_services w duration rtcm_hz =
      Some (close_services w s, Inr (service_report_of duration rtcm_hz (close_services w s)))"
    and s: "bench_inv duration rtcm_hz now s"
    and due: "due_inv w duration rtcm_hz s" "duration \<le> elapsed (sb_clocks s - 1)"
    using run_services_ends [OF assms(1-3,6,4)] unfolding assms(8) .
  have c: "sb_epoch (close_services w s) = sb_epoch s" "sb_source (close_services w s) = sb_source s"
    "sb_output (close_services w s) = sb_output s" "sb_clocks (close_services w s) = sb_clocks s"
    by (simp_all add: close_services_def)
  have src: "source_inv duration rtcm_hz s" "list_all valid_rtcm3 (sb_output s)"
    using s by (simp_all add: bench_inv_def capture_inv_def)
  then have "sb_source s \<noteq> [] \<longleftrightarrow> 1 \<le> sb_epoch s"
    using synthetic_epoch_frames(2) by (auto simp: source_inv_def)
  then have "sr_pass (service_report_of duration rtcm_hz (close_services w s)) \<longleftrightarrow>
      1 \<le> sb_epoch s \<and> sb_output s = sb_source s \<and>
      list_all (\<lambda>(name, n). n = 0) (sr_errors (service_report_of duration rtcm_hz (close_services w s)))"
    by (auto simp: service_report_of_def Let_def compare_frames_def c list_ex_iff list_all_iff)
  then show ?thesis
    using run src assms(4-7) c due due_inv_card [OF due(1)]
    by (auto simp: service_bench_main_def source_inv_def epoch_due_def assms(8))
qed

definition sample_services :: service_bench_world where
  "sample_services = \<lparr>sw_base = sample_env, sw_robot = sample_env, sw_clock = \<lambda>n. real n\<rparr>"

lemma service_bench_verdict_witness:
  "\<exists>report code. service_bench_main sample_services (Finite 20) (Finite (3 / 4)) = Some (Some report, Inr code) \<and>
     (code = 0 \<or> code = 2)"
proof -
  have w: "env_ok (sw_base sample_services)" "env_ok (sw_robot sample_services)" "passes (sw_clock sample_services)"
    using sample_env_ok ticks_pass [of real] by (simp_all add: ticks_def sample_services_def)
  have bounds: "(0 :: real) < 20" "(20 :: real) \<le> 30" "(0 :: real) < 3 / 4" "(3 / 4 :: real) \<le> 1" by simp_all
  show ?thesis
    using service_bench_verdict [OF w bounds refl] by - (elim exE conjE, intro exI conjI, assumption, simp)
qed

end
