(* ===== verification/Physical_Run.thy ===== *)
theory Physical_Run
  imports Mixed_Proofs Physical_Transport
begin

text \<open>
  The mixed bench over the physical transport: \<open>MixedRunner.run\<close> and \<open>report\<close> of
  \<open>tools/lora_usb/mixed_bench.py\<close> with a \<open>PhysicalTransport\<close>. What the runner does between two calls of
  the transport is in \<open>Mixed_Runner\<close>. Every \<open>now()\<close> reads the clock, and a transmission may fail, or
  raise what the runner does not catch. The printed status line is left out.
\<close>

subsection \<open>The code\<close>

type_synonym physical_bench = "mixed \<times> physical"
type_synonym 'a bench_call = "physical_bench \<Rightarrow> (physical_bench \<times> 'a result) option"

definition at_runner :: "(mixed \<Rightarrow> (mixed \<times> 'a result) option) \<Rightarrow> 'a bench_call" where
  "at_runner f s = map_option (\<lambda>(m, r). ((m, snd s), r)) (f (fst s))"

definition at_transport :: "(physical \<Rightarrow> (physical \<times> 'a result) option) \<Rightarrow> 'a bench_call" where
  "at_transport f s = map_option (\<lambda>(p, r). ((fst s, p), r)) (f (snd s))"

definition transport_now :: "physical_world \<Rightarrow> time bench_call" where
  "transport_now w = at_transport (\<lambda>p. Some (physical_now w p))"

definition physical_exchange :: "physical_world \<Rightarrow> work_item \<Rightarrow> app_frame \<Rightarrow> unit bench_call" where
  "physical_exchange w item frame s =
     thenO (at_transport (physical_transmit w (wi_direction item) frame) s) (\<lambda>(received, rssi, snr) s.
     thenO (transport_now w (record_radio rssi snr (fst s), snd s)) (\<lambda>now.
       at_runner (\<lambda>m. Some (deliver item received now m))))"

text \<open>The \<open>except\<close> clause.\<close>

fun recorded :: "(physical_bench \<times> unit result) option \<Rightarrow> (physical_bench \<times> unit result) option" where
  "recorded (Some ((m, p), Inl e)) =
     (if caught e then Some ((add_error (Caught e) m, p), Inr ()) else Some ((m, p), Inl e))"
| "recorded r = r"

definition physical_status :: "physical_world \<Rightarrow> unit bench_call" where
  "physical_status w s =
     thenO (transport_now w s) (\<lambda>now. at_runner (\<lambda>m. Some
       (case mr_next_status m of
          None \<Rightarrow> (m, Inr ())
        | Some next' \<Rightarrow>
            (if now \<ge> next' then (m\<lparr>mr_next_status := Some (next' + mr_status_interval_s m)\<rparr>, Inr ())
             else (m, Inr ())))))"

definition physical_send :: "physical_world \<Rightarrow> time \<Rightarrow> work_item \<Rightarrow> unit bench_call" where
  "physical_send w now item s =
     (let frame = (wi_frame item)\<lparr>af_source_age_ms := source_age now item\<rparr>
      in case KIND_BY_TYPE (af_typ frame) of
           None \<Rightarrow> Some (s, Inl KeyError)
         | Some kind \<Rightarrow>
             thenO (recorded (physical_exchange w item frame
                      (bump kind (\<lambda>tr. tr\<lparr>tr_sent := Suc (tr_sent tr)\<rparr>) (fst s), snd s)))
               (\<lambda>_. physical_status w))"

text \<open>One turn of the loop after \<open>now\<close> is read: whether the loop goes on.\<close>

definition physical_serve :: "physical_world \<Rightarrow> time \<Rightarrow> bool bench_call" where
  "physical_serve w now s =
     (case pop now (mr_scheduler (fst s)) of
        (sched, Inl e) \<Rightarrow> Some (((fst s)\<lparr>mr_scheduler := sched\<rparr>, snd s), Inl e)
      | (sched, Inr None) \<Rightarrow>
          (let m = (fst s)\<lparr>mr_scheduler := sched\<rparr>
           in if now \<ge> mr_duration_s m then Some ((m, snd s), Inr False)
              else thenO (at_transport (\<lambda>p. Some (physical_idle w (next_due m) p)) (m, snd s))
                     (\<lambda>_ s. Some (s, Inr True)))
      | (sched, Inr (Some item)) \<Rightarrow>
          (let m = (fst s)\<lparr>mr_scheduler := sched\<rparr>
           in if now > mr_duration_s m + 2 then Some ((add_error DrainDeadline m, snd s), Inr False)
              else thenO (physical_send w now item (m, snd s)) (\<lambda>_ s. Some (s, Inr True))))"

definition physical_turn :: "physical_world \<Rightarrow> bool bench_call" where
  "physical_turn w s =
     thenO (transport_now w s) (\<lambda>now s.
     thenO (if now < mr_duration_s (fst s) then at_runner (schedule_due now) s else Some (s, Inr ()))
       (\<lambda>_. physical_serve w now))"

partial_function (option) physical_loop ::
  "physical_world \<Rightarrow> physical_bench \<Rightarrow> (physical_bench \<times> unit result) option" where
  "physical_loop w s =
     thenO (transport_now w s) (\<lambda>now s.
       if now < mr_duration_s (fst s) \<or> sh_items (mr_scheduler (fst s)) \<noteq> []
       then thenO (physical_turn w s) (\<lambda>go s. if go then physical_loop w s else Some (s, Inr ()))
       else Some (s, Inr ()))"

definition physical_run :: "physical_world \<Rightarrow> unit bench_call" where
  "physical_run w s =
     thenO (transport_now w s) (\<lambda>now s.
     thenO (at_runner (\<lambda>m. Some (offer_hello now m)) s) (\<lambda>_ s.
     thenO (physical_loop w s) (\<lambda>_ s.
     thenO (transport_now w s) (\<lambda>now.
       at_runner (\<lambda>m. Some (m\<lparr>mr_reassembler := fst (ra_expire (now + 601 / 1000) (mr_reassembler m))\<rparr>,
                            Inr ()))))))"

definition physical_bench_report :: "physical_world \<Rightarrow> (mixed_report \<times> physical_report) bench_call" where
  "physical_bench_report w s =
     thenO (at_transport (finish_report w) s) (\<lambda>transport s. Some (s,
       bindR (report_of (fst s) (ph_estimated_airtime_s (snd s)) (ph_transaction_times_ms (snd s))
                (modem_errors [fst (pr_status_delta transport), snd (pr_status_delta transport)]))
         (\<lambda>rep. Inr (rep, transport))))"

text \<open>\<open>run\<close>, from the transport and the runner as they are made to the report.\<close>

definition run_physical :: "physical_world \<Rightarrow> int \<Rightarrow> int \<Rightarrow> mixed result \<Rightarrow>
    (mixed_report \<times> physical_report) result option" where
  "run_physical w base_client robot_client runner =
     (case open_physical w base_client robot_client of
        None \<Rightarrow> None
      | Some (Inl e) \<Rightarrow> Some (Inl e)
      | Some (Inr p) \<Rightarrow>
          (case runner of
             Inl e \<Rightarrow> Some (Inl e)
           | Inr m \<Rightarrow>
               map_option snd (thenO (physical_run w (m, p)) (\<lambda>_. physical_bench_report w))))"

subsection \<open>The invariant of a run\<close>

definition runner_ok :: "config \<Rightarrow> time \<Rightarrow> mixed \<Rightarrow> bool" where
  "runner_ok c now m \<longleftrightarrow> (\<exists>e t s. config_ok c s \<and> binv now (c, e, t, s) m)"

text \<open>What \<open>now()\<close> will show next.\<close>

definition upcoming :: "physical_world \<Rightarrow> physical \<Rightarrow> time" where
  "upcoming w p = pw_clock w (ph_clocks p) - ph_started p"

text \<open>At the time \<open>now\<close>, with at least \<open>k\<close> readings of a clock that started at \<open>st\<close>.\<close>

definition ready :: "physical_world \<Rightarrow> config \<Rightarrow> time \<Rightarrow> nat \<Rightarrow> time \<Rightarrow> physical_bench \<Rightarrow> bool" where
  "ready w c st k now s \<longleftrightarrow>
     physical_inv (snd s) \<and> ph_started (snd s) = st \<and> k \<le> ph_clocks (snd s) \<and>
     now \<le> upcoming w (snd s) \<and> runner_ok c now (fst s)"

definition alive :: "physical_world \<Rightarrow> config \<Rightarrow> time \<Rightarrow> nat \<Rightarrow> physical_bench \<Rightarrow> bool" where
  "alive w c st k s \<longleftrightarrow> ready w c st k (upcoming w (snd s)) s"

lemma runner_ok_later: "runner_ok c now m \<Longrightarrow> now \<le> now' \<Longrightarrow> runner_ok c now' m"
  using clock_inv_later unfolding runner_ok_def by blast

lemma ready_alive: "ready w c st k now s \<Longrightarrow> alive w c st k s"
  unfolding alive_def ready_def using runner_ok_later [of c now "fst s" "upcoming w (snd s)"] by simp

lemma ready_goes_on:
  assumes "passes (pw_clock w)" and "ready w c st k now s" and "goes_on (snd s) p'"
  shows "ready w c st k now (fst s, p')"
proof -
  have "pw_clock w (ph_clocks (snd s)) \<le> pw_clock w (ph_clocks p')"
    using assms(3) by (intro passes_mono [OF assms(1)]) (simp add: goes_on_def)
  then show ?thesis using assms(2,3) by (simp add: ready_def goes_on_def upcoming_def)
qed

lemma now_ends:
  assumes "passes (pw_clock w)"
  shows "ends (alive w c st k) (transport_now w)
    (\<lambda>now s. ready w c st (Suc k) now s \<and> pw_clock w k - st \<le> now)"
proof (rule endsI)
  fix s assume s: "alive w c st k s"
  then have st: "st = ph_started (snd s)" by (simp add: alive_def ready_def)
  let ?p = "snd s\<lparr>ph_clocks := Suc (ph_clocks (snd s))\<rparr>"
  have r: "transport_now w s = Some ((fst s, ?p), Inr (upcoming w (snd s)))"
    by (simp add: transport_now_def at_transport_def physical_now_def physical_clock_def seqA_def upcoming_def)
  have "pw_clock w (ph_clocks (snd s)) \<le> pw_clock w (Suc (ph_clocks (snd s)))"
    by (rule passes_mono [OF assms]) simp
  then have "ready w c st (Suc k) (upcoming w (snd s)) (fst s, ?p)"
    using s unfolding st by (simp add: alive_def ready_def physical_inv_def upcoming_def)
  moreover have "pw_clock w k - st \<le> upcoming w (snd s)"
    using passes_mono [OF assms, of k "ph_clocks (snd s)"] s by (simp add: alive_def ready_def upcoming_def)
  ultimately show "\<exists>s' r. transport_now w s = Some (s', r) \<and> (case r of Inl e \<Rightarrow> True
      | Inr now \<Rightarrow> ready w c st (Suc k) now s' \<and> pw_clock w k - st \<le> now)"
    using r by simp
qed

lemma runner_ends:
  assumes "\<And>m. runner_ok c now m \<Longrightarrow>
    \<exists>m' r. f m = Some (m', r) \<and> (case r of Inl e \<Rightarrow> True | Inr x \<Rightarrow> runner_ok c now m')"
  shows "ends (ready w c st k now) (at_runner f) (\<lambda>_. ready w c st k now)"
proof (rule endsI)
  fix s assume s: "ready w c st k now s"
  then obtain m r where "f (fst s) = Some (m, r)" "case r of Inl e \<Rightarrow> True | Inr x \<Rightarrow> runner_ok c now m"
    using assms [of "fst s"] unfolding ready_def by blast
  then show "\<exists>s' r. at_runner f s = Some (s', r) \<and> (case r of Inl e \<Rightarrow> True | Inr x \<Rightarrow> ready w c st k now s')"
    using s by (cases r) (simp_all add: at_runner_def ready_def)
qed

lemma hello_ends: "ends (ready w c st k now) (at_runner (\<lambda>m. Some (offer_hello now m))) (\<lambda>_. ready w c st k now)"
proof (rule runner_ends)
  fix m assume "runner_ok c now m"
  then obtain e t s where cfg: "config_ok c s" and inv: "binv now (c, e, t, s) m" by (auto simp: runner_ok_def)
  obtain m' r where h: "offer_hello now m = (m', r)" by fastforce
  show "\<exists>m' r. Some (offer_hello now m) = Some (m', r) \<and> (case r of Inl e \<Rightarrow> True | Inr x \<Rightarrow> runner_ok c now m')"
    using tripleD [OF offer_hello_triple inv h] h cfg by (auto simp: runner_ok_def split: sum.splits)
qed

lemma schedule_ends: "ends (ready w c st k now) (at_runner (schedule_due now)) (\<lambda>_. ready w c st k now)"
proof (rule runner_ends)
  fix m assume "runner_ok c now m"
  then obtain e t s where cfg: "config_ok c s" and inv: "binv now (c, e, t, s) m" by (auto simp: runner_ok_def)
  from schedule_total [OF this] obtain m' r where sch: "schedule_due now m = Some (m', r)"
    and post: "case r of Inl x \<Rightarrow> x = id_error
      | Inr _ \<Rightarrow> \<exists>e' t' s'. binv now (c, e', t', s') m' \<and> \<not> is_due now (duration_of c) e' \<and>
         \<not> is_due now (duration_of c) t' \<and> moved (duration_of c) (epoch_period c) e e' \<and>
         moved (duration_of c) (telemetry_every c) t t' \<and> stop_settled now c s s'" by blast
  have "config_ok c s'" if "stop_settled now c s s'" for s'
    using that cfg by (cases c; cases s) auto
  then show "\<exists>m' r. schedule_due now m = Some (m', r) \<and> (case r of Inl e \<Rightarrow> True | Inr x \<Rightarrow> runner_ok c now m')"
    using sch post by (cases r) (auto simp: runner_ok_def)
qed

lemma expire_ends:
  "ends (ready w c st k now) (at_runner (\<lambda>m. Some (m\<lparr>mr_reassembler := fst (ra_expire t (mr_reassembler m))\<rparr>, Inr ())))
     (\<lambda>_. ready w c st k now)"
proof (rule runner_ends)
  fix m assume "runner_ok c now m"
  then have "runner_ok c now (m\<lparr>mr_reassembler := fst (ra_expire t (mr_reassembler m))\<rparr>)"
    using mixed_inv_reassembler [of m] ra_expire_inv [of "mr_reassembler m" t]
    by (auto simp: runner_ok_def clock_inv_def mixed_inv_def rest_inv_def)
  then show "\<exists>m' r. Some (m\<lparr>mr_reassembler := fst (ra_expire t (mr_reassembler m))\<rparr>, Inr ()) = Some (m', r) \<and>
      (case r of Inl e \<Rightarrow> True | Inr x \<Rightarrow> runner_ok c now m')"
    by simp
qed

subsection \<open>A frame is sent\<close>

definition deliverable :: "app_frame \<Rightarrow> mixed \<Rightarrow> bool" where
  "deliverable f m \<longleftrightarrow>
     frame_ok m f \<and> (\<forall>kind. KIND_BY_TYPE (af_typ f) = Some kind \<longrightarrow> unreturned kind m)"

lemma runner_ok_radio [simp]: "runner_ok c now (record_radio rssi snr m) = runner_ok c now m"
  by (simp add: runner_ok_def)

lemma runner_ok_error [simp]: "runner_ok c now (add_error e m) = runner_ok c now m"
  by (simp add: runner_ok_def add_error_def mixed_inv_def queue_inv_def frame_ok_def frame_shape_def
      body_ok_def traffic_counts_def stops_inv_def applied_within_def rest_inv_def clock_inv_def timing_def)

lemma deliverable_radio [simp]: "deliverable f (record_radio rssi snr m) = deliverable f m"
  by (simp add: deliverable_def)

lemma delivery_handled:
  assumes "runner_ok c now m" and "deliverable f m"
  obtains m' r where "deliver item f now m = (m', r)" "runner_ok c now m'"
    "case r of Inl e \<Rightarrow> caught e | Inr _ \<Rightarrow> True"
proof -
  obtain e t s where cfg: "config_ok c s" and inv: "binv now (c, e, t, s) m"
    using assms(1) by (auto simp: runner_ok_def)
  obtain m' r where d: "deliver item f now m = (m', r)" by fastforce
  have pre: "binv now (c, e, t, s) m \<and> frame_ok m f \<and>
      (\<forall>kind. KIND_BY_TYPE (af_typ f) = Some kind \<longrightarrow> unreturned kind m)"
    using inv assms(2) by (simp add: deliverable_def)
  have "case r of Inl x \<Rightarrow> app_fails now (c, e, t, s) x m' | Inr _ \<Rightarrow> binv now (c, e, t, s) m'"
    by (rule tripleD [OF deliver_triple pre d])
  then show ?thesis
    using cfg d by (intro that [OF d]) (auto simp: runner_ok_def app_fails_def split: sum.splits)
qed

lemma exchange_ends:
  assumes w: "physical_ticking w"
  shows "ends (\<lambda>s. ready w c st k now s \<and> deliverable f (fst s)) (\<lambda>s. recorded (physical_exchange w item f s))
    (\<lambda>_. alive w c st k)"
proof (rule endsI)
  fix s assume s: "ready w c st k now s \<and> deliverable f (fst s)"
  have clock: "passes (pw_clock w)" using w by (simp add: physical_ticking_def)
  have "physical_inv (snd s)" using s by (simp add: ready_def)
  from physical_transmit_ends [OF w this, of "wi_direction item" f] obtain p r where
    t: "physical_transmit w (wi_direction item) f (snd s) = Some (p, r)" "goes_on (snd s) p"
    "case r of Inl e \<Rightarrow> True | Inr (received, rssi, snr) \<Rightarrow> \<exists>wire. app_encode f = Inr wire \<and> delivered f wire (snd s) p received"
    by blast
  have p: "ready w c st k now (fst s, p)" using ready_goes_on [OF clock _ t(2)] s by blast
  show "\<exists>s' r. recorded (physical_exchange w item f s) = Some (s', r) \<and>
      (case r of Inl e \<Rightarrow> True | Inr x \<Rightarrow> alive w c st k s')"
  proof (cases r)
    case (Inl e)
    have "ready w c st k now (add_error (Caught e) (fst s), p)" using p by (simp add: ready_def)
    then show ?thesis using t(1) Inl ready_alive by (auto simp: physical_exchange_def at_transport_def)
  next
    case (Inr x)
    obtain received rssi snr where x: "x = (received, rssi, snr)" by (cases x)
    then have received: "received = f" using t(3) Inr by (auto simp: delivered_def)
    let ?s1 = "(record_radio rssi snr (fst s), p)"
    have "alive w c st k ?s1" using p by (intro ready_alive [of _ _ _ _ now]) (simp add: ready_def)
    from endsD [OF now_ends [OF clock] this] obtain s2 r2 where
      n: "transport_now w ?s1 = Some (s2, r2)"
      "case r2 of Inl e \<Rightarrow> True | Inr now' \<Rightarrow> ready w c st (Suc k) now' s2 \<and> pw_clock w k - st \<le> now'" by blast
    have ex: "physical_exchange w item f s =
        thenO (Some (s2, r2)) (\<lambda>now'. at_runner (\<lambda>m. Some (deliver item received now' m)))"
      using t(1) Inr x n(1) by (simp add: physical_exchange_def at_transport_def)
    have fst2: "fst s2 = record_radio rssi snr (fst s)" "\<exists>now'. r2 = Inr now'"
      using n(1) by (auto simp: transport_now_def at_transport_def physical_now_def physical_clock_def seqA_def)
    then obtain now' where now': "r2 = Inr now'" by blast
    have ok: "runner_ok c now' (fst s2)" "deliverable f (fst s2)"
      using n(2) now' s fst2(1) by (simp_all add: ready_def)
    obtain m r3 where d: "deliver item f now' (fst s2) = (m, r3)" "runner_ok c now' m"
      "case r3 of Inl e \<Rightarrow> caught e | Inr _ \<Rightarrow> True" by (rule delivery_handled [OF ok])
    have alive: "alive w c st k (m', snd s2)" if "runner_ok c now' m'" for m'
      using n(2) now' that by (intro ready_alive [of _ _ _ _ now']) (simp add: ready_def)
    show ?thesis
      using ex now' d alive [of m] alive [of "add_error (Caught _) m"] received
      by (cases r3) (simp_all add: at_runner_def)
  qed
qed

subsection \<open>The loop ends\<close>

lemma alive_less: "alive w c st (Suc k) s \<Longrightarrow> alive w c st k s"
  by (simp add: alive_def ready_def)

lemma status_ends:
  assumes w: "physical_ticking w"
  shows "ends (alive w c st k) (physical_status w) (\<lambda>_. alive w c st k)"
proof -
  have clock: "passes (pw_clock w)" using w by (simp add: physical_ticking_def)
  let ?f = "\<lambda>now m. Some (case mr_next_status m of None \<Rightarrow> (m, Inr ())
    | Some next' \<Rightarrow> if now \<ge> next' then (m\<lparr>mr_next_status := Some (next' + mr_status_interval_s m)\<rparr>, Inr ())
        else (m, Inr ()))"
  have ok: "runner_ok c now (m\<lparr>mr_next_status := x\<rparr>) = runner_ok c now m" for now m x
    by (simp add: runner_ok_def mixed_inv_def queue_inv_def frame_ok_def frame_shape_def body_ok_def
        traffic_counts_def stops_inv_def applied_within_def rest_inv_def clock_inv_def timing_def)
  have f: "ends (ready w c st (Suc k) now) (at_runner (?f now)) (\<lambda>_. ready w c st (Suc k) now)" for now
    by (rule runner_ends) (simp add: ok split: option.splits)
  have "ends (\<lambda>s. ready w c st (Suc k) now s \<and> pw_clock w k - st \<le> now) (at_runner (?f now)) (\<lambda>_. alive w c st k)" for now
    by (rule ends_weaken [OF f]) (auto intro: alive_less ready_alive)
  from ends_then [OF now_ends [OF clock] this] show ?thesis unfolding physical_status_def .
qed

lemma duration_of_ready: "ready w c st k now s \<Longrightarrow> mr_duration_s (fst s) = duration_of c"
  by (auto simp: ready_def runner_ok_def timing_def duration_of_def)

lemma serve_ends:
  assumes w: "physical_ticking w"
  shows "ends (ready w c st k now) (physical_serve w now)
    (\<lambda>go s. alive w c st k s \<and> (go \<longrightarrow> now \<le> duration_of c + 2))"
proof (rule endsI)
  let ?Q = "\<lambda>go s. alive w c st k s \<and> (go \<longrightarrow> now \<le> duration_of c + 2)"
  fix s assume s: "ready w c st k now s"
  have clock: "passes (pw_clock w)" using w by (simp add: physical_ticking_def)
  have inv: "mixed_inv (fst s)" and rok: "runner_ok c now (fst s)"
    using s by (auto simp: ready_def runner_ok_def)
  have D: "mr_duration_s (fst s) = duration_of c" using duration_of_ready [OF s] .
  obtain sched r where p: "pop now (mr_scheduler (fst s)) = (sched, r)" by fastforce
  let ?m = "(fst s)\<lparr>mr_scheduler := sched\<rparr>"
  obtain popped where r: "r = Inr popped" and sched: "mixed_inv ?m"
    and item: "\<And>item. popped = Some item \<Longrightarrow> frame_ok (fst s) (wi_frame item) \<and>
      (\<forall>kind. queued kind sched + (if of_kind kind item then 1 else 0) \<le> queued kind (mr_scheduler (fst s)))"
    using pop_inv_mixed [OF inv p] by blast
  have m: "runner_ok c now ?m"
    using rok sched by (auto simp: runner_ok_def timing_def)
  then have ready: "ready w c st k now (?m, snd s)" using s by (simp add: ready_def)
  show "\<exists>s' r. physical_serve w now s = Some (s', r) \<and> (case r of Inl e \<Rightarrow> True | Inr go \<Rightarrow> ?Q go s')"
  proof (cases popped)
    case None
    obtain p' t where i: "physical_idle w (next_due ?m) (snd s) = (p', Inr t)" "goes_on (snd s) p'"
      using s by (auto simp: physical_idle_def physical_now_def physical_clock_def seqA_def goes_on_def ready_def
          physical_inv_def)
    have "alive w c st k (?m, p')" using ready_goes_on [OF clock ready] i(2) ready_alive by fastforce
    then show ?thesis
      using p r None D i(1) ready_alive [OF ready] by (simp add: physical_serve_def at_transport_def Let_def)
  next
    case (Some it)
    show ?thesis
    proof (cases "now > duration_of c + 2")
      case True
      have "ready w c st k now (add_error DrainDeadline ?m, snd s)" using ready by (simp add: ready_def)
      then show ?thesis
        using p r Some True D ready_alive by (auto simp: physical_serve_def Let_def)
    next
      case False
      let ?f = "(wi_frame it)\<lparr>af_source_age_ms := source_age now it\<rparr>"
      have q: "\<forall>k. queued k sched + (if of_kind k it then 1 else 0) \<le> queued k (mr_scheduler (fst s))"
        and ok: "frame_ok (fst s) (wi_frame it)" using item [OF Some] by blast+
      obtain kind where kind: "KIND_BY_TYPE (wi_typ it) = Some kind"
        using ok body_ok_types(2) by (auto simp: frame_ok_def frame_shape_def)
      let ?m1 = "bump kind (\<lambda>tr. tr\<lparr>tr_sent := Suc (tr_sent tr)\<rparr>) ?m"
      note m1 = sent_inv [OF inv sched q kind]
      have "frame_ok ?m1 ?f"
        using frame_ok_age [OF ok, of "source_age now it"] source_age_bounds
        by (simp add: frame_ok_def frame_shape_def body_ok_def bump_def)
      then have f: "deliverable ?f ?m1" using m1(2) kind by (simp add: deliverable_def)
      have "runner_ok c now ?m1" using m m1(1) by (auto simp: runner_ok_def)
      then have "ready w c st k now (?m1, snd s)" using ready by (simp add: ready_def)
      with f have pre: "ready w c st k now (?m1, snd s) \<and> deliverable ?f (fst (?m1, snd s))" by simp
      from endsD [OF ends_then [OF exchange_ends [OF w] status_ends [OF w]] pre, of it] obtain s' r' where
        e: "thenO (recorded (physical_exchange w it ?f (?m1, snd s))) (\<lambda>_. physical_status w) = Some (s', r')"
        "case r' of Inl e \<Rightarrow> True | Inr x \<Rightarrow> alive w c st k s'" by blast
      have "physical_send w now it (?m, snd s) = Some (s', r')"
        using e(1) kind by (simp add: physical_send_def Let_def)
      then show ?thesis
        using p r Some False D e(2) by (cases r') (simp_all add: physical_serve_def Let_def)
    qed
  qed
qed

lemma turn_ends:
  assumes w: "physical_ticking w"
  shows "ends (alive w c st k) (physical_turn w)
    (\<lambda>go s. alive w c st (Suc k) s \<and> (go \<longrightarrow> pw_clock w k - st \<le> duration_of c + 2))"
proof -
  have clock: "passes (pw_clock w)" using w by (simp add: physical_ticking_def)
  let ?R = "\<lambda>now s. ready w c st (Suc k) now s \<and> pw_clock w k - st \<le> now"
  have sch: "ends (?R now)
      (\<lambda>s. if now < mr_duration_s (fst s) then at_runner (schedule_due now) s else Some (s, Inr ()))
      (\<lambda>_. ?R now)" for now
  proof (rule endsI)
    fix s assume s: "?R now s"
    from endsD [OF schedule_ends conjunct1 [OF s]] obtain s' r where
      "at_runner (schedule_due now) s = Some (s', r)"
      "case r of Inl e \<Rightarrow> True | Inr x \<Rightarrow> ready w c st (Suc k) now s'" by blast
    then have over: "at_runner (schedule_due now) s = Some (s', r) \<and> (case r of Inl e \<Rightarrow> True | Inr x \<Rightarrow> ?R now s')"
      using s by (cases r) simp_all
    show "\<exists>s' r. (if now < mr_duration_s (fst s) then at_runner (schedule_due now) s else Some (s, Inr ())) =
        Some (s', r) \<and> (case r of Inl e \<Rightarrow> True | Inr x \<Rightarrow> ?R now s')"
    proof (cases "now < mr_duration_s (fst s)")
      case True
      then show ?thesis using over by (intro exI [of _ s'] exI [of _ r]) simp
    next
      case False
      then show ?thesis using s by (intro exI [of _ s] exI [of _ "Inr ()"]) simp
    qed
  qed
  have serve: "ends (?R now) (physical_serve w now)
      (\<lambda>go s. alive w c st (Suc k) s \<and> (go \<longrightarrow> pw_clock w k - st \<le> duration_of c + 2))" for now
  proof (rule endsI)
    fix s assume s: "?R now s"
    from endsD [OF serve_ends [OF w] conjunct1 [OF s]] obtain s' r where
      "physical_serve w now s = Some (s', r)"
      "case r of Inl e \<Rightarrow> True | Inr go \<Rightarrow> alive w c st (Suc k) s' \<and> (go \<longrightarrow> now \<le> duration_of c + 2)" by blast
    then show "\<exists>s' r. physical_serve w now s = Some (s', r) \<and> (case r of Inl e \<Rightarrow> True
        | Inr go \<Rightarrow> alive w c st (Suc k) s' \<and> (go \<longrightarrow> pw_clock w k - st \<le> duration_of c + 2))"
      using s by (cases r) auto
  qed
  from ends_then [OF now_ends [OF clock] ends_then [OF sch serve]]
  show ?thesis unfolding physical_turn_def .
qed

lemma loop_ends:
  assumes w: "physical_ticking w"
  shows "ends (alive w c st 0) (physical_loop w) (\<lambda>_. alive w c st 0)"
proof (rule endsI)
  fix s assume "alive w c st 0 s"
  then show "\<exists>s' r. physical_loop w s = Some (s', r) \<and> (case r of Inl e \<Rightarrow> True | Inr x \<Rightarrow> alive w c st 0 s')"
  proof (induction "readings_left (pw_clock w) (st + duration_of c + 3) (ph_clocks (snd s))" arbitrary: s
      rule: less_induct)
    case less
    have clock: "passes (pw_clock w)" using w by (simp add: physical_ticking_def)
    let ?n = "ph_clocks (snd s)"
    have s: "alive w c st ?n s" using less.prems by (simp add: alive_def ready_def)
    from endsD [OF now_ends [OF clock] this] obtain s1 now where n: "transport_now w s = Some (s1, Inr now)"
      "ready w c st (Suc ?n) now s1"
      by (fastforce simp: transport_now_def at_transport_def physical_now_def physical_clock_def seqA_def
          split: sum.splits)
    have s1: "alive w c st (Suc ?n) s1" using n(2) by (rule ready_alive)
    from endsD [OF turn_ends [OF w] this] obtain s2 r where t: "physical_turn w s1 = Some (s2, r)"
      "case r of Inl e \<Rightarrow> True
       | Inr go \<Rightarrow> alive w c st (Suc (Suc ?n)) s2 \<and> (go \<longrightarrow> pw_clock w (Suc ?n) - st \<le> duration_of c + 2)" by blast
    have zero: "alive w c st 0 s'" if "alive w c st i s'" for i s' using that by (simp add: alive_def ready_def)
    note step = physical_loop.simps [of w s]
    show ?case
    proof (cases "now < mr_duration_s (fst s1) \<or> sh_items (mr_scheduler (fst s1)) \<noteq> []")
      case False
      then show ?thesis using n zero [OF s1] by (simp add: step)
    next
      case True
      show ?thesis
      proof (cases r)
        case (Inl e)
        then show ?thesis using n t True by (simp add: step)
      next
        case (Inr go)
        show ?thesis
        proof (cases go)
          case False
          then show ?thesis using n t True Inr zero by (auto simp: step)
        next
          case go: True
          have late: "pw_clock w (Suc ?n) - st \<le> duration_of c + 2" and s2: "alive w c st (Suc (Suc ?n)) s2"
            using t(2) Inr go by simp_all
          have "pw_clock w ?n \<le> pw_clock w (Suc ?n)" by (rule passes_mono [OF clock]) simp
          then have "pw_clock w ?n < st + duration_of c + 3" using late by linarith
          moreover have "?n < ph_clocks (snd s2)" using s2 by (simp add: alive_def ready_def)
          ultimately show ?thesis
            using less.hyps [OF readings_less [OF clock] zero [OF s2]] n t(1) True Inr go by (simp add: step)
        qed
      qed
    qed
  qed
qed

lemma physical_run_ends:
  assumes w: "physical_ticking w"
  shows "ends (alive w c st 0) (physical_run w) (\<lambda>_. alive w c st 0)"
proof -
  have clock: "passes (pw_clock w)" using w by (simp add: physical_ticking_def)
  let ?R = "\<lambda>now s. ready w c st (Suc 0) now s \<and> pw_clock w 0 - st \<le> now"
  have hello: "ends (?R now) (at_runner (\<lambda>m. Some (offer_hello now m))) (\<lambda>_. alive w c st 0)" for now
    by (rule ends_weaken [OF hello_ends]) (auto intro: alive_less ready_alive)
  have expire: "ends (?R now) (at_runner (\<lambda>m. Some (m\<lparr>mr_reassembler :=
      fst (ra_expire (now + 601 / 1000) (mr_reassembler m))\<rparr>, Inr ()))) (\<lambda>_. alive w c st 0)" for now
    by (rule ends_weaken [OF expire_ends]) (auto intro: alive_less ready_alive)
  from ends_then [OF now_ends [OF clock] ends_then [OF hello ends_then [OF loop_ends [OF w]
      ends_then [OF now_ends [OF clock] expire]]]]
  show ?thesis unfolding physical_run_def .
qed

subsection \<open>From the ports to the report\<close>

definition pair_inv :: "pair_state \<Rightarrow> bool" where
  "pair_inv s \<longleftrightarrow> client_inv (fst s) \<and> client_inv (snd s)"

lemma base_request_ends:
  assumes "ticking (pw_base w)"
  shows "ends pair_inv (on_base (do_request (pw_base w) q deadline)) (\<lambda>_. pair_inv)"
proof (rule endsI)
  fix s assume s: "pair_inv s"
  then obtain m r where "do_request (pw_base w) q deadline (fst s) = Some (m, r)" "client_inv m"
    using request_answered [OF assms, of "fst s" q deadline] by (auto simp: pair_inv_def answered_def)
  then show "\<exists>s' r. on_base (do_request (pw_base w) q deadline) s = Some (s', r) \<and>
      (case r of Inl e \<Rightarrow> True | Inr x \<Rightarrow> pair_inv s')"
    using s by (cases r) (simp_all add: on_base_def pair_inv_def)
qed

lemma robot_request_ends:
  assumes "ticking (pw_robot w)"
  shows "ends pair_inv (on_robot (do_request (pw_robot w) q deadline)) (\<lambda>_. pair_inv)"
proof (rule endsI)
  fix s assume s: "pair_inv s"
  then obtain m r where "do_request (pw_robot w) q deadline (snd s) = Some (m, r)" "client_inv m"
    using request_answered [OF assms, of "snd s" q deadline] by (auto simp: pair_inv_def answered_def)
  then show "\<exists>s' r. on_robot (do_request (pw_robot w) q deadline) s = Some (s', r) \<and>
      (case r of Inl e \<Rightarrow> True | Inr x \<Rightarrow> pair_inv s')"
    using s by (cases r) (simp_all add: on_robot_def pair_inv_def)
qed

lemma parsed_ends: "ends P f (\<lambda>_. P) \<Longrightarrow> ends P (parsed parse f) (\<lambda>_. P)"
  unfolding parsed_def by (erule ends_then) (simp add: ends_def split: sum.splits)

lemma requests:
  "client_hello cw deadline = do_request cw Hello deadline"
  "get_link_status cw deadline = do_request cw LinkStatus deadline"
  "get_diagnostics cw deadline = do_request cw Diagnostics deadline"
  by (simp_all add: fun_eq_iff)

lemma pair_value_ends: "ends P (\<lambda>s. Some (s, r)) (\<lambda>_. P)"
  by (simp add: ends_def split: sum.splits)

lemma questions_end:
  assumes "physical_ticking w"
  shows "ends pair_inv (greet w) (\<lambda>_. pair_inv)" and "ends pair_inv (both_status w) (\<lambda>_. pair_inv)"
    and "ends pair_inv (both_diagnostics w) (\<lambda>_. pair_inv)"
proof -
  have b: "ends pair_inv (parsed parse (on_base (do_request (pw_base w) q 2))) (\<lambda>_. pair_inv)"
    and r: "ends pair_inv (parsed parse' (on_robot (do_request (pw_robot w) q 2))) (\<lambda>_. pair_inv)"
    for parse :: "bytes \<Rightarrow> 'x result" and parse' :: "bytes \<Rightarrow> 'y result" and q
    using assms by (auto simp: physical_ticking_def intro!: parsed_ends base_request_ends robot_request_ends)
  show "ends pair_inv (greet w) (\<lambda>_. pair_inv)"
    unfolding greet_def requests by (rule ends_then [OF b ends_then [OF r pair_value_ends]])
  show "ends pair_inv (both_status w) (\<lambda>_. pair_inv)"
    unfolding both_status_def requests by (rule ends_then [OF b ends_then [OF r pair_value_ends]])
  show "ends pair_inv (both_diagnostics w) (\<lambda>_. pair_inv)"
    unfolding both_diagnostics_def requests by (rule ends_then [OF b ends_then [OF r pair_value_ends]])
qed

lemma open_physical_ends:
  assumes w: "physical_ticking w"
  shows "\<exists>res. open_physical w base_client robot_client = Some res \<and>
    (case res of Inl e \<Rightarrow> True | Inr p \<Rightarrow> physical_inv p \<and> ph_clocks p = 1 \<and> ph_started p = pw_clock w 0)"
proof -
  obtain b rb where b: "new_modem_client (pw_base w) base_client = (b, rb)" "client_inv b"
    using new_modem_client_inv [of "pw_base w" base_client] by (metis prod.collapse)
  obtain c rc where c: "new_modem_client (pw_robot w) robot_client = (c, rc)" "client_inv c"
    using new_modem_client_inv [of "pw_robot w" robot_client] by (metis prod.collapse)
  let ?ask = "\<lambda>s. thenO (greet w s) (\<lambda>info s. thenO (both_status w s) (\<lambda>status s.
      thenO (both_diagnostics w s) (\<lambda>diagnostics s. Some (s, Inr (info, status, diagnostics)))))"
  have ask: "ends pair_inv ?ask (\<lambda>_. pair_inv)"
    by (rule ends_then [OF questions_end(1) [OF w] ends_then [OF questions_end(2) [OF w]
        ends_then [OF questions_end(3) [OF w] pair_value_ends]]])
  have inv: "pair_inv (b, c)" using b c by (simp add: pair_inv_def)
  from endsD [OF ask inv] obtain s r where a: "?ask (b, c) = Some (s, r)"
    "case r of Inl e \<Rightarrow> True | Inr x \<Rightarrow> pair_inv s" by (elim exE conjE)
  show ?thesis
  proof (cases "is_ok rb \<and> is_ok rc")
    case False
    then show ?thesis using b(1) c(1) by (auto simp: open_physical_def is_ok_def split: sum.splits)
  next
    case True
    obtain b' c' where s: "s = (b', c')" by fastforce
    have o': "open_physical w base_client robot_client =
        Some (bindR r (\<lambda>(info, status, diagnostics). Inr
          \<lparr>ph_base = b', ph_robot = c', ph_clocks = 1, ph_started = pw_clock w 0,
           ph_estimated_airtime_s = 0, ph_transaction_times_ms = [],
           ph_application_frames_decoded = 0, ph_info = info, ph_status_start = status,
           ph_diagnostics_start = diagnostics\<rparr>))"
      using True b(1) c(1) a(1) s by (auto simp: open_physical_def is_ok_def split: sum.splits)
    show ?thesis
    proof (cases r)
      case (Inl e)
      then show ?thesis using o' by simp
    next
      case (Inr x)
      then show ?thesis
        using o' a(2) s by (cases x) (simp add: physical_inv_def pair_inv_def)
    qed
  qed
qed

lemma finish_report_ends:
  assumes w: "physical_ticking w"
  shows "ends physical_inv (finish_report w) (\<lambda>_. physical_inv)"
proof (rule endsI)
  fix p assume p: "physical_inv p"
  let ?ask = "\<lambda>f s. thenO (both_status w s) (\<lambda>status s. thenO (both_diagnostics w s)
      (\<lambda>diagnostics s. Some (s, f status diagnostics s)))"
  have ask: "ends pair_inv (?ask f) (\<lambda>_. pair_inv)" for f :: "_ \<Rightarrow> _ \<Rightarrow> _ \<Rightarrow> physical_report result"
    by (rule ends_then [OF questions_end(2) [OF w] ends_then [OF questions_end(3) [OF w]]])
      (simp add: ends_def split: sum.splits)
  have inv: "pair_inv (ph_base p, ph_robot p)" using p by (simp add: pair_inv_def physical_inv_def)
  have "\<exists>f. finish_report w p = map_option (\<lambda>((b, r), res). (p\<lparr>ph_base := b, ph_robot := r\<rparr>, res))
      (?ask f (ph_base p, ph_robot p))"
    unfolding finish_report_def Let_def case_prod_unfold by (intro exI) (rule refl)
  then obtain f where f: "finish_report w p = map_option (\<lambda>((b, r), res). (p\<lparr>ph_base := b, ph_robot := r\<rparr>, res))
      (?ask f (ph_base p, ph_robot p))" ..
  from endsD [OF ask inv, of f] obtain s r where
    "?ask f (ph_base p, ph_robot p) = Some (s, r)" "case r of Inl e \<Rightarrow> True | Inr x \<Rightarrow> pair_inv s" by blast
  then show "\<exists>p' r. finish_report w p = Some (p', r) \<and> (case r of Inl e \<Rightarrow> True | Inr x \<Rightarrow> physical_inv p')"
    using f by (cases s; cases r) (simp_all add: pair_inv_def physical_inv_def)
qed

lemma report_of_fields:
  assumes "report_of m airtime_s times_ms errors = Inr rep"
  shows "rep_pass rep = (passed m \<and> errors = 0)" "rep_errors rep = mr_errors m" "rep_traffic rep = mr_traffic m"
    "rep_stop_unique rep = mr_stop_unique m" "rep_stop_acked rep = card (mr_stop_acks m)"
    "rep_stop_applied rep = sc_apply_count (mr_stop_cache m)"
  using assms by (auto simp: report_of_def bindR_Inr_iff)

text \<open>A report of a run is the report of a state that keeps the runner's invariant.\<close>

lemma run_physical_ends:
  assumes w: "physical_ticking w" and "session_ok base" and "fair_hz profile hz"
  shows "\<exists>res. run_physical w base_client robot_client (new_mixed profile duration status stop hz base robot) = Some res \<and>
    (case res of
       Inl e \<Rightarrow> True
     | Inr (rep, transport) \<Rightarrow> \<exists>m airtime_s times_ms. mixed_inv m \<and>
         report_of m airtime_s times_ms
           (modem_errors [fst (pr_status_delta transport), snd (pr_status_delta transport)]) = Inr rep)"
proof -
  obtain o' where o': "open_physical w base_client robot_client = Some o'"
    "case o' of Inl e \<Rightarrow> True | Inr p \<Rightarrow> physical_inv p \<and> ph_clocks p = 1 \<and> ph_started p = pw_clock w 0"
    using open_physical_ends [OF w] by blast
  show ?thesis
  proof (cases "is_ok o' \<and> is_ok (new_mixed profile duration status stop hz base robot)")
    case False
    then show ?thesis using o'(1) by (auto simp: run_physical_def is_ok_def split: sum.splits)
  next
    case True
    then obtain p m where pm: "o' = Inr p" "new_mixed profile duration status stop hz base robot = Inr m"
      by (auto simp: is_ok_iff)
    from new_mixed_inv [OF pm(2) assms(2,3)] obtain c where c: "bench_inv c (m, new_transport)" by blast
    then have "runner_ok c 0 m" by (simp add: bench_inv_def runner_ok_def new_transport_def)
    moreover have "0 \<le> upcoming w p"
      using o'(2) pm(1) w passes_mono [of "pw_clock w" 0 1] by (simp add: upcoming_def physical_ticking_def)
    ultimately have "alive w c (pw_clock w 0) 0 (m, p)"
      using o'(2) pm(1) runner_ok_later by (auto simp: alive_def ready_def)
    from endsD [OF physical_run_ends [OF w] this] obtain s r where run: "physical_run w (m, p) = Some (s, r)"
      "case r of Inl e \<Rightarrow> True | Inr x \<Rightarrow> alive w c (pw_clock w 0) 0 s" by blast
    show ?thesis
    proof (cases r)
      case (Inl e)
      then show ?thesis using o'(1) pm run(1) by (simp add: run_physical_def)
    next
      case (Inr u)
      then have s: "physical_inv (snd s)" "mixed_inv (fst s)"
        using run(2) by (auto simp: alive_def ready_def runner_ok_def)
      from endsD [OF finish_report_ends [OF w] s(1)] obtain p' f where f: "finish_report w (snd s) = Some (p', f)"
        by blast
      show ?thesis
      proof (cases f)
        case (Inl e)
        then show ?thesis
          using o'(1) pm run(1) \<open>r = Inr u\<close> f by (simp add: run_physical_def physical_bench_report_def at_transport_def)
      next
        case (Inr transport)
        obtain rep where "report_of (fst s) (ph_estimated_airtime_s p') (ph_transaction_times_ms p')
            (modem_errors [fst (pr_status_delta transport), snd (pr_status_delta transport)]) = Inr rep"
          using report_of_total by blast
        then show ?thesis
          using o'(1) pm run(1) \<open>r = Inr u\<close> f Inr s(2)
          by (auto simp: run_physical_def physical_bench_report_def at_transport_def)
      qed
    qed
  qed
qed

text \<open>
  Property C22. A physical run of the mixed bench ends, whatever the modems and the radio do, when the
  clocks go on, and its report is sound: of each kind of traffic no more was delivered than sent and
  no more sent or refused than offered; no more STOPs are reported as acknowledged or applied than
  were made; and a run is passed only without an error, with every STOP acknowledged and applied once,
  and with no error counted by the modems in all.
\<close>

theorem physical_run_verdict:
  assumes "physical_ticking w" and "session_ok base" and "fair_hz profile hz"
  shows "\<exists>res. run_physical w base_client robot_client (new_mixed profile duration status stop hz base robot) = Some res \<and>
    (case res of
       Inl e \<Rightarrow> True
     | Inr (rep, transport) \<Rightarrow>
         (\<forall>kind\<in>kinds. \<exists>tr. rep_traffic rep kind = Some tr \<and> tr_delivered tr \<le> tr_sent tr \<and>
            tr_sent tr + tr_dropped tr \<le> tr_offered tr) \<and>
         rep_stop_acked rep \<le> rep_stop_unique rep \<and> rep_stop_applied rep \<le> rep_stop_unique rep \<and>
         (rep_pass rep \<longrightarrow> rep_errors rep = [] \<and> rep_stop_acked rep = rep_stop_unique rep \<and>
            rep_stop_applied rep = rep_stop_unique rep \<and>
            modem_errors [fst (pr_status_delta transport), snd (pr_status_delta transport)] = 0))"
proof -
  obtain res where res: "run_physical w base_client robot_client (new_mixed profile duration status stop hz base robot) = Some res"
    "case res of
       Inl e \<Rightarrow> True
     | Inr (rep, transport) \<Rightarrow> \<exists>m airtime_s times_ms. mixed_inv m \<and>
         report_of m airtime_s times_ms
           (modem_errors [fst (pr_status_delta transport), snd (pr_status_delta transport)]) = Inr rep"
    using run_physical_ends [OF assms] by blast
  show ?thesis
  proof (cases res)
    case (Inl e)
    then show ?thesis using res(1) by simp
  next
    case (Inr x)
    obtain rep transport where x: "x = (rep, transport)" by (cases x)
    obtain m airtime_s times_ms where inv: "mixed_inv m" and rep: "report_of m airtime_s times_ms
        (modem_errors [fst (pr_status_delta transport), snd (pr_status_delta transport)]) = Inr rep"
      using res(2) Inr x by auto
    note f = report_of_fields [OF rep]
    have "\<exists>tr. mr_traffic m kind = Some tr \<and> tr_delivered tr \<le> tr_sent tr \<and> tr_sent tr + tr_dropped tr \<le> tr_offered tr"
      if "kind \<in> kinds" for kind
    proof -
      have "traffic_counts kind m" using inv by (simp add: mixed_inv_def)
      then show ?thesis using that by (auto simp: traffic_counts_def counts_ok_def split: option.splits)
    qed
    moreover have "mr_errors m = [] \<and> card (mr_stop_acks m) = mr_stop_unique m \<and>
        sc_apply_count (mr_stop_cache m) = mr_stop_unique m" if "passed m"
      using that by (simp add: passed_def)
    ultimately show ?thesis
      using res(1) Inr x f stops_sound(3,5) [OF inv] by simp
  qed
qed

lemma sample_physical_ticking: "physical_ticking sample_physical_world"
  using sample_client_ticking ticks_pass [of "\<lambda>n. real n / 1000"]
  by (simp add: physical_ticking_def sample_physical_world_def Statements.ticks_def field_simps)

lemma physical_run_verdict_witness:
  "\<exists>res. run_physical sample_physical_world 7 8 (new_mixed ''nominal'' 20 60 30 1 3 4) = Some res"
  using physical_run_verdict [OF sample_physical_ticking, of 3 "''nominal''" 1 7 8 20 60 30 4]
  by (auto simp: session_ok_def fair_hz_def)

end
