(* ===== verification/Mixed_Main.thy ===== *)
theory Mixed_Main
  imports Mixed_Faults Physical_Run Service_Config
begin

text \<open>
  The command line of the mixed bench (\<open>main\<close> of \<open>tools/lora_usb/mixed_bench.py\<close>), from the parsed
  arguments to the exit code: what it refuses, what it runs, and the limits on physical runs. The
  durations, intervals and the rate are what \<open>type=float\<close> accepts, \<open>nan\<close> and the infinities included,
  and are compared the way Python compares them. What is behind two ports is an argument. The runs
  are those of \<open>Mixed_Runner\<close> and \<open>Physical_Run\<close>, whose duration is a finite number; what a run does
  whose duration is \<open>nan\<close> or infinite is not modelled, it is an argument too.
\<close>

record bench_args =
  ba_physical :: bool
  ba_profile :: string
  ba_duration_s :: py_float
  ba_status_interval :: py_float
  ba_stop_interval :: "py_float option"
  ba_rtcm_hz :: py_float
  ba_fault_test :: bool
  ba_base_port :: "string option"
  ba_robot_port :: "string option"

text \<open>What runs: the fault test, or a runner over one of the transports.\<close>

record runner_args =
  rn_profile :: string
  rn_duration_s :: py_float
  rn_status_interval :: time
  rn_stop_interval :: time
  rn_rtcm_hz :: real

datatype plan = FaultTest | Simulate runner_args | Physical string string runner_args

subsection \<open>The code\<close>

definition parser_error :: "string \<Rightarrow> 'a result" where
  "parser_error message = Inl (SystemExit message)"

fun finite_positive :: "py_float \<Rightarrow> bool" where
  "finite_positive (Finite x) = (0 < x)"
| "finite_positive _ = False"

fun as_real :: "py_float \<Rightarrow> real" where
  "as_real (Finite x) = x"
| "as_real _ = 0"

text \<open>
  Comparisons of floats: none holds of \<open>nan\<close>. \<open>Infinity True\<close> is \<open>inf\<close>, \<open>Infinity False\<close> is \<open>-inf\<close>.
\<close>

fun float_less :: "py_float \<Rightarrow> py_float \<Rightarrow> bool" where
  "float_less (Finite x) (Finite y) = (x < y)"
| "float_less (Finite x) (Infinity t) = t"
| "float_less (Infinity s) (Finite y) = (\<not> s)"
| "float_less (Infinity s) (Infinity t) = (\<not> s \<and> t)"
| "float_less _ _ = False"

fun float_eq :: "py_float \<Rightarrow> py_float \<Rightarrow> bool" where
  "float_eq (Finite x) (Finite y) = (x = y)"
| "float_eq (Infinity s) (Infinity t) = (s = t)"
| "float_eq _ _ = False"

definition float_le :: "py_float \<Rightarrow> py_float \<Rightarrow> bool" where
  "float_le x y \<longleftrightarrow> float_less x y \<or> float_eq x y"

definition validate_physical_guard :: "string \<Rightarrow> py_float \<Rightarrow> unit result" where
  "validate_physical_guard profile duration_s =
     (if profile = ''short-capacity'' \<and> float_less (Finite 20) duration_s
      then Inl (ValueExc ''short-capacity physical runs are limited to 20 seconds'')
      else if profile = ''low-duty'' \<and> float_less (Finite 900) duration_s
      then Inl (ValueExc ''low-duty physical runs are limited to 900 seconds'')
      else Inr ())"

text \<open>
  \<open>args.stop_interval or ...\<close>: only a missing value and zero are false. The runner uses an interval
  when it is positive and waits for \<open>math.inf\<close> otherwise; so \<open>nan\<close> and the infinities act as 0 does.
\<close>

definition stop_interval_of :: "bench_args \<Rightarrow> py_float" where
  "stop_interval_of args =
     (let default = Finite (if ba_profile args = ''nominal'' then 30 else 60)
      in case ba_stop_interval args of
           Some x \<Rightarrow> if float_eq x (Finite 0) then default else x
         | None \<Rightarrow> default)"

definition runner_of :: "bench_args \<Rightarrow> runner_args" where
  "runner_of args =
     \<lparr>rn_profile = ba_profile args, rn_duration_s = ba_duration_s args,
      rn_status_interval = as_real (ba_status_interval args),
      rn_stop_interval = as_real (stop_interval_of args),
      rn_rtcm_hz = as_real (ba_rtcm_hz args)\<rparr>"

text \<open>An absent or empty port is no port.\<close>

definition port_given :: "string option \<Rightarrow> string option" where
  "port_given port = (case port of None \<Rightarrow> None | Some p \<Rightarrow> if p = [] then None else Some p)"

definition physical_plan :: "bench_args \<Rightarrow> plan result" where
  "physical_plan args =
     (case (port_given (ba_base_port args), port_given (ba_robot_port args)) of
        (Some base, Some robot) \<Rightarrow>
          (let physical_profile = (if ba_profile args = ''nominal'' then ''short-capacity'' else ''low-duty'')
           in case validate_physical_guard physical_profile (ba_duration_s args) of
                Inl (ValueExc message) \<Rightarrow> parser_error message
              | Inl e \<Rightarrow> Inl e
              | Inr _ \<Rightarrow> Inr (Physical base robot (runner_of args)))
      | _ \<Rightarrow> parser_error ''physical mode requires --base-port and --robot-port'')"

definition bench_plan :: "bench_args \<Rightarrow> plan result" where
  "bench_plan args =
     (if float_le (ba_duration_s args) (Finite 0) then parser_error ''duration must be positive''
      else if \<not> finite_positive (ba_rtcm_hz args) then parser_error ''RTCM rate must be finite and positive''
      else if ba_profile args \<noteq> ''nominal'' \<and> \<not> float_eq (ba_rtcm_hz args) (Finite 1)
      then parser_error ''--rtcm-hz applies only to the nominal profile''
      else if ba_fault_test args then Inr FaultTest
      else if ba_physical args then physical_plan args
      else Inr (Simulate (runner_of args)))"

definition new_runner :: "runner_args \<Rightarrow> time \<Rightarrow> int \<Rightarrow> int \<Rightarrow> mixed result" where
  "new_runner r duration base robot =
     new_mixed (rn_profile r) duration (rn_status_interval r) (rn_stop_interval r) (rn_rtcm_hz r) base robot"

definition simulate :: "runner_args \<Rightarrow> time \<Rightarrow> int \<Rightarrow> int \<Rightarrow> bool result option" where
  "simulate r duration base robot =
     (case new_runner r duration base robot of
        Inl e \<Rightarrow> Some (Inl e)
      | Inr m \<Rightarrow> map_option (\<lambda>res. bindR res (\<lambda>rep. Inr (rep_pass rep))) (run_mixed m))"

definition physical :: "physical_world \<Rightarrow> int \<Rightarrow> int \<Rightarrow> runner_args \<Rightarrow> time \<Rightarrow> int \<Rightarrow> int \<Rightarrow> bool result option" where
  "physical w base_client robot_client r duration base robot =
     map_option (\<lambda>res. bindR res (\<lambda>(rep, transport). Inr (rep_pass rep)))
       (run_physical w base_client robot_client (new_runner r duration base robot))"

text \<open>
  \<open>main\<close>: the exit code is 0 when the report passes. The sessions that the runner draws from the seed
  and those that the modem clients draw are arguments, and so is \<open>other\<close>, what comes of a run whose
  duration is not a finite number.
\<close>

definition exit_code :: "bool \<Rightarrow> int" where
  "exit_code pass = (if pass then 0 else 2)"

definition run_plan :: "(string \<Rightarrow> string \<Rightarrow> physical_world) \<Rightarrow> int \<Rightarrow> int \<Rightarrow> int \<Rightarrow> int \<Rightarrow>
    (plan \<Rightarrow> bool result option) \<Rightarrow> plan \<Rightarrow> bool result option" where
  "run_plan ports base_client robot_client base robot other p =
     (case p of
        FaultTest \<Rightarrow> Some (bindR run_fault_test (\<lambda>rep. Inr (ft_pass rep)))
      | Simulate r \<Rightarrow>
          (case rn_duration_s r of
             Finite duration \<Rightarrow> simulate r duration base robot
           | _ \<Rightarrow> other p)
      | Physical base_port robot_port r \<Rightarrow>
          (case rn_duration_s r of
             Finite duration \<Rightarrow>
               physical (ports base_port robot_port) base_client robot_client r duration base robot
           | _ \<Rightarrow> other p))"

definition bench_main :: "(string \<Rightarrow> string \<Rightarrow> physical_world) \<Rightarrow> int \<Rightarrow> int \<Rightarrow> int \<Rightarrow> int \<Rightarrow>
    (plan \<Rightarrow> bool result option) \<Rightarrow> bench_args \<Rightarrow> int result option" where
  "bench_main ports base_client robot_client base robot other args =
     map_option (\<lambda>res. bindR res (\<lambda>pass. Inr (exit_code pass)))
       (case bench_plan args of
          Inl e \<Rightarrow> Some (Inl e)
        | Inr p \<Rightarrow> run_plan ports base_client robot_client base robot other p)"

subsection \<open>What main does\<close>

lemma float_le_zero:
  "\<not> float_le x (Finite 0) \<longleftrightarrow> (case x of Finite d \<Rightarrow> 0 < d | Infinity s \<Rightarrow> s | NaN \<Rightarrow> True)"
  by (cases x) (auto simp: float_le_def)

lemma float_eq_one [simp]: "float_eq x (Finite y) \<longleftrightarrow> x = Finite y"
  by (cases x) auto

text \<open>What the durations are that get through.\<close>

definition positive_duration :: "py_float \<Rightarrow> bool" where
  "positive_duration d \<longleftrightarrow> (case d of Finite x \<Rightarrow> 0 < x | Infinity s \<Rightarrow> s | NaN \<Rightarrow> True)"

definition physical_duration :: "string \<Rightarrow> py_float \<Rightarrow> bool" where
  "physical_duration profile d \<longleftrightarrow>
     (case d of Finite x \<Rightarrow> 0 < x \<and> x \<le> (if profile = ''nominal'' then 20 else 900)
      | Infinity s \<Rightarrow> False | NaN \<Rightarrow> True)"

lemma plan_cases:
  "case bench_plan args of
     Inl e \<Rightarrow> \<exists>message. e = SystemExit message
   | Inr FaultTest \<Rightarrow> ba_fault_test args
   | Inr (Simulate r) \<Rightarrow> r = runner_of args \<and> \<not> ba_physical args \<and> positive_duration (rn_duration_s r) \<and>
       0 < rn_rtcm_hz r
   | Inr (Physical base robot r) \<Rightarrow> r = runner_of args \<and> ba_physical args \<and> base \<noteq> [] \<and> robot \<noteq> [] \<and>
       0 < rn_rtcm_hz r \<and> (rn_profile r \<noteq> ''nominal'' \<longrightarrow> rn_rtcm_hz r = 1) \<and>
       physical_duration (rn_profile r) (rn_duration_s r)"
proof (cases "ba_rtcm_hz args")
  case (Finite hz)
  show ?thesis
    by (cases "ba_duration_s args")
      (auto simp: bench_plan_def parser_error_def physical_plan_def port_given_def validate_physical_guard_def
        runner_of_def Let_def float_le_def positive_duration_def physical_duration_def Finite split: option.splits)
qed (auto simp: bench_plan_def parser_error_def)

lemma simulate_ends:
  assumes "session_ok base" and "session_ok robot" and "0 < rn_rtcm_hz r"
  shows "\<exists>res. simulate r duration base robot = Some res \<and>
    (case res of Inl e \<Rightarrow> e = ApplicationError ''message id out of range'' | Inr pass \<Rightarrow> True)"
proof -
  obtain m where m: "new_mixed (rn_profile r) duration (rn_status_interval r) (rn_stop_interval r)
      (rn_rtcm_hz r) base robot = Inr m"
    using assms(2) by (auto simp: new_mixed_def new_stop_cache_def session_ok_def)
  have "fair_hz (rn_profile r) (rn_rtcm_hz r)" using assms(3) by (simp add: fair_hz_def)
  from run_bench_ends [OF m assms(1) this] show ?thesis
  proof cases
    case (1 x)
    then show ?thesis by (simp add: simulate_def new_runner_def m run_mixed_def id_error_def)
  next
    case (2 m' t)
    obtain rep where "report (m', t) = Inr rep" using report_total by blast
    then show ?thesis using 2 by (simp add: simulate_def new_runner_def m run_mixed_def)
  qed
qed

lemma physical_ends:
  assumes "physical_ticking w" and "session_ok base" and "0 < rn_rtcm_hz r"
  shows "\<exists>res. physical w base_client robot_client r duration base robot = Some res"
proof -
  have "fair_hz (rn_profile r) (rn_rtcm_hz r)" using assms(3) by (simp add: fair_hz_def)
  from run_physical_ends [OF assms(1,2) this] obtain res where
    "run_physical w base_client robot_client (new_runner r duration base robot) = Some res"
    unfolding new_runner_def by meson
  then show ?thesis by (simp add: physical_def)
qed

text \<open>
  Property C23. The mixed bench keeps to its limits. With sessions in range, and ports whose clocks go
  on, for every command line, floats that are no finite numbers included: it is refused with a
  message; or it is the fault test, which exits with 0; or a simulation, whose duration is positive,
  infinite or \<open>nan\<close>, and which, when the duration is finite, ends, with 0 or 2 unless a message id
  leaves its 32 bits; or it is a physical run. A physical run only starts with both ports, an RTCM rate
  that is positive and is 1 Hz outside the nominal profile, and a duration that is either positive and at
  most 20 s in the nominal and 900 s in the low-duty profile, and then it ends, with 0 or 2 or
  an exception that it does not handle, or is \<open>nan\<close>, which no guard stops. Nothing is said
  here of what a run with the duration \<open>nan\<close> or \<open>inf\<close> does.
\<close>

theorem bench_main_limits:
  assumes "session_ok base" and "session_ok robot" and "\<And>b r. physical_ticking (ports b r)"
    and "outcome = bench_main ports base_client robot_client base robot other args"
  shows "case bench_plan args of
      Inl e \<Rightarrow> outcome = Some (Inl e) \<and> (\<exists>message. e = SystemExit message)
    | Inr FaultTest \<Rightarrow> outcome = Some (Inr 0)
    | Inr (Simulate r) \<Rightarrow>
        (case ba_duration_s args of
           Finite d \<Rightarrow> 0 < d \<and> (\<exists>res. outcome = Some res \<and>
             (case res of Inl e \<Rightarrow> e = ApplicationError ''message id out of range'' | Inr code \<Rightarrow> code = 0 \<or> code = 2))
         | Infinity positive \<Rightarrow> positive
         | NaN \<Rightarrow> True)
    | Inr (Physical base_port robot_port r) \<Rightarrow>
        base_port \<noteq> [] \<and> robot_port \<noteq> [] \<and>
        (\<exists>hz. ba_rtcm_hz args = Finite hz \<and> 0 < hz \<and> (ba_profile args = ''nominal'' \<or> hz = 1)) \<and>
        (case ba_duration_s args of
           Finite d \<Rightarrow> 0 < d \<and> d \<le> (if ba_profile args = ''nominal'' then 20 else 900) \<and>
             (\<exists>res. outcome = Some res \<and> (case res of Inl e \<Rightarrow> True | Inr code \<Rightarrow> code = 0 \<or> code = 2))
         | Infinity positive \<Rightarrow> False
         | NaN \<Rightarrow> True)"
proof (cases "bench_plan args")
  case (Inl e)
  then show ?thesis using plan_cases [of args] by (simp add: bench_main_def assms(4))
next
  case (Inr p)
  note plan = plan_cases [of args] and main = bench_main_def run_plan_def assms(4)
  show ?thesis
  proof (cases p)
    case FaultTest
    then show ?thesis using Inr by (simp add: main fault_report exit_code_def)
  next
    case (Simulate r)
    then have r: "r = runner_of args" "0 < rn_rtcm_hz r" and d: "positive_duration (ba_duration_s args)"
      using plan Inr by (auto simp: runner_of_def)
    show ?thesis
    proof (cases "ba_duration_s args")
      case (Finite duration)
      from simulate_ends [OF assms(1,2) r(2)] obtain res where "simulate r duration base robot = Some res"
        "case res of Inl e \<Rightarrow> e = ApplicationError ''message id out of range'' | Inr pass \<Rightarrow> True" by blast
      then show ?thesis
        using Inr Simulate Finite d r(1)
        by (cases res) (simp_all add: main exit_code_def runner_of_def positive_duration_def)
    qed (use Inr Simulate d in \<open>simp_all add: positive_duration_def\<close>)
  next
    case (Physical base_port robot_port r)
    then have r: "r = runner_of args" "0 < rn_rtcm_hz r" "base_port \<noteq> []" "robot_port \<noteq> []"
        "ba_profile args = ''nominal'' \<or> rn_rtcm_hz r = 1"
        and d: "physical_duration (ba_profile args) (ba_duration_s args)"
      using plan Inr by (auto simp: runner_of_def)
    then obtain hz where hz: "ba_rtcm_hz args = Finite hz" "rn_rtcm_hz r = hz"
      by (cases "ba_rtcm_hz args") (auto simp: runner_of_def)
    show ?thesis
    proof (cases "ba_duration_s args")
      case (Finite duration)
      obtain res where res: "physical (ports base_port robot_port) base_client robot_client r duration base robot = Some res"
        using physical_ends [OF assms(3,1) r(2)] by blast
      have "outcome = Some (bindR res (\<lambda>pass. Inr (exit_code pass)))"
        using Inr Physical res Finite r(1) by (simp add: main runner_of_def)
      then show ?thesis
        using Inr Physical r hz d Finite by (cases res) (simp_all add: exit_code_def physical_duration_def)
    qed (use Inr Physical r hz d in \<open>simp_all add: physical_duration_def\<close>)
  qed
qed

definition sample_args :: bench_args where
  "sample_args = \<lparr>ba_physical = True, ba_profile = ''low-duty'', ba_duration_s = Finite 900,
     ba_status_interval = Finite 60, ba_stop_interval = None, ba_rtcm_hz = Finite 1, ba_fault_test = False,
     ba_base_port = Some ''/dev/a'', ba_robot_port = Some ''/dev/b''\<rparr>"

lemma sample_plan: "bench_plan sample_args = Inr (Physical ''/dev/a'' ''/dev/b'' (runner_of sample_args))"
  by (simp add: bench_plan_def sample_args_def physical_plan_def port_given_def validate_physical_guard_def
      float_le_def)

text \<open>No guard stops a duration that is \<open>nan\<close>.\<close>

lemma nan_duration_passes:
  "bench_plan (sample_args\<lparr>ba_duration_s := NaN\<rparr>) =
     Inr (Physical ''/dev/a'' ''/dev/b'' (runner_of (sample_args\<lparr>ba_duration_s := NaN\<rparr>)))"
  by (simp add: bench_plan_def sample_args_def physical_plan_def port_given_def validate_physical_guard_def
      float_le_def)

lemma bench_main_limits_witness:
  "\<exists>res. bench_main (\<lambda>_ _. sample_physical_world) 5 6 7 9 (\<lambda>_. None) sample_args = Some res \<and>
     (case res of Inl e \<Rightarrow> True | Inr code \<Rightarrow> code = 0 \<or> code = 2)"
  using bench_main_limits [where base = 7 and robot = 9 and args = sample_args and base_client = 5 and
      robot_client = 6 and other = "\<lambda>_. None" and ports = "\<lambda>_ _. sample_physical_world",
      OF _ _ sample_physical_ticking refl]
  by (simp add: session_ok_def sample_plan) (simp add: sample_args_def)

end
