(* ===== verification/Mock_Bench.thy ===== *)
theory Mock_Bench
  imports Modem_Client Base_Service Service_Config
begin

text \<open>
  The mock bench (\<open>tools/lora_usb/bench.py\<close>): over two modems, the base pings the robot and waits for
  the acknowledgement, and then the other way round. What it prints about an iteration is a list of
  lines; the banner and the final counters are parsed, as the code does, and not kept.
\<close>

subsection \<open>The bench\<close>

record mock_world =
  mw_base :: client_world
  mw_robot :: client_world
  mw_clock :: "nat \<Rightarrow> time"
  mw_input :: "nat \<Rightarrow> string result"

datatype mock_line =
    PingTimeout int string
  | BadAck int int bytes
  | PingOk int int bytes real real real
  | ReverseTimeout int
  | ReverseOk int real real real

record mock_bench =
  mk_base :: modem_client
  mk_robot :: modem_client
  mk_clocks :: nat
  mk_inputs :: nat
  mk_n :: int
  mk_failures :: nat
  mk_log :: "mock_line list"

type_synonym 'a mock_call = "mock_bench \<Rightarrow> (mock_bench \<times> 'a result) option"

definition at_base :: "'a client_call \<Rightarrow> 'a mock_call" where
  "at_base f s = map_option (\<lambda>(m, r). (s\<lparr>mk_base := m\<rparr>, r)) (f (mk_base s))"

definition at_robot :: "'a client_call \<Rightarrow> 'a mock_call" where
  "at_robot f s = map_option (\<lambda>(m, r). (s\<lparr>mk_robot := m\<rparr>, r)) (f (mk_robot s))"

definition mock_clock :: "mock_world \<Rightarrow> time mock_call" where
  "mock_clock w s = Some (s\<lparr>mk_clocks := Suc (mk_clocks s)\<rparr>, Inr (mw_clock w (mk_clocks s)))"

definition printed :: "mock_line \<Rightarrow> unit mock_call" where
  "printed l s = Some (s\<lparr>mk_log := mk_log s @ [l]\<rparr>, Inr ())"

definition failed :: "mock_line \<Rightarrow> unit mock_call" where
  "failed l s = Some (s\<lparr>mk_failures := Suc (mk_failures s), mk_log := mk_log s @ [l]\<rparr>, Inr ())"

subsection \<open>Packets\<close>

definition text_bytes :: "string \<Rightarrow> bytes" where
  "text_bytes t = map of_char t"

definition ping_text :: "int \<Rightarrow> bytes" where
  "ping_text n = text_bytes (''mock-ping-'' @ py_str n)"

definition reverse_text :: "int \<Rightarrow> bytes" where
  "reverse_text n = text_bytes (''mock-reverse-'' @ py_str n)"

definition ack :: "bytes \<Rightarrow> bytes" where
  "ack data = text_bytes ''ack:'' @ data"

definition mock_app_of :: "usb_frame \<Rightarrow> (int \<times> int \<times> bytes) result" where
  "mock_app_of event = bindR (parse_radio_rx (uf_payload event)) (\<lambda>rx. parse_mock_app (rx_payload rx))"

text \<open>
  The loop that answers what was asked; a \<open>ProtocolError\<close> of the packet, of the reply or of its
  encoding skips the event. The robot stops at the first it has answered, the base does not.
\<close>

fun answer_events :: "(bytes \<Rightarrow> 'a client_call) \<Rightarrow> int \<Rightarrow> int \<Rightarrow> bool \<Rightarrow> usb_frame list \<Rightarrow> unit client_call" where
  "answer_events send asked reply stop [] m = Some (m, Inr ())"
| "answer_events send asked reply stop (event # events) m =
     (case mock_app_of event of
        Inl (ProtocolError _) \<Rightarrow> answer_events send asked reply stop events m
      | Inl e \<Rightarrow> Some (m, Inl e)
      | Inr (kind, sqn, data) \<Rightarrow>
          if kind = asked
          then (case thenO (Some (m, make_mock_app reply sqn (ack data))) send of
                  None \<Rightarrow> None
                | Some (m', Inl (ProtocolError _)) \<Rightarrow> answer_events send asked reply stop events m'
                | Some (m', Inl e) \<Rightarrow> Some (m', Inl e)
                | Some (m', Inr _) \<Rightarrow>
                    if stop then Some (m', Inr ()) else answer_events send asked reply stop events m')
          else answer_events send asked reply stop events m)"

definition answer_client :: "client_world \<Rightarrow> int \<Rightarrow> int \<Rightarrow> bool \<Rightarrow> unit client_call" where
  "answer_client cw asked reply stop m =
     thenO (Some (client_events cw m)) (answer_events (\<lambda>pl. client_send cw pl 3) asked reply stop)"

text \<open>The base looks for the first acknowledgement among its events.\<close>

fun first_ack :: "usb_frame list \<Rightarrow> (int \<times> bytes \<times> usb_frame) option result" where
  "first_ack [] = Inr None"
| "first_ack (event # events) =
     (case mock_app_of event of
        Inl (ProtocolError _) \<Rightarrow> first_ack events
      | Inl e \<Rightarrow> Inl e
      | Inr (kind, sqn, data) \<Rightarrow>
          if kind = 2 then Inr (Some (sqn, data, event)) else first_ack events)"

definition look_for_ack :: "client_world \<Rightarrow> (int \<times> bytes \<times> usb_frame) option client_call" where
  "look_for_ack cw m = Some (seqA (client_events cw) (\<lambda>events. lift (first_ack events)) m)"

text \<open>\<open>reverse_ok\<close> and \<open>reverse_metrics\<close>; the former is assigned anew on every event.\<close>

type_synonym reverse_state = "bool \<times> (real \<times> real) option"

fun check_reverse :: "int \<Rightarrow> reverse_state \<Rightarrow> usb_frame list \<Rightarrow> reverse_state result" where
  "check_reverse n found [] = Inr found"
| "check_reverse n found (event # events) =
     (case mock_app_of event of
        Inl (ProtocolError _) \<Rightarrow> check_reverse n found events
      | Inl e \<Rightarrow> Inl e
      | Inr (kind, sqn, data) \<Rightarrow>
          if kind = 4 \<and> sqn = n \<and> data = ack (reverse_text n)
          then (case parse_radio_rx (uf_payload event) of
                  Inl (ProtocolError _) \<Rightarrow> check_reverse n (True, snd found) events
                | Inl e \<Rightarrow> Inl e
                | Inr rx \<Rightarrow> check_reverse n (True, Some (rx_rssi rx, rx_snr rx)) events)
          else check_reverse n (False, snd found) events)"

definition hear_reverse :: "client_world \<Rightarrow> int \<Rightarrow> reverse_state \<Rightarrow> reverse_state client_call" where
  "hear_reverse cw n found m = Some (seqA (client_events cw) (\<lambda>events. lift (check_reverse n found events)) m)"

subsection \<open>An iteration\<close>

partial_function (option) await_ack ::
  "mock_world \<Rightarrow> time \<Rightarrow> mock_bench \<Rightarrow> (mock_bench \<times> (int \<times> bytes \<times> usb_frame) option result) option" where
  "await_ack w deadline s =
     thenO (mock_clock w s) (\<lambda>now s.
       if now < deadline
       then thenO (at_robot (answer_client (mw_robot w) 1 2 True) s) (\<lambda>_ s.
            thenO (at_base (look_for_ack (mw_base w)) s) (\<lambda>received s.
              case received of
                None \<Rightarrow> await_ack w deadline s
              | Some r \<Rightarrow> Some (s, Inr (Some r))))
       else Some (s, Inr None))"

definition ping_verdict :: "mock_world \<Rightarrow> int \<Rightarrow> usb_frame \<Rightarrow> time \<Rightarrow> (int \<times> bytes \<times> usb_frame) option \<Rightarrow>
    unit mock_call" where
  "ping_verdict w n tx started received s =
     (case received of
        None \<Rightarrow> failed (PingTimeout n (hex (uf_payload tx))) s
      | Some (sqn, data, event) \<Rightarrow>
          thenO (Some (s, parse_radio_rx (uf_payload event))) (\<lambda>rx s.
            if sqn \<noteq> n \<or> data \<noteq> ack (ping_text n) then failed (BadAck n sqn data) s
            else thenO (mock_clock w s) (\<lambda>now.
                   printed (PingOk n sqn data (1000 * (now - started)) (rx_rssi rx) (rx_snr rx)))))"

definition ping :: "mock_world \<Rightarrow> int \<Rightarrow> unit mock_call" where
  "ping w n s =
     thenO (Some (s, make_mock_app 1 n (ping_text n))) (\<lambda>payload s.
     thenO (mock_clock w s) (\<lambda>started s.
     thenO (at_base (client_send (mw_base w) payload 3) s) (\<lambda>(tx, _) s.
     thenO (mock_clock w s) (\<lambda>now s.
     thenO (await_ack w (now + 3) s)
       (ping_verdict w n tx started)))))"

partial_function (option) await_reverse ::
  "mock_world \<Rightarrow> int \<Rightarrow> time \<Rightarrow> reverse_state \<Rightarrow> mock_bench \<Rightarrow> (mock_bench \<times> reverse_state result) option" where
  "await_reverse w n deadline found s =
     thenO (mock_clock w s) (\<lambda>now s.
       if now < deadline \<and> \<not> fst found
       then thenO (at_base (answer_client (mw_base w) 3 4 False) s) (\<lambda>_ s.
            thenO (at_robot (hear_reverse (mw_robot w) n found) s) (\<lambda>found s.
              await_reverse w n deadline found s))
       else Some (s, Inr found))"

definition reverse_verdict :: "mock_world \<Rightarrow> int \<Rightarrow> time \<Rightarrow> reverse_state \<Rightarrow> unit mock_call" where
  "reverse_verdict w n started found s =
     (if \<not> fst found then failed (ReverseTimeout n) s
      else thenO (mock_clock w s) (\<lambda>now s.
             case snd found of
               None \<Rightarrow> Some (s, Inl (TypeExc ''NoneType object is not subscriptable''))
             | Some (rssi, snr) \<Rightarrow> printed (ReverseOk n (1000 * (now - started)) rssi snr) s))"

definition reverse_ping :: "mock_world \<Rightarrow> int \<Rightarrow> unit mock_call" where
  "reverse_ping w n s =
     thenO (Some (s, make_mock_app 3 n (reverse_text n))) (\<lambda>payload s.
     thenO (mock_clock w s) (\<lambda>started s.
     thenO (at_robot (client_send (mw_robot w) payload 3) s) (\<lambda>_ s.
     thenO (mock_clock w s) (\<lambda>now s.
     thenO (await_reverse w n (now + 3) (False, None) s)
       (reverse_verdict w n started)))))"

subsection \<open>The run\<close>

text \<open>\<open>time.sleep\<close> counts in 64-bit nanoseconds and refuses a negative time.\<close>

fun pause :: "py_float \<Rightarrow> unit result" where
  "pause (Finite x) =
     (if 2 ^ 63 \<le> \<bar>x\<bar> * 10 ^ 9 then Inl OverflowExc
      else if x < 0 then Inl (ValueExc ''sleep length must be non-negative'') else Inr ())"
| "pause (Infinity _) = Inl OverflowExc"
| "pause NaN = Inl (ValueExc ''Invalid value NaN (not a number)'')"

definition lower_char :: "char \<Rightarrow> char" where
  "lower_char c =
     (if 65 \<le> (of_char c :: nat) \<and> (of_char c :: nat) \<le> 90 then char_of (of_char c + 32 :: nat) else c)"

definition is_quit :: "string \<Rightarrow> bool" where
  "is_quit line \<longleftrightarrow> map lower_char (strip line) \<in> {''q'', ''quit''}"

text \<open>An interactive run asks before every iteration: whether to go on.\<close>

definition go_on :: "mock_world \<Rightarrow> int \<Rightarrow> bool mock_call" where
  "go_on w runs s =
     (if runs \<le> 0
      then Some (s\<lparr>mk_inputs := Suc (mk_inputs s)\<rparr>,
                 bindR (mw_input w (mk_inputs s)) (\<lambda>line. Inr (\<not> is_quit line)))
      else Some (s, Inr True))"

definition mock_turn :: "mock_world \<Rightarrow> int \<Rightarrow> py_float \<Rightarrow> unit mock_call" where
  "mock_turn w runs interval s0 =
     (let n = mk_n s0 + 1
      in thenO (ping w n (s0\<lparr>mk_n := n\<rparr>)) (\<lambda>_ s.
         thenO (reverse_ping w n s) (\<lambda>_ s.
           Some (s, if runs \<le> 0 \<or> n < runs then pause interval else Inr ()))))"

partial_function (option) mock_loop ::
  "mock_world \<Rightarrow> int \<Rightarrow> py_float \<Rightarrow> mock_bench \<Rightarrow> (mock_bench \<times> unit result) option" where
  "mock_loop w runs interval s =
     (if runs \<le> 0 \<or> mk_n s < runs
      then thenO (go_on w runs s) (\<lambda>go s.
             if go then thenO (mock_turn w runs interval s) (\<lambda>_ s. mock_loop w runs interval s)
             else Some (s, Inr ()))
      else Some (s, Inr ()))"

definition mock_greet :: "mock_world \<Rightarrow> (info \<times> info) mock_call" where
  "mock_greet w s =
     thenO (at_base (client_hello (mw_base w) 2) s) (\<lambda>bi s.
     thenO (at_robot (client_hello (mw_robot w) 2) s) (\<lambda>ri s.
     thenO (Some (s, parse_info (uf_payload bi))) (\<lambda>b s.
     thenO (Some (s, parse_info (uf_payload ri))) (\<lambda>r s. Some (s, Inr (b, r))))))"

definition mock_counters :: "mock_world \<Rightarrow> (int list \<times> int list) mock_call" where
  "mock_counters w s =
     thenO (at_base (get_link_status (mw_base w) 2) s) (\<lambda>bs s.
     thenO (at_robot (get_link_status (mw_robot w) 2) s) (\<lambda>rs s.
     thenO (Some (s, parse_link_status (uf_payload bs))) (\<lambda>b s.
     thenO (Some (s, parse_link_status (uf_payload rs))) (\<lambda>r s. Some (s, Inr (b, r))))))"

definition mock_run :: "mock_world \<Rightarrow> int \<Rightarrow> py_float \<Rightarrow> int mock_call" where
  "mock_run w runs interval s =
     thenO (mock_greet w s) (\<lambda>_ s.
     thenO (mock_loop w runs interval s) (\<lambda>_ s.
     thenO (mock_counters w s) (\<lambda>_ s.
       Some (s, Inr (if mk_failures s \<noteq> 0 then 2 else 0)))))"

text \<open>The \<open>except\<close> clause.\<close>

fun stopped :: "py_exc \<Rightarrow> int result" where
  "stopped (ModemError _) = Inr 2"
| "stopped TimeoutExc = Inr 2"
| "stopped OsError = Inr 2"
| "stopped e = Inl e"

definition new_mock_bench :: "modem_client \<Rightarrow> modem_client \<Rightarrow> mock_bench" where
  "new_mock_bench b r =
     \<lparr>mk_base = b, mk_robot = r, mk_clocks = 0, mk_inputs = 0, mk_n = 0, mk_failures = 0, mk_log = []\<rparr>"

text \<open>\<open>main\<close> with its arguments parsed; no bench is left when a port does not open.\<close>

definition mock_main :: "mock_world \<Rightarrow> int \<Rightarrow> py_float \<Rightarrow> int \<Rightarrow> int \<Rightarrow>
    (mock_bench option \<times> int result) option" where
  "mock_main w runs interval base_session robot_session =
     (case new_modem_client (mw_base w) base_session of
        (b, Inl e) \<Rightarrow> Some (None, stopped e)
      | (b, Inr _) \<Rightarrow>
          (case new_modem_client (mw_robot w) robot_session of
             (r, Inl e) \<Rightarrow> Some (None, stopped e)
           | (r, Inr _) \<Rightarrow>
               map_option (\<lambda>(s, res). (Some s, case res of Inl e \<Rightarrow> stopped e | Inr code \<Rightarrow> Inr code))
                 (mock_run w runs interval (new_mock_bench b r))))"

subsection \<open>The clients\<close>

definition heard :: "modem_client \<Rightarrow> int \<Rightarrow> int \<Rightarrow> bytes \<Rightarrow> bool" where
  "heard m kind sqn data \<longleftrightarrow>
     (\<exists>f\<in>set (mg_taken m). is_radio_rx f \<and> mock_app_of f = Inr (kind, sqn, data))"

text \<open>What a client's operations keep: its invariant and the frames it handed out.\<close>

definition client_grows :: "modem_client \<Rightarrow> modem_client \<Rightarrow> bool" where
  "client_grows m m' \<longleftrightarrow> client_inv m' \<and> set (mg_taken m) \<subseteq> set (mg_taken m')"

lemma client_grows_trans: "client_grows m m1 \<Longrightarrow> client_grows m1 m2 \<Longrightarrow> client_grows m m2"
  by (auto simp: client_grows_def)

lemma client_grows_heard: "client_grows m m' \<Longrightarrow> heard m kind sqn data \<Longrightarrow> heard m' kind sqn data"
  by (auto simp: client_grows_def heard_def)

lemma send_ends:
  assumes "ticking cw"
  shows "ends (client_grows m0) (\<lambda>m. client_send cw payload deadline m) (\<lambda>_. client_grows m0)"
    and "\<And>m. client_grows m0 m \<Longrightarrow> \<exists>m' r. client_send cw payload deadline m = Some (m', r) \<and> client_grows m0 m'"
proof -
  show *: "\<exists>m' r. client_send cw payload deadline m = Some (m', r) \<and> client_grows m0 m'"
    if "client_grows m0 m" for m
  proof -
    have "client_inv m" using that by (simp add: client_grows_def)
    from request_answered [OF assms this, of "Send payload" deadline] obtain m' r where
      r: "do_request cw (Send payload) deadline m = Some (m', r)" "answered cw (Send payload) m (m', r)" by blast
    then have "client_grows m0 m'"
      using that by (cases r) (auto simp: answered_def client_grows_def)
    with r(1) have "\<exists>r. do_request cw (Send payload) deadline m = Some (m', r) \<and> client_grows m0 m'"
      by blast
    then show ?thesis
      by (cases "client_send cw payload deadline m") (auto simp: thenO_def split: sum.splits)
  qed
  show "ends (client_grows m0) (\<lambda>m. client_send cw payload deadline m) (\<lambda>_. client_grows m0)"
  proof (rule endsI)
    fix m assume "client_grows m0 m"
    from * [OF this] obtain m' r where "client_send cw payload deadline m = Some (m', r)" "client_grows m0 m'"
      by blast
    then show "\<exists>m' r. client_send cw payload deadline m = Some (m', r) \<and>
        (case r of Inl e \<Rightarrow> True | Inr x \<Rightarrow> client_grows m0 m')"
      by (cases r) simp_all
  qed
qed

lemma request_ends:
  assumes "ticking cw"
  shows "ends (client_grows m0) (do_request cw q deadline) (\<lambda>_. client_grows m0)"
proof (rule endsI)
  fix m assume m: "client_grows m0 m"
  then have "client_inv m" by (simp add: client_grows_def)
  from request_answered [OF assms this, of q deadline] obtain m' r where
    "do_request cw q deadline m = Some (m', r)" "answered cw q m (m', r)" by blast
  then show "\<exists>m' r. do_request cw q deadline m = Some (m', r) \<and>
      (case r of Inl e \<Rightarrow> True | Inr x \<Rightarrow> client_grows m0 m')"
    using m by (cases r) (auto simp: answered_def client_grows_def)
qed

lemma events_end:
  "ends (client_grows m0) (\<lambda>m. Some (client_events cw m))
     (\<lambda>events m. client_grows m0 m \<and> (\<forall>f\<in>set events. is_radio_rx f \<and> f \<in> set (mg_taken m)))"
proof (rule ends_some)
  fix m assume m: "client_grows m0 m"
  then have inv: "client_inv m" by (simp add: client_grows_def)
  obtain m' r where "poll cw m = (m', r)" "client_inv m'" "mg_taken m' = mg_taken m"
    using poll_effect [OF inv] by metis
  then show "case client_events cw m of (m', Inl e) \<Rightarrow> True
      | (m', Inr events) \<Rightarrow> client_grows m0 m' \<and> (\<forall>f\<in>set events. is_radio_rx f \<and> f \<in> set (mg_taken m'))"
    using m take_events_inv [of m']
    by (auto simp: client_events_def seqA_def client_grows_def take_events_def Let_def split: sum.splits)
qed

lemma answer_events_end:
  assumes "ticking cw"
  shows "ends (client_grows m0) (answer_events (\<lambda>pl. client_send cw pl 3) asked reply stop events)
    (\<lambda>_. client_grows m0)"
proof (rule endsI)
  fix m assume "client_grows m0 m"
  then show "\<exists>m' r. answer_events (\<lambda>pl. client_send cw pl 3) asked reply stop events m = Some (m', r) \<and>
      (case r of Inl e \<Rightarrow> True | Inr _ \<Rightarrow> client_grows m0 m')"
  proof (induction events arbitrary: m)
    case (Cons event events)
    let ?go = "answer_events (\<lambda>pl. client_send cw pl 3) asked reply stop"
    note rest = Cons.IH [OF Cons.prems]
    show ?case
    proof (cases "mock_app_of event")
      case (Inl e)
      then show ?thesis using rest by (cases e) simp_all
    next
      case (Inr packet)
      obtain kind sqn data where packet: "packet = (kind, sqn, data)" by (cases packet)
      show ?thesis
      proof (cases "kind = asked")
        case True
        obtain m' r where sent: "thenO (Some (m, make_mock_app reply sqn (ack data)))
            (\<lambda>pl. client_send cw pl 3) = Some (m', r)" "client_grows m0 m'"
          using send_ends(2) [OF assms Cons.prems] Cons.prems
          by (cases "make_mock_app reply sqn (ack data)") (simp, simp, blast)
        then show ?thesis
          using Inr packet True Cons.IH [OF sent(2)]
          by (cases r) (auto split: py_exc.splits)
      next
        case False
        then show ?thesis using Inr packet rest by simp
      qed
    qed
  qed simp
qed

lemma answer_client_ends:
  assumes "ticking cw"
  shows "ends (client_grows m0) (answer_client cw asked reply stop) (\<lambda>_. client_grows m0)"
  unfolding answer_client_def
  by (rule ends_then [OF events_end]) (rule ends_weaken [OF answer_events_end [OF assms]], auto)

lemma first_ack_found:
  "first_ack events = Inr (Some (sqn, data, event)) \<Longrightarrow>
     event \<in> set events \<and> mock_app_of event = Inr (2, sqn, data)"
  by (induction events) (auto split: sum.splits py_exc.splits if_splits)

lemma check_reverse_found:
  "check_reverse n found events = Inr found' \<Longrightarrow> fst found' \<Longrightarrow>
     found' = found \<or> (snd found' \<noteq> None \<and>
       (\<exists>event\<in>set events. mock_app_of event = Inr (4, n, ack (reverse_text n))))"
proof (induction events arbitrary: found)
  case (Cons event events)
  show ?case
  proof (cases "mock_app_of event")
    case (Inl e)
    then show ?thesis using Cons by (cases e) auto
  next
    case (Inr packet)
    obtain kind sqn data where packet: "packet = (kind, sqn, data)" by (cases packet)
    obtain rx where rx: "parse_radio_rx (uf_payload event) = Inr rx"
      using Inr by (cases "parse_radio_rx (uf_payload event)") (auto simp: mock_app_of_def)
    show ?thesis
    proof (cases "kind = 4 \<and> sqn = n \<and> data = ack (reverse_text n)")
      case True
      then have "check_reverse n (True, Some (rx_rssi rx, rx_snr rx)) events = Inr found'"
        using Cons.prems(1) Inr packet rx by simp
      from Cons.IH [OF this Cons.prems(2)] show ?thesis using True Inr packet by auto
    next
      case False
      then have "check_reverse n (False, snd found) events = Inr found'"
        using Cons.prems(1) Inr packet by auto
      from Cons.IH [OF this Cons.prems(2)] show ?thesis using Cons.prems(2) by auto
    qed
  qed
qed simp

lemma look_for_ack_ends:
  "ends (client_grows m0) (look_for_ack cw)
     (\<lambda>received m. client_grows m0 m \<and>
        (case received of None \<Rightarrow> True | Some (sqn, data, event) \<Rightarrow> heard m 2 sqn data))"
proof -
  have "look_for_ack cw = (\<lambda>m. thenO (Some (client_events cw m)) (\<lambda>events m. Some (m, first_ack events)))"
    by (auto simp: look_for_ack_def seqA_def lift_def thenO_def fun_eq_iff split: prod.splits sum.splits)
  then show ?thesis
    by (simp only:) (rule ends_then [OF events_end], rule ends_some,
      auto simp: heard_def dest!: first_ack_found split: sum.splits option.splits)
qed

lemma hear_reverse_ends:
  assumes "\<not> fst found"
  shows "ends (client_grows m0) (hear_reverse cw n found)
     (\<lambda>found m. client_grows m0 m \<and>
        (fst found \<longrightarrow> snd found \<noteq> None \<and> heard m 4 n (ack (reverse_text n))))"
proof (rule endsI)
  fix m assume m: "client_grows m0 m"
  obtain m' r where e: "client_events cw m = (m', r)"
    "case r of Inl e \<Rightarrow> True
     | Inr events \<Rightarrow> client_grows m0 m' \<and> (\<forall>f\<in>set events. is_radio_rx f \<and> f \<in> set (mg_taken m'))"
    using endsD [OF events_end, of m0 m cw] m by auto
  show "\<exists>m' r. hear_reverse cw n found m = Some (m', r) \<and>
      (case r of Inl e \<Rightarrow> True | Inr found \<Rightarrow> client_grows m0 m' \<and>
         (fst found \<longrightarrow> snd found \<noteq> None \<and> heard m' 4 n (ack (reverse_text n))))"
  proof (cases r)
    case (Inl x)
    then show ?thesis using e(1) by (simp add: hear_reverse_def seqA_def)
  next
    case (Inr events)
    have "snd found' \<noteq> None \<and> heard m' 4 n (ack (reverse_text n))"
      if "check_reverse n found events = Inr found'" "fst found'" for found'
      using check_reverse_found [OF that] that(2) assms e(2) Inr by (auto simp: heard_def)
    then show ?thesis
      using e m Inr by (auto simp: hear_reverse_def seqA_def lift_def split: sum.splits)
  qed
qed

subsection \<open>An iteration ends, and what it prints is true\<close>

text \<open>What holds while nothing is printed.\<close>

definition kept :: "mock_bench \<Rightarrow> mock_bench \<Rightarrow> bool" where
  "kept s0 s \<longleftrightarrow>
     client_grows (mk_base s0) (mk_base s) \<and> client_grows (mk_robot s0) (mk_robot s) \<and>
     mk_n s = mk_n s0 \<and> mk_failures s = mk_failures s0 \<and> mk_log s = mk_log s0"

lemma kept_clocks [simp]: "kept s0 (s\<lparr>mk_clocks := i\<rparr>) = kept s0 s"
  by (simp add: kept_def)

lemma at_base_ends:
  assumes f: "ends (client_grows (mk_base s0)) f Q" and Q: "\<And>x m. Q x m \<Longrightarrow> client_grows (mk_base s0) m"
  shows "ends (\<lambda>s. kept s0 s \<and> mk_clocks s = c) (at_base f)
    (\<lambda>x s. kept s0 s \<and> mk_clocks s = c \<and> Q x (mk_base s))"
proof (rule endsI)
  fix s assume s: "kept s0 s \<and> mk_clocks s = c"
  then have "client_grows (mk_base s0) (mk_base s)" by (simp add: kept_def)
  from endsD [OF f this] obtain m r where "f (mk_base s) = Some (m, r)"
    "case r of Inl e \<Rightarrow> True | Inr x \<Rightarrow> Q x m" by blast
  then show "\<exists>s' r. at_base f s = Some (s', r) \<and>
      (case r of Inl e \<Rightarrow> True | Inr x \<Rightarrow> kept s0 s' \<and> mk_clocks s' = c \<and> Q x (mk_base s'))"
    using s Q by (cases r) (auto simp: at_base_def kept_def)
qed

lemma at_robot_ends:
  assumes f: "ends (client_grows (mk_robot s0)) f Q" and Q: "\<And>x m. Q x m \<Longrightarrow> client_grows (mk_robot s0) m"
  shows "ends (\<lambda>s. kept s0 s \<and> mk_clocks s = c) (at_robot f)
    (\<lambda>x s. kept s0 s \<and> mk_clocks s = c \<and> Q x (mk_robot s))"
proof (rule endsI)
  fix s assume s: "kept s0 s \<and> mk_clocks s = c"
  then have "client_grows (mk_robot s0) (mk_robot s)" by (simp add: kept_def)
  from endsD [OF f this] obtain m r where "f (mk_robot s) = Some (m, r)"
    "case r of Inl e \<Rightarrow> True | Inr x \<Rightarrow> Q x m" by blast
  then show "\<exists>s' r. at_robot f s = Some (s', r) \<and>
      (case r of Inl e \<Rightarrow> True | Inr x \<Rightarrow> kept s0 s' \<and> mk_clocks s' = c \<and> Q x (mk_robot s'))"
    using s Q by (cases r) (auto simp: at_robot_def kept_def)
qed

definition mock_world_ok :: "mock_world \<Rightarrow> bool" where
  "mock_world_ok w \<longleftrightarrow> ticking (mw_base w) \<and> ticking (mw_robot w) \<and> passes (mw_clock w)"

definition acknowledged :: "(int \<times> bytes \<times> usb_frame) option \<Rightarrow> modem_client \<Rightarrow> bool" where
  "acknowledged received m =
     (case received of None \<Rightarrow> True | Some (sqn, data, event) \<Rightarrow> heard m 2 sqn data)"

lemma await_ack_ends:
  assumes w: "mock_world_ok w"
  shows "ends (kept s0) (await_ack w deadline) (\<lambda>received s. kept s0 s \<and> acknowledged received (mk_base s))"
proof (rule endsI)
  let ?Q = "\<lambda>received s. kept s0 s \<and> acknowledged received (mk_base s)"
  fix s assume "kept s0 s"
  then show "\<exists>s' r. await_ack w deadline s = Some (s', r) \<and> (case r of Inl e \<Rightarrow> True | Inr x \<Rightarrow> ?Q x s')"
  proof (induction "readings_left (mw_clock w) deadline (mk_clocks s)" arbitrary: s rule: less_induct)
    case less
    let ?s = "s\<lparr>mk_clocks := Suc (mk_clocks s)\<rparr>"
    let ?c = "Suc (mk_clocks s)"
    show ?case
    proof (cases "mw_clock w (mk_clocks s) < deadline")
      case True
      have shrink: "readings_left (mw_clock w) deadline ?c < readings_left (mw_clock w) deadline (mk_clocks s)"
        using readings_less [of "mw_clock w" "mk_clocks s" deadline ?c] w True by (simp add: mock_world_ok_def)
      have rest: "ends (\<lambda>s. kept s0 s \<and> mk_clocks s = ?c \<and> acknowledged received (mk_base s))
          (\<lambda>s. case received of None \<Rightarrow> await_ack w deadline s | Some r \<Rightarrow> Some (s, Inr (Some r))) ?Q" for received
        using less.hyps shrink by (cases received) (simp_all add: ends_def)
      have answered: "ends (\<lambda>s. kept s0 s \<and> mk_clocks s = ?c) (at_robot (answer_client (mw_robot w) 1 2 True))
          (\<lambda>_ s. kept s0 s \<and> mk_clocks s = ?c)"
        by (rule ends_weaken [OF at_robot_ends [where ?s0.0 = s0 and c = "Suc (mk_clocks s)", OF answer_client_ends]]) (use w in \<open>simp_all add: mock_world_ok_def\<close>)
      have looked: "ends (\<lambda>s. kept s0 s \<and> mk_clocks s = ?c) (at_base (look_for_ack (mw_base w)))
          (\<lambda>received s. kept s0 s \<and> mk_clocks s = ?c \<and> acknowledged received (mk_base s))"
        by (rule ends_weaken [OF at_base_ends [where ?s0.0 = s0 and c = "Suc (mk_clocks s)", OF look_for_ack_ends]]) (simp_all add: acknowledged_def)
      have "ends (\<lambda>s. kept s0 s \<and> mk_clocks s = ?c)
          (\<lambda>s. thenO (at_robot (answer_client (mw_robot w) 1 2 True) s) (\<lambda>_ s.
               thenO (at_base (look_for_ack (mw_base w)) s) (\<lambda>received s.
                 case received of None \<Rightarrow> await_ack w deadline s | Some r \<Rightarrow> Some (s, Inr (Some r))))) ?Q"
        by (rule ends_then [OF answered ends_then [OF looked rest]])
      from endsD [OF this, of ?s] show ?thesis
        using less.prems True by (simp add: await_ack.simps [of w deadline s] mock_clock_def)
    next
      case False
      then show ?thesis
        using less.prems by (simp add: await_ack.simps [of w deadline s] mock_clock_def acknowledged_def)
    qed
  qed
qed

definition turned :: "int \<Rightarrow> reverse_state \<Rightarrow> modem_client \<Rightarrow> bool" where
  "turned n found m \<longleftrightarrow> (fst found \<longrightarrow> snd found \<noteq> None \<and> heard m 4 n (ack (reverse_text n)))"

lemma await_reverse_ends:
  assumes w: "mock_world_ok w"
  shows "ends (\<lambda>s. kept s0 s \<and> turned n found (mk_robot s)) (await_reverse w n deadline found)
    (\<lambda>found s. kept s0 s \<and> turned n found (mk_robot s))"
proof (rule endsI)
  let ?Q = "\<lambda>found s. kept s0 s \<and> turned n found (mk_robot s)"
  fix s assume "?Q found s"
  then show "\<exists>s' r. await_reverse w n deadline found s = Some (s', r) \<and>
      (case r of Inl e \<Rightarrow> True | Inr x \<Rightarrow> ?Q x s')"
  proof (induction "readings_left (mw_clock w) deadline (mk_clocks s)" arbitrary: s found rule: less_induct)
    case less
    let ?s = "s\<lparr>mk_clocks := Suc (mk_clocks s)\<rparr>"
    let ?c = "Suc (mk_clocks s)"
    show ?case
    proof (cases "mw_clock w (mk_clocks s) < deadline \<and> \<not> fst found")
      case True
      have shrink: "readings_left (mw_clock w) deadline ?c < readings_left (mw_clock w) deadline (mk_clocks s)"
        using readings_less [of "mw_clock w" "mk_clocks s" deadline ?c] w True by (simp add: mock_world_ok_def)
      have rest: "ends (\<lambda>s. kept s0 s \<and> mk_clocks s = ?c \<and> turned n found (mk_robot s))
          (await_reverse w n deadline found) ?Q" for found
        using less.hyps shrink by (simp add: ends_def)
      have answered: "ends (\<lambda>s. kept s0 s \<and> mk_clocks s = ?c) (at_base (answer_client (mw_base w) 3 4 False))
          (\<lambda>_ s. kept s0 s \<and> mk_clocks s = ?c)"
        by (rule ends_weaken [OF at_base_ends [where ?s0.0 = s0 and c = "Suc (mk_clocks s)", OF answer_client_ends]]) (use w in \<open>simp_all add: mock_world_ok_def\<close>)
      have heard: "ends (\<lambda>s. kept s0 s \<and> mk_clocks s = ?c) (at_robot (hear_reverse (mw_robot w) n found))
          (\<lambda>found s. kept s0 s \<and> mk_clocks s = ?c \<and> turned n found (mk_robot s))"
        by (rule ends_weaken [OF at_robot_ends [where ?s0.0 = s0 and c = "Suc (mk_clocks s)", OF hear_reverse_ends]]) (use True in \<open>simp_all add: turned_def\<close>)
      have "ends (\<lambda>s. kept s0 s \<and> mk_clocks s = ?c)
          (\<lambda>s. thenO (at_base (answer_client (mw_base w) 3 4 False) s) (\<lambda>_ s.
               thenO (at_robot (hear_reverse (mw_robot w) n found) s)
                 (\<lambda>found. await_reverse w n deadline found))) ?Q"
        by (rule ends_then [OF answered ends_then [OF heard rest]])
      from endsD [OF this, of ?s] show ?thesis
        using less.prems True by (simp add: await_reverse.simps [of w n deadline found s] mock_clock_def)
    next
      case False
      then show ?thesis
        using less.prems by (auto simp: await_reverse.simps [of w n deadline found s] mock_clock_def)
    qed
  qed
qed

definition answer_of :: "mock_line \<Rightarrow> bool \<times> int" where
  "answer_of l =
     (case l of
        PingTimeout n _ \<Rightarrow> (False, n) | BadAck n _ _ \<Rightarrow> (False, n) | PingOk n _ _ _ _ _ \<Rightarrow> (False, n)
      | ReverseTimeout n \<Rightarrow> (True, n) | ReverseOk n _ _ _ \<Rightarrow> (True, n))"

fun passed :: "mock_line \<Rightarrow> bool" where
  "passed (PingOk n sqn data rtt rssi snr) = True"
| "passed (ReverseOk n rtt rssi snr) = True"
| "passed _ = False"

text \<open>A line that reports a success is backed by a frame that was received.\<close>

fun backed :: "mock_bench \<Rightarrow> mock_line \<Rightarrow> bool" where
  "backed s (PingOk n sqn data rtt rssi snr) \<longleftrightarrow>
     sqn = n \<and> data = ack (ping_text n) \<and> heard (mk_base s) 2 n (ack (ping_text n))"
| "backed s (ReverseOk n rtt rssi snr) \<longleftrightarrow> heard (mk_robot s) 4 n (ack (reverse_text n))"
| "backed s _ \<longleftrightarrow> True"

definition told :: "bool \<times> int \<Rightarrow> mock_bench \<Rightarrow> mock_bench \<Rightarrow> bool" where
  "told key s0 s \<longleftrightarrow>
     client_grows (mk_base s0) (mk_base s) \<and> client_grows (mk_robot s0) (mk_robot s) \<and> mk_n s = mk_n s0 \<and>
     (\<exists>l. mk_log s = mk_log s0 @ [l] \<and> answer_of l = key \<and> backed s l \<and>
        mk_failures s = mk_failures s0 + (if passed l then 0 else 1))"

lemma clock_ends: "ends (kept s0) (mock_clock w) (\<lambda>_. kept s0)"
  by (simp add: ends_def mock_clock_def)

lemma value_ends: "ends (kept s0) (\<lambda>s. Some (s, r)) (\<lambda>_. kept s0)"
  by (rule ends_some) (simp split: sum.splits)

lemma kept_at_base:
  assumes "ends (client_grows (mk_base s0)) f (\<lambda>_. client_grows (mk_base s0))"
  shows "ends (kept s0) (at_base f) (\<lambda>_. kept s0)"
proof (rule endsI)
  fix s assume "kept s0 s"
  then show "\<exists>s' r. at_base f s = Some (s', r) \<and> (case r of Inl e \<Rightarrow> True | Inr x \<Rightarrow> kept s0 s')"
    using endsD [OF at_base_ends [OF assms], of s "mk_clocks s"] by (fastforce split: sum.splits)
qed

lemma kept_at_robot:
  assumes "ends (client_grows (mk_robot s0)) f (\<lambda>_. client_grows (mk_robot s0))"
  shows "ends (kept s0) (at_robot f) (\<lambda>_. kept s0)"
proof (rule endsI)
  fix s assume "kept s0 s"
  then show "\<exists>s' r. at_robot f s = Some (s', r) \<and> (case r of Inl e \<Rightarrow> True | Inr x \<Rightarrow> kept s0 s')"
    using endsD [OF at_robot_ends [OF assms], of s "mk_clocks s"] by (fastforce split: sum.splits)
qed

lemma ping_verdict_ends:
  "ends (\<lambda>s. kept s0 s \<and> acknowledged received (mk_base s)) (ping_verdict w n tx started received)
     (\<lambda>_. told (False, n) s0)"
proof (cases received)
  case None
  then show ?thesis by (auto simp: ends_def ping_verdict_def failed_def told_def kept_def answer_of_def)
next
  case (Some r)
  obtain sqn data event where r: "r = (sqn, data, event)" by (cases r)
  show ?thesis
  proof (cases "parse_radio_rx (uf_payload event)")
    case (Inl e)
    then show ?thesis using Some r by (simp add: ends_def ping_verdict_def)
  next
    case (Inr rx)
    then show ?thesis
      using Some r
      by (auto simp: ends_def ping_verdict_def failed_def printed_def mock_clock_def told_def kept_def
          answer_of_def acknowledged_def)
  qed
qed

lemma ping_ends:
  assumes w: "mock_world_ok w"
  shows "ends (kept s0) (ping w n) (\<lambda>_. told (False, n) s0)"
proof -
  have sent: "ends (kept s0) (at_base (client_send (mw_base w) payload 3)) (\<lambda>_. kept s0)" for payload
    by (rule kept_at_base [OF send_ends(1)]) (use w in \<open>simp add: mock_world_ok_def\<close>)
  have rest: "ends (kept s0) (\<lambda>s. case x of (tx, _) \<Rightarrow> thenO (mock_clock w s) (\<lambda>now s.
      thenO (await_ack w (now + 3) s) (ping_verdict w n tx started))) (\<lambda>_. told (False, n) s0)" for started x
    by (cases x) (simp, rule ends_then [OF clock_ends ends_then [OF await_ack_ends [OF w] ping_verdict_ends]])
  show ?thesis
    unfolding ping_def case_prod_app
    by (rule ends_then [OF value_ends ends_then [OF clock_ends ends_then [OF sent rest [unfolded case_prod_app]]]])
qed

lemma reverse_verdict_ends:
  "ends (\<lambda>s. kept s0 s \<and> turned n found (mk_robot s)) (reverse_verdict w n started found) (\<lambda>_. told (True, n) s0)"
proof (cases "fst found")
  case False
  then show ?thesis by (auto simp: ends_def reverse_verdict_def failed_def told_def kept_def answer_of_def)
next
  case True
  show ?thesis
  proof (rule endsI)
    fix s assume s: "kept s0 s \<and> turned n found (mk_robot s)"
    then obtain rssi snr where "snd found = Some (rssi, snr)" "heard (mk_robot s) 4 n (ack (reverse_text n))"
      using True by (auto simp: turned_def)
    then show "\<exists>s' r. reverse_verdict w n started found s = Some (s', r) \<and>
        (case r of Inl e \<Rightarrow> True | Inr x \<Rightarrow> told (True, n) s0 s')"
      using s True by (auto simp: reverse_verdict_def printed_def mock_clock_def told_def kept_def answer_of_def)
  qed
qed

lemma reverse_ping_ends:
  assumes w: "mock_world_ok w"
  shows "ends (kept s0) (reverse_ping w n) (\<lambda>_. told (True, n) s0)"
proof -
  have sent: "ends (kept s0) (at_robot (client_send (mw_robot w) payload 3)) (\<lambda>_. kept s0)" for payload
    by (rule kept_at_robot [OF send_ends(1)]) (use w in \<open>simp add: mock_world_ok_def\<close>)
  have heard: "ends (kept s0) (await_reverse w n deadline (False, None))
      (\<lambda>found s. kept s0 s \<and> turned n found (mk_robot s))" for deadline
    by (rule ends_weaken [OF await_reverse_ends [OF w]]) (simp_all add: turned_def)
  show ?thesis
    unfolding reverse_ping_def
    by (rule ends_then [OF value_ends ends_then [OF clock_ends ends_then [OF sent
        ends_then [OF clock_ends ends_then [OF heard reverse_verdict_ends]]]]])
qed

subsection \<open>The run ends\<close>

definition both_ways :: "int \<Rightarrow> (bool \<times> int) list" where
  "both_ways n = [(False, n), (True, n)]"

definition mock_inv :: "mock_bench \<Rightarrow> bool" where
  "mock_inv s \<longleftrightarrow>
     client_inv (mk_base s) \<and> client_inv (mk_robot s) \<and> 0 \<le> mk_n s \<and>
     map answer_of (mk_log s) = concat (map both_ways [1..mk_n s]) \<and>
     mk_failures s = length (filter (\<lambda>l. \<not> passed l) (mk_log s)) \<and>
     (\<forall>l\<in>set (mk_log s). backed s l)"

lemma backed_grows:
  "backed s l \<Longrightarrow> client_grows (mk_base s) (mk_base s') \<Longrightarrow> client_grows (mk_robot s) (mk_robot s') \<Longrightarrow> backed s' l"
  by (cases l) (auto intro: client_grows_heard)

lemma kept_refl: "client_inv (mk_base s) \<Longrightarrow> client_inv (mk_robot s) \<Longrightarrow> kept s s"
  by (simp add: kept_def client_grows_def)

text \<open>A line for the ping and a line for the reverse direction make one more iteration.\<close>

lemma told_twice:
  assumes "mock_inv s0" and n: "n = mk_n s0 + 1"
    and s1: "told (False, n) (s0\<lparr>mk_n := n\<rparr>) s1" and s2: "told (True, n) s1 s2"
  shows "mock_inv s2 \<and> mk_n s2 = n"
proof -
  obtain l1 where l1: "mk_log s1 = mk_log s0 @ [l1]" "answer_of l1 = (False, n)" "backed s1 l1"
    "mk_failures s1 = mk_failures s0 + (if passed l1 then 0 else 1)"
    using s1 by (auto simp: told_def)
  obtain l2 where l2: "mk_log s2 = mk_log s1 @ [l2]" "answer_of l2 = (True, n)" "backed s2 l2"
    "mk_failures s2 = mk_failures s1 + (if passed l2 then 0 else 1)"
    using s2 by (auto simp: told_def)
  have g1: "client_grows (mk_base s0) (mk_base s1)" "client_grows (mk_robot s0) (mk_robot s1)" "mk_n s1 = n"
    using s1 by (simp_all add: told_def)
  have g2: "client_grows (mk_base s1) (mk_base s2)" "client_grows (mk_robot s1) (mk_robot s2)" "mk_n s2 = n"
    using s2 g1(3) by (simp_all add: told_def)
  have upto: "[1..n] = [1..mk_n s0] @ [n]"
    using upto_rec2 [of 1 n] assms(1) n by (simp add: mock_inv_def)
  have g: "client_grows (mk_base s0) (mk_base s2)" "client_grows (mk_robot s0) (mk_robot s2)"
    using g1 g2 client_grows_trans by blast+
  have "\<forall>l\<in>set (mk_log s0). backed s2 l"
    using assms(1) backed_grows [OF _ g] by (simp add: mock_inv_def)
  then have "\<forall>l\<in>set (mk_log s2). backed s2 l"
    using l1(1) l2(1,3) backed_grows [OF l1(3) g2(1,2)] by auto
  moreover have "client_inv (mk_base s2)" "client_inv (mk_robot s2)"
    using g2 by (simp_all add: client_grows_def)
  ultimately show ?thesis
    using assms(1) l1 l2 g2(3) n upto by (simp add: mock_inv_def both_ways_def)
qed

lemma mock_turn_ends:
  assumes "mock_world_ok w"
  shows "ends (\<lambda>s. mock_inv s \<and> mk_n s = k) (mock_turn w runs interval) (\<lambda>_ s. mock_inv s \<and> mk_n s = k + 1)"
proof (rule endsI)
  fix s assume s: "mock_inv s \<and> mk_n s = k"
  let ?s = "s\<lparr>mk_n := k + 1\<rparr>"
  have inv: "client_inv (mk_base s)" "client_inv (mk_robot s)"
    using s by (simp_all add: mock_inv_def)
  obtain s1 r1 where p: "ping w (k + 1) ?s = Some (s1, r1)"
    "case r1 of Inl e \<Rightarrow> True | Inr x \<Rightarrow> told (False, k + 1) ?s s1"
    using endsD [OF ping_ends [OF assms] kept_refl, of ?s "k + 1"] inv by auto
  show "\<exists>s' r. mock_turn w runs interval s = Some (s', r) \<and>
      (case r of Inl e \<Rightarrow> True | Inr x \<Rightarrow> mock_inv s' \<and> mk_n s' = k + 1)"
  proof (cases r1)
    case (Inl e)
    then show ?thesis using p s by (simp add: mock_turn_def Let_def)
  next
    case (Inr u)
    then have t1: "told (False, k + 1) ?s s1" using p(2) by simp
    then have inv1: "client_inv (mk_base s1)" "client_inv (mk_robot s1)"
      by (simp_all add: told_def client_grows_def)
    obtain s2 r2 where q: "reverse_ping w (k + 1) s1 = Some (s2, r2)"
      "case r2 of Inl e \<Rightarrow> True | Inr x \<Rightarrow> told (True, k + 1) s1 s2"
      using endsD [OF reverse_ping_ends [OF assms] kept_refl [OF inv1], of "k + 1"] by blast
    show ?thesis
    proof (cases r2)
      case (Inl e)
      then show ?thesis using p q s Inr by (simp add: mock_turn_def Let_def)
    next
      case (Inr v)
      then have "mock_inv s2 \<and> mk_n s2 = k + 1"
        using told_twice [of s "k + 1" s1 s2] t1 q(2) s by simp
      then show ?thesis
        using p q s \<open>r1 = Inr u\<close> Inr by (auto simp: mock_turn_def Let_def split: sum.splits)
    qed
  qed
qed

lemma mock_loop_ends:
  assumes w: "mock_world_ok w" and runs: "0 < runs"
  shows "ends (\<lambda>s. mock_inv s \<and> mk_n s \<le> runs) (mock_loop w runs interval) (\<lambda>_ s. mock_inv s \<and> mk_n s = runs)"
proof (rule endsI)
  let ?Q = "\<lambda>s. mock_inv s \<and> mk_n s = runs"
  fix s assume "mock_inv s \<and> mk_n s \<le> runs"
  then show "\<exists>s' r. mock_loop w runs interval s = Some (s', r) \<and> (case r of Inl e \<Rightarrow> True | Inr x \<Rightarrow> ?Q s')"
  proof (induction "nat (runs - mk_n s)" arbitrary: s rule: less_induct)
    case less
    show ?case
    proof (cases "mk_n s < runs")
      case True
      obtain s1 r where t: "mock_turn w runs interval s = Some (s1, r)"
        "case r of Inl e \<Rightarrow> True | Inr x \<Rightarrow> mock_inv s1 \<and> mk_n s1 = mk_n s + 1"
        using endsD [OF mock_turn_ends [OF w], of s "mk_n s"] less.prems by blast
      show ?thesis
      proof (cases r)
        case (Inl e)
        then show ?thesis using t True runs by (simp add: mock_loop.simps [of w runs interval s] go_on_def)
      next
        case (Inr u)
        then have s1: "mock_inv s1 \<and> mk_n s1 \<le> runs" "nat (runs - mk_n s1) < nat (runs - mk_n s)"
          using t(2) True by simp_all
        show ?thesis
          using less.hyps [OF s1(2,1)] t(1) Inr True runs
          by (simp add: mock_loop.simps [of w runs interval s] go_on_def)
      qed
    next
      case False
      then show ?thesis using less.prems runs by (simp add: mock_loop.simps [of w runs interval s])
    qed
  qed
qed

text \<open>The requests at the start and the end change the clients only.\<close>

lemma greeted: "client_hello w deadline = do_request w Hello deadline"
  "get_link_status w deadline = do_request w LinkStatus deadline"
  by (simp_all add: fun_eq_iff)

lemma mock_greet_ends:
  assumes "mock_world_ok w"
  shows "ends (kept s0) (mock_greet w) (\<lambda>_. kept s0)"
proof -
  have "ends (kept s0) (at_base (client_hello (mw_base w) 2)) (\<lambda>_. kept s0)"
    "ends (kept s0) (at_robot (client_hello (mw_robot w) 2)) (\<lambda>_. kept s0)"
    using assms unfolding greeted mock_world_ok_def
    by (intro kept_at_base kept_at_robot request_ends; simp)+
  from ends_then [OF this(1) ends_then [OF this(2) ends_then [OF value_ends ends_then [OF value_ends value_ends]]]]
  show ?thesis unfolding mock_greet_def .
qed

lemma mock_counters_ends:
  assumes "mock_world_ok w"
  shows "ends (kept s0) (mock_counters w) (\<lambda>_. kept s0)"
proof -
  have "ends (kept s0) (at_base (get_link_status (mw_base w) 2)) (\<lambda>_. kept s0)"
    "ends (kept s0) (at_robot (get_link_status (mw_robot w) 2)) (\<lambda>_. kept s0)"
    using assms unfolding greeted mock_world_ok_def
    by (intro kept_at_base kept_at_robot request_ends; simp)+
  from ends_then [OF this(1) ends_then [OF this(2) ends_then [OF value_ends ends_then [OF value_ends value_ends]]]]
  show ?thesis unfolding mock_counters_def .
qed

lemma mock_inv_kept: "mock_inv s \<Longrightarrow> kept s s' \<Longrightarrow> mock_inv s'"
proof -
  assume s: "mock_inv s" and k: "kept s s'"
  have g: "client_grows (mk_base s) (mk_base s')" "client_grows (mk_robot s) (mk_robot s')"
    using k by (simp_all add: kept_def)
  have "\<forall>l\<in>set (mk_log s'). backed s' l"
    using s k backed_grows [OF _ g] by (simp add: mock_inv_def kept_def)
  then show ?thesis
    using s k g by (simp add: mock_inv_def kept_def client_grows_def)
qed

lemma mock_run_ends:
  assumes w: "mock_world_ok w" and runs: "0 < runs"
  shows "ends (\<lambda>s. mock_inv s \<and> mk_n s = 0) (mock_run w runs interval)
    (\<lambda>code s. mock_inv s \<and> mk_n s = runs \<and> code = (if mk_failures s \<noteq> 0 then 2 else 0))"
proof -
  have greet: "ends (\<lambda>s. mock_inv s \<and> mk_n s = 0) (mock_greet w) (\<lambda>_ s. mock_inv s \<and> mk_n s \<le> runs)"
  proof (rule endsI)
    fix s assume s: "mock_inv s \<and> mk_n s = 0"
    then have "kept s s" by (simp add: kept_refl mock_inv_def)
    from endsD [OF mock_greet_ends [OF w] this] obtain s' r where "mock_greet w s = Some (s', r)"
      "case r of Inl e \<Rightarrow> True | Inr x \<Rightarrow> kept s s'" by blast
    then show "\<exists>s' r. mock_greet w s = Some (s', r) \<and>
        (case r of Inl e \<Rightarrow> True | Inr x \<Rightarrow> mock_inv s' \<and> mk_n s' \<le> runs)"
      using s runs mock_inv_kept [of s s'] by (cases r) (auto simp: kept_def)
  qed
  have counters: "ends (\<lambda>s. mock_inv s \<and> mk_n s = runs) (mock_counters w) (\<lambda>_ s. mock_inv s \<and> mk_n s = runs)"
  proof (rule endsI)
    fix s assume s: "mock_inv s \<and> mk_n s = runs"
    then have "kept s s" by (simp add: kept_refl mock_inv_def)
    from endsD [OF mock_counters_ends [OF w] this] obtain s' r where "mock_counters w s = Some (s', r)"
      "case r of Inl e \<Rightarrow> True | Inr x \<Rightarrow> kept s s'" by blast
    then show "\<exists>s' r. mock_counters w s = Some (s', r) \<and>
        (case r of Inl e \<Rightarrow> True | Inr x \<Rightarrow> mock_inv s' \<and> mk_n s' = runs)"
      using s mock_inv_kept [of s s'] by (cases r) (auto simp: kept_def)
  qed
  have "ends (\<lambda>s. mock_inv s \<and> mk_n s = runs) (\<lambda>s. Some (s, Inr (if mk_failures s \<noteq> 0 then 2 else 0)))
      (\<lambda>code s. mock_inv s \<and> mk_n s = runs \<and> code = (if mk_failures s \<noteq> 0 then 2 else 0 :: int))"
    by (rule ends_some) simp
  from ends_then [OF greet ends_then [OF mock_loop_ends [OF w runs] ends_then [OF counters this]]]
  show ?thesis unfolding mock_run_def .
qed

lemma all_passed:
  assumes "mock_inv s" and "mk_failures s = 0"
  shows "list_all passed (mk_log s)" and "map answer_of (mk_log s) = concat (map both_ways [1..mk_n s])"
    and "1 \<le> i \<Longrightarrow> i \<le> mk_n s \<Longrightarrow>
      heard (mk_base s) 2 i (ack (ping_text i)) \<and> heard (mk_robot s) 4 i (ack (reverse_text i))"
proof -
  show all: "list_all passed (mk_log s)"
    using assms by (auto simp: mock_inv_def list_all_iff filter_empty_conv)
  show keys: "map answer_of (mk_log s) = concat (map both_ways [1..mk_n s])"
    using assms(1) by (simp add: mock_inv_def)
  assume i: "1 \<le> i" "i \<le> mk_n s"
  have "backed s l \<and> passed l" if "l \<in> set (mk_log s)" for l
    using assms(1) all that by (simp add: mock_inv_def list_all_iff)
  moreover have "\<exists>l\<in>set (mk_log s). answer_of l = (b, i)" for b
  proof -
    have "(b, i) \<in> set (map answer_of (mk_log s))"
      unfolding keys using i by (cases b) (auto simp: both_ways_def intro!: bexI [of _ i])
    then show ?thesis by auto
  qed
  ultimately obtain l l' where "answer_of l = (False, i)" "backed s l" "passed l"
    "answer_of l' = (True, i)" "backed s l'" "passed l'" by meson
  then show "heard (mk_base s) 2 i (ack (ping_text i)) \<and> heard (mk_robot s) 4 i (ack (reverse_text i))"
    by (cases l; cases l') (simp_all add: answer_of_def)
qed

lemma stopped_code: "stopped e = Inr code \<Longrightarrow> code = 2"
  by (cases e) simp_all

text \<open>
  Property C24. A bounded run of the mock bench ends, whatever the modems do, when the clocks go on:
  with an exception that it does not handle or with an exit code, 0 or 2. The code is 0 only when every
  iteration printed a success in both directions, in order, and each is backed by radio frames that
  the two clients really received: the robot's acknowledgement of this ping of the base, and the
  base's acknowledgement of this ping of the robot.
\<close>

theorem mock_bench_verdict:
  assumes "ticking (mw_base w)" and "ticking (mw_robot w)" and "passes (mw_clock w)" and "0 < runs"
  shows "\<exists>s r. mock_main w runs interval base_session robot_session = Some (s, r) \<and>
    (case r of
       Inl e \<Rightarrow> stopped e = Inl e
     | Inr code \<Rightarrow> (code = 0 \<or> code = 2) \<and>
         (code = 0 \<longrightarrow> (\<exists>b. s = Some b \<and> list_all passed (mk_log b) \<and>
            map answer_of (mk_log b) = concat (map both_ways [1..runs]) \<and>
            (\<forall>i\<in>{1..runs}. heard (mk_base b) 2 i (ack (ping_text i)) \<and>
               heard (mk_robot b) 4 i (ack (reverse_text i))))))"
proof -
  have w: "mock_world_ok w" using assms(1-3) by (simp add: mock_world_ok_def)
  have stop: "case stopped e of Inl e \<Rightarrow> stopped e = Inl e | Inr code \<Rightarrow> code = 2" for e
    by (cases e) simp_all
  obtain b rb where b: "new_modem_client (mw_base w) base_session = (b, rb)" "client_inv b"
    using new_modem_client_inv [of "mw_base w" base_session] by (metis prod.collapse)
  obtain c rc where c: "new_modem_client (mw_robot w) robot_session = (c, rc)" "client_inv c"
    using new_modem_client_inv [of "mw_robot w" robot_session] by (metis prod.collapse)
  show ?thesis
  proof (cases "is_ok rb \<and> is_ok rc")
    case False
    then show ?thesis
      using b c stop by (fastforce simp: mock_main_def is_ok_def split: sum.splits)
  next
    case True
    have "mock_inv (new_mock_bench b c) \<and> mk_n (new_mock_bench b c) = 0"
      using b c by (simp add: mock_inv_def new_mock_bench_def)
    from endsD [OF mock_run_ends [OF w assms(4)] this] obtain s r where
      r: "mock_run w runs interval (new_mock_bench b c) = Some (s, r)"
      "case r of Inl e \<Rightarrow> True | Inr code \<Rightarrow> mock_inv s \<and> mk_n s = runs \<and>
         code = (if mk_failures s \<noteq> 0 then 2 else 0)" by blast
    have main: "mock_main w runs interval base_session robot_session =
        Some (Some s, case r of Inl e \<Rightarrow> stopped e | Inr code \<Rightarrow> Inr code)"
      using b(1) c(1) r(1) True by (auto simp: mock_main_def is_ok_def split: sum.splits)
    show ?thesis
    proof (cases r)
      case (Inl e)
      then show ?thesis using main stop [of e] by (auto split: sum.splits)
    next
      case (Inr code)
      then show ?thesis using main r(2) all_passed [of s] by auto
    qed
  qed
qed

definition sample_mock_world :: mock_world where
  "sample_mock_world =
     \<lparr>mw_base = sample_client_world, mw_robot = sample_client_world, mw_clock = (\<lambda>n. real n / 1000),
      mw_input = (\<lambda>_. Inr ''q'')\<rparr>"

lemma mock_bench_verdict_witness:
  "\<exists>s r. mock_main sample_mock_world 3 (Finite 2) 7 8 = Some (s, r) \<and> (\<forall>code. r = Inr code \<longrightarrow> code = 0 \<or> code = 2)"
proof -
  have "passes (mw_clock sample_mock_world)"
    by (rule ticks_pass) (simp add: sample_mock_world_def ticks_def field_simps)
  moreover have "ticking (mw_base sample_mock_world)" "ticking (mw_robot sample_mock_world)"
    using sample_client_ticking by (simp_all add: sample_mock_world_def)
  ultimately obtain s r where "mock_main sample_mock_world 3 (Finite 2) 7 8 = Some (s, r)"
    "case r of Inl e \<Rightarrow> True | Inr code \<Rightarrow> code = 0 \<or> code = 2"
    using mock_bench_verdict [of sample_mock_world 3 "Finite 2" 7 8] by (fastforce split: sum.splits)
  then show ?thesis by auto
qed

end
