(* ===== verification/Base_Loop.thy ===== *)
theory Base_Loop
  imports Input_Pump
begin

text \<open>
  \<open>_run_base\<close> of \<open>host/mowgli_lora/service.py\<close> from its first to its last statement. The two threads
  of \<open>Input_Pump\<close> run in time: a chunk is stamped with the clock when it is read and ingested with
  that stamp, although the service's steps in between have seen the clock further on. The theorems
  show that no step raises all the same, that the loop ends only for a reason, that a finite input has
  been used up when it ends by itself, and that it ends within three steps once it is told to stop.
\<close>

subsection \<open>Runs in time\<close>

text \<open>The stamp of the chunk that the reader holds.\<close>

fun arriving :: "reader_pc \<Rightarrow> time list" where
  "arriving (Putting raw t) = [t]"
| "arriving (Discarding n b (ToOverflow raw t g)) = [t]"
| "arriving (OverflowMarker raw t g) = [t]"
| "arriving (OverflowItem raw t g) = [t]"
| "arriving _ = []"

definition stamped :: "time \<Rightarrow> base_loop \<Rightarrow> base_loop \<Rightarrow> bool" where
  "stamped now s s' \<longleftrightarrow>
     (pu_pc (bl_pump s) = InRead \<longrightarrow> list_all (\<lambda>t. t = now) (arriving (pu_pc (bl_pump s'))))"

text \<open>
  \<open>timed_run w ty m now s\<close>: the loop over the modem \<open>m\<close> can be in the state \<open>s\<close> when the clock shows
  \<open>now\<close>. The reader stamps a chunk with the time, and a turn of the loop reads the same clock.
\<close>

inductive timed_run :: "env \<Rightarrow> input_type \<Rightarrow> modem \<Rightarrow> time \<Rightarrow> base_loop \<Rightarrow> bool" for w ty m where
  run_start: "timed_run w ty m now (new_base_loop m)"
| run_wait: "timed_run w ty m now s \<Longrightarrow> now \<le> now' \<Longrightarrow> timed_run w ty m now' s"
| run_reader: "timed_run w ty m now s \<Longrightarrow> reader ty s s' \<Longrightarrow> stamped now s s' \<Longrightarrow> timed_run w ty m now s'"
| run_taker: "timed_run w ty m now s \<Longrightarrow> bl_pc s \<in> {LoopStart, Taking, Getting} \<Longrightarrow> consumer w ty s s' \<Longrightarrow>
    timed_run w ty m now s'"
| run_turn: "timed_run w ty m now s \<Longrightarrow> bl_pc s = Handling x \<Longrightarrow> timed_run w ty m now (base_turn w ty x now s)"
| run_signal: "timed_run w ty m now s \<Longrightarrow> timed_run w ty m now (on_pump (\<lambda>p. p\<lparr>pu_stopped := True\<rparr>) s)"

subsection \<open>How the loop ends\<close>

text \<open>The loop's state at \<open>service.step()\<close>, when the turn has the item \<open>x\<close>.\<close>

definition before_step :: "queue_item option \<Rightarrow> base_loop \<Rightarrow> base_loop" where
  "before_step x s =
     take_item x (follow_generation (s\<lparr>bl_source_done := bl_source_done s \<or> x = Some InputDone\<rparr>))"

text \<open>What a turn raises: the exception in the queue, that of a bad source, or the step's.\<close>

definition turn_result :: "env \<Rightarrow> queue_item option \<Rightarrow> time \<Rightarrow> base_loop \<Rightarrow> unit result" where
  "turn_result w x now s =
     (if x = Some InputFailure then Inl (ValueExc ''rtcm.input'')
      else snd (base_step w now (bl_service (before_step x s))))"

text \<open>The \<open>finally\<close> clause: \<open>modem.close()\<close>.\<close>

definition base_finally :: "env \<Rightarrow> base_loop \<Rightarrow> base_loop" where
  "base_finally w s =
     s\<lparr>bl_service := (bl_service s)\<lparr>bs_modem := modem_close w (bs_modem (bl_service s))\<rparr>\<rparr>"

text \<open>\<open>_run_base\<close> returns or raises: the state it leaves behind and its result.\<close>

inductive base_exits :: "env \<Rightarrow> input_type \<Rightarrow> modem \<Rightarrow> base_loop \<Rightarrow> unit result \<Rightarrow> bool" for w ty m where
  exit_stopped: "timed_run w ty m now s \<Longrightarrow> bl_pc s = Taking \<Longrightarrow> pu_stopped (bl_pump s) \<Longrightarrow>
    base_exits w ty m (base_finally w (s\<lparr>bl_pc := LoopEnded\<rparr>)) (Inr ())"
| exit_turn: "timed_run w ty m now s \<Longrightarrow> bl_pc s = Handling x \<Longrightarrow>
    bl_pc (base_turn w ty x now s) = LoopEnded \<Longrightarrow>
    base_exits w ty m (base_finally w (base_turn w ty x now s)) (turn_result w x now s)"

subsection \<open>Timed runs are runs\<close>

lemma timed_run_reachable: "timed_run w ty m now s \<Longrightarrow> reachable w ty m s"
proof (induction rule: timed_run.induct)
  case (run_turn now s x)
  then show ?case by (blast intro: reachable.further base_system.consumes consumer.handle)
qed (blast intro: reachable.initial reachable.further base_system.intros)+

subsection \<open>Stamps\<close>

fun item_times :: "queue_item \<Rightarrow> time list" where
  "item_times (InputChunk raw t g) = [t]"
| "item_times _ = []"

definition times_of :: "queue_item list \<Rightarrow> time list" where
  "times_of xs = concat (map item_times xs)"

lemma times_of_simps [simp]:
  "times_of [] = []" "times_of (x # xs) = item_times x @ times_of xs" "times_of (xs @ ys) = times_of xs @ times_of ys"
  by (simp_all add: times_of_def)

text \<open>The stamps on their way from the reader to the service, the oldest first.\<close>

definition handoff_times :: "base_loop \<Rightarrow> time list" where
  "handoff_times s = times_of (in_hand s @ pu_queue (bl_pump s)) @ arriving (pu_pc (bl_pump s))"

text \<open>They are in order, after all that the service has been given and before now.\<close>

definition stamps_ok :: "time \<Rightarrow> base_loop \<Rightarrow> bool" where
  "stamps_ok now s \<longleftrightarrow>
     (\<exists>t0. base_inv t0 (bl_service s) \<and> sorted (t0 # handoff_times s @ [now]))"

lemma stamps_okI: "base_inv t0 (bl_service s) \<Longrightarrow> sorted (t0 # handoff_times s @ [now]) \<Longrightarrow> stamps_ok now s"
  unfolding stamps_ok_def by blast

lemma subseq_middle: "subseq (xs @ zs) (xs @ ys @ zs)"
  by (rule list_emb_append_mono [OF subseq_order.order_refl list_emb_append2 [OF subseq_order.order_refl]])

text \<open>The two counters of \<open>Discarding\<close> do not matter.\<close>

lemma arriving_discarding: "arriving (Discarding n b k) = arriving (Discarding 0 0 k)"
  by (cases k) simp_all

lemma sorted_subseq: "subseq xs ys \<Longrightarrow> sorted ys \<Longrightarrow> sorted (xs :: time list)"
proof (induction rule: list_emb.induct)
  case (list_emb_Cons2 x y xs ys)
  then show ?case using list_emb_set [of "(=)" xs ys] by force
qed simp_all

lemma reader_handoff:
  assumes "reader ty s s'" and "stamped now s s'" and "pump_ok (bl_pump s)"
  shows "bl_service s' = bl_service s \<and>
    (subseq (handoff_times s') (handoff_times s) \<or> handoff_times s' = handoff_times s @ [now])"
  using assms(1)
proof cases
  case (read_ok p raw t)
  then show ?thesis using assms(2) by (simp add: stamped_def handoff_times_def data_arrived_def)
next
  case (discard p n b k x q)
  have "handoff_times s' = times_of (in_hand s) @ times_of q @ arriving (Discarding 0 0 k)"
    using discard arriving_discarding [of "Suc n" _ k] arriving_discarding [of n b k]
    by (simp add: handoff_times_def discard_one_def split: option.split)
  moreover have "handoff_times s = times_of (in_hand s) @ item_times x @ times_of q @ arriving (Discarding 0 0 k)"
    using discard arriving_discarding [of n b k] by (simp add: handoff_times_def)
  ultimately show ?thesis using discard subseq_middle by simp
next
  case (discarded p n b k)
  then show ?thesis by (cases k) (simp_all add: handoff_times_def discard_done_def Let_def)
next
  case (last_put p x conn)
  then have "x = InputFailure \<or> x = InputDone" using assms(3) by (simp add: pump_ok_def)
  with last_put show ?thesis by (auto simp: handoff_times_def enqueue_item_def)
qed (auto simp: handoff_times_def pump_defs split: queue_item.splits)

lemma reader_stamps:
  assumes "reader ty s s'" and "stamped now s s'" and "pump_ok (bl_pump s)" and "stamps_ok now s"
  shows "stamps_ok now s'"
proof -
  obtain t0 where t0: "base_inv t0 (bl_service s)" "sorted (t0 # handoff_times s @ [now])"
    using assms(4) unfolding stamps_ok_def by blast
  note r = reader_handoff [OF assms(1-3)]
  then have "subseq (t0 # handoff_times s' @ [now]) (t0 # handoff_times s @ [now]) \<or>
      t0 # handoff_times s' @ [now] = (t0 # handoff_times s @ [now]) @ [now]"
    by (auto intro: list_emb_append_mono)
  then have "sorted (t0 # handoff_times s' @ [now])"
  proof
    assume "t0 # handoff_times s' @ [now] = (t0 # handoff_times s @ [now]) @ [now]"
    with t0(2) show ?thesis by (auto simp: sorted_append)
  qed (use t0(2) sorted_subseq in blast)
  with t0(1) r show ?thesis by (auto intro: stamps_okI)
qed

lemma taker_stamps:
  "consumer w ty s s' \<Longrightarrow> bl_pc s \<in> {LoopStart, Taking, Getting} \<Longrightarrow> stamps_ok now s \<Longrightarrow> stamps_ok now s'"
  by (erule consumer.cases) (auto simp: stamps_ok_def handoff_times_def in_hand_def)

subsection \<open>A turn\<close>

definition stamps_in :: "queue_item option \<Rightarrow> time list" where
  "stamps_in x = (case x of None \<Rightarrow> [] | Some i \<Rightarrow> item_times i)"

lemma before_step_inv:
  assumes "base_inv t0 (bl_service s)" and "list_all (\<lambda>t. t0 \<le> t) (stamps_in x)"
  obtains t1 where "base_inv t1 (bl_service (before_step x s))" and "t1 = t0 \<or> t1 \<in> set (stamps_in x)"
proof -
  obtain s1 where e: "before_step x s = take_item x s1" and f: "base_inv t0 (bl_service s1)"
    using assms(1) reset_source_inv by (simp add: before_step_def follow_generation_def)
  show ?thesis
  proof (cases "\<exists>raw t g. x = Some (InputChunk raw t g) \<and> g = pu_generation (bl_pump s1)")
    case True
    then obtain raw t where x: "x = Some (InputChunk raw t (pu_generation (bl_pump s1)))" by blast
    with assms(2) have "t0 \<le> t" by (simp add: stamps_in_def)
    then have "base_inv t (fst (ingest t raw (bl_service s1)))" by (intro ingest_inv base_inv_later [OF f])
    then have "base_inv t (bl_service (before_step x s))" unfolding e by (simp add: x take_item_def)
    moreover have "t \<in> set (stamps_in x)" using x by (simp add: stamps_in_def)
    ultimately show ?thesis using that by blast
  next
    case False
    then have "bl_service (before_step x s) = bl_service s1"
      by (auto simp: e take_item_def split: option.split queue_item.split)
    with f show ?thesis using that [of t0] by simp
  qed
qed

lemma base_turn_eq:
  assumes "x \<noteq> Some InputFailure" and "base_step w now (bl_service (before_step x s)) = (b, Inr ())"
  shows "bl_service (base_turn w ty x now s) = b \<and> turn_result w x now s = Inr () \<and>
    bl_source_done (base_turn w ty x now s) = (bl_source_done s \<or> x = Some InputDone) \<and>
    bl_pc (base_turn w ty x now s) =
      (if (bl_source_done s \<or> x = Some InputDone) \<and> ty = Stdin \<and> base_idle b then LoopEnded else Taking)"
proof -
  have "bl_source_done (before_step x s) = (bl_source_done s \<or> x = Some InputDone)"
    by (auto simp: before_step_def take_item_def follow_generation_def split: option.split queue_item.split)
  with assms show ?thesis
    by (simp add: base_turn_def turn_result_def Let_def before_step_def [symmetric])
qed

text \<open>The step does not raise although its clock is ahead of the chunk's stamp.\<close>

lemma turn_stamps:
  assumes w: "env_ok w" and s: "stamps_ok now s" "loop_inv s" and h: "bl_pc s = Handling x" and x: "x \<noteq> Some InputFailure"
  shows "stamps_ok now (base_turn w ty x now s) \<and>
    (\<exists>b. base_step w now (bl_service (before_step x s)) = (b, Inr ()))"
proof -
  let ?t = "base_turn w ty x now s"
  obtain t0 where t0: "base_inv t0 (bl_service s)" "sorted (t0 # handoff_times s @ [now])"
    using s(1) unfolding stamps_ok_def by blast
  have hand: "handoff_times s = stamps_in x @ times_of (pu_queue (bl_pump s)) @ arriving (pu_pc (bl_pump s))"
    using h by (simp add: handoff_times_def in_hand_def stamps_in_def split: option.split)
  then have "list_all (\<lambda>t. t0 \<le> t) (stamps_in x)" using t0(2) by (simp add: list_all_iff)
  from before_step_inv [OF t0(1) this] obtain t1 where
    t1: "base_inv t1 (bl_service (before_step x s))" "t1 = t0 \<or> t1 \<in> set (stamps_in x)" .
  have later: "\<forall>t\<in>set (times_of (pu_queue (bl_pump s)) @ arriving (pu_pc (bl_pump s)) @ [now]). t1 \<le> t"
    using t0(2) t1(2) unfolding hand by (auto simp: sorted_append)
  then have "t1 \<le> now" by simp
  from base_step_later [OF w t1(1) this] obtain b where
    b: "base_step w now (bl_service (before_step x s)) = (b, Inr ())" "base_inv t1 b" by blast
  have "rp_buffer (bs_parser (bl_service s)) = snd (scan (concat (bl_ingested s)))"
    using s(2) by (simp add: loop_inv_def ingested_ok_def)
  note turn = base_turn_effect [OF x this, of w ty now]
  then have "in_hand ?t = []" by (auto simp: in_hand_def)
  then have "handoff_times ?t = times_of (pu_queue (bl_pump s)) @ arriving (pu_pc (bl_pump s))"
    using turn by (simp add: handoff_times_def same_pump_def)
  then have "sorted (t1 # handoff_times ?t @ [now])"
    using t0(2) later unfolding hand by (auto simp: sorted_append)
  moreover have "bl_service ?t = b" using base_turn_eq [OF x b(1)] by blast
  ultimately show ?thesis using b stamps_okI by metis
qed

lemma timed_run_inv:
  assumes "timed_run w ty m now s" and "env_ok w" and "m = new_modem w rs"
  shows "loop_inv s \<and> stamps_ok now s"
  using assms
proof (induction rule: timed_run.induct)
  case (run_start now)
  have "base_inv now (bl_service (new_base_loop m))"
    using new_base_service_inv [OF run_start(1)] run_start(2) by (simp add: new_base_loop_def)
  moreover have "handoff_times (new_base_loop m) = []"
    by (simp add: handoff_times_def new_base_loop_def new_pump_def in_hand_def)
  ultimately show ?case by (auto simp: new_base_loop_inv intro: stamps_okI)
next
  case (run_wait now s now')
  then show ?case by (auto simp: stamps_ok_def sorted_append intro: order_trans)
next
  case (run_reader now s s')
  then show ?case using reader_inv reader_stamps by (auto simp: loop_inv_def)
next
  case (run_taker now s s')
  then show ?case using consumer_inv taker_stamps by metis
next
  case (run_turn now s x)
  show ?case
  proof (cases "x = Some InputFailure")
    case True
    then have "bl_service (base_turn w ty x now s) = bl_service s"
      "handoff_times (base_turn w ty x now s) = handoff_times s"
      using run_turn(2) by (simp_all add: base_turn_def handoff_times_def in_hand_def)
    then show ?thesis using run_turn base_turn_inv unfolding stamps_ok_def by metis
  next
    case False
    then show ?thesis using run_turn turn_stamps base_turn_inv by metis
  qed
next
  case (run_signal now s)
  have "loop_inv (on_pump (\<lambda>p. p\<lparr>pu_stopped := True\<rparr>) s)"
    using run_signal base_system_inv [OF base_system.signal] by blast
  moreover have "stamps_ok now (on_pump (\<lambda>p. p\<lparr>pu_stopped := True\<rparr>) s)"
    using run_signal by (simp add: stamps_ok_def handoff_times_def on_pump_def)
  ultimately show ?case by blast
qed

subsection \<open>The end of the input\<close>

definition handoff :: "base_loop \<Rightarrow> queue_item list" where
  "handoff s = in_hand s @ pu_queue (bl_pump s)"

text \<open>The \<open>None\<close> of a finished reader is the last thing it hands over.\<close>

definition drain_ok :: "base_loop \<Rightarrow> bool" where
  "drain_ok s \<longleftrightarrow>
     (pu_pc (bl_pump s) \<noteq> ReaderEnded \<longrightarrow> InputDone \<notin> set (handoff s) \<and> \<not> bl_source_done s) \<and>
     InputDone \<notin> set (butlast (handoff s)) \<and> (bl_source_done s \<longrightarrow> handoff s = [])"

lemma drain_ok_reading:
  "InputDone \<notin> set (handoff s) \<Longrightarrow> \<not> bl_source_done s \<Longrightarrow> drain_ok s"
  by (auto simp: drain_ok_def dest: in_set_butlastD)

lemma reader_drain:
  assumes "reader ty s s'" and "drain_ok s"
  shows "drain_ok s'"
proof -
  have s: "InputDone \<notin> set (handoff s) \<and> \<not> bl_source_done s"
    using assms by cases (auto simp: drain_ok_def)
  show ?thesis using assms(1)
  proof cases
    case (last_put p x conn)
    then show ?thesis using s by (auto simp: drain_ok_def handoff_def enqueue_item_def butlast_append dest: in_set_butlastD)
  qed (use s in \<open>auto intro!: drain_ok_reading simp: handoff_def pump_defs discard_one_def dest: list.set_sel(2)
      split: after_discard.splits option.splits if_splits\<close>)
qed

lemma taker_drain:
  "consumer w ty s s' \<Longrightarrow> bl_pc s \<in> {LoopStart, Taking, Getting} \<Longrightarrow> drain_ok s \<Longrightarrow> drain_ok s'"
  by (erule consumer.cases) (auto simp: drain_ok_def handoff_def in_hand_def)

lemma turn_drain:
  assumes h: "bl_pc s = Handling x" and s: "drain_ok s" "loop_inv s" and x: "x \<noteq> Some InputFailure"
    and b: "base_step w now (bl_service (before_step x s)) = (b, Inr ())"
  shows "drain_ok (base_turn w ty x now s)"
proof -
  have "rp_buffer (bs_parser (bl_service s)) = snd (scan (concat (bl_ingested s)))"
    using s(2) by (simp add: loop_inv_def ingested_ok_def)
  note turn = base_turn_effect [OF x this, of w ty now]
  then have t: "handoff (base_turn w ty x now s) = pu_queue (bl_pump s)"
      "pu_pc (bl_pump (base_turn w ty x now s)) = pu_pc (bl_pump s)"
    by (auto simp: handoff_def in_hand_def same_pump_def)
  have "handoff s = (case x of None \<Rightarrow> [] | Some i \<Rightarrow> [i]) @ pu_queue (bl_pump s)"
    using h by (simp add: handoff_def in_hand_def split: option.split)
  then show ?thesis
    using s(1) t base_turn_eq [OF x b, of ty] by (cases x) (auto simp: drain_ok_def split: if_splits dest: in_set_butlastD)
qed

lemma timed_run_drain:
  assumes "timed_run w ty m now s" and "env_ok w" and "m = new_modem w rs"
  shows "bl_pc s \<noteq> LoopEnded \<Longrightarrow> drain_ok s"
  using assms
proof (induction rule: timed_run.induct)
  case (run_start now)
  then show ?case by (auto intro!: drain_ok_reading simp: handoff_def new_base_loop_def new_pump_def in_hand_def)
next
  case (run_reader now s s')
  have "bl_pc s' = bl_pc s" using run_reader.hyps(2) by cases auto
  with run_reader reader_drain show ?case by auto
next
  case (run_taker now s s')
  then show ?case using taker_drain by auto
next
  case (run_turn now s x)
  have s: "loop_inv s" "stamps_ok now s" "drain_ok s"
    using timed_run_inv [OF run_turn(1)] run_turn by auto
  have x: "x \<noteq> Some InputFailure" using run_turn.prems by (auto simp: base_turn_def)
  from turn_stamps [OF \<open>env_ok w\<close> s(2,1) run_turn(2) x] obtain b where
    "base_step w now (bl_service (before_step x s)) = (b, Inr ())" by blast
  from turn_drain [OF run_turn(2) s(3,1) x this] show ?case .
next
  case (run_signal now s)
  then show ?case by (auto simp: drain_ok_def handoff_def in_hand_def on_pump_def)
qed simp_all

subsection \<open>Stopping\<close>

text \<open>
  The two threads by themselves: \<open>threads_run w ty i j s s'\<close> when \<open>i\<close> steps of the reader and \<open>j\<close> of the
  loop, in any order, lead from \<open>s\<close> to \<open>s'\<close>.
\<close>

inductive threads_run :: "env \<Rightarrow> input_type \<Rightarrow> nat \<Rightarrow> nat \<Rightarrow> base_loop \<Rightarrow> base_loop \<Rightarrow> bool" for w ty where
  threads_none: "threads_run w ty 0 0 s s"
| threads_reader: "threads_run w ty i j s t \<Longrightarrow> reader ty t u \<Longrightarrow> threads_run w ty (Suc i) j s u"
| threads_loop: "threads_run w ty i j s t \<Longrightarrow> consumer w ty t u \<Longrightarrow> threads_run w ty i (Suc j) s u"

text \<open>How many steps each thread can still take once the stop flag is set.\<close>

fun reader_rank :: "reader_pc \<Rightarrow> nat \<Rightarrow> nat" where
  "reader_rank InOpen n = 10 + n"
| "reader_rank (Putting raw t) n = 9 + n"
| "reader_rank Starting n = 9 + n"
| "reader_rank (Discarding a b k) n = 8 + n"
| "reader_rank (OverflowMarker raw t g) n = 7"
| "reader_rank (InMarker g) n = 7"
| "reader_rank (OverflowItem raw t g) n = 6"
| "reader_rank (PuttingMarker g) n = 6"
| "reader_rank InRead n = 6"
| "reader_rank Sleeping n = 6"
| "reader_rank Opening n = 5"
| "reader_rank Reading n = 5"
| "reader_rank (Leaving conn again) n = (if again then 4 else 1)"
| "reader_rank (InLast x conn) n = 4"
| "reader_rank (PuttingLast x conn) n = 3"
| "reader_rank ReaderEnded n = 0"
| "reader_rank FullEscaped n = 0"

fun loop_rank :: "loop_pc \<Rightarrow> nat" where
  "loop_rank Getting = 3"
| "loop_rank (Handling x) = 2"
| "loop_rank LoopStart = 2"
| "loop_rank Taking = 1"
| "loop_rank LoopEnded = 0"

definition pump_rank :: "pump \<Rightarrow> nat" where
  "pump_rank p = reader_rank (pu_pc p) (length (pu_queue p))"

lemma reader_rank_step:
  assumes "reader ty s s'" and "pu_stopped (bl_pump s)"
  shows "pump_rank (bl_pump s') < pump_rank (bl_pump s) \<and> pu_stopped (bl_pump s') \<and> bl_pc s' = bl_pc s"
  using assms
  by cases (auto simp: pump_rank_def pump_defs discard_one_def
      split: after_discard.splits option.splits if_splits queue_item.splits)

lemma pump_rank_shorter: "pump_rank (p\<lparr>pu_queue := q\<rparr>) \<le> pump_rank p" if "length q \<le> length (pu_queue p)"
  using that unfolding pump_rank_def by (cases "pu_pc p") auto

lemma turn_same_pump:
  "same_pump (bl_pump s) (bl_pump (base_turn w ty x now s)) \<and>
   pu_stopped (bl_pump (base_turn w ty x now s)) = pu_stopped (bl_pump s) \<and>
   bl_pc (base_turn w ty x now s) \<in> {Taking, LoopEnded}"
proof -
  have "same_pump (bl_pump t) (bl_pump (take_item x (follow_generation t))) \<and>
      pu_stopped (bl_pump (take_item x (follow_generation t))) = pu_stopped (bl_pump t)" for t
    by (simp add: take_item_def follow_generation_def same_pump_def split: option.split queue_item.split)
  from this [of "s\<lparr>bl_source_done := bl_source_done s \<or> x = Some InputDone\<rparr>"] show ?thesis
    by (auto simp: base_turn_def Let_def case_prod_unfold same_pump_def pump_tick_metrics_def)
qed

lemma consumer_rank_step:
  assumes "consumer w ty s s'" and "pu_stopped (bl_pump s)"
  shows "pump_rank (bl_pump s') \<le> pump_rank (bl_pump s) \<and> loop_rank (bl_pc s') < loop_rank (bl_pc s) \<and>
    pu_stopped (bl_pump s')"
  using assms
proof cases
  case (take_some x q)
  then show ?thesis using assms(2) pump_rank_shorter [of q "bl_pump s"] by simp
next
  case (handle x now)
  with turn_same_pump [of s w ty x now] assms(2) show ?thesis by (auto simp: pump_rank_def same_pump_def)
qed (use assms(2) in auto)

text \<open>The step that each place of the reader and of the loop has, when the flag is set.\<close>

lemmas reader_can = reader.loop_stopped [OF _ _ refl] reader.start [OF _ refl] reader.marker_stopped [OF _ _ refl]
  reader.read_stopped [OF _ _ refl] reader.overflow_marker [OF _ refl] reader.slept [OF _ refl]
  reader.last_stopped [OF _ _ refl] reader.discard [OF _ _ refl] reader.discarded [OF _ _ refl]
  reader.put_fresh [OF _ _ refl] reader.overflow [OF _ _ refl] reader.overflow_item [OF _ _ refl]
  reader.overflow_full [OF _ _ refl] reader.leave [OF _ refl] reader.leave_return [OF _ refl]
  reader.marker_put [OF _ _ refl] reader.marker_full [OF _ _ refl] reader.last_put [OF _ _ refl]
  reader.last_full [OF _ _ refl]

lemma reader_moves:
  assumes "pu_pc (bl_pump s) \<notin> {ReaderEnded, FullEscaped, InOpen, InRead}" and "pu_stopped (bl_pump s)"
  shows "\<exists>s'. reader ty s s'"
proof (cases "pu_pc (bl_pump s)")
  case (Discarding n b k)
  then show ?thesis by (cases "pu_queue (bl_pump s)") (auto dest: reader_can(8,9) intro: exI)
next
  case (Putting raw t)
  then show ?thesis
    using reader_can(10,11) [of s] by (cases "length (pu_queue (bl_pump s)) < QUEUE_SIZE") (auto intro: exI)
next
  case (OverflowItem raw t g)
  then show ?thesis
    using reader_can(12,13) [of s] by (cases "length (pu_queue (bl_pump s)) < QUEUE_SIZE") (auto intro: exI)
next
  case (Leaving conn again)
  then show ?thesis using reader_can(14,15) [of s] by (cases again) (auto intro: exI)
next
  case (InMarker g)
  then show ?thesis
    using reader_can(16,17) [of s] by (cases "length (pu_queue (bl_pump s)) < QUEUE_SIZE") (auto intro: exI)
next
  case (InLast x conn)
  then show ?thesis
    using reader_can(18,19) [of s] by (cases "length (pu_queue (bl_pump s)) < QUEUE_SIZE") (auto intro: exI)
qed (use assms reader_can(1-7) [of s] in \<open>auto intro: exI\<close>)

lemma consumer_moves: "bl_pc s \<noteq> LoopEnded \<Longrightarrow> \<exists>s'. consumer w ty s s'"
proof (cases "bl_pc s")
  case Taking
  then show ?thesis
    using consumer.take_stopped [of s] consumer.take_begin [of s] by (cases "pu_stopped (bl_pump s)") blast+
next
  case Getting
  then show ?thesis using consumer.take_none [of s] consumer.take_some [of s]
    by (cases "pu_queue (bl_pump s)") (auto intro: exI)
qed (auto intro: consumer.begin_loop consumer.handle exI)

lemma threads_run_ranks:
  assumes "threads_run w ty i j s s'" and "reachable w ty m s" and "pu_stopped (bl_pump s)"
  shows "reachable w ty m s' \<and> pu_stopped (bl_pump s') \<and> pump_rank (bl_pump s') + i \<le> pump_rank (bl_pump s) \<and>
    loop_rank (bl_pc s') + j \<le> loop_rank (bl_pc s)"
  using assms
proof (induction rule: threads_run.induct)
  case (threads_reader i j s t u)
  then show ?case
    using reader_rank_step [OF threads_reader.hyps(2)] reachable.further [OF _ base_system.reads [OF threads_reader.hyps(2)]]
    by fastforce
next
  case (threads_loop i j s t u)
  then show ?case
    using consumer_rank_step [OF threads_loop.hyps(2)] reachable.further [OF _ base_system.consumes [OF threads_loop.hyps(2)]]
    by fastforce
qed simp

lemma rank_bounds: "length (pu_queue p) \<le> QUEUE_SIZE \<Longrightarrow> pump_rank p \<le> 74" "loop_rank c \<le> 3"
  unfolding pump_rank_def by (cases "pu_pc p"; simp) (cases c; simp)

text \<open>
  The loop by itself, while the clock shows \<open>now\<close>: \<open>loop_steps w ty now n s s'\<close> when \<open>n\<close> of its steps lead
  from \<open>s\<close> to \<open>s'\<close>.
\<close>

inductive loop_steps :: "env \<Rightarrow> input_type \<Rightarrow> time \<Rightarrow> nat \<Rightarrow> base_loop \<Rightarrow> base_loop \<Rightarrow> bool" for w ty now where
  loop_none: "loop_steps w ty now 0 s s"
| loop_taker: "bl_pc s \<in> {LoopStart, Taking, Getting} \<Longrightarrow> consumer w ty s t \<Longrightarrow> loop_steps w ty now n t u \<Longrightarrow>
    loop_steps w ty now (Suc n) s u"
| loop_turn: "bl_pc s = Handling x \<Longrightarrow> loop_steps w ty now n (base_turn w ty x now s) u \<Longrightarrow>
    loop_steps w ty now (Suc n) s u"

text \<open>Told to stop, the loop returns or raises within its next three steps.\<close>

lemma loop_exits:
  assumes "timed_run w ty m now s" and "pu_stopped (bl_pump s)" and "bl_pc s \<noteq> LoopEnded"
  shows "\<exists>n t res. n \<le> loop_rank (bl_pc s) \<and> loop_steps w ty now n s t \<and> bl_pc t = LoopEnded \<and>
    base_exits w ty m (base_finally w t) res"
  using assms
proof (induction "loop_rank (bl_pc s)" arbitrary: s rule: less_induct)
  case less
  show ?case
  proof (cases "bl_pc s = Taking")
    case True
    then have "consumer w ty s (s\<lparr>bl_pc := LoopEnded\<rparr>)" using less.prems by (intro consumer.take_stopped)
    then have "loop_steps w ty now 1 s (s\<lparr>bl_pc := LoopEnded\<rparr>)"
      using True loop_taker [OF _ _ loop_none] by simp
    moreover have "base_exits w ty m (base_finally w (s\<lparr>bl_pc := LoopEnded\<rparr>)) (Inr ())"
      using less.prems True by (intro exit_stopped)
    ultimately show ?thesis using True by (intro exI [of _ 1]) auto
  next
    case False
    have go: ?thesis if t: "loop_rank (bl_pc t) < loop_rank (bl_pc s)" "timed_run w ty m now t" "pu_stopped (bl_pump t)"
      "bl_pc t \<noteq> LoopEnded" "\<And>n u. loop_steps w ty now n t u \<Longrightarrow> loop_steps w ty now (Suc n) s u" for t
    proof -
      obtain n u res where "n \<le> loop_rank (bl_pc t)" "loop_steps w ty now n t u" "bl_pc u = LoopEnded"
        "base_exits w ty m (base_finally w u) res"
        using less.hyps [OF t(1-4)] by blast
      with t(1,5) show ?thesis by (intro exI [of _ "Suc n"]) fastforce
    qed
    show ?thesis
    proof (cases "\<exists>x. bl_pc s = Handling x")
      case True
      then obtain x where x: "bl_pc s = Handling x" by blast
      let ?t = "base_turn w ty x now s"
      note p = turn_same_pump [of s w ty x now]
      show ?thesis
      proof (cases "bl_pc ?t = LoopEnded")
        case True
        then show ?thesis
          using exit_turn [OF less.prems(1) x True] loop_turn [OF x loop_none] x by (intro exI [of _ 1]) auto
      next
        case False
        then show ?thesis using p x less.prems run_turn [OF less.prems(1) x] loop_turn [OF x] by (intro go [of ?t]) auto
      qed
    next
      case no_item: False
      obtain t where t: "consumer w ty s t" using consumer_moves less.prems(3) by blast
      have pcs: "bl_pc s \<in> {LoopStart, Taking, Getting}"
        using no_item less.prems(3) by (cases "bl_pc s") auto
      from t False have "bl_pc t \<noteq> LoopEnded" using no_item by cases auto
      then show ?thesis
        using consumer_rank_step [OF t less.prems(2)] run_taker [OF less.prems(1) pcs t] loop_taker [OF pcs t]
        by (intro go [of t]) auto
    qed
  qed
qed

subsection \<open>Properties\<close>

lemma modem_closed:
  "\<not> md_serial (modem_close w m) \<and> md_pending (modem_close w m) = [] \<and>
   metric_get ''modem_connected'' (md_metrics (modem_close w m)) = 0"
  by (simp add: modem_close_def disconnect_def Let_def gauge_def called_def)

lemma base_finally_simps [simp]:
  "bl_pump (base_finally w s) = bl_pump s" "bl_ingested (base_finally w s) = bl_ingested s"
  "bl_log (base_finally w s) = bl_log s" "base_idle (bl_service (base_finally w s)) = base_idle (bl_service s)"
  "bs_modem (bl_service (base_finally w s)) = modem_close w (bs_modem (bl_service s))"
  "log_of g (base_finally w s) = log_of g s"
  by (simp_all add: base_finally_def base_idle_def log_of_def)

text \<open>A turn that ends the loop without an exception has used up a finite input.\<close>

lemma finished_turn:
  assumes "env_ok w" and run: "timed_run w ty (new_modem w rs) now s" "bl_pc s = Handling x"
    and x: "x \<noteq> Some InputFailure" and t: "t = base_turn w ty x now s" "bl_pc t = LoopEnded"
  shows "turn_result w x now s = Inr () \<and> ty = Stdin \<and> base_idle (bl_service t) \<and>
    pu_queue (bl_pump t) = [] \<and> pu_pc (bl_pump t) = ReaderEnded \<and>
    bl_ingested t = log_of (pu_generation (bl_pump t)) t"
proof -
  have s: "loop_inv s" "stamps_ok now s" "drain_ok s"
    using timed_run_inv [OF run(1) assms(1)] timed_run_drain [OF run(1) assms(1)] run(2) by auto
  from turn_stamps [OF assms(1) s(2,1) run(2) x] obtain b where
    b: "base_step w now (bl_service (before_step x s)) = (b, Inr ())" by blast
  note eq = base_turn_eq [OF x b, of ty, folded t(1)]
  have "rp_buffer (bs_parser (bl_service s)) = snd (scan (concat (bl_ingested s)))"
    using s(1) by (simp add: loop_inv_def ingested_ok_def)
  note turn = base_turn_effect [OF x this, of w ty now, folded t(1)]
  have fin: "bl_source_done t" "ty = Stdin" "base_idle b"
    using eq t(2) by (auto split: if_splits)
  have "drain_ok t" unfolding t(1) by (rule turn_drain [OF run(2) s(3,1) x b])
  with fin have q: "handoff t = []" "pu_pc (bl_pump t) = ReaderEnded" by (auto simp: drain_ok_def)
  have "loop_inv t" unfolding t(1) using s(1) run(2) by (rule base_turn_inv)
  then have "bl_ingested t = log_of (pu_generation (bl_pump t)) t"
    using turn q by (simp add: loop_inv_def nothing_lost_def handoff_def Let_def same_pump_def)
  then show ?thesis using eq fin q by (simp add: handoff_def)
qed

lemma exits_cleanly:
  assumes "env_ok w" and "base_exits w ty (new_modem w rs) s res"
  shows "res \<in> {Inr (), Inl (ValueExc ''rtcm.input'')} \<and>
    \<not> md_serial (bs_modem (bl_service s)) \<and> md_pending (bs_modem (bl_service s)) = [] \<and>
    metric_get ''modem_connected'' (md_metrics (bs_modem (bl_service s))) = 0"
  using assms(2)
proof cases
  case (exit_turn now s1 x)
  then have "turn_result w x now s1 \<in> {Inr (), Inl (ValueExc ''rtcm.input'')}"
    using finished_turn [OF assms(1) exit_turn(3,4) _ refl exit_turn(5)]
    by (cases "x = Some InputFailure") (auto simp: turn_result_def)
  with exit_turn show ?thesis by (simp add: modem_closed)
qed (simp add: modem_closed)

text \<open>
  Property C13. The base ends only for a reason. However the source, the modem and the threads behave,
  and although chunks are ingested with stamps older than the clock of the steps before, \<open>_run_base\<close>
  ends with no exception but that of a source with a bad configuration. It returns only when it was
  told to stop, or when its input was standard input, all of it is used up (every chunk read since the
  hand-off queue last overran is ingested, none waits, the reader has ended) and nothing is left to
  send. Either way the modem is disconnected, and its health says so.
\<close>

theorem base_ends_properly:
  assumes "env_ok w" and "base_exits w ty (new_modem w rs) s res"
  shows "(res = Inr () \<and>
       (pu_stopped (bl_pump s) \<or>
        ty = Stdin \<and> bl_ingested s = log_of (pu_generation (bl_pump s)) s \<and> pu_queue (bl_pump s) = [] \<and>
          pu_pc (bl_pump s) = ReaderEnded \<and> base_idle (bl_service s)) \<or>
     res = Inl (ValueExc ''rtcm.input'')) \<and>
    \<not> md_serial (bs_modem (bl_service s)) \<and> md_pending (bs_modem (bl_service s)) = [] \<and>
    metric_get ''modem_connected'' (md_metrics (bs_modem (bl_service s))) = 0"
  using assms(2)
proof cases
  case (exit_stopped now s1)
  then show ?thesis using exits_cleanly [OF assms] by simp
next
  case (exit_turn now s1 x)
  show ?thesis
  proof (cases "x = Some InputFailure")
    case True
    with exit_turn show ?thesis using exits_cleanly [OF assms] by (simp add: turn_result_def)
  next
    case False
    from finished_turn [OF assms(1) exit_turn(3,4) False refl exit_turn(5)] exit_turn(1,2)
    show ?thesis using exits_cleanly [OF assms] by auto
  qed
qed

text \<open>
  Property C15. The base stops promptly: from the moment the stop flag is set, whatever the threads were
  doing and however they interleave, the loop takes at most 3 more steps and the reader at most 74, wherever
  each of them is. Until it has ended the loop can always go on, whatever the reader does; and so can the
  reader, but while it waits for its source to open or to be read, which is for the source to end. Neither a
  full hand-off queue nor an empty one, nor a source that never returns, blocks the loop's shutdown.
\<close>

theorem base_stops_promptly:
  assumes "reachable w ty m s" and "pu_stopped (bl_pump s)" and "threads_run w ty i j s s'"
  shows "j \<le> 3 \<and> i \<le> 74 \<and>
    (bl_pc s' = LoopEnded \<or> (\<exists>s''. consumer w ty s' s'')) \<and>
    (pu_pc (bl_pump s') \<in> {ReaderEnded, InOpen, InRead} \<or> (\<exists>s''. reader ty s' s''))"
proof -
  note r = threads_run_ranks [OF assms(3,1,2)]
  have "pump_ok (bl_pump s)" "pump_ok (bl_pump s')"
    using reachable_inv [OF assms(1)] r reachable_inv [of w ty m s'] by (auto simp: loop_inv_def)
  then have "pump_rank (bl_pump s) \<le> 74" "pu_pc (bl_pump s') \<noteq> FullEscaped"
    using rank_bounds(1) by (auto simp: pump_ok_def)
  then show ?thesis using r rank_bounds(2) [of "bl_pc s"] reader_moves [of s' ty] consumer_moves [of s' w ty] by auto
qed

subsection \<open>Witnesses\<close>

text \<open>A service with nothing to send has nothing to send after a step.\<close>

lemma note_outcomes_idle: "base_idle b \<Longrightarrow> base_idle (note_outcomes os b)"
  by (induction os b rule: note_outcomes.induct) (auto simp: base_idle_def)

lemma step_stays_idle:
  assumes "base_idle b"
  shows "base_idle (fst (base_step w now b))"
proof -
  have "base_idle (drop_stale now (note_session (note_outcomes os b')))" if "base_idle b'" for os b'
    using note_outcomes_idle [OF that, of os]
    by (auto simp: note_session_def base_idle_def drop_stale.simps)
  moreover have "load_next b' = (b', Inr ()) \<and> send_next w now b' = (b', Inr ())" if "base_idle b'" for b'
    using that by (simp add: base_idle_def load_next_def send_next_def)
  moreover have "base_idle (update_queue_metrics now b') = base_idle b'"
    "base_idle (update_rates now b') = base_idle b'" "base_idle (b'\<lparr>bs_modem := m\<rparr>) = base_idle b'" for b' m
    by (simp_all add: base_idle_def update_queue_metrics_def update_rates_def Let_def)
  ultimately have "base_idle (fst (step_work w now b'))" if "base_idle b'" for b'
    using that by (simp add: step_work_def case_prod_unfold Let_def)
  with assms show ?thesis
    by (simp add: base_step_def case_prod_unfold base_idle_def split: sum.split)
qed

text \<open>The source cannot be opened: the reader gives up at once, and the loop ends by itself.\<close>

lemma base_ends_properly_witness:
  "\<exists>s. base_exits sample_env Stdin (new_modem sample_env 1) s (Inr ()) \<and> \<not> pu_stopped (bl_pump s) \<and>
     base_idle (bl_service s) \<and> \<not> md_serial (bs_modem (bl_service s))"
proof -
  let ?m = "new_modem sample_env 1"
  let ?run = "timed_run sample_env Stdin ?m 0"
  define s0 where "s0 = new_base_loop ?m"
  have s0: "?run s0" unfolding s0_def by (rule run_start)
  define s0' where "s0' = s0\<lparr>bl_pump := (bl_pump s0)\<lparr>pu_pc := InOpen\<rparr>\<rparr>"
  have s0': "?run s0'" unfolding s0'_def
    by (rule run_reader [OF s0 reader.open_begin [OF _ _ refl]])
      (simp_all add: s0_def new_base_loop_def new_pump_def pu_set_def stamped_def)
  define s1 where "s1 = s0'\<lparr>bl_pump := (pu_add ''rtcm_source_connect_failures'' 1 (bl_pump s0'))\<lparr>pu_pc := Leaving False True\<rparr>\<rparr>"
  have s1: "?run s1" unfolding s1_def
    by (rule run_reader [OF s0' reader.open_fails [OF _ refl]]) (simp_all add: s0'_def stamped_def)
  define s2 where "s2 = s1\<lparr>bl_pump := (leave_source False (bl_pump s1))\<lparr>pu_pc := PuttingLast InputDone False\<rparr>\<rparr>"
  have "reader Stdin s1 s2"
    using reader.leave [OF _ refl, of s1 False Stdin] by (simp add: s2_def s1_def)
  then have s2: "?run s2" by (rule run_reader [OF s1]) (simp add: stamped_def s1_def)
  define s2' where "s2' = s2\<lparr>bl_pump := (bl_pump s2)\<lparr>pu_pc := InLast InputDone False\<rparr>\<rparr>"
  define s3 where "s3 = s2'\<lparr>bl_pump := (enqueue_item InputDone (bl_pump s2'))\<lparr>pu_pc := ReaderEnded\<rparr>\<rparr>"
  note defs = s3_def s2'_def s2_def s1_def s0'_def s0_def new_base_loop_def new_pump_def pump_defs pu_set_def pu_add_def
  have "reader Stdin s2 s2'"
    using reader.put_last [OF _ _ refl, of s2 InputDone False Stdin] by (simp add: defs)
  then have s2': "?run s2'" by (rule run_reader [OF s2]) (simp add: stamped_def defs)
  have "reader Stdin s2' s3"
    using reader.last_put [OF _ _ refl, of s2' InputDone False Stdin] by (simp add: defs)
  then have s3: "?run s3" by (rule run_reader [OF s2']) (simp add: stamped_def defs)
  define s4 where "s4 = s3\<lparr>bl_active_generation := pu_generation (bl_pump s3), bl_pc := Taking\<rparr>"
  have s4: "?run s4" unfolding s4_def
    by (rule run_taker [OF s3 _ consumer.begin_loop]) (simp_all add: defs)
  define s5 where "s5 = s4\<lparr>bl_pump := (bl_pump s4)\<lparr>pu_queue := []\<rparr>, bl_pc := Handling (Some InputDone)\<rparr>"
  have get: "?run (s4\<lparr>bl_pc := Getting\<rparr>)"
    by (rule run_taker [OF s4 _ consumer.take_begin]) (simp_all add: s4_def defs)
  have "consumer sample_env Stdin (s4\<lparr>bl_pc := Getting\<rparr>) s5"
    using consumer.take_some [of "s4\<lparr>bl_pc := Getting\<rparr>" InputDone "[]"] by (simp add: s5_def s4_def defs)
  from run_taker [OF get _ this] have s5: "?run s5" by simp
  have h: "bl_pc s5 = Handling (Some InputDone)" "\<not> pu_stopped (bl_pump s5)" "bl_service s5 = new_base_service ?m"
    "pu_generation (bl_pump s5) = bl_active_generation s5"
    by (simp_all add: s5_def s4_def defs)
  have inv: "loop_inv s5" "stamps_ok 0 s5" using timed_run_inv [OF s5 sample_env_ok refl] by simp_all
  have x: "Some InputDone \<noteq> Some InputFailure" by simp
  from turn_stamps [OF sample_env_ok inv(2,1) h(1) x] obtain b where
    b: "base_step sample_env 0 (bl_service (before_step (Some InputDone) s5)) = (b, Inr ())" by blast
  have "bl_service (before_step (Some InputDone) s5) = new_base_service ?m"
    using h by (simp add: before_step_def follow_generation_def take_item_def)
  then have "base_idle b"
    using step_stays_idle [of "new_base_service ?m" sample_env 0] b by (simp add: base_idle_def new_base_service_def)
  let ?t = "base_turn sample_env Stdin (Some InputDone) 0 s5"
  have e: "bl_pc ?t = LoopEnded" "turn_result sample_env (Some InputDone) 0 s5 = Inr ()"
    using base_turn_eq [OF x b, of Stdin] \<open>base_idle b\<close> by simp_all
  from exit_turn [OF s5 h(1) e(1)] e(2) have
    "base_exits sample_env Stdin ?m (base_finally sample_env ?t) (Inr ())" by simp
  moreover have "\<not> pu_stopped (bl_pump (base_finally sample_env ?t))" using h(2) turn_same_pump [of s5] by simp
  ultimately show ?thesis using base_ends_properly [OF sample_env_ok, of Stdin 1] by blast
qed

lemma base_stops_promptly_witness:
  "\<exists>s s'. pu_stopped (bl_pump s) \<and> pu_pc (bl_pump s) = InOpen \<and> threads_run sample_env Tcp 0 2 s s' \<and>
     bl_pc s' = LoopEnded \<and> pu_pc (bl_pump s') = InOpen"
proof -
  let ?m = "new_modem sample_env 1"
  define s0 where "s0 = (new_base_loop ?m)\<lparr>bl_pump := new_pump\<lparr>pu_pc := InOpen\<rparr>\<rparr>"
  have "reader Tcp (new_base_loop ?m) s0"
    using reader.open_begin [of new_pump "new_base_loop ?m" Tcp] by (simp add: s0_def new_base_loop_def new_pump_def)
  then have r0: "reachable sample_env Tcp ?m s0" by (blast intro: reachable.initial reads_further)
  define s where "s = on_pump (\<lambda>p. p\<lparr>pu_stopped := True\<rparr>) s0"
  have r: "reachable sample_env Tcp ?m s" unfolding s_def
    by (blast intro: r0 reachable.further base_system.signal)
  have s: "pu_stopped (bl_pump s)" "pu_pc (bl_pump s) = InOpen" "bl_pc s = LoopStart"
    by (simp_all add: s_def s0_def new_base_loop_def)
  define s1 where "s1 = s\<lparr>bl_active_generation := pu_generation (bl_pump s), bl_pc := Taking\<rparr>"
  have "consumer sample_env Tcp s s1" unfolding s1_def using s(3) by (rule consumer.begin_loop)
  moreover have "consumer sample_env Tcp s1 (s1\<lparr>bl_pc := LoopEnded\<rparr>)"
    by (rule consumer.take_stopped) (simp_all add: s1_def s)
  ultimately have t: "threads_run sample_env Tcp 0 (Suc (Suc 0)) s (s1\<lparr>bl_pc := LoopEnded\<rparr>)"
    by (intro threads_loop [OF threads_loop [OF threads_none]])
  from base_stops_promptly [OF r s(1) t] show ?thesis
    using t s by (intro exI [of _ s] exI [of _ "s1\<lparr>bl_pc := LoopEnded\<rparr>"]) (simp add: s1_def numeral_2_eq_2)
qed

end
