(* ===== verification/Service_Main.thy ===== *)
theory Service_Main
  imports Base_Loop Robot_Service Service_Config Statements
begin

text \<open>
  The two programs of \<open>host/mowgli_lora/service.py\<close>: opening the RTCM source, \<open>_run_robot\<close> and
  \<open>_run_base\<close> with their \<open>finally\<close> clauses, and \<open>_main\<close>. What the operating system grants (an address
  to listen on, a socket that closes, the stop signal) is an argument. Parsing the command line and
  setting up the log are left out; the handlers of the signals only set the stop flag.
\<close>

subsection \<open>Opening the source\<close>

text \<open>
  \<open>_open_input_source\<close>: \<open>connect\<close> is \<open>socket.create_connection\<close> and \<open>serial.Serial\<close>. There is no
  source to close for standard input.
\<close>

definition open_input_source ::
  "text_conversions \<Rightarrow> (input_endpoint \<Rightarrow> 'c result) \<Rightarrow> mapping_value \<Rightarrow> 'c option result" where
  "open_input_source tc connect config =
     bindR (input_endpoint_of tc config) (\<lambda>e.
       if e = Service_Config.Stdin then Inr None else bindR (connect e) (\<lambda>source. Inr (Some source)))"

text \<open>\<open>typ\<close> in \<open>_read\<close> and in \<open>_run_base\<close>, which tell standard input and the serial port apart.\<close>

definition input_type_of :: "mapping_value \<Rightarrow> input_type" where
  "input_type_of config =
     (if get_or ''type'' (YStr ''stdin'') config = YStr ''stdin'' then Input_Pump.Stdin
      else if get_or ''type'' (YStr ''stdin'') config = YStr ''serial'' then Serial else Tcp)"

text \<open>
  The generator \<open>_input_chunks\<close>, which \<open>_InputPump\<close> has replaced. A turn of its loops is what the stop
  flag shows and what the read then gives; it yields chunks until it ends or the turns are over.
\<close>

datatype read_result = Got bytes | TimedOut | ReadRaises py_exc

type_synonym read_turn = "bool \<times> read_result"

datatype chunks_end = StillReading | EndOfStream | Raised py_exc

definition yield_chunk :: "bytes \<Rightarrow> bytes list \<times> chunks_end \<Rightarrow> bytes list \<times> chunks_end" where
  "yield_chunk chunk r = (chunk # fst r, snd r)"

abbreviation (input) bad_input_type :: py_exc where
  "bad_input_type \<equiv> ValueExc ''rtcm.input.type must be stdin, tcp, or serial''"

text \<open>After its loop the branch of standard input runs on, past the other types, to the final \<open>raise\<close>.\<close>

fun stdin_chunks :: "read_turn list \<Rightarrow> bytes list \<times> chunks_end" where
  "stdin_chunks [] = ([], StillReading)"
| "stdin_chunks ((stopped, r) # ts) =
     (if stopped then ([], Raised bad_input_type)
      else case r of
        ReadRaises e \<Rightarrow> ([], Raised e)
      | TimedOut \<Rightarrow> ([], Raised TimeoutExc)
      | Got chunk \<Rightarrow> (if chunk = [] then ([], EndOfStream) else yield_chunk chunk (stdin_chunks ts)))"

fun tcp_chunks :: "read_turn list \<Rightarrow> bytes list \<times> chunks_end" where
  "tcp_chunks [] = ([], StillReading)"
| "tcp_chunks ((stopped, r) # ts) =
     (if stopped then ([], EndOfStream)
      else case r of
        ReadRaises e \<Rightarrow> ([], Raised e)
      | TimedOut \<Rightarrow> tcp_chunks ts
      | Got chunk \<Rightarrow> (if chunk = [] then ([], EndOfStream) else yield_chunk chunk (tcp_chunks ts)))"

fun serial_chunks :: "read_turn list \<Rightarrow> bytes list \<times> chunks_end" where
  "serial_chunks [] = ([], StillReading)"
| "serial_chunks ((stopped, r) # ts) =
     (if stopped then ([], EndOfStream)
      else case r of
        ReadRaises e \<Rightarrow> ([], Raised e)
      | TimedOut \<Rightarrow> ([], Raised TimeoutExc)
      | Got chunk \<Rightarrow> (if chunk = [] then serial_chunks ts else yield_chunk chunk (serial_chunks ts)))"

definition input_chunks ::
  "text_conversions \<Rightarrow> (input_endpoint \<Rightarrow> 'c result) \<Rightarrow> mapping_value \<Rightarrow> read_turn list \<Rightarrow>
     bytes list \<times> chunks_end" where
  "input_chunks tc connect config turns =
     (case input_endpoint_of tc config of
        Inl e \<Rightarrow> ([], Raised e)
      | Inr Service_Config.Stdin \<Rightarrow> stdin_chunks turns
      | Inr (TcpInput host port) \<Rightarrow>
          (case connect (TcpInput host port) of Inl e \<Rightarrow> ([], Raised e) | Inr _ \<Rightarrow> tcp_chunks turns)
      | Inr (SerialInput device baudrate) \<Rightarrow>
          (case connect (SerialInput device baudrate) of
             Inl e \<Rightarrow> ([], Raised e) | Inr _ \<Rightarrow> serial_chunks turns))"

subsection \<open>What the operating system grants\<close>



subsection \<open>\<open>_run_robot\<close>\<close>











subsection \<open>\<open>_run_base\<close> and \<open>_main\<close>\<close>









subsection \<open>The chunks of a session\<close>

text \<open>The generator yields what was read, in order, none of it empty and nothing after the stop.\<close>

fun reads_of :: "read_turn list \<Rightarrow> bytes list" where
  "reads_of [] = []"
| "reads_of ((stopped, r) # ts) =
     (if stopped then [] else (case r of Got chunk \<Rightarrow> if chunk = [] then [] else [chunk] | _ \<Rightarrow> []) @ reads_of ts)"

lemma session_chunks:
  "prefix (fst (tcp_chunks ts)) (reads_of ts)" "prefix (fst (serial_chunks ts)) (reads_of ts)"
  "prefix (fst (stdin_chunks ts)) (reads_of ts)"
proof -
  show "prefix (fst (tcp_chunks ts)) (reads_of ts)"
    by (induction ts rule: tcp_chunks.induct) (simp_all add: yield_chunk_def split: read_result.split)
  show "prefix (fst (serial_chunks ts)) (reads_of ts)"
    by (induction ts rule: serial_chunks.induct) (simp_all add: yield_chunk_def split: read_result.split)
  show "prefix (fst (stdin_chunks ts)) (reads_of ts)"
    by (induction ts rule: stdin_chunks.induct) (simp_all add: yield_chunk_def split: read_result.split)
qed

text \<open>Stopping ends a TCP or serial session quietly, one of standard input with an error.\<close>

lemma session_stopped:
  "tcp_chunks ((True, r) # ts) = ([], EndOfStream)" "serial_chunks ((True, r) # ts) = ([], EndOfStream)"
  "stdin_chunks ((True, r) # ts) = ([], Raised bad_input_type)"
  by simp_all

lemma open_input_source_ok:
  assumes "valid_source config"
  shows "\<exists>e. endpoint_ok e \<and> open_input_source tc connect config =
    (if e = Service_Config.Stdin then Inr None else bindR (connect e) (\<lambda>source. Inr (Some source)))"
proof -
  obtain e where "input_endpoint_of tc config = Inr e" "endpoint_ok e" using source_endpoint [OF assms] by blast
  then show ?thesis by (intro exI [of _ e]) (simp add: open_input_source_def)
qed

text \<open>What the loops take the source for is what is opened.\<close>

lemma input_type_endpoint:
  "input_endpoint_of tc config = Inr e \<Longrightarrow> input_type_of config =
     (case e of Service_Config.Stdin \<Rightarrow> Input_Pump.Stdin | TcpInput host port \<Rightarrow> Tcp | SerialInput device baudrate \<Rightarrow> Serial)"
  by (auto simp: input_endpoint_of_def input_type_of_def Let_def bindR_Inr_iff split: if_splits)

subsection \<open>The robot's process\<close>















subsection \<open>Properties\<close>













subsection \<open>Witnesses\<close>







end
