(* ===== verification/Spec2Isabelle.thy ===== *)
theory Spec2Isabelle
  imports Prelude Checksum Cobs Usb_Frame Stream_Decoder App_Frame Rtcm_Frame Reassembler
    Stop_Cache Rtcm_Parser Metrics Modem Base_Service Tcp_Output Robot_Service Input_Pump
    Scheduler Mixed_Runner Mixed_Proofs Mixed_Faults Rtcm_Tool Ros_Reader
    Statements Service_Config Modem_Client Physical_Transport End_To_End
    Service_Bench Physical_Run Mixed_Main Mock_Bench Base_Loop Service_Main
begin

text \<open>
  The LoRa link of the Mowgli robot: RTCM corrections from a base station travel over two LoRa modems,
  each on a USB serial port, to a robot, which offers them to its receivers over TCP. This development
  models the Python sources under \<open>src/host/mowgli_lora\<close> and \<open>src/tools/lora_usb\<close>.

  The path of a correction. A serial or TCP source is read by \<open>_InputPump\<close> (\<open>Input_Pump\<close>); its bytes
  are parsed into RTCM3 frames (\<open>Rtcm_Parser\<close>); \<open>BaseService\<close> queues, fragments, ages and sends them
  (\<open>Base_Service\<close>) through \<open>ModemTransport\<close> (\<open>Modem\<close>), which wraps an application frame
  (\<open>App_Frame\<close>) in a radio packet and a USB frame (\<open>Usb_Frame\<close>, \<open>Checksum\<close>, \<open>Cobs\<close>). On the
  robot a modem's bytes are cut into frames (\<open>Stream_Decoder\<close>), the fragments put together
  (\<open>Reassembler\<close>) and published to the TCP clients (\<open>Robot_Service\<close>, \<open>Tcp_Output\<close>), one of which
  is the ROS 2 reader (\<open>Ros_Reader\<close>). \<open>End_To_End\<close> composes sender and receiver.
\<close>

text \<open>
  Theories and sources.

  \<^item> \<open>Prelude\<close>: the exceptions of the code as a datatype, results as sums, \<open>struct\<close>, bytes, the
    ordered dictionaries, and the locales \<open>machine\<close> and \<open>monotone_machine\<close> for an invariant or a
    relation that every operation keeps, interpreted by the components.
  \<^item> \<open>Statements\<close>: statements that change a state and may raise, loops that need not end
    (\<open>whileA\<close>, \<open>partial_function (option)\<close>), triples for them, and deadlines over a clock.
  \<^item> \<open>Checksum\<close>, \<open>Cobs\<close>, \<open>Usb_Frame\<close>, \<open>Stream_Decoder\<close>: \<open>protocol.py\<close>.
  \<^item> \<open>App_Frame\<close>, \<open>Rtcm_Frame\<close>, \<open>Reassembler\<close>, \<open>Stop_Cache\<close>: \<open>application.py\<close>.
  \<^item> \<open>Rtcm_Parser\<close>: \<open>rtcm.py\<close>. \<open>Metrics\<close>: \<open>metrics.py\<close>. \<open>Modem\<close>: \<open>modem.py\<close>.
  \<^item> \<open>Base_Service\<close>, \<open>Tcp_Output\<close>, \<open>Robot_Service\<close>, \<open>Input_Pump\<close>: \<open>service.py\<close>.
  \<^item> \<open>Base_Loop\<close>: \<open>_run_base\<close> of \<open>service.py\<close> over the clock, from its start to its \<open>finally\<close> clause.
  \<^item> \<open>Service_Config\<close>: \<open>config.py\<close>, and what the entry points of \<open>service.py\<close> look up in it.
  \<^item> \<open>Service_Main\<close>: the rest of \<open>service.py\<close>: opening and closing, \<open>_run_robot\<close> and \<open>_main\<close>.
  \<^item> \<open>Service_Bench\<close>: \<open>service_bench.py\<close>, over the two services.
  \<^item> \<open>Rtcm_Tool\<close>: \<open>rtcm_tool.py\<close>. \<open>Ros_Reader\<close>: the reader of \<open>mowgli_ros.py\<close>.
  \<^item> \<open>Modem_Client\<close>: \<open>client.py\<close>. \<open>Mock_Bench\<close>: \<open>bench.py\<close>, over two clients.
  \<^item> \<open>Scheduler\<close>, \<open>Mixed_Runner\<close>, \<open>Mixed_Proofs\<close>, \<open>Mixed_Faults\<close>, \<open>Physical_Transport\<close>,
    \<open>Physical_Run\<close>, \<open>Mixed_Main\<close>: \<open>mixed_bench.py\<close>; the runner's handlers are in \<open>Mixed_Runner\<close>, its loop
    over the simulated transport too, its loop over the physical one in \<open>Physical_Run\<close>.

  A class is a record, a method a function that returns the changed record, with the exception or the
  value where it can raise. Machine integers that the code packs are bytes (\<open>8 word\<close>), checked when
  packed as \<open>struct\<close> does; Python's own integers are \<open>int\<close>. A dictionary whose order matters is an
  association list.
\<close>

text \<open>
  What the lemmas show.

  \<^item> Codecs: decoding is the inverse of encoding and accepts nothing else (USB frames, radio packets,
    application frames and bodies, recordings, the configuration).
  \<^item> Streams: however a stream is cut, the decoder decodes each segment between delimiters by itself,
    or refuses it for its length, and the parser accounts for each byte; both find the frames again after
    garbage.
  \<^item> Reassembly refines an abstract map of sets of fragments; it delivers only what was sent, within
    the deadline, in bounded memory. A STOP is applied once.
  \<^item> The modem transport never reports an outcome twice or loses one, whatever the port and the clock
    do; its state stays in its bounds, its gauges and the health page tell the truth, and every request
    is given up after its time-out.
  \<^item> The base writes no fragment to the modem older than the time to live and keeps its queues bounded; no frame
    mixes bytes of two connections; every TCP client receives whole frames, in order, that the robot
    published; and the corrections that the base hears reach those clients unchanged.
  \<^item> The programs: a configuration is accepted within its bounds or nothing is started; the base raises
    nothing over any interleaving of its threads, ends only for a reason and stops within three
    steps of its loop when told to; the programs close what they opened.
  \<^item> The benches: the scheduler serves and gives up by urgency; every bounded run ends, and a run that
    reports success did what the success claims.
\<close>

text \<open>
  Environments, time and bounds. What a port, a socket or the clock shows is a function of the number
  of the interaction, an argument of the definitions; theorems hold for every such function, but for
  hypotheses that name what is relied on. \<open>env_ok\<close> says that the ports raise what their
  library documents. Time is an exact real number. The loops of the benches and of the clients are
  shown to end when the clock \<open>passes\<close>: it never goes back and passes every time at last.
  Loops that could run for ever are \<open>partial_function (option)\<close>, without fuel, and
  theorems show that they end in these environments; the measure is the number of clock readings that
  are left. Fragment counts, queue lengths and caches are bounded by the constants of the code. Told to
  stop, the base's loop takes at most 3 more steps (it takes an item, handles it, and tests the flag),
  its reader at most 74: the 64 items of a full hand-off queue and the places that it still passes.

  Threads (\<open>Input_Pump\<close>, \<open>Base_Loop\<close>, \<open>Ros_Reader\<close>) are step relations that interleave at every shared
  access: every operation on a queue, every test of a stop flag, every update of a counter that both
  sides write, and every call that waits (for a source, for room, for an item) is a place of its own.
  Ghost fields (named so) record what was read, written, published or handed out; no code reads them.
\<close>

text \<open>
  Not modelled. Argument parsing, logging, printing and writing of reports; what opening a port, a file
  or a socket does in the operating system (whether it succeeds is an argument, the signals are a flag
  that is set at any time), and closing them where nothing follows; the HTTP server around the
  handler of \<open>metrics.py\<close>; the calls of the ROS node around the reader; a run of the
  mixed bench whose duration is \<open>nan\<close> or infinite, which its command line lets start. \<open>yaml.safe_load\<close>,
  \<open>json\<close> and \<open>rclpy\<close> are not in the repository: their results are arguments.
  The modem firmware is C++ and is present only as the environment of the ports. Tests, documents and
  service units hold no code of the program.
\<close>

end
